(* ===== verification/Prelude.thy ===== *)
theory Prelude
  imports Main "HOL-Library.Word" "HOL-Library.Monad_Syntax"
begin

text \<open>
  Shared ground of the development: the machine integers of the C code as words of their
  width, checked reads and writes of byte buffers (a read or write outside the buffer, which
  is undefined behaviour in C, is \<open>None\<close>), the bit-level reasoning principles the
  codecs use, and the interface that every self-delimiting binary encoding of the library
  satisfies (locale \<open>byte_codec\<close>) with what follows from it for sequences of values.
\<close>

unbundle bit_operations_syntax

type_synonym u8 = "8 word"
type_synonym u16 = "16 word"
type_synonym u32 = "32 word"
type_synonym u64 = "64 word"

named_theorems mem "reading and writing buffers"

subsection \<open>Buffers\<close>

definition rd :: "'a list \<Rightarrow> nat \<Rightarrow> 'a option" where
  "rd p i = (if i < length p then Some (p ! i) else None)"

definition wr :: "'a list \<Rightarrow> nat \<Rightarrow> 'a \<Rightarrow> 'a list option" where
  "wr p i x = (if i < length p then Some (p[i := x]) else None)"

text \<open>Consecutive stores \<open>p[i] = x0; p[i+1] = x1; \<dots>\<close>, as \<open>memcpy\<close> does them.\<close>

fun wrs :: "'a list \<Rightarrow> nat \<Rightarrow> 'a list \<Rightarrow> 'a list option" where
  "wrs p i [] = Some p"
| "wrs p i (x # xs) = do { p' \<leftarrow> wr p i x; wrs p' (Suc i) xs }"

lemma rd_0 [mem, simp]: "rd (x # xs) 0 = Some x"
  by (simp add: rd_def)

lemma rd_Suc [mem, simp]: "rd (x # xs) (Suc i) = rd xs i"
  by (simp add: rd_def)

lemma rd_numeral [mem, simp]: "rd (x # xs) (numeral k) = rd xs (pred_numeral k)"
  by (simp add: numeral_eq_Suc)

lemma rd_Nil [mem, simp]: "rd [] i = None"
  by (simp add: rd_def)

lemma rd_Some_iff [mem]: "rd p i = Some x \<longleftrightarrow> i < length p \<and> p ! i = x"
  by (auto simp: rd_def)

lemma rd_append [mem]: "i < length p \<Longrightarrow> rd (p @ q) i = rd p i"
  by (simp add: rd_def nth_append)

lemma wrs_length: "wrs p i xs = Some q \<Longrightarrow> length q = length p"
  by (induction xs arbitrary: p i) (auto simp: wr_def split: if_splits)

lemma wrs_eq [mem]:
  "i + length xs \<le> length p \<Longrightarrow>
   wrs p i xs = Some (take i p @ xs @ drop (i + length xs) p)"
proof (induction xs arbitrary: p i)
  case Nil
  then show ?case by simp
next
  case (Cons x xs)
  then have "wrs (p[i := x]) (Suc i) xs
      = Some (take (Suc i) (p[i := x]) @ xs @ drop (Suc i + length xs) (p[i := x]))"
    by simp
  with Cons.prems show ?case
    by (simp add: wr_def take_Suc_conv_app_nth)
qed

lemma wrs_fits: "wrs p i xs = Some q \<Longrightarrow> xs \<noteq> [] \<Longrightarrow> i + length xs \<le> length p"
proof (induction xs arbitrary: p i q)
  case Nil
  then show ?case by simp
next
  case (Cons x xs)
  from Cons.prems have i: "i < length p" and q: "wrs (p[i := x]) (Suc i) xs = Some q"
    by (auto simp: wr_def split: if_splits)
  show ?case
  proof (cases "xs = []")
    case True
    with i show ?thesis by simp
  next
    case False
    from Cons.IH [OF q False] show ?thesis by simp
  qed
qed

subsection \<open>Result codes\<close>

definition SQLITE_OK :: nat where "SQLITE_OK = 0"
definition SQLITE_BUSY :: nat where "SQLITE_BUSY = 5"
definition SQLITE_NOMEM :: nat where "SQLITE_NOMEM = 7"
definition SQLITE_READONLY :: nat where "SQLITE_READONLY = 8"
definition SQLITE_IOERR :: nat where "SQLITE_IOERR = 10"
definition SQLITE_CORRUPT :: nat where "SQLITE_CORRUPT = 11"
definition SQLITE_NOTFOUND :: nat where "SQLITE_NOTFOUND = 12"
definition SQLITE_FULL :: nat where "SQLITE_FULL = 13"
definition SQLITE_IOERR_SHORT_READ :: nat where "SQLITE_IOERR_SHORT_READ = or SQLITE_IOERR (push_bit 8 2)"
definition SQLITE_IOERR_WRITE :: nat where "SQLITE_IOERR_WRITE = or SQLITE_IOERR (push_bit 8 3)"
definition SQLITE_IOERR_NOMEM :: nat where "SQLITE_IOERR_NOMEM = or SQLITE_IOERR (push_bit 8 12)"

lemmas result_codes = SQLITE_OK_def SQLITE_BUSY_def SQLITE_NOMEM_def SQLITE_READONLY_def SQLITE_IOERR_def
  SQLITE_CORRUPT_def SQLITE_NOTFOUND_def SQLITE_FULL_def SQLITE_IOERR_SHORT_READ_def SQLITE_IOERR_WRITE_def
  SQLITE_IOERR_NOMEM_def

subsection \<open>Quotients of naturals\<close>

lemma nat_div_eq_iff: "0 < d \<Longrightarrow> n div d = q \<longleftrightarrow> d * q \<le> n \<and> n < d * Suc q" for n d q :: nat
  by (metis div_nat_eqI dividend_less_times_div mult.commute times_div_less_eq_dividend mult_Suc_right add.commute)

subsection \<open>Bits of words\<close>

lemma bit_u8 [simp]: "8 \<le> n \<Longrightarrow> \<not> bit (p :: u8) n"
  using bit_imp_le_length [of p n] by auto

lemma bit_u32 [simp]: "32 \<le> n \<Longrightarrow> \<not> bit (p :: u32) n"
  using bit_imp_le_length [of p n] by auto

lemma bit_u64 [simp]: "64 \<le> n \<Longrightarrow> \<not> bit (p :: u64) n"
  using bit_imp_le_length [of p n] by auto

lemma unat_u8: "unat (x :: u8) < 256"
  using unsigned_less [of x] by simp

lemma unat_u16: "unat (x :: u16) < 65536"
  using unsigned_less [of x] by simp

lemma unat_u32: "unat (x :: u32) < 4294967296"
proof -
  have "unat x < 2 ^ LENGTH(32)" by (rule unsigned_less)
  then show ?thesis by simp
qed

lemma unat_u64: "unat (x :: u64) < 18446744073709551616"
proof -
  have "unat x < 2 ^ LENGTH(64)" by (rule unsigned_less)
  then show ?thesis by simp
qed

lemmas unat_bounds = unat_u8 unat_u16 unat_u32 unat_u64

text \<open>Two words are equal when their bits are, checked position by position.\<close>

lemma u8_eqI:
  fixes a b :: u8
  assumes "list_all (\<lambda>n. bit a n = bit b n) [0, 1, 2, 3, 4, 5, 6, 7]"
  shows "a = b"
proof (rule bit_word_eqI)
  fix n assume "n < LENGTH(8)"
  then have "n \<in> set [0..<8]" by simp
  moreover have "[0..<8] = [0, 1, 2, 3, 4, 5, 6, 7]" by code_simp
  ultimately show "bit a n = bit b n" using assms by (simp only: list_all_iff)
qed

lemma u32_eqI:
  fixes a b :: u32
  assumes "list_all (\<lambda>n. bit a n = bit b n)
    [0, 1, 2, 3, 4, 5, 6, 7, 8, 9, 10, 11, 12, 13, 14, 15,
     16, 17, 18, 19, 20, 21, 22, 23, 24, 25, 26, 27, 28, 29, 30, 31]"
  shows "a = b"
proof (rule bit_word_eqI)
  fix n assume "n < LENGTH(32)"
  then have "n \<in> set [0..<32]" by simp
  moreover have "[0..<32] =
    [0, 1, 2, 3, 4, 5, 6, 7, 8, 9, 10, 11, 12, 13, 14, 15,
     16, 17, 18, 19, 20, 21, 22, 23, 24, 25, 26, 27, 28, 29, 30, 31]"
    by code_simp
  ultimately show "bit a n = bit b n" using assms by (simp only: list_all_iff)
qed

lemma u64_eqI:
  fixes a b :: u64
  assumes "list_all (\<lambda>n. bit a n = bit b n)
    [0, 1, 2, 3, 4, 5, 6, 7, 8, 9, 10, 11, 12, 13, 14, 15,
     16, 17, 18, 19, 20, 21, 22, 23, 24, 25, 26, 27, 28, 29, 30, 31,
     32, 33, 34, 35, 36, 37, 38, 39, 40, 41, 42, 43, 44, 45, 46, 47,
     48, 49, 50, 51, 52, 53, 54, 55, 56, 57, 58, 59, 60, 61, 62, 63]"
  shows "a = b"
proof (rule bit_word_eqI)
  fix n assume "n < LENGTH(64)"
  then have "n \<in> set [0..<64]" by simp
  moreover have "[0..<64] =
    [0, 1, 2, 3, 4, 5, 6, 7, 8, 9, 10, 11, 12, 13, 14, 15,
     16, 17, 18, 19, 20, 21, 22, 23, 24, 25, 26, 27, 28, 29, 30, 31,
     32, 33, 34, 35, 36, 37, 38, 39, 40, 41, 42, 43, 44, 45, 46, 47,
     48, 49, 50, 51, 52, 53, 54, 55, 56, 57, 58, 59, 60, 61, 62, 63]"
    by code_simp
  ultimately show "bit a n = bit b n" using assms by (simp only: list_all_iff)
qed

text \<open>The top bit of a byte, in the three ways the C code tests it.\<close>

lemma u8_signed_nonneg: fixes x :: u8 shows "0 \<le> sint x \<longleftrightarrow> \<not> bit x 7"
  using bit_last_iff [of x] by auto

lemma u8_less_128: fixes x :: u8 shows "x < 128 \<longleftrightarrow> \<not> bit x 7"
proof -
  have "unat x < 256" using unsigned_less [of x] by simp
  moreover have "bit x 7 = bit (unat x) 7" by (simp add: bit_unsigned_iff)
  ultimately show ?thesis
    by (auto simp: word_less_nat_alt bit_iff_odd odd_iff_mod_2_eq_one)
qed

lemma u8_and_80: fixes x :: u8 shows "x AND 0x80 = 0 \<longleftrightarrow> \<not> bit x 7"
  using and_exp_eq_0_iff_not_bit [of x 7] by simp

lemma u32_and_80: fixes x :: u32 shows "x AND 0x80 = 0 \<longleftrightarrow> \<not> bit x 7"
  using and_exp_eq_0_iff_not_bit [of x 7] by simp

lemma u8_sint: fixes c :: u8 shows "sint c = uint c - 256 * of_bool (bit c 7)"
proof -
  have "0 \<le> uint c \<and> uint c < 2 ^ 8"
    using uint_bounded [of c] by simp
  then have "take_bit 8 (uint c) = uint c" by (simp add: take_bit_int_eq_self)
  then show ?thesis
    by (simp add: sint_uint signed_take_bit_eq_take_bit_minus bit_unsigned_iff)
qed

lemma u8_sint_uint: fixes c :: u8 shows "\<not> bit c 7 \<Longrightarrow> sint c = uint c"
  by (simp add: u8_sint)

lemmas top_bit = u8_signed_nonneg u8_less_128 u8_and_80 u32_and_80

subsection \<open>Self-delimiting encodings\<close>

text \<open>
  A value is written as bytes, and a reader that is given those bytes followed by anything
  else recovers the value and how many bytes it took.
\<close>

fun decode_seq :: "(u8 list \<Rightarrow> (nat \<times> 'v) option) \<Rightarrow> nat \<Rightarrow> u8 list \<Rightarrow> ('v list \<times> u8 list) option" where
  "decode_seq dec 0 bs = Some ([], bs)"
| "decode_seq dec (Suc n) bs = do {
     (k, v) \<leftarrow> dec bs;
     (vs, rest) \<leftarrow> decode_seq dec n (drop k bs);
     Some (v # vs, rest) }"

locale byte_codec =
  fixes enc :: "'v \<Rightarrow> u8 list"
    and dec :: "u8 list \<Rightarrow> (nat \<times> 'v) option"
    and ok :: "'v \<Rightarrow> bool"
  assumes dec_enc: "ok v \<Longrightarrow> dec (enc v @ xs) = Some (length (enc v), v)"
    and enc_nonempty: "enc v \<noteq> []"
begin

lemma enc_prefix_free:
  assumes "ok v" and "ok w" and "enc v @ xs = enc w @ ys"
  shows "v = w \<and> xs = ys"
proof -
  have "Some (length (enc v), v) = Some (length (enc w), w)"
    using dec_enc [OF assms(1), of xs] dec_enc [OF assms(2), of ys] assms(3) by simp
  with assms(3) show ?thesis by simp
qed

lemma decode_seq_concat:
  "list_all ok vs \<Longrightarrow> decode_seq dec (length vs) (concat (map enc vs) @ xs) = Some (vs, xs)"
  by (induction vs) (simp_all add: dec_enc)

lemma concat_enc_inj:
  assumes "list_all ok vs" and "list_all ok ws" and "concat (map enc vs) = concat (map enc ws)"
  shows "vs = ws"
  using assms
proof (induction vs arbitrary: ws)
  case Nil
  then show ?case by (cases ws) (auto simp: enc_nonempty)
next
  case (Cons v vs)
  from Cons.prems(3) have "ws \<noteq> []" by (auto simp: enc_nonempty)
  then obtain w ws' where ws: "ws = w # ws'" by (meson list.exhaust)
  from Cons.prems(1,2) ws have ok: "ok v" "ok w" "list_all ok vs" "list_all ok ws'"
    by simp_all
  from Cons.prems(3) ws have "enc v @ concat (map enc vs) = enc w @ concat (map enc ws')"
    by simp
  then have eq: "v = w" "concat (map enc vs) = concat (map enc ws')"
    using enc_prefix_free [OF ok(1,2)] by blast+
  then show ?case using Cons.IH [OF ok(3,4)] ws by simp
qed

end

subsection \<open>Lookup tables\<close>

text \<open>
  A table maps keys, compared by an equivalence of the provider's choice, to values; storing
  \<open>None\<close> removes a key. The client sees a sequence of stores: the last one to an equivalent
  key wins.
\<close>

locale lookup_table =
  fixes inv :: "'s \<Rightarrow> bool"
    and lookup :: "'s \<Rightarrow> 'k \<Rightarrow> 'v option"
    and update :: "'s \<Rightarrow> 'k \<Rightarrow> 'v option \<Rightarrow> 's"
    and key_ok :: "'k \<Rightarrow> bool"
    and same :: "'k \<Rightarrow> 'k \<Rightarrow> bool"
  assumes inv_update: "inv s \<Longrightarrow> key_ok k \<Longrightarrow> inv (update s k d)"
    and lookup_update: "inv s \<Longrightarrow> key_ok k \<Longrightarrow> key_ok k' \<Longrightarrow>
      lookup (update s k d) k' = (if same k k' then d else lookup s k')"
begin

lemma inv_updates:
  "inv s \<Longrightarrow> list_all (\<lambda>(k, d). key_ok k) us \<Longrightarrow> inv (foldl (\<lambda>s (k, d). update s k d) s us)"
  by (induction us arbitrary: s) (auto simp: inv_update)

lemma lookup_updates:
  "inv s \<Longrightarrow> list_all (\<lambda>(k, d). key_ok k) us \<Longrightarrow> key_ok k' \<Longrightarrow>
   lookup (foldl (\<lambda>s (k, d). update s k d) s us) k'
     = (case List.find (\<lambda>(k, d). same k k') (rev us) of Some (k, d) \<Rightarrow> d | None \<Rightarrow> lookup s k')"
proof (induction us rule: rev_induct)
  case (snoc u us)
  obtain k d where u: "u = (k, d)" by fastforce
  with snoc.prems have "inv (foldl (\<lambda>s (k, d). update s k d) s us)" by (intro inv_updates) auto
  with snoc u show ?case by (simp add: lookup_update)
qed simp

end

end
