(* ===== verification/Util_Varint.thy ===== *)
theory Util_Varint
  imports Prelude
begin

text \<open>
  The variable-length integers of \<open>util.c\<close> (file \<open>native/internal/sqlite/sqlite3.c\<close>):
  the writers \<open>putVarint64\<close> and \<open>sqlite3PutVarint\<close>, the unrolled readers
  \<open>sqlite3GetVarint\<close> and \<open>sqlite3GetVarint32\<close>, and \<open>sqlite3VarintLen\<close>; and the
  four-byte big-endian accessors \<open>sqlite3Get4byte\<close>, \<open>sqlite3Put4byte\<close>. The readers
  work on \<open>u32\<close> halves as the C code does and return the number of bytes read with the
  value; a read past the end of the buffer is \<open>None\<close>. The reader is proved equal to the
  seven-bits-at-a-time decoder that the format comment of the file describes, and the
  writer is proved its inverse.
\<close>

unbundle bit_operations_syntax

subsection \<open>Writing\<close>

text \<open>The two loops of \<open>putVarint64\<close>: the one that fills \<open>p[7]\<close> down to \<open>p[0]\<close>, and the
  do-while that fills the local buffer with the low groups first.\<close>

fun putVarint64_hi :: "nat \<Rightarrow> u8 list \<Rightarrow> u64 \<Rightarrow> u8 list option" where
  "putVarint64_hi 0 p v = Some p"
| "putVarint64_hi (Suc i) p v = do {
     p' \<leftarrow> wr p i (ucast ((v AND 0x7f) OR 0x80));
     putVarint64_hi i p' (drop_bit 7 v) }"

lemma unat_drop_7: fixes v :: u64 shows "unat (drop_bit 7 v) = unat v div 128"
  by (simp add: drop_bit_eq_div unat_div_distrib)

function putVarint64_buf :: "u64 \<Rightarrow> u8 list" where
  "putVarint64_buf v =
     ucast ((v AND 0x7f) OR 0x80) #
     (let v' = drop_bit 7 v in if v' \<noteq> 0 then putVarint64_buf v' else [])"
  by pat_completeness auto

termination
proof (relation "measure unat")
  fix v x :: u64
  assume x: "x = drop_bit 7 v" and ne: "x \<noteq> 0"
  from ne have "unat x \<noteq> 0" by (simp add: unat_eq_zero)
  with x have "unat v div 128 \<noteq> 0" by (simp add: unat_drop_7)
  then have "unat v div 128 < unat v" by (cases "unat v = 0") auto
  with x show "(x, v) \<in> measure unat" by (simp add: unat_drop_7)
qed simp

declare putVarint64_buf.simps [simp del]

definition putVarint64 :: "u8 list \<Rightarrow> u64 \<Rightarrow> (u8 list \<times> nat) option" where
  "putVarint64 p v =
     (if v AND push_bit 32 0xff000000 \<noteq> 0 then do {
        p \<leftarrow> wr p 8 (ucast v);
        p \<leftarrow> putVarint64_hi 8 p (drop_bit 8 v);
        Some (p, 9) }
      else do {
        let buf = putVarint64_buf v;
        let n = length buf;
        let buf = buf[0 := (buf ! 0) AND 0x7f];
        p \<leftarrow> wrs p 0 (rev buf);
        Some (p, n) })"

definition sqlite3PutVarint :: "u8 list \<Rightarrow> u64 \<Rightarrow> (u8 list \<times> nat) option" where
  "sqlite3PutVarint p v =
     (if v \<le> 0x7f then do { p \<leftarrow> wr p 0 (ucast (v AND 0x7f)); Some (p, 1) }
      else if v \<le> 0x3fff then do {
        p \<leftarrow> wr p 0 (ucast ((drop_bit 7 v AND 0x7f) OR 0x80));
        p \<leftarrow> wr p 1 (ucast (v AND 0x7f));
        Some (p, 2) }
      else putVarint64 p v)"

subsection \<open>Reading\<close>

definition sqlite3GetVarint :: "u8 list \<Rightarrow> (nat \<times> u64) option" where
  "sqlite3GetVarint p = do {
     p0 \<leftarrow> rd p 0;
     if 0 \<le> sint p0 then Some (1, ucast p0) else do {
     p1 \<leftarrow> rd p 1;
     if 0 \<le> sint p1 then Some (2, ucast (push_bit 7 (ucast (p0 AND 0x7f) :: u32) OR ucast p1)) else do {
     let a = push_bit 14 (ucast p0 :: u32);
     let b = (ucast p1 :: u32);
     p2 \<leftarrow> rd p 2;
     let a = a OR ucast p2;
     if a AND 0x80 = 0 then
       (let a = a AND 0x001fc07f; b = push_bit 7 (b AND 0x7f); a = a OR b in Some (3, ucast a))
     else do {
     let a = a AND 0x001fc07f;
     let b = push_bit 14 b;
     p3 \<leftarrow> rd p 3;
     let b = b OR ucast p3;
     if b AND 0x80 = 0 then
       (let b = b AND 0x001fc07f; a = push_bit 7 a; a = a OR b in Some (4, ucast a))
     else do {
     let b = b AND 0x001fc07f;
     let s = a;
     let a = push_bit 14 a;
     p4 \<leftarrow> rd p 4;
     let a = a OR ucast p4;
     if a AND 0x80 = 0 then
       (let b = push_bit 7 b; a = a OR b; s = drop_bit 18 s
        in Some (5, push_bit 32 (ucast s) OR ucast a))
     else do {
     let s = push_bit 7 s;
     let s = s OR b;
     let b = push_bit 14 b;
     p5 \<leftarrow> rd p 5;
     let b = b OR ucast p5;
     if b AND 0x80 = 0 then
       (let a = a AND 0x001fc07f; a = push_bit 7 a; a = a OR b; s = drop_bit 18 s
        in Some (6, push_bit 32 (ucast s) OR ucast a))
     else do {
     let a = push_bit 14 a;
     p6 \<leftarrow> rd p 6;
     let a = a OR ucast p6;
     if a AND 0x80 = 0 then
       (let a = a AND 0xf01fc07f; b = b AND 0x001fc07f; b = push_bit 7 b; a = a OR b; s = drop_bit 11 s
        in Some (7, push_bit 32 (ucast s) OR ucast a))
     else do {
     let a = a AND 0x001fc07f;
     let b = push_bit 14 b;
     p7 \<leftarrow> rd p 7;
     let b = b OR ucast p7;
     if b AND 0x80 = 0 then
       (let b = b AND 0xf01fc07f; a = push_bit 7 a; a = a OR b; s = drop_bit 4 s
        in Some (8, push_bit 32 (ucast s) OR ucast a))
     else do {
     let a = push_bit 15 a;
     p8 \<leftarrow> rd p 8;
     let a = a OR ucast p8;
     let b = b AND 0x001fc07f;
     let b = push_bit 8 b;
     let a = a OR b;
     let s = push_bit 4 s;
     let b = (ucast p4 :: u32);
     let b = b AND 0x7f;
     let b = drop_bit 3 b;
     let s = s OR b;
     Some (9, push_bit 32 (ucast s) OR ucast a)
     }}}}}}}}}"

text \<open>
  \<open>sqlite3GetVarint32\<close> is reached through the macro \<open>getVarint32\<close>, which handles the
  one-byte case; the function asserts that the first byte has its top bit set.
\<close>

definition sqlite3GetVarint32 :: "u8 list \<Rightarrow> (nat \<times> u32) option" where
  "sqlite3GetVarint32 p = do {
     p0 \<leftarrow> rd p 0;
     p1 \<leftarrow> rd p 1;
     if p1 AND 0x80 = 0 then
       Some (2, push_bit 7 (ucast (p0 AND 0x7f)) OR ucast p1)
     else do {
     p2 \<leftarrow> rd p 2;
     if p2 AND 0x80 = 0 then
       Some (3, push_bit 14 (ucast (p0 AND 0x7f)) OR push_bit 7 (ucast (p1 AND 0x7f)) OR ucast p2)
     else do {
     (n, v64) \<leftarrow> sqlite3GetVarint p;
     if v64 AND 0xffffffff \<noteq> v64 then Some (n, 0xffffffff) else Some (n, ucast v64)
     }}}"

definition getVarint32 :: "u8 list \<Rightarrow> (nat \<times> u32) option" where
  "getVarint32 p = do {
     p0 \<leftarrow> rd p 0;
     if p0 < 0x80 then Some (1, ucast p0) else sqlite3GetVarint32 p }"

function sqlite3VarintLen_loop :: "nat \<Rightarrow> u64 \<Rightarrow> nat" where
  "sqlite3VarintLen_loop i v =
     (let v' = drop_bit 7 v in if v' \<noteq> 0 then sqlite3VarintLen_loop (Suc i) v' else i)"
  by pat_completeness auto
termination
proof (relation "measure (\<lambda>(i, v). unat v)")
  fix i :: nat and v x :: u64
  assume x: "x = drop_bit 7 v" and ne: "x \<noteq> 0"
  from ne have "unat x \<noteq> 0" by (simp add: unat_eq_zero)
  with x have "unat v div 128 \<noteq> 0" by (simp add: unat_drop_7)
  then have "unat v div 128 < unat v" by (cases "unat v = 0") auto
  with x show "((Suc i, x), i, v) \<in> measure (\<lambda>(i, v). unat v)" by (simp add: unat_drop_7)
qed simp

declare sqlite3VarintLen_loop.simps [simp del]

definition sqlite3VarintLen :: "u64 \<Rightarrow> nat" where
  "sqlite3VarintLen v = sqlite3VarintLen_loop 1 v"

subsection \<open>Four-byte big-endian integers\<close>

text \<open>
  The little-endian branch with \<open>__builtin_bswap32\<close> (the one a GCC build for x86-64
  selects), and the portable branch. \<open>load_le32\<close> and \<open>store_le32\<close> are \<open>memcpy\<close>
  between a \<open>u32\<close> and four bytes on a little-endian machine.
\<close>

definition load_le32 :: "u8 list \<Rightarrow> u32 option" where
  "load_le32 p = do { p0 \<leftarrow> rd p 0; p1 \<leftarrow> rd p 1; p2 \<leftarrow> rd p 2; p3 \<leftarrow> rd p 3;
     Some (ucast p0 OR push_bit 8 (ucast p1) OR push_bit 16 (ucast p2) OR push_bit 24 (ucast p3)) }"

definition store_le32 :: "u8 list \<Rightarrow> u32 \<Rightarrow> u8 list option" where
  "store_le32 p x = wrs p 0 [ucast x, ucast (drop_bit 8 x), ucast (drop_bit 16 x), ucast (drop_bit 24 x)]"

definition bswap32 :: "u32 \<Rightarrow> u32" where
  "bswap32 x = push_bit 24 (x AND 0xff) OR push_bit 8 (x AND 0xff00)
     OR (drop_bit 8 x AND 0xff00) OR drop_bit 24 x"

definition sqlite3Get4byte :: "u8 list \<Rightarrow> u32 option" where
  "sqlite3Get4byte p = do { x \<leftarrow> load_le32 p; Some (bswap32 x) }"

definition sqlite3Get4byte_portable :: "u8 list \<Rightarrow> u32 option" where
  "sqlite3Get4byte_portable p = do { p0 \<leftarrow> rd p 0; p1 \<leftarrow> rd p 1; p2 \<leftarrow> rd p 2; p3 \<leftarrow> rd p 3;
     Some (push_bit 24 (ucast p0) OR push_bit 16 (ucast p1) OR push_bit 8 (ucast p2) OR ucast p3) }"

definition sqlite3Put4byte :: "u8 list \<Rightarrow> u32 \<Rightarrow> u8 list option" where
  "sqlite3Put4byte p v = store_le32 p (bswap32 v)"

definition sqlite3Put4byte_portable :: "u8 list \<Rightarrow> u32 \<Rightarrow> u8 list option" where
  "sqlite3Put4byte_portable p v = do {
     p \<leftarrow> wr p 0 (ucast (drop_bit 24 v));
     p \<leftarrow> wr p 1 (ucast (drop_bit 16 v));
     p \<leftarrow> wr p 2 (ucast (drop_bit 8 v));
     wr p 3 (ucast v) }"

subsection \<open>The format, one byte at a time\<close>

text \<open>Up to eight bytes of seven bits, low groups last, and a ninth byte of eight bits.\<close>

fun varint_decode :: "nat \<Rightarrow> u64 \<Rightarrow> u8 list \<Rightarrow> (nat \<times> u64) option" where
  "varint_decode k acc [] = None"
| "varint_decode k acc (x # xs) =
     (if k = 8 then Some (9, push_bit 8 acc OR ucast x)
      else if x < 128 then Some (Suc k, push_bit 7 acc OR ucast x)
      else varint_decode (Suc k) (push_bit 7 acc OR ucast (x AND 0x7f)) xs)"

lemma sqlite3GetVarint_0:
  "\<not> bit x 7 \<Longrightarrow> 
   sqlite3GetVarint (x # xs) = varint_decode 0 0 (x # xs)"
  by (simp add: sqlite3GetVarint_def top_bit)

lemma sqlite3GetVarint_1:
  "bit p0 7 \<Longrightarrow> \<not> bit x 7 \<Longrightarrow> 
   sqlite3GetVarint (p0 # x # xs) = varint_decode 0 0 (p0 # x # xs)"
  by (simp add: sqlite3GetVarint_def top_bit) (rule u64_eqI, simp add: bit_simps)

lemma sqlite3GetVarint_2:
  "bit p0 7 \<Longrightarrow> bit p1 7 \<Longrightarrow> \<not> bit x 7 \<Longrightarrow> 
   sqlite3GetVarint (p0 # p1 # x # xs) = varint_decode 0 0 (p0 # p1 # x # xs)"
  by (simp add: sqlite3GetVarint_def top_bit Let_def bit_simps)
    (rule u64_eqI, simp add: bit_simps)

lemma sqlite3GetVarint_3:
  "bit p0 7 \<Longrightarrow> bit p1 7 \<Longrightarrow> bit p2 7 \<Longrightarrow> \<not> bit x 7 \<Longrightarrow> 
   sqlite3GetVarint (p0 # p1 # p2 # x # xs) = varint_decode 0 0 (p0 # p1 # p2 # x # xs)"
  by (simp add: sqlite3GetVarint_def top_bit Let_def bit_simps)
    (rule u64_eqI, simp add: bit_simps)

lemma sqlite3GetVarint_4:
  "bit p0 7 \<Longrightarrow> bit p1 7 \<Longrightarrow> bit p2 7 \<Longrightarrow> bit p3 7 \<Longrightarrow> \<not> bit x 7 \<Longrightarrow> 
   sqlite3GetVarint (p0 # p1 # p2 # p3 # x # xs) = varint_decode 0 0 (p0 # p1 # p2 # p3 # x # xs)"
  by (simp add: sqlite3GetVarint_def top_bit Let_def bit_simps)
    (rule u64_eqI, simp add: bit_simps)

lemma sqlite3GetVarint_5:
  "bit p0 7 \<Longrightarrow> bit p1 7 \<Longrightarrow> bit p2 7 \<Longrightarrow> bit p3 7 \<Longrightarrow> bit p4 7 \<Longrightarrow> \<not> bit x 7 \<Longrightarrow> 
   sqlite3GetVarint (p0 # p1 # p2 # p3 # p4 # x # xs) = varint_decode 0 0 (p0 # p1 # p2 # p3 # p4 # x # xs)"
  by (simp add: sqlite3GetVarint_def top_bit Let_def bit_simps)
    (rule u64_eqI, simp add: bit_simps)

lemma sqlite3GetVarint_6:
  "bit p0 7 \<Longrightarrow> bit p1 7 \<Longrightarrow> bit p2 7 \<Longrightarrow> bit p3 7 \<Longrightarrow> bit p4 7 \<Longrightarrow> bit p5 7 \<Longrightarrow> \<not> bit x 7 \<Longrightarrow> 
   sqlite3GetVarint (p0 # p1 # p2 # p3 # p4 # p5 # x # xs) = varint_decode 0 0 (p0 # p1 # p2 # p3 # p4 # p5 # x # xs)"
  by (simp add: sqlite3GetVarint_def top_bit Let_def bit_simps)
    (rule u64_eqI, simp add: bit_simps)

lemma sqlite3GetVarint_7:
  "bit p0 7 \<Longrightarrow> bit p1 7 \<Longrightarrow> bit p2 7 \<Longrightarrow> bit p3 7 \<Longrightarrow> bit p4 7 \<Longrightarrow> bit p5 7 \<Longrightarrow> bit p6 7 \<Longrightarrow> \<not> bit x 7 \<Longrightarrow> 
   sqlite3GetVarint (p0 # p1 # p2 # p3 # p4 # p5 # p6 # x # xs) = varint_decode 0 0 (p0 # p1 # p2 # p3 # p4 # p5 # p6 # x # xs)"
  by (simp add: sqlite3GetVarint_def top_bit Let_def bit_simps)
    (rule u64_eqI, simp add: bit_simps)

lemma sqlite3GetVarint_8:
  "bit p0 7 \<Longrightarrow> bit p1 7 \<Longrightarrow> bit p2 7 \<Longrightarrow> bit p3 7 \<Longrightarrow> bit p4 7 \<Longrightarrow> bit p5 7 \<Longrightarrow> bit p6 7 \<Longrightarrow> bit p7 7 \<Longrightarrow> 
   sqlite3GetVarint (p0 # p1 # p2 # p3 # p4 # p5 # p6 # p7 # x # xs) = varint_decode 0 0 (p0 # p1 # p2 # p3 # p4 # p5 # p6 # p7 # x # xs)"
  by (simp add: sqlite3GetVarint_def top_bit Let_def bit_simps)
    (rule u64_eqI, simp add: bit_simps)

lemma sqlite3GetVarint_short_0: "sqlite3GetVarint [] = varint_decode 0 0 []"
  by (simp add: sqlite3GetVarint_def rd_def top_bit Let_def bit_simps)

lemma sqlite3GetVarint_short_1: "bit p0 7 \<Longrightarrow> sqlite3GetVarint [p0] = varint_decode 0 0 [p0]"
  by (simp add: sqlite3GetVarint_def rd_def top_bit Let_def bit_simps)

lemma sqlite3GetVarint_short_2: "bit p0 7 \<Longrightarrow> bit p1 7 \<Longrightarrow> sqlite3GetVarint [p0, p1] = varint_decode 0 0 [p0, p1]"
  by (simp add: sqlite3GetVarint_def rd_def top_bit Let_def bit_simps)

lemma sqlite3GetVarint_short_3: "bit p0 7 \<Longrightarrow> bit p1 7 \<Longrightarrow> bit p2 7 \<Longrightarrow> sqlite3GetVarint [p0, p1, p2] = varint_decode 0 0 [p0, p1, p2]"
  by (simp add: sqlite3GetVarint_def rd_def top_bit Let_def bit_simps)

lemma sqlite3GetVarint_short_4: "bit p0 7 \<Longrightarrow> bit p1 7 \<Longrightarrow> bit p2 7 \<Longrightarrow> bit p3 7 \<Longrightarrow> sqlite3GetVarint [p0, p1, p2, p3] = varint_decode 0 0 [p0, p1, p2, p3]"
  by (simp add: sqlite3GetVarint_def rd_def top_bit Let_def bit_simps)

lemma sqlite3GetVarint_short_5: "bit p0 7 \<Longrightarrow> bit p1 7 \<Longrightarrow> bit p2 7 \<Longrightarrow> bit p3 7 \<Longrightarrow> bit p4 7 \<Longrightarrow> sqlite3GetVarint [p0, p1, p2, p3, p4] = varint_decode 0 0 [p0, p1, p2, p3, p4]"
  by (simp add: sqlite3GetVarint_def rd_def top_bit Let_def bit_simps)

lemma sqlite3GetVarint_short_6: "bit p0 7 \<Longrightarrow> bit p1 7 \<Longrightarrow> bit p2 7 \<Longrightarrow> bit p3 7 \<Longrightarrow> bit p4 7 \<Longrightarrow> bit p5 7 \<Longrightarrow> sqlite3GetVarint [p0, p1, p2, p3, p4, p5] = varint_decode 0 0 [p0, p1, p2, p3, p4, p5]"
  by (simp add: sqlite3GetVarint_def rd_def top_bit Let_def bit_simps)

lemma sqlite3GetVarint_short_7: "bit p0 7 \<Longrightarrow> bit p1 7 \<Longrightarrow> bit p2 7 \<Longrightarrow> bit p3 7 \<Longrightarrow> bit p4 7 \<Longrightarrow> bit p5 7 \<Longrightarrow> bit p6 7 \<Longrightarrow> sqlite3GetVarint [p0, p1, p2, p3, p4, p5, p6] = varint_decode 0 0 [p0, p1, p2, p3, p4, p5, p6]"
  by (simp add: sqlite3GetVarint_def rd_def top_bit Let_def bit_simps)

lemma sqlite3GetVarint_short_8: "bit p0 7 \<Longrightarrow> bit p1 7 \<Longrightarrow> bit p2 7 \<Longrightarrow> bit p3 7 \<Longrightarrow> bit p4 7 \<Longrightarrow> bit p5 7 \<Longrightarrow> bit p6 7 \<Longrightarrow> bit p7 7 \<Longrightarrow> sqlite3GetVarint [p0, p1, p2, p3, p4, p5, p6, p7] = varint_decode 0 0 [p0, p1, p2, p3, p4, p5, p6, p7]"
  by (simp add: sqlite3GetVarint_def rd_def top_bit Let_def bit_simps)

text \<open>Every buffer is of one of the shapes above: some bytes with the top bit set, then the end or a last byte.\<close>

lemma varint_shape:
  obtains (full) ps x xs where "p = ps @ x # xs" "\<forall>y\<in>set ps. bit y 7" "length ps \<le> 8"
      "length ps < 8 \<Longrightarrow> \<not> bit x 7"
    | (short) "\<forall>y\<in>set p. bit y 7" "length p \<le> 8"
proof (cases "\<exists>x\<in>set (take 8 p). \<not> bit x 7")
  case True
  then obtain ps x xs where ps: "take 8 p = ps @ x # xs" "\<not> bit x 7" "\<forall>y\<in>set ps. bit y 7"
    using split_list_first_prop [of "take 8 p" "\<lambda>x. \<not> bit x 7"] by auto
  have "length (take 8 p) \<le> 8" by simp
  with ps(1) have "length ps \<le> 8" by simp
  moreover have "p = ps @ x # (xs @ drop 8 p)"
    using ps(1) append_take_drop_id [of 8 p] by simp
  ultimately show ?thesis using ps(2,3) by (intro full) auto
next
  case False
  show ?thesis
  proof (cases "length p \<le> 8")
    case True
    with False show ?thesis by (intro short) auto
  next
    case long: False
    have "p = take 8 p @ (p ! 8) # drop 9 p"
      using long id_take_nth_drop [of 8 p] by simp
    then show ?thesis using False by (intro full) auto
  qed
qed

lemma list_of_length_le_8:
  "length ps \<le> 8 \<Longrightarrow> ps = [] \<or> (\<exists>a. ps = [a]) \<or> (\<exists>a b. ps = [a, b]) \<or> (\<exists>a b c. ps = [a, b, c]) \<or>
     (\<exists>a b c d. ps = [a, b, c, d]) \<or> (\<exists>a b c d e. ps = [a, b, c, d, e]) \<or>
     (\<exists>a b c d e f. ps = [a, b, c, d, e, f]) \<or> (\<exists>a b c d e f g. ps = [a, b, c, d, e, f, g]) \<or>
     (\<exists>a b c d e f g h. ps = [a, b, c, d, e, f, g, h])"
proof -
  assume "length ps \<le> 8"
  then consider "length ps = 0" | "length ps = 1" | "length ps = 2" | "length ps = 3" | "length ps = 4"
    | "length ps = 5" | "length ps = 6" | "length ps = 7" | "length ps = 8" by linarith
  then show ?thesis
    by cases (auto simp: length_Suc_conv numeral_eq_Suc)
qed

lemmas sqlite3GetVarint_cases =
  sqlite3GetVarint_0 sqlite3GetVarint_1 sqlite3GetVarint_2 sqlite3GetVarint_3 sqlite3GetVarint_4
  sqlite3GetVarint_5 sqlite3GetVarint_6 sqlite3GetVarint_7 sqlite3GetVarint_8

lemmas sqlite3GetVarint_short =
  sqlite3GetVarint_short_0 sqlite3GetVarint_short_1 sqlite3GetVarint_short_2
  sqlite3GetVarint_short_3 sqlite3GetVarint_short_4 sqlite3GetVarint_short_5
  sqlite3GetVarint_short_6 sqlite3GetVarint_short_7 sqlite3GetVarint_short_8

lemma sqlite3GetVarint_eq_decode: "sqlite3GetVarint p = varint_decode 0 0 p"
proof (cases p rule: varint_shape)
  case (full ps x xs)
  from list_of_length_le_8 [OF full(3)] full show ?thesis
    by (elim disjE exE) (simp_all add: sqlite3GetVarint_cases del: varint_decode.simps)
next
  case short
  from list_of_length_le_8 [OF short(2)] short(1) show ?thesis
    by (elim disjE exE) (simp_all add: sqlite3GetVarint_short del: varint_decode.simps)
qed

subsection \<open>The writer against the format\<close>

text \<open>The \<open>n\<close> low groups of seven bits of \<open>v\<close>, high group first, all marked as continued.\<close>

fun varint_groups :: "nat \<Rightarrow> u64 \<Rightarrow> u8 list" where
  "varint_groups 0 v = []"
| "varint_groups (Suc n) v = varint_groups n (drop_bit 7 v) @ [ucast ((v AND 0x7f) OR 0x80)]"

lemma length_varint_groups [simp]: "length (varint_groups n v) = n"
  by (induction n arbitrary: v) auto

lemma varint_decode_continued:
  "k < 8 \<Longrightarrow> varint_decode k acc (ucast ((v AND 0x7f) OR 0x80) # xs)
     = varint_decode (Suc k) (push_bit 7 acc OR (v AND 0x7f)) xs" for v :: u64
proof -
  have "\<not> (ucast ((v AND 0x7f) OR 0x80) :: u8) < 128"
    by (simp add: u8_less_128 bit_simps)
  moreover have "ucast ((ucast ((v AND 0x7f) OR 0x80) :: u8) AND 0x7f) = v AND 0x7f"
    by (rule u64_eqI) (simp add: bit_simps)
  ultimately show "k < 8 \<Longrightarrow> ?thesis" by simp
qed

lemma push_group:
  fixes acc v :: u64
  shows "push_bit 7 (push_bit (7 * n) acc OR take_bit (7 * n) (drop_bit 7 v)) OR (v AND 0x7f)
     = push_bit (7 * Suc n) acc OR take_bit (7 * Suc n) v"
proof (rule bit_word_eqI)
  fix i assume "i < LENGTH(64)"
  have "bit (0x7f :: u64) i \<longleftrightarrow> i < 7"
    using bit_mask_iff [of 7 i, where 'a = u64] \<open>i < LENGTH(64)\<close> by (simp add: mask_numeral)
  with \<open>i < LENGTH(64)\<close> show "bit (push_bit 7 (push_bit (7 * n) acc OR take_bit (7 * n) (drop_bit 7 v)) OR (v AND 0x7f)) i
     = bit (push_bit (7 * Suc n) acc OR take_bit (7 * Suc n) v) i"
    by (auto simp: bit_simps)
qed

lemma varint_decode_groups:
  "k + n \<le> 8 \<Longrightarrow> varint_decode k acc (varint_groups n v @ xs)
     = varint_decode (k + n) (push_bit (7 * n) acc OR take_bit (7 * n) v) xs"
proof (induction n arbitrary: v xs)
  case 0
  then show ?case by simp
next
  case (Suc n)
  then have "varint_decode k acc (varint_groups (Suc n) v @ xs)
      = varint_decode (k + n) (push_bit (7 * n) acc OR take_bit (7 * n) (drop_bit 7 v))
          (ucast ((v AND 0x7f) OR 0x80) # xs)"
    by simp
  also have "\<dots> = varint_decode (k + Suc n) (push_bit (7 * Suc n) acc OR take_bit (7 * Suc n) v) xs"
    using Suc.prems by (simp only: varint_decode_continued push_group add_Suc_right)
  finally show ?case .
qed

lemma putVarint64_hi_groups:
  "n \<le> length p \<Longrightarrow> putVarint64_hi n p v = Some (varint_groups n v @ drop n p)"
proof (induction n arbitrary: p v)
  case 0
  then show ?case by simp
next
  case (Suc n)
  then have "drop n p = p ! n # drop (Suc n) p" by (simp add: Cons_nth_drop_Suc)
  with Suc show ?case
    by (simp add: wr_def drop_update_swap Suc.IH)
qed

lemma putVarint64_buf_nonempty [simp]: "putVarint64_buf v \<noteq> []"
  by (subst putVarint64_buf.simps) simp

lemma rev_putVarint64_buf: "rev (putVarint64_buf v) = varint_groups (length (putVarint64_buf v)) v"
proof (induction v rule: putVarint64_buf.induct)
  case (1 v)
  then show ?case
    by (subst (1 2) putVarint64_buf.simps) (simp add: Let_def)
qed

lemma rev_update_0: "xs \<noteq> [] \<Longrightarrow> rev (xs[0 := y]) = rev (tl xs) @ [y]"
  by (cases xs) auto

lemma putVarint64_small:
  "rev ((putVarint64_buf v)[0 := (putVarint64_buf v ! 0) AND 0x7f])
     = varint_groups (length (putVarint64_buf v) - 1) (drop_bit 7 v) @ [ucast (v AND 0x7f)]"
proof -
  have "(ucast ((v AND 0x7f) OR 0x80) :: u8) AND 0x7f = ucast (v AND 0x7f)"
    by (rule u8_eqI) (simp add: bit_simps)
  moreover have "rev (tl (putVarint64_buf v))
      = varint_groups (length (putVarint64_buf v) - 1) (drop_bit 7 v)"
    by (subst (1 2) putVarint64_buf.simps) (simp add: Let_def rev_putVarint64_buf)
  moreover have "putVarint64_buf v ! 0 = ucast ((v AND 0x7f) OR 0x80)"
    by (subst putVarint64_buf.simps) simp
  ultimately show ?thesis by (simp add: rev_update_0)
qed

lemma length_putVarint64_buf_le: "length (putVarint64_buf v) \<le> Suc n \<longleftrightarrow> unat v < 2 ^ (7 * Suc n)"
proof (induction n arbitrary: v)
  case 0
  have "drop_bit 7 v = 0 \<longleftrightarrow> unat v div 128 = 0"
    by (simp flip: unat_drop_7 add: unat_eq_zero)
  then have "drop_bit 7 v = 0 \<longleftrightarrow> unat v < 128" by (simp add: div_eq_0_iff)
  then show ?case by (subst putVarint64_buf.simps) (simp add: Let_def)
next
  case (Suc n)
  have "drop_bit 7 v = 0 \<Longrightarrow> unat v < 2 ^ (7 * Suc (Suc n))"
  proof -
    assume "drop_bit 7 v = 0"
    then have "unat v div 128 = 0" using unat_drop_7 [of v] by simp
    then have "unat v < 2 ^ 7" by (simp add: div_eq_0_iff)
    also have "(2::nat) ^ 7 \<le> 2 ^ (7 * Suc (Suc n))" by (rule power_increasing) auto
    finally show ?thesis .
  qed
  moreover have "unat (drop_bit 7 v) < 2 ^ (7 * Suc n) \<longleftrightarrow> unat v < 2 ^ (7 * Suc (Suc n))"
    by (simp add: unat_drop_7 div_less_iff_less_mult power_add mult.commute)
  ultimately show ?case
    using Suc.IH [of "drop_bit 7 v"]
    by (subst putVarint64_buf.simps) (auto simp: Let_def)
qed

lemma sqlite3VarintLen_loop_eq: "sqlite3VarintLen_loop (Suc i) v = i + length (putVarint64_buf v)"
proof (induction v arbitrary: i rule: putVarint64_buf.induct)
  case (1 v)
  then show ?case
    by (subst sqlite3VarintLen_loop.simps, subst putVarint64_buf.simps) (simp add: Let_def)
qed

lemma sqlite3VarintLen_eq: "sqlite3VarintLen v = length (putVarint64_buf v)"
  using sqlite3VarintLen_loop_eq [of 0 v] by (simp add: sqlite3VarintLen_def)

lemma nine_byte_test: "v AND push_bit 32 0xff000000 \<noteq> 0 \<longleftrightarrow> 2 ^ 56 \<le> unat v" for v :: u64
proof -
  have "v AND push_bit 32 0xff000000 = push_bit 56 (drop_bit 56 v)"
    by (rule u64_eqI) (simp add: bit_simps)
  moreover have "drop_bit 56 (push_bit 56 (drop_bit 56 v)) = drop_bit 56 v"
    by (rule u64_eqI) (simp add: bit_simps)
  then have "push_bit 56 (drop_bit 56 v) = 0 \<longleftrightarrow> drop_bit 56 v = 0"
    by (metis drop_bit_of_0 push_bit_of_0)
  moreover have "unat (drop_bit 56 v) = unat v div 2 ^ 56"
    by (simp add: drop_bit_eq_div unat_div_distrib)
  moreover have "drop_bit 56 v = 0 \<longleftrightarrow> unat (drop_bit 56 v) = 0"
    by (simp add: unat_eq_zero)
  ultimately show ?thesis by (simp add: div_eq_0_iff not_less)
qed

definition varint_bytes :: "u64 \<Rightarrow> u8 list" where
  "varint_bytes v =
     (if 2 ^ 56 \<le> unat v then varint_groups 8 (drop_bit 8 v) @ [ucast v]
      else varint_groups (length (putVarint64_buf v) - 1) (drop_bit 7 v) @ [ucast (v AND 0x7f)])"

lemma varint_bytes_nonempty: "varint_bytes v \<noteq> []"
  by (simp add: varint_bytes_def)

lemma length_putVarint64_buf_ge_1: "1 \<le> length (putVarint64_buf v)"
  by (simp add: Suc_leI)

lemma length_varint_bytes:
  "length (varint_bytes v) = (if 2 ^ 56 \<le> unat v then 9 else length (putVarint64_buf v))"
  using length_putVarint64_buf_ge_1 [of v] by (simp add: varint_bytes_def)

lemma length_varint_bytes_bounds: "1 \<le> length (varint_bytes v) \<and> length (varint_bytes v) \<le> 9"
  using length_putVarint64_buf_le [of v 7] length_putVarint64_buf_ge_1 [of v]
  by (auto simp: length_varint_bytes)

lemma varint_bytes_1: "v \<le> 0x7f \<Longrightarrow> varint_bytes v = [ucast (v AND 0x7f)]"
proof -
  assume "v \<le> 0x7f"
  then have "unat v < 2 ^ (7 * Suc 0)" by (simp add: word_le_nat_alt)
  moreover from this have "length (putVarint64_buf v) \<le> Suc 0"
    by (simp only: length_putVarint64_buf_le)
  ultimately show ?thesis by (simp add: varint_bytes_def)
qed

lemma varint_bytes_2:
  "v \<le> 0x3fff \<Longrightarrow> \<not> v \<le> 0x7f \<Longrightarrow>
   varint_bytes v = [ucast ((drop_bit 7 v AND 0x7f) OR 0x80), ucast (v AND 0x7f)]"
proof -
  assume "v \<le> 0x3fff" and "\<not> v \<le> 0x7f"
  then have v: "unat v < 2 ^ (7 * Suc 1)" "\<not> unat v < 2 ^ (7 * Suc 0)"
    by (simp_all add: word_le_nat_alt)
  then have "length (putVarint64_buf v) \<le> Suc 1" "\<not> length (putVarint64_buf v) \<le> Suc 0"
    by (simp_all only: length_putVarint64_buf_le not_False_eq_True)
  then have "length (putVarint64_buf v) = 2" by simp
  moreover from v have "\<not> 2 ^ 56 \<le> unat v" by simp
  ultimately have "varint_bytes v = varint_groups (Suc 0) (drop_bit 7 v) @ [ucast (v AND 0x7f)]"
    by (simp add: varint_bytes_def)
  then show ?thesis by simp
qed

lemma putVarint64_eq:
  "length (varint_bytes v) \<le> length p \<Longrightarrow>
   putVarint64 p v = Some (varint_bytes v @ drop (length (varint_bytes v)) p, length (varint_bytes v))"
proof (cases "2 ^ 56 \<le> unat v")
  case True
  assume "length (varint_bytes v) \<le> length p"
  with True have len: "9 \<le> length p" by (simp add: length_varint_bytes)
  then have "drop 8 (p[8 := ucast v]) = ucast v # drop 9 p"
    using Cons_nth_drop_Suc [of 8 "p[8 := ucast v]"] by simp
  moreover have "v AND push_bit 32 0xff000000 \<noteq> 0" using True by (simp only: nine_byte_test)
  ultimately show ?thesis using True len
    by (simp only: putVarint64_def if_True not_False_eq_True)
      (simp add: wr_def putVarint64_hi_groups varint_bytes_def)
next
  case False
  assume len: "length (varint_bytes v) \<le> length p"
  have test: "\<not> v AND push_bit 32 0xff000000 \<noteq> 0" using False nine_byte_test [of v] by blast
  have bytes: "rev ((putVarint64_buf v)[0 := (putVarint64_buf v ! 0) AND 0x7f]) = varint_bytes v"
    using False by (simp only: putVarint64_small varint_bytes_def if_False)
  have n: "length (putVarint64_buf v) = length (varint_bytes v)"
    using False by (simp add: length_varint_bytes)
  have "putVarint64 p v = do { p \<leftarrow> wrs p 0 (varint_bytes v); Some (p, length (varint_bytes v)) }"
    by (simp only: putVarint64_def test if_False Let_def bytes n)
  then show ?thesis using len by (simp add: wrs_eq)
qed

lemma sqlite3PutVarint_eq:
  "length (varint_bytes v) \<le> length p \<Longrightarrow>
   sqlite3PutVarint p v = Some (varint_bytes v @ drop (length (varint_bytes v)) p, length (varint_bytes v))"
proof -
  assume len: "length (varint_bytes v) \<le> length p"
  consider "v \<le> 0x7f" | "\<not> v \<le> 0x7f" "v \<le> 0x3fff" | "\<not> v \<le> 0x7f" "\<not> v \<le> 0x3fff" by blast
  then show ?thesis
  proof cases
    case 1
    with len show ?thesis
      by (cases p) (simp_all add: sqlite3PutVarint_def varint_bytes_1 wr_def)
  next
    case 2
    then have vb: "varint_bytes v = [ucast ((drop_bit 7 v AND 0x7f) OR 0x80), ucast (v AND 0x7f)]"
      by (intro varint_bytes_2)
    with len obtain a b p' where "p = a # b # p'"
      by (cases p; cases "tl p") auto
    with 2 vb show ?thesis by (simp add: sqlite3PutVarint_def wr_def numeral_2_eq_2)
  next
    case 3
    with len show ?thesis by (simp add: sqlite3PutVarint_def putVarint64_eq)
  qed
qed

lemma varint_decode_bytes: "varint_decode 0 0 (varint_bytes v @ xs) = Some (length (varint_bytes v), v)"
proof (cases "2 ^ 56 \<le> unat v")
  case True
  have "push_bit 8 (take_bit 56 (drop_bit 8 v)) OR ucast (ucast v :: u8) = v"
    by (rule u64_eqI) (simp add: bit_simps)
  with True show ?thesis
    using varint_decode_groups [of 0 8 0 "drop_bit 8 v" "ucast v # xs"]
    by (simp add: varint_bytes_def)
next
  case False
  let ?n = "length (putVarint64_buf v)"
  from False have "unat v < 2 ^ (7 * Suc 7)" by simp
  then have n: "?n \<le> 8" using length_putVarint64_buf_le [of v 7] by simp
  have n1: "7 * (?n - 1) + 7 = 7 * ?n"
    using length_putVarint64_buf_ge_1 [of v] by (simp add: algebra_simps)
  have "unat v < 2 ^ (7 * Suc (?n - 1))"
    using length_putVarint64_buf_le [of v "?n - 1"] length_putVarint64_buf_ge_1 [of v] by simp
  then have "unat (take_bit (7 * Suc (?n - 1)) v) = unat v"
    by (simp only: unsigned_take_bit_eq take_bit_nat_eq_self)
  then have "take_bit (7 * Suc (?n - 1)) v = v" by (simp only: word_unat_eq_iff)
  then have v: "push_bit 7 (take_bit (7 * (?n - 1)) (drop_bit 7 v)) OR (v AND 0x7f) = v"
    using push_group [of "?n - 1" 0 v] by simp
  have low: "(ucast (v AND 0x7f) :: u8) < 128" "ucast (ucast (v AND 0x7f) :: u8) = v AND 0x7f"
    by (simp add: u8_less_128 bit_simps, rule u64_eqI, simp add: bit_simps)
  have "varint_decode 0 0 (varint_bytes v @ xs)
      = varint_decode (?n - 1) (take_bit (7 * (?n - 1)) (drop_bit 7 v)) (ucast (v AND 0x7f) # xs)"
    using False n varint_decode_groups [of 0 "?n - 1" 0 "drop_bit 7 v" "ucast (v AND 0x7f) # xs"]
    by (simp add: varint_bytes_def)
  also have "\<dots> = Some (?n, v)"
    using n low v length_putVarint64_buf_ge_1 [of v] by simp
  finally show ?thesis using False by (simp add: length_varint_bytes)
qed

text \<open>The pair is a self-delimiting encoding.\<close>

interpretation varint: byte_codec varint_bytes sqlite3GetVarint "\<lambda>_. True"
  by unfold_locales
    (simp_all add: sqlite3GetVarint_eq_decode varint_decode_bytes varint_bytes_nonempty)

subsection \<open>Properties\<close>

text \<open>
  C1. Writing any 64-bit value into a buffer of nine bytes succeeds, stores between one and
  nine bytes and leaves the rest of the buffer alone, and reading the buffer back returns
  exactly the value and the number of bytes written.
\<close>

theorem varint_roundtrip:
  assumes "9 \<le> length p"
  shows "\<exists>q n. sqlite3PutVarint p v = Some (q, n) \<and> 1 \<le> n \<and> n \<le> 9 \<and> length q = length p
     \<and> drop n q = drop n p \<and> sqlite3GetVarint q = Some (n, v)"
proof -
  let ?b = "varint_bytes v"
  have "length ?b \<le> length p" using assms length_varint_bytes_bounds [of v] by linarith
  then show ?thesis
    using length_varint_bytes_bounds [of v] varint.dec_enc [of v "drop (length ?b) p"]
    by (simp add: sqlite3PutVarint_eq)
qed

theorem varint_roundtrip_witness:
  "\<exists>q n. sqlite3PutVarint (replicate 9 0) 0x8000000000000001 = Some (q, n) \<and> n \<le> 9
     \<and> sqlite3GetVarint q = Some (n, 0x8000000000000001)"
proof -
  have "9 \<le> length (replicate 9 (0 :: u8))" by simp
  from varint_roundtrip [OF this, of "0x8000000000000001"] show ?thesis by blast
qed

text \<open>
  C2. The hand-unrolled reader, which keeps two interleaved 32-bit halves and recombines
  them with masks and shifts, computes on every buffer (also a truncated one, and also for
  encodings with redundant leading groups) what the format says: seven bits at a time.
\<close>

theorem sqlite3GetVarint_reference: "sqlite3GetVarint p = varint_decode 0 0 p"
  by (rule sqlite3GetVarint_eq_decode)

lemma u64_fits_u32: "v AND 0xffffffff = v \<longleftrightarrow> unat v < 2 ^ 32" for v :: u64
proof -
  have "v AND 0xffffffff = take_bit 32 v" by (simp add: take_bit_eq_mask mask_numeral)
  moreover have "take_bit 32 v = v \<longleftrightarrow> unat (take_bit 32 v) = unat v"
    by (simp only: word_unat_eq_iff)
  moreover have "unat (take_bit 32 v) = unat v \<longleftrightarrow> unat v < 2 ^ 32"
    by (simp only: unsigned_take_bit_eq take_bit_nat_eq_self_iff)
  ultimately show ?thesis by simp
qed

lemma u64_of_u32: "unat (ucast w :: u64) < 4294967296 \<and> ucast (ucast w :: u64) = w" for w :: u32
proof
  show "unat (ucast w :: u64) < 4294967296"
  proof -
    have "unat w < 2 ^ LENGTH(32)" by (rule unsigned_less)
    then show ?thesis by (simp add: unsigned_ucast_eq take_bit_nat_eq_self)
  qed
  show "ucast (ucast w :: u64) = w" by (rule u32_eqI) (simp add: bit_simps)
qed

lemma two_byte_varint:
  "push_bit 7 (ucast (p0 AND 0x7f)) OR ucast p1
     = (ucast (push_bit 7 (ucast (p0 AND 0x7f)) OR ucast p1 :: u32) :: u64)" for p0 p1 :: u8
  by (rule u64_eqI) (simp add: bit_simps)

lemma three_byte_varint:
  "push_bit 7 (push_bit 7 (ucast (p0 AND 0x7f)) OR ucast (p1 AND 0x7f)) OR ucast p2
     = (ucast (push_bit 14 (ucast (p0 AND 0x7f)) OR push_bit 7 (ucast (p1 AND 0x7f)) OR ucast p2 :: u32) :: u64)"
  for p0 p1 p2 :: u8
  by (rule u64_eqI) (simp add: bit_simps)

lemma getVarint32_eq:
  assumes "sqlite3GetVarint p = Some (n, v)"
  shows "getVarint32 p = Some (n, if unat v < 2 ^ 32 then ucast v else 0xffffffff)"
proof -
  from assms have dec: "varint_decode 0 0 p = Some (n, v)" by (simp only: sqlite3GetVarint_eq_decode)
  then obtain p0 p' where p: "p = p0 # p'" by (cases p) simp_all
  consider "\<not> bit p0 7" | p1 p'' where "bit p0 7" "p' = p1 # p''" "\<not> bit p1 7"
    | p1 p2 p3 where "bit p0 7" "p' = p1 # p2 # p3" "bit p1 7" "\<not> bit p2 7"
    | p1 p2 p3 where "bit p0 7" "p' = p1 # p2 # p3" "bit p1 7" "bit p2 7"
    using dec p by (cases p'; cases "tl p'"; fastforce simp: top_bit split: if_splits)
  then show ?thesis
  proof cases
    case 1
    have "(ucast p0 :: u64) = ucast (ucast p0 :: u32)" by (rule u64_eqI) (simp add: bit_simps)
    with 1 dec p have "n = 1" "v = ucast (ucast p0 :: u32)" by (simp_all add: top_bit)
    with 1 p show ?thesis by (simp add: getVarint32_def top_bit u64_of_u32)
  next
    case (2 p1 p'')
    with dec p have "n = 2" "v = push_bit 7 (ucast (p0 AND 0x7f)) OR ucast p1"
      by (simp_all add: top_bit)
    with 2 p show ?thesis
      by (simp only: two_byte_varint) (simp add: getVarint32_def sqlite3GetVarint32_def top_bit u64_of_u32)
  next
    case (3 p1 p2 p3)
    with dec p have "n = 3" "v = push_bit 7 (push_bit 7 (ucast (p0 AND 0x7f)) OR ucast (p1 AND 0x7f)) OR ucast p2"
      by (simp_all add: top_bit)
    with 3 p show ?thesis
      by (simp only: three_byte_varint) (simp add: getVarint32_def sqlite3GetVarint32_def top_bit u64_of_u32)
  next
    case (4 p1 p2 p3)
    with p assms show ?thesis
      by (simp add: getVarint32_def sqlite3GetVarint32_def top_bit u64_fits_u32)
  qed
qed

text \<open>
  C3. The 32-bit reader agrees with the 64-bit one on the number of bytes and on the value,
  and reads a value that does not fit in 32 bits as \<open>0xffffffff\<close>.
\<close>

theorem getVarint32_saturates:
  assumes "sqlite3GetVarint p = Some (n, v)"
  shows "getVarint32 p = Some (n, if unat v < 2 ^ 32 then ucast v else 0xffffffff)"
  using assms by (rule getVarint32_eq)

theorem getVarint32_saturates_witness:
  "sqlite3GetVarint [0x90, 0x80, 0x80, 0x80, 0x00] = Some (5, 2 ^ 32)
   \<and> getVarint32 [0x90, 0x80, 0x80, 0x80, 0x00] = Some (5, 0xffffffff)"
proof -
  have v: "sqlite3GetVarint [0x90, 0x80, 0x80, 0x80, 0x00] = Some (5, 2 ^ 32)"
    by (simp add: sqlite3GetVarint_eq_decode)
  from getVarint32_saturates [OF v] v show ?thesis by simp
qed

text \<open>
  \<open>sqlite3VarintLen\<close> is the number of bytes the writer stores for every value below
  \<open>2^63\<close>; from \<open>2^63\<close> on it counts a tenth group, although a varint never takes more
  than nine bytes.
\<close>

theorem sqlite3VarintLen_exact:
  "\<exists>q n. sqlite3PutVarint (replicate 9 0) v = Some (q, n) \<and>
     sqlite3VarintLen v = (if unat v < 2 ^ 63 then n else Suc n)"
proof -
  have put: "sqlite3PutVarint (replicate 9 0) v
      = Some (varint_bytes v @ drop (length (varint_bytes v)) (replicate 9 0), length (varint_bytes v))"
    using length_varint_bytes_bounds [of v] by (intro sqlite3PutVarint_eq) simp
  have "unat v < 2 ^ (7 * Suc 9)"
  proof -
    have "unat v < 2 ^ LENGTH(64)" by (rule unsigned_less)
    then show ?thesis by simp
  qed
  then have "length (putVarint64_buf v) \<le> 10"
    using length_putVarint64_buf_le [of v 9] by simp
  moreover have "length (putVarint64_buf v) \<le> 9 \<longleftrightarrow> unat v < 2 ^ 63"
    using length_putVarint64_buf_le [of v 8] by simp
  moreover have "length (putVarint64_buf v) \<le> 8 \<longleftrightarrow> unat v < 2 ^ 56"
    using length_putVarint64_buf_le [of v 7] by simp
  ultimately have "sqlite3VarintLen v
      = (if unat v < 2 ^ 63 then length (varint_bytes v) else Suc (length (varint_bytes v)))"
    by (auto simp: sqlite3VarintLen_eq length_varint_bytes)
  with put show ?thesis by blast
qed

lemma bswap32_load:
  "bswap32 (ucast p0 OR push_bit 8 (ucast p1) OR push_bit 16 (ucast p2) OR push_bit 24 (ucast p3))
     = push_bit 24 (ucast p0) OR push_bit 16 (ucast p1) OR push_bit 8 (ucast p2) OR ucast p3"
  for p0 p1 p2 p3 :: u8
  unfolding bswap32_def by (rule u32_eqI) (simp add: bit_simps)

lemma sqlite3Get4byte_eq: "sqlite3Get4byte p = sqlite3Get4byte_portable p"
  unfolding sqlite3Get4byte_def sqlite3Get4byte_portable_def load_le32_def
  by (simp only: bind_assoc bind.bind_lunit bswap32_load)

lemma bswap32_bytes:
  "(ucast (bswap32 v) :: u8) = ucast (drop_bit 24 v)"
  "(ucast (drop_bit 8 (bswap32 v)) :: u8) = ucast (drop_bit 16 v)"
  "(ucast (drop_bit 16 (bswap32 v)) :: u8) = ucast (drop_bit 8 v)"
  "(ucast (drop_bit 24 (bswap32 v)) :: u8) = ucast v"
  unfolding bswap32_def by (rule u8_eqI, simp add: bit_simps)+

definition be32 :: "u32 \<Rightarrow> u8 list" where
  "be32 v = [ucast (drop_bit 24 v), ucast (drop_bit 16 v), ucast (drop_bit 8 v), ucast v]"

lemma length_be32 [simp]: "length (be32 v) = 4"
  by (simp add: be32_def)

lemma sqlite3Put4byte_wrs: "sqlite3Put4byte p v = wrs p 0 (be32 v)"
  by (simp only: sqlite3Put4byte_def store_le32_def bswap32_bytes be32_def)

lemma sqlite3Put4byte_portable_wrs: "sqlite3Put4byte_portable p v = wrs p 0 (be32 v)"
  by (simp add: sqlite3Put4byte_portable_def be32_def numeral_2_eq_2 numeral_3_eq_3)

lemma be32_join:
  "push_bit 24 (ucast (ucast (drop_bit 24 v) :: u8)) OR push_bit 16 (ucast (ucast (drop_bit 16 v) :: u8))
      OR push_bit 8 (ucast (ucast (drop_bit 8 v) :: u8)) OR ucast (ucast v :: u8) = v" for v :: u32
  by (rule u32_eqI) (simp add: bit_simps)

lemma sqlite3Get4byte_be32 [simp]: "sqlite3Get4byte (be32 v @ xs) = Some v"
  unfolding sqlite3Get4byte_eq sqlite3Get4byte_portable_def be32_def
  by (simp only: append.simps rd_0 rd_Suc rd_numeral One_nat_def pred_numeral_simps
      numeral_2_eq_2 numeral_3_eq_3 bind.bind_lunit be32_join)

interpretation be32: byte_codec be32 "\<lambda>p. map_option (Pair 4) (sqlite3Get4byte p)" "\<lambda>_. True"
  by unfold_locales (simp_all add: be32_def [THEN arg_cong [where f = "\<lambda>l. l = []"]])

text \<open>
  C4. The byte-swapping accessors that a little-endian build selects are the portable
  big-endian ones, and writing then reading returns the value.
\<close>

theorem fourbyte_portable:
  "sqlite3Get4byte p = sqlite3Get4byte_portable p \<and>
   sqlite3Put4byte q v = sqlite3Put4byte_portable q v"
  by (simp only: sqlite3Get4byte_eq sqlite3Put4byte_wrs sqlite3Put4byte_portable_wrs)

theorem fourbyte_roundtrip:
  assumes "4 \<le> length q"
  shows "\<exists>r. sqlite3Put4byte q v = Some r \<and> length r = length q
      \<and> drop 4 r = drop 4 q \<and> sqlite3Get4byte r = Some v"
  using assms by (simp add: sqlite3Put4byte_wrs wrs_eq)

theorem fourbyte_roundtrip_witness:
  "\<exists>r. sqlite3Put4byte [1, 2, 3, 4, 5] 0x12345678 = Some r \<and> sqlite3Get4byte r = Some 0x12345678"
proof -
  have "4 \<le> length [1, 2, 3, 4, 5 :: u8]" by simp
  from fourbyte_roundtrip [OF this, of "0x12345678"] show ?thesis by blast
qed

end
