(* ===== verification/Wal_Codec.thy ===== *)
theory Wal_Codec
  imports Util_Varint
begin

text \<open>
  The write-ahead log (\<open>wal.c\<close>): its data structures, the checksum and the codec of frame
  headers. The program is modelled on a little-endian machine, where a \<open>u32\<close> of a buffer is
  \<open>load_le32\<close>. Salts are kept as the eight bytes that the code copies with \<open>memcpy\<close>.
\<close>

unbundle bit_operations_syntax

subsection \<open>Constants and structures\<close>

definition SQLITE_BIGENDIAN :: u8 where "SQLITE_BIGENDIAN = 0"
definition WAL_MAX_VERSION :: u32 where "WAL_MAX_VERSION = 3007000"
definition WALINDEX_MAX_VERSION :: u32 where "WALINDEX_MAX_VERSION = 3007000"
definition WAL_FRAME_HDRSIZE :: nat where "WAL_FRAME_HDRSIZE = 24"
definition WAL_HDRSIZE :: nat where "WAL_HDRSIZE = 32"
definition WAL_MAGIC :: u32 where "WAL_MAGIC = 0x377f0682"

record WalIndexHdr =
  iVersion :: u32
  unused :: u32
  iChange :: u32
  isInit :: u8
  bigEndCksum :: u8
  h_szPage :: u16
  mxFrame :: u32
  nPage :: u32
  aFrameCksum :: "u32 \<times> u32"
  aSalt :: "u8 list"
  h_aCksum :: "u32 \<times> u32"

text \<open>A 32KB page of the wal-index without its header: page numbers, then hash slots.\<close>

record wi_page =
  aPgno :: "u32 list"
  aHash :: "u16 list"

record WalCkptInfo =
  nBackfill :: u32
  aReadMark :: "u32 list"
  nBackfillAttempted :: u32

text \<open>
  A connection, with the memory it shares: the regions of the wal-index (\<open>wi\<close>), the two copies of the
  header and the checkpoint information at the start of the first region. \<open>apWiData[i]\<close> is set when
  \<open>mapped i\<close>.
\<close>

record Wal =
  wi :: "nat \<Rightarrow> wi_page"
  aHdr :: "WalIndexHdr \<times> WalIndexHdr"
  ckptInfo :: WalCkptInfo
  mapped :: "nat \<Rightarrow> bool"
  nWiData :: nat
  szPage :: u32
  readLock :: int
  exclusiveMode :: nat
  writeLock :: bool
  ckptLock :: bool
  readOnly :: u8
  bShmUnreliable :: bool
  hdr :: WalIndexHdr
  minFrame :: u32
  iReCksum :: u32
  nCkpt :: u32

subsection \<open>Checksums\<close>

definition BYTESWAP32 :: "u32 \<Rightarrow> u32" where
  "BYTESWAP32 x = push_bit 24 (x AND 0x000000FF) + push_bit 8 (x AND 0x0000FF00)
     + drop_bit 8 (x AND 0x00FF0000) + drop_bit 24 (x AND 0xFF000000)"

text \<open>\<open>s1 += *aData++ + s2; s2 += *aData++ + s1;\<close>\<close>

definition cksum_pair :: "u8 list \<times> u32 \<times> u32 \<Rightarrow> (u8 list \<times> u32 \<times> u32) option" where
  "cksum_pair = (\<lambda>(aData, s1, s2). do {
     x \<leftarrow> load_le32 aData;
     let s1 = s1 + (x + s2);
     y \<leftarrow> load_le32 (drop 4 aData);
     let s2 = s2 + (y + s1);
     Some (drop 8 aData, s1, s2) })"

definition cksum_swapped_pair :: "u8 list \<times> u32 \<times> u32 \<Rightarrow> (u8 list \<times> u32 \<times> u32) option" where
  "cksum_swapped_pair = (\<lambda>(aData, s1, s2). do {
     x \<leftarrow> load_le32 aData;
     let s1 = s1 + (BYTESWAP32 x + s2);
     y \<leftarrow> load_le32 (drop 4 aData);
     let s2 = s2 + (BYTESWAP32 y + s1);
     Some (drop 8 aData, s1, s2) })"

definition cksum_pair8 :: "u8 list \<times> u32 \<times> u32 \<Rightarrow> (u8 list \<times> u32 \<times> u32) option" where
  "cksum_pair8 s = do {
     s \<leftarrow> cksum_pair s; s \<leftarrow> cksum_pair s; s \<leftarrow> cksum_pair s; s \<leftarrow> cksum_pair s;
     s \<leftarrow> cksum_pair s; s \<leftarrow> cksum_pair s; s \<leftarrow> cksum_pair s; cksum_pair s }"

text \<open>\<open>do { body } while( aData<aEnd )\<close>, at most \<open>n\<close> rounds.\<close>

fun cksum_loop :: "nat \<Rightarrow> (u8 list \<times> u32 \<times> u32 \<Rightarrow> (u8 list \<times> u32 \<times> u32) option) \<Rightarrow>
    u8 list \<times> u32 \<times> u32 \<Rightarrow> (u32 \<times> u32) option" where
  "cksum_loop 0 body s = None"
| "cksum_loop (Suc n) body s = do {
     s \<leftarrow> body s;
     if fst s \<noteq> [] then cksum_loop n body s else Some (snd s) }"

definition walChecksumBytes :: "bool \<Rightarrow> u8 list \<Rightarrow> (u32 \<times> u32) option \<Rightarrow> (u32 \<times> u32) option" where
  "walChecksumBytes nativeCksum a aIn =
     (let s = (a, case aIn of Some s \<Rightarrow> s | None \<Rightarrow> (0, 0)); n = length a in
      if \<not> nativeCksum then cksum_loop n cksum_swapped_pair s
      else if length a mod 64 = 0 then cksum_loop n cksum_pair8 s
      else cksum_loop n cksum_pair s)"

subsection \<open>Frame headers\<close>

text \<open>\<open>memcpy(&aFrame[i], p, \<dots>)\<close> is \<open>wrs\<close>; \<open>put4 p i v\<close> is \<open>sqlite3Put4byte(&p[i], v)\<close>.\<close>

definition put4 :: "u8 list \<Rightarrow> nat \<Rightarrow> u32 \<Rightarrow> u8 list option" where
  "put4 p i v = do { q \<leftarrow> sqlite3Put4byte (drop i p) v; Some (take i p @ q) }"

definition get4 :: "u8 list \<Rightarrow> nat \<Rightarrow> u32 option" where
  "get4 p i = sqlite3Get4byte (drop i p)"

definition walEncodeFrame :: "Wal \<Rightarrow> u32 \<Rightarrow> u32 \<Rightarrow> u8 list \<Rightarrow> u8 list \<Rightarrow> (Wal \<times> u8 list) option" where
  "walEncodeFrame pWal iPage nTruncate aData aFrame = do {
     aFrame \<leftarrow> put4 aFrame 0 iPage;
     aFrame \<leftarrow> put4 aFrame 4 nTruncate;
     if iReCksum pWal = 0 then do {
       aFrame \<leftarrow> wrs aFrame 8 (aSalt (hdr pWal));
       let nativeCksum = (bigEndCksum (hdr pWal) = SQLITE_BIGENDIAN);
       aCksum \<leftarrow> walChecksumBytes nativeCksum (take 8 aFrame) (Some (aFrameCksum (hdr pWal)));
       aCksum \<leftarrow> walChecksumBytes nativeCksum (take (unat (szPage pWal)) aData) (Some aCksum);
       let pWal = pWal \<lparr>hdr := (hdr pWal) \<lparr>aFrameCksum := aCksum\<rparr>\<rparr>;
       aFrame \<leftarrow> put4 aFrame 16 (fst aCksum);
       aFrame \<leftarrow> put4 aFrame 20 (snd aCksum);
       Some (pWal, aFrame) }
     else do {
       aFrame \<leftarrow> wrs aFrame 8 (replicate 16 0);
       Some (pWal, aFrame) } }"

text \<open>\<open>Inl\<close> for a frame that is not valid, \<open>Inr\<close> its page and size fields.\<close>

definition walDecodeFrame :: "Wal \<Rightarrow> u8 list \<Rightarrow> u8 list \<Rightarrow> (Wal \<times> (u32 \<times> u32) option) option" where
  "walDecodeFrame pWal aData aFrame =
     (if take 8 (drop 8 aFrame) \<noteq> aSalt (hdr pWal) then Some (pWal, None)
      else do {
        pgno \<leftarrow> get4 aFrame 0;
        if pgno = 0 then Some (pWal, None)
        else if szPage pWal = 0 then Some (pWal, None)
        else do {
          let nativeCksum = (bigEndCksum (hdr pWal) = SQLITE_BIGENDIAN);
          aCksum \<leftarrow> walChecksumBytes nativeCksum (take 8 aFrame) (Some (aFrameCksum (hdr pWal)));
          aCksum \<leftarrow> walChecksumBytes nativeCksum (take (unat (szPage pWal)) aData) (Some aCksum);
          let pWal = pWal \<lparr>hdr := (hdr pWal) \<lparr>aFrameCksum := aCksum\<rparr>\<rparr>;
          c0 \<leftarrow> get4 aFrame 16;
          c1 \<leftarrow> get4 aFrame 20;
          if fst aCksum \<noteq> c0 \<or> snd aCksum \<noteq> c1 then Some (pWal, None)
          else do {
            nTruncate \<leftarrow> get4 aFrame 4;
            Some (pWal, Some (pgno, nTruncate)) } } })"

subsection \<open>Headers of the log and of its index\<close>

definition le32 :: "u32 \<Rightarrow> u8 list" where
  "le32 x = [ucast x, ucast (drop_bit 8 x), ucast (drop_bit 16 x), ucast (drop_bit 24 x)]"

text \<open>The first 40 bytes of a \<open>WalIndexHdr\<close> in memory.\<close>

definition hdr_bytes :: "WalIndexHdr \<Rightarrow> u8 list" where
  "hdr_bytes h = le32 (iVersion h) @ le32 (unused h) @ le32 (iChange h) @ [isInit h, bigEndCksum h]
     @ [ucast (h_szPage h), ucast (drop_bit 8 (h_szPage h))] @ le32 (mxFrame h) @ le32 (nPage h)
     @ le32 (fst (aFrameCksum h)) @ le32 (snd (aFrameCksum h)) @ aSalt h"

definition walIndexWriteHdr :: "Wal \<Rightarrow> Wal option" where
  "walIndexWriteHdr pWal = do {
     let h = (hdr pWal) \<lparr>isInit := 1, iVersion := WALINDEX_MAX_VERSION\<rparr>;
     c \<leftarrow> walChecksumBytes True (hdr_bytes h) None;
     let h = h \<lparr>h_aCksum := c\<rparr>;
     Some (pWal \<lparr>hdr := h, aHdr := (h, h)\<rparr>) }"

text \<open>\<open>walIndexTryHdr\<close>: 1 when there is a problem; the second component is \<open>*pChanged\<close>.\<close>

definition walIndexTryHdr :: "Wal \<Rightarrow> bool \<Rightarrow> (nat \<times> bool \<times> Wal) option" where
  "walIndexTryHdr pWal pChanged =
     (let (h1, h2) = aHdr pWal in
      if h1 \<noteq> h2 then Some (1, pChanged, pWal)
      else if isInit h1 = 0 then Some (1, pChanged, pWal)
      else do {
        c \<leftarrow> walChecksumBytes True (hdr_bytes h1) None;
        if fst c \<noteq> fst (h_aCksum h1) \<or> snd c \<noteq> snd (h_aCksum h1) then Some (1, pChanged, pWal)
        else if hdr pWal \<noteq> h1 then
          Some (0, True, pWal \<lparr>hdr := h1,
            szPage := ucast (h_szPage h1 AND 0xfe00) + push_bit 16 (ucast (h_szPage h1 AND 0x0001))\<rparr>)
        else Some (0, pChanged, pWal) })"

subsection \<open>The checksum\<close>

text \<open>The sum that the file format documents, over 32-bit words in either byte order.\<close>

definition word4 :: "bool \<Rightarrow> u8 list \<Rightarrow> u32" where
  "word4 native a =
     (if native then ucast (a ! 0) OR push_bit 8 (ucast (a ! 1)) OR push_bit 16 (ucast (a ! 2)) OR push_bit 24 (ucast (a ! 3))
      else push_bit 24 (ucast (a ! 0)) OR push_bit 16 (ucast (a ! 1)) OR push_bit 8 (ucast (a ! 2)) OR ucast (a ! 3))"

fun words :: "bool \<Rightarrow> nat \<Rightarrow> u8 list \<Rightarrow> u32 list" where
  "words native 0 a = []"
| "words native (Suc n) a = word4 native a # words native n (drop 4 a)"

fun cksum_sum :: "u32 list \<Rightarrow> u32 \<times> u32 \<Rightarrow> u32 \<times> u32" where
  "cksum_sum (x # y # ws) (s1, s2) = cksum_sum ws (s1 + x + s2, s2 + y + (s1 + x + s2))"
| "cksum_sum ws s = s"

definition cksum :: "bool \<Rightarrow> u8 list \<Rightarrow> u32 \<times> u32 \<Rightarrow> u32 \<times> u32" where
  "cksum native a = cksum_sum (words native (length a div 4) a)"

lemma cksum_Nil [simp]: "cksum native [] s = s"
  by (simp add: cksum_def)

lemma load_le32_word4: "4 \<le> length a \<Longrightarrow> load_le32 a = Some (word4 True a)"
  by (auto simp: load_le32_def rd_def word4_def)

lemma BYTESWAP32_bswap32: "BYTESWAP32 x = bswap32 x"
proof -
  define a b c d where abcd: "a = push_bit 24 (x AND 0x000000FF)" "b = push_bit 8 (x AND 0x0000FF00)"
    "c = drop_bit 8 (x AND 0x00FF0000)" "d = drop_bit 24 (x AND 0xFF000000)"
  have ab: "a + b = a OR b"
    by (rule disjunctive_add_eq_or, rule u32_eqI) (simp add: abcd bit_simps)
  have abc: "(a OR b) + c = (a OR b) OR c"
    by (rule disjunctive_add_eq_or, rule u32_eqI) (simp add: abcd bit_simps)
  have "((a OR b) OR c) + d = ((a OR b) OR c) OR d"
    by (rule disjunctive_add_eq_or, rule u32_eqI) (simp add: abcd bit_simps)
  then have "BYTESWAP32 x = ((a OR b) OR c) OR d"
    unfolding BYTESWAP32_def abcd [symmetric] by (simp only: ab abc)
  also have "\<dots> = bswap32 x"
    unfolding bswap32_def abcd by (rule u32_eqI) (simp add: bit_simps)
  finally show ?thesis .
qed

lemma BYTESWAP32_word4: "BYTESWAP32 (word4 True a) = word4 False a"
  by (simp add: BYTESWAP32_bswap32 word4_def bswap32_load)

lemma cksum_step:
  assumes "8 \<le> length a"
  shows "cksum native a (s1, s2) = cksum native (drop 8 a)
    (s1 + word4 native a + s2, s2 + word4 native (drop 4 a) + (s1 + word4 native a + s2))"
proof -
  have "length a div 4 = Suc (Suc (length (drop 8 a) div 4))"
    using assms by simp
  then show ?thesis
    unfolding cksum_def by (simp only: words.simps cksum_sum.simps drop_drop) simp
qed

lemma cksum_append:
  assumes "8 dvd length a"
  shows "cksum native (a @ b) s = cksum native b (cksum native a s)"
proof -
  obtain n where "length a = 8 * n" using assms by blast
  then show ?thesis
  proof (induction n arbitrary: a s)
    case (Suc n)
    obtain s1 s2 where s: "s = (s1, s2)" by fastforce
    have w: "word4 native (drop i (a @ b)) = word4 native (drop i a)" if "i + 4 \<le> length a" for i
      using that by (auto simp: word4_def nth_append)
    have "word4 native (a @ b) = word4 native a" using w [of 0] Suc.prems by simp
    moreover have "word4 native (drop 4 (a @ b)) = word4 native (drop 4 a)" using w [of 4] Suc.prems by simp
    moreover have "drop 8 (a @ b) = drop 8 a @ b" using Suc.prems by simp
    ultimately show ?case
      using Suc.prems by (simp only: s cksum_step length_append) (simp add: cksum_step Suc.IH)
  qed simp
qed

lemma word4_take:
  "4 \<le> n \<Longrightarrow> word4 native (take n a) = word4 native a"
  "i + 4 \<le> n \<Longrightarrow> word4 native (drop i (take n a)) = word4 native (drop i a)"
  "i + 4 \<le> n \<Longrightarrow> word4 native (take (n - i) (drop i a)) = word4 native (drop i a)"
  by (simp_all add: word4_def drop_take)

lemma cksum_pair_eq:
  "8 \<le> length a \<Longrightarrow> cksum_pair (a, s) = Some (drop 8 a, cksum True (take 8 a) s)"
  by (cases s) (simp add: cksum_pair_def load_le32_word4 cksum_step word4_take add.assoc)

lemma cksum_swapped_pair_eq:
  "8 \<le> length a \<Longrightarrow> cksum_swapped_pair (a, s) = Some (drop 8 a, cksum False (take 8 a) s)"
  by (cases s) (simp add: cksum_swapped_pair_def load_le32_word4 BYTESWAP32_word4 cksum_step word4_take add.assoc)

lemma cksum_take_drop:
  assumes "8 dvd n" "n \<le> length a"
  shows "cksum native (drop n a) (cksum native (take n a) s) = cksum native a s"
  using cksum_append [of "take n a" native "drop n a" s] assms by simp

lemma cksum_pair8_eq:
  assumes "64 \<le> length a"
  shows "cksum_pair8 (a, s) = Some (drop 64 a, cksum True (take 64 a) s)"
proof -
  have split: "cksum True (take (8 + n) b) t = cksum True (take n (drop 8 b)) (cksum True (take 8 b) t)"
    if "8 + n \<le> length b" for n t b
    using cksum_append [of "take 8 b" True "take n (drop 8 b)" t] that by (simp add: take_add)
  show ?thesis
    using assms split [of 56 a] split [of 48 "drop 8 a"] split [of 40 "drop 16 a"] split [of 32 "drop 24 a"]
      split [of 24 "drop 32 a"] split [of 16 "drop 40 a"] split [of 8 "drop 48 a"]
    by (simp add: cksum_pair8_def cksum_pair_eq)
qed

text \<open>Any loop body that sums the next \<open>k\<close> bytes gives the sum of all of them.\<close>

lemma cksum_loop_eq:
  assumes body: "\<And>a s. k \<le> length a \<Longrightarrow> body (a, s) = Some (drop k a, cksum native (take k a) s)"
    and k: "8 dvd k" "0 < k" and a: "k dvd length a" "a \<noteq> []" "length a \<le> n"
  shows "cksum_loop n body (a, s) = Some (cksum native a s)"
  using a
proof (induction n arbitrary: a s)
  case (Suc n)
  then have le: "k \<le> length a" by (simp add: dvd_imp_le)
  show ?case
  proof (cases "drop k a = []")
    case True
    with le have "take k a = a" by simp
    with True show ?thesis by (simp add: body le)
  next
    case False
    have "k dvd length (drop k a)" using Suc.prems(1) le by simp
    moreover have "length (drop k a) \<le> n" using Suc.prems k by simp
    ultimately have "cksum_loop n body (drop k a, cksum native (take k a) s)
        = Some (cksum native (drop k a) (cksum native (take k a) s))"
      using False by (intro Suc.IH)
    with False show ?thesis by (simp add: body le cksum_take_drop k)
  qed
qed simp

text \<open>
  The three loops of \<open>walChecksumBytes\<close> (swapped, unrolled eight times, plain) compute one sum, over words
  of the order asked for.
\<close>

theorem walChecksumBytes_reference:
  assumes "8 dvd length a" "a \<noteq> []"
  shows "walChecksumBytes native a aIn = Some (cksum native a (case aIn of Some s \<Rightarrow> s | None \<Rightarrow> (0, 0)))"
proof -
  have "64 dvd length a" if "length a mod 64 = 0" using that by presburger
  then show ?thesis
    using assms
      cksum_loop_eq [of 8 cksum_swapped_pair False a "length a", OF cksum_swapped_pair_eq]
      cksum_loop_eq [of 8 cksum_pair True a "length a", OF cksum_pair_eq]
      cksum_loop_eq [of 64 cksum_pair8 True a "length a", OF cksum_pair8_eq]
    by (simp add: walChecksumBytes_def Let_def)
qed

subsection \<open>Frames\<close>

lemma put4_eq: "i + 4 \<le> length p \<Longrightarrow> put4 p i v = Some (take i p @ be32 v @ drop (i + 4) p)"
  by (simp add: put4_def sqlite3Put4byte_wrs wrs_eq add.commute)

lemma get4_word4: "i + 4 \<le> length p \<Longrightarrow> get4 p i = Some (word4 False (drop i p))"
  by (simp add: get4_def sqlite3Get4byte_eq sqlite3Get4byte_portable_def rd_def word4_def)

lemma word4_be32 [simp]: "word4 False (be32 v @ xs) = v"
  using be32_join [of v] by (simp add: word4_def be32_def)

lemma get4_be32: "get4 (xs @ be32 v @ ys) (length xs) = Some v"
  by (simp add: get4_def)

lemma be32_word4: "4 \<le> length a \<Longrightarrow> be32 (word4 False a) = take 4 a"
proof -
  assume "4 \<le> length a"
  then obtain p q r s xs where a: "a = p # q # r # s # xs"
    by (auto simp: Suc_le_length_iff eval_nat_numeral)
  have "be32 (word4 False (p # q # r # s # xs)) = [p, q, r, s]"
    unfolding be32_def word4_def list.inject
    by (intro conjI refl; rule u8_eqI; simp add: bit_simps)
  with a show ?thesis by simp
qed

text \<open>The header of a frame, and the checksum up to its end.\<close>

definition frame_cksum :: "Wal \<Rightarrow> u32 \<Rightarrow> u32 \<Rightarrow> u8 list \<Rightarrow> u32 \<times> u32" where
  "frame_cksum w pg t d =
     (let n = (bigEndCksum (hdr w) = SQLITE_BIGENDIAN) in
      cksum n (take (unat (szPage w)) d) (cksum n (be32 pg @ be32 t) (aFrameCksum (hdr w))))"

definition frame_hdr :: "Wal \<Rightarrow> u32 \<Rightarrow> u32 \<Rightarrow> u8 list \<Rightarrow> u8 list" where
  "frame_hdr w pg t d = be32 pg @ be32 t @ aSalt (hdr w)
     @ be32 (fst (frame_cksum w pg t d)) @ be32 (snd (frame_cksum w pg t d))"

definition set_cksum :: "u32 \<times> u32 \<Rightarrow> Wal \<Rightarrow> Wal" where
  "set_cksum c w = w \<lparr>hdr := (hdr w) \<lparr>aFrameCksum := c\<rparr>\<rparr>"

text \<open>A connection whose page size and salts are set.\<close>

definition wal_sized :: "Wal \<Rightarrow> bool" where
  "wal_sized w \<longleftrightarrow> length (aSalt (hdr w)) = 8 \<and> 8 dvd unat (szPage w) \<and> szPage w \<noteq> 0"

lemma wal_sized_pos: "wal_sized w \<Longrightarrow> 8 \<le> unat (szPage w)"
  by (simp add: wal_sized_def dvd_imp_le unat_gt_0)

lemma wal_sized_set_cksum [simp]: "wal_sized (set_cksum c w) = wal_sized w"
  by (simp add: wal_sized_def set_cksum_def)

lemma length_frame_hdr: "wal_sized w \<Longrightarrow> length (frame_hdr w pg t d) = WAL_FRAME_HDRSIZE"
  by (simp add: frame_hdr_def wal_sized_def WAL_FRAME_HDRSIZE_def)

lemma frame_cksums:
  assumes "wal_sized w" "unat (szPage w) \<le> length d"
  defines "n \<equiv> bigEndCksum (hdr w) = SQLITE_BIGENDIAN"
  shows "walChecksumBytes n (be32 pg @ be32 t) (Some (aFrameCksum (hdr w)))
      = Some (cksum n (be32 pg @ be32 t) (aFrameCksum (hdr w)))"
    and "walChecksumBytes n (take (unat (szPage w)) d) (Some (cksum n (be32 pg @ be32 t) (aFrameCksum (hdr w))))
      = Some (frame_cksum w pg t d)"
proof -
  show "walChecksumBytes n (be32 pg @ be32 t) (Some (aFrameCksum (hdr w)))
      = Some (cksum n (be32 pg @ be32 t) (aFrameCksum (hdr w)))"
    by (subst walChecksumBytes_reference) (simp_all flip: length_0_conv)
  have "8 \<le> unat (szPage w)" using assms by (simp add: wal_sized_pos)
  then show "walChecksumBytes n (take (unat (szPage w)) d) (Some (cksum n (be32 pg @ be32 t) (aFrameCksum (hdr w))))
      = Some (frame_cksum w pg t d)"
    using assms by (subst walChecksumBytes_reference) (auto simp: wal_sized_def frame_cksum_def min_def Let_def)
qed

lemma walEncodeFrame_eq:
  assumes "wal_sized w" "unat (szPage w) \<le> length d" "iReCksum w = 0" "length buf = WAL_FRAME_HDRSIZE"
  shows "walEncodeFrame w pg t d buf = Some (set_cksum (frame_cksum w pg t d) w, frame_hdr w pg t d)"
proof -
  have buf: "length buf = 24" using assms(4) by (simp add: WAL_FRAME_HDRSIZE_def)
  have salt: "length (aSalt (hdr w)) = 8" using assms(1) by (simp add: wal_sized_def)
  show ?thesis
    using buf salt assms(3)
    by (simp add: walEncodeFrame_def put4_eq wrs_eq frame_cksums [OF assms(1,2)] Let_def
        frame_hdr_def set_cksum_def)
qed

lemma walDecodeFrame_eq:
  assumes "wal_sized w" "unat (szPage w) \<le> length d" "pg \<noteq> 0"
  shows "walDecodeFrame w d (frame_hdr w pg t d)
    = Some (set_cksum (frame_cksum w pg t d) w, Some (pg, t))"
proof -
  have salt: "length (aSalt (hdr w)) = 8" using assms(1) by (simp add: wal_sized_def)
  have sz: "szPage w \<noteq> 0" using assms(1) by (simp add: wal_sized_def)
  note g = get4_be32 [of "[]", simplified] get4_be32 [of "be32 pg"] 
    get4_be32 [of "be32 pg @ be32 t @ aSalt (hdr w)"]
    get4_be32 [of "be32 pg @ be32 t @ aSalt (hdr w) @ be32 (fst (frame_cksum w pg t d))" _ "[]"]
  show ?thesis
    using assms(3) salt sz g
    by (simp add: walDecodeFrame_def frame_hdr_def frame_cksums [OF assms(1,2)] Let_def set_cksum_def)
qed

lemma walDecodeFrame_sound:
  assumes "wal_sized w" "unat (szPage w) \<le> length d" "length g = WAL_FRAME_HDRSIZE"
    and dec: "walDecodeFrame w d g = Some (w', Some (pg, t))"
  shows "g = frame_hdr w pg t d \<and> pg \<noteq> 0"
proof -
  have len: "length g = 24" using assms(3) by (simp add: WAL_FRAME_HDRSIZE_def)
  define f where "f = (\<lambda>i. word4 False (drop i g))"
  have get: "get4 g 0 = Some (f 0)" "get4 g 4 = Some (f 4)" "get4 g 16 = Some (f 16)" "get4 g 20 = Some (f 20)"
    using len by (simp_all add: get4_word4 f_def)
  have be: "be32 (f i) = take 4 (drop i g)" if "i + 4 \<le> 24" for i
    using that len by (simp add: f_def be32_word4)
  have eight: "take 8 g = be32 (f 0) @ be32 (f 4)"
    using take_add [of 4 4 g] by (simp add: be)
  note [simp] = eight get
  from dec frame_cksums [OF assms(1,2), of "f 0" "f 4"]
  have r: "take 8 (drop 8 g) = aSalt (hdr w)" "pg = f 0" "t = f 4" "pg \<noteq> 0"
    "f 16 = fst (frame_cksum w (f 0) (f 4) d)" "f 20 = snd (frame_cksum w (f 0) (f 4) d)"
    by (auto simp: walDecodeFrame_def Let_def split: if_splits)
  have "g = take 8 g @ take 8 (drop 8 g) @ take 4 (drop 16 g) @ take 4 (drop 20 g)"
    using len take_add [of 16 4 g] take_add [of 20 4 g] take_add [of 8 8 g] by simp
  also have "\<dots> = frame_hdr w pg t d"
    using r be [of 16] be [of 20] by (simp add: frame_hdr_def)
  finally show ?thesis using r by simp
qed

text \<open>
  C37. A frame header that \<open>walEncodeFrame\<close> writes is decoded to the page and the size it was given, with the
  checksum state advanced alike in the writer and the reader; and it is the only header that decodes
  to them in front of that data.
\<close>

theorem wal_frame_roundtrip:
  assumes "wal_sized w" "unat (szPage w) \<le> length aData" "iReCksum w = 0" "length buf = WAL_FRAME_HDRSIZE"
    and "iPage \<noteq> 0"
  shows "\<exists>w' fr. walEncodeFrame w iPage nTruncate aData buf = Some (w', fr) \<and> length fr = WAL_FRAME_HDRSIZE
    \<and> walDecodeFrame w aData fr = Some (w', Some (iPage, nTruncate))
    \<and> (\<forall>g w''. length g = WAL_FRAME_HDRSIZE \<and> walDecodeFrame w aData g = Some (w'', Some (iPage, nTruncate)) \<longrightarrow> g = fr)"
  using walEncodeFrame_eq [OF assms(1-4)] walDecodeFrame_eq [OF assms(1,2,5)]
    walDecodeFrame_sound [OF assms(1,2)] length_frame_hdr [OF assms(1)] by blast

definition no_page :: wi_page where "no_page = \<lparr>aPgno = [], aHash = []\<rparr>"

definition zero_hdr :: WalIndexHdr where
  "zero_hdr = \<lparr>iVersion = 0, unused = 0, iChange = 0, isInit = 0, bigEndCksum = 0, h_szPage = 0, mxFrame = 0,
     nPage = 0, aFrameCksum = (0, 0), aSalt = replicate 8 0, h_aCksum = (0, 0)\<rparr>"

theorem wal_frame_roundtrip_witness:
  "\<exists>w' fr. walEncodeFrame
      \<lparr>wi = \<lambda>_. no_page, aHdr = (zero_hdr, zero_hdr), ckptInfo = \<lparr>nBackfill = 0, aReadMark = [], nBackfillAttempted = 0\<rparr>,
        mapped = \<lambda>_. False, nWiData = 0, szPage = 512, readLock = 0, exclusiveMode = 0, writeLock = True, ckptLock = False, readOnly = 0,
        bShmUnreliable = False, hdr = zero_hdr, minFrame = 1, iReCksum = 0, nCkpt = 0\<rparr>
      7 2 (replicate 512 1) (replicate 24 0) = Some (w', fr) \<and> length fr = WAL_FRAME_HDRSIZE"
  using wal_frame_roundtrip [of "\<lparr>wi = \<lambda>_. no_page, aHdr = (zero_hdr, zero_hdr), ckptInfo = \<lparr>nBackfill = 0, aReadMark = [], nBackfillAttempted = 0\<rparr>,
        mapped = \<lambda>_. False, nWiData = 0, szPage = 512, readLock = 0, exclusiveMode = 0, writeLock = True, ckptLock = False, readOnly = 0,
        bShmUnreliable = False, hdr = zero_hdr, minFrame = 1, iReCksum = 0, nCkpt = 0\<rparr>" "replicate 512 1" "replicate 24 0" 7 2]
  by (fastforce simp: wal_sized_def zero_hdr_def WAL_FRAME_HDRSIZE_def)

end
