(* ===== verification/Wal_Index.thy ===== *)
theory Wal_Index
  imports Wal_Codec
begin

text \<open>
  The wal-index (\<open>wal.c\<close>): for every frame of the log its page number, and for every 4096 of them a
  hash table from page numbers to frames. Frame and table numbers are naturals. Whether memory can be
  mapped or allocated is an argument (\<open>wi_env\<close>); touching memory outside a table is \<open>None\<close>.
  An index that the invariant relates to a list of pages, one per frame, may hold more frames than the
  header says: those of a transaction that is not committed, or that was lost with its writer.
\<close>

unbundle bit_operations_syntax

subsection \<open>Layout\<close>

definition SQLITE_ERROR :: nat where "SQLITE_ERROR = 1"
definition WALINDEX_HDR_SIZE :: nat where "WALINDEX_HDR_SIZE = 48 * 2 + 40"
definition HASHTABLE_NPAGE :: nat where "HASHTABLE_NPAGE = 4096"
definition HASHTABLE_HASH_1 :: u32 where "HASHTABLE_HASH_1 = 383"
definition HASHTABLE_NSLOT :: nat where "HASHTABLE_NSLOT = HASHTABLE_NPAGE * 2"
definition HASHTABLE_NPAGE_ONE :: nat where "HASHTABLE_NPAGE_ONE = HASHTABLE_NPAGE - WALINDEX_HDR_SIZE div 4"
definition WAL_HEAPMEMORY_MODE :: nat where "WAL_HEAPMEMORY_MODE = 2"
definition WAL_SHM_RDONLY :: u8 where "WAL_SHM_RDONLY = 2"
definition WAL_NREADER :: nat where "WAL_NREADER = 8 - 3"
definition READMARK_NOT_USED :: u32 where "READMARK_NOT_USED = 0xffffffff"

text \<open>The entries of \<open>aPgno\<close> in the \<open>i\<close>-th region, from its start to \<open>aHash\<close>.\<close>

definition n_pgno :: "nat \<Rightarrow> nat" where
  "n_pgno i = (if i = 0 then HASHTABLE_NPAGE_ONE else HASHTABLE_NPAGE)"

definition zero_page :: "nat \<Rightarrow> wi_page" where
  "zero_page i = \<lparr>aPgno = replicate (n_pgno i) 0, aHash = replicate HASHTABLE_NSLOT 0\<rparr>"

text \<open>Answers of the allocator, of \<open>xShmMap\<close> (its code, and whether it gave a pointer) and of \<open>sqlite3FaultSim\<close>.\<close>

record wi_env =
  realloc_ok :: bool
  zero_ok :: bool
  xShmMap :: "nat \<Rightarrow> nat \<times> bool"
  faultSim :: bool

text \<open>The third component is \<open>*ppPage != 0\<close>.\<close>

definition walIndexPageRealloc :: "wi_env \<Rightarrow> Wal \<Rightarrow> nat \<Rightarrow> nat \<times> Wal \<times> bool" where
  "walIndexPageRealloc env pWal iPage =
     (if nWiData pWal \<le> iPage \<and> \<not> realloc_ok env then (SQLITE_NOMEM, pWal, False)
      else
        let pWal = (if nWiData pWal \<le> iPage
              then pWal \<lparr>mapped := (\<lambda>i. \<not> (nWiData pWal \<le> i \<and> i \<le> iPage) \<and> mapped pWal i), nWiData := iPage + 1\<rparr>
              else pWal) in
        if exclusiveMode pWal = WAL_HEAPMEMORY_MODE then
          (if zero_ok env
           then (SQLITE_OK,
             (let w = pWal \<lparr>wi := (wi pWal)(iPage := zero_page iPage), mapped := (mapped pWal)(iPage := True)\<rparr> in
              if iPage = 0 then w \<lparr>aHdr := (zero_hdr, zero_hdr),
                ckptInfo := \<lparr>nBackfill = 0, aReadMark = replicate WAL_NREADER 0, nBackfillAttempted = 0\<rparr>\<rparr>
              else w), True)
           else (SQLITE_NOMEM, pWal \<lparr>mapped := (mapped pWal)(iPage := False)\<rparr>, False))
        else
          let (rc, ptr) = xShmMap env iPage;
              pWal = pWal \<lparr>mapped := (mapped pWal)(iPage := ptr)\<rparr>;
              (rc, pWal) =
                (if rc = SQLITE_OK then (if iPage > 0 \<and> faultSim env then SQLITE_NOMEM else rc, pWal)
                 else if rc AND 0xff = SQLITE_READONLY then
                   (if rc = SQLITE_READONLY then SQLITE_OK else rc, pWal \<lparr>readOnly := readOnly pWal OR WAL_SHM_RDONLY\<rparr>)
                 else (rc, pWal)) in
          (rc, pWal, ptr))"

definition walIndexPage :: "wi_env \<Rightarrow> Wal \<Rightarrow> nat \<Rightarrow> nat \<times> Wal \<times> bool" where
  "walIndexPage env pWal iPage =
     (if nWiData pWal \<le> iPage \<or> \<not> mapped pWal iPage then walIndexPageRealloc env pWal iPage
      else (SQLITE_OK, pWal, True))"

definition walHash :: "u32 \<Rightarrow> nat" where
  "walHash iPage = unat ((iPage * HASHTABLE_HASH_1) AND (of_nat HASHTABLE_NSLOT - 1))"

definition walNextHash :: "nat \<Rightarrow> nat" where
  "walNextHash iPriorHash = (iPriorHash + 1) AND (HASHTABLE_NSLOT - 1)"

text \<open>A \<open>WalHashLoc\<close> is a region, whose \<open>aHash\<close> and \<open>aPgno\<close> are its arrays, and \<open>iZero\<close>.\<close>

definition iZero :: "nat \<Rightarrow> nat" where
  "iZero iHash = (if iHash = 0 then 0 else HASHTABLE_NPAGE_ONE + (iHash - 1) * HASHTABLE_NPAGE)"

definition walHashGet :: "wi_env \<Rightarrow> Wal \<Rightarrow> nat \<Rightarrow> nat \<times> Wal \<times> nat" where
  "walHashGet env pWal iHash =
     (let (rc, pWal, ptr) = walIndexPage env pWal iHash in
      (if \<not> ptr \<and> rc = SQLITE_OK then SQLITE_ERROR else rc, pWal, iZero iHash))"

definition walFramePage :: "nat \<Rightarrow> nat" where
  "walFramePage iFrame = ((iFrame + HASHTABLE_NPAGE - HASHTABLE_NPAGE_ONE - 1) mod 2 ^ 32) div HASHTABLE_NPAGE"

text \<open>The code reads \<open>apWiData[iHash]\<close> without a check: \<open>None\<close> where the array ends or the pointer is null.\<close>

definition walFramePgno :: "Wal \<Rightarrow> nat \<Rightarrow> u32 option" where
  "walFramePgno pWal iFrame =
     (let iHash = walFramePage iFrame in
      if nWiData pWal \<le> iHash \<or> \<not> mapped pWal iHash then None
      else if iHash = 0 then rd (aPgno (wi pWal 0)) (iFrame - 1)
      else rd (aPgno (wi pWal iHash)) ((iFrame - 1 - HASHTABLE_NPAGE_ONE) mod HASHTABLE_NPAGE))"

subsection \<open>Cleaning, adding and finding\<close>

text \<open>\<open>memset(&p[i], 0, \<dots>)\<close> to the end of the array.\<close>

definition zero_from :: "nat \<Rightarrow> u32 list \<Rightarrow> u32 list" where
  "zero_from i p = take i p @ replicate (length p - i) 0"

definition walCleanupHash :: "wi_env \<Rightarrow> Wal \<Rightarrow> Wal" where
  "walCleanupHash env pWal =
     (if mxFrame (hdr pWal) = 0 then pWal
      else
        let iHash = walFramePage (unat (mxFrame (hdr pWal)));
            (rc, pWal, iZero) = walHashGet env pWal iHash in
        if rc \<noteq> SQLITE_OK then pWal
        else
          let iLimit = unat (mxFrame (hdr pWal)) - iZero; pg = wi pWal iHash;
              pg = pg \<lparr>aHash := map (\<lambda>s. if unat s > iLimit then 0 else s) (aHash pg)\<rparr>;
              pg = pg \<lparr>aPgno := zero_from iLimit (aPgno pg)\<rparr> in
          pWal \<lparr>wi := (wi pWal)(iHash := pg)\<rparr>)"

text \<open>The search for a free slot. \<open>Some None\<close> is \<open>SQLITE_CORRUPT\<close>.\<close>

fun append_probe :: "u16 list \<Rightarrow> nat \<Rightarrow> nat \<Rightarrow> nat option option" where
  "append_probe slots iKey nCollide =
     (case rd slots iKey of
        None \<Rightarrow> None
      | Some s \<Rightarrow>
          if s = 0 then Some (Some iKey)
          else (case nCollide of 0 \<Rightarrow> Some None | Suc n \<Rightarrow> append_probe slots (walNextHash iKey) n))"

definition walIndexAppend :: "wi_env \<Rightarrow> Wal \<Rightarrow> nat \<Rightarrow> u32 \<Rightarrow> (nat \<times> Wal) option" where
  "walIndexAppend env pWal iFrame iPage =
     (let iHash = walFramePage iFrame; (rc, pWal, iZero) = walHashGet env pWal iHash in
      if rc \<noteq> SQLITE_OK then Some (rc, pWal)
      else do {
        let idx = iFrame - iZero;
        let pWal = (if idx = 1 then pWal \<lparr>wi := (wi pWal)(iHash := zero_page iHash)\<rparr> else pWal);
        old \<leftarrow> rd (aPgno (wi pWal iHash)) (idx - 1);
        let pWal = (if old \<noteq> 0 then walCleanupHash env pWal else pWal);
        key \<leftarrow> append_probe (aHash (wi pWal iHash)) (walHash iPage) idx;
        case key of
          None \<Rightarrow> Some (SQLITE_CORRUPT, pWal)
        | Some iKey \<Rightarrow> do {
            p \<leftarrow> wr (aPgno (wi pWal iHash)) ((idx - 1) AND (HASHTABLE_NPAGE - 1)) iPage;
            h \<leftarrow> wr (aHash (wi pWal iHash)) iKey (of_nat idx);
            Some (SQLITE_OK, pWal \<lparr>wi := (wi pWal)(iHash := \<lparr>aPgno = p, aHash = h\<rparr>)\<rparr>) } })"

text \<open>The inner loop of \<open>walFindFrame\<close>: the new \<open>iRead\<close>, or \<open>Some None\<close> for \<open>SQLITE_CORRUPT\<close>.\<close>

fun find_slots :: "wi_page \<Rightarrow> nat \<Rightarrow> nat \<Rightarrow> nat \<Rightarrow> u32 \<Rightarrow> nat \<Rightarrow> nat \<Rightarrow> nat \<Rightarrow> nat option option" where
  "find_slots pg iz iLast iMin pgno iKey nCollide iRead =
     (case rd (aHash pg) iKey of
        None \<Rightarrow> None
      | Some s \<Rightarrow>
          if s = 0 then Some (Some iRead)
          else
            let iH = unat s; iFrame = iH + iz in
            (case (if iFrame \<le> iLast \<and> iFrame \<ge> iMin
                   then map_option (\<lambda>p. p = pgno) (rd (aPgno pg) ((iH - 1) AND (HASHTABLE_NPAGE - 1)))
                   else Some False) of
               None \<Rightarrow> None
             | Some hit \<Rightarrow>
                 let iRead = (if hit then iFrame else iRead) in
                 (case nCollide of
                    0 \<Rightarrow> Some None
                  | Suc n \<Rightarrow> find_slots pg iz iLast iMin pgno (walNextHash iKey) n iRead)))"

text \<open>The outer loop, over \<open>n\<close> tables from number \<open>iMinHash + n - 1\<close> down.\<close>

fun find_tables :: "wi_env \<Rightarrow> Wal \<Rightarrow> u32 \<Rightarrow> nat \<Rightarrow> nat \<Rightarrow> (nat \<times> nat \<times> Wal) option" where
  "find_tables env pWal pgno iMinHash 0 = Some (SQLITE_OK, 0, pWal)"
| "find_tables env pWal pgno iMinHash (Suc n) =
     (let (rc, pWal, iZero) = walHashGet env pWal (iMinHash + n) in
      if rc \<noteq> SQLITE_OK then Some (rc, 0, pWal)
      else do {
        r \<leftarrow> find_slots (wi pWal (iMinHash + n)) iZero (unat (mxFrame (hdr pWal))) (unat (minFrame pWal))
               pgno (walHash pgno) HASHTABLE_NSLOT 0;
        case r of
          None \<Rightarrow> Some (SQLITE_CORRUPT, 0, pWal)
        | Some iRead \<Rightarrow>
            if iRead \<noteq> 0 then Some (SQLITE_OK, iRead, pWal)
            else find_tables env pWal pgno iMinHash n })"

definition walFindFrame :: "wi_env \<Rightarrow> Wal \<Rightarrow> u32 \<Rightarrow> (nat \<times> nat \<times> Wal) option" where
  "walFindFrame env pWal pgno =
     (let iLast = mxFrame (hdr pWal) in
      if iLast = 0 \<or> (readLock pWal = 0 \<and> \<not> bShmUnreliable pWal) then Some (SQLITE_OK, 0, pWal)
      else
        let iMinHash = walFramePage (unat (minFrame pWal)) in
        find_tables env pWal pgno iMinHash (walFramePage (unat iLast) + 1 - iMinHash))"

subsection \<open>Transactions\<close>

text \<open>
  The end of \<open>walFrames\<close>: the frames just written, given by their pages, enter the index; then the headers are
  brought up to date. The first component is the final \<open>rc\<close>, the second the final \<open>iFrame\<close>.
\<close>

fun append_frames :: "wi_env \<Rightarrow> Wal \<Rightarrow> nat \<Rightarrow> u32 list \<Rightarrow> (nat \<times> nat \<times> Wal) option" where
  "append_frames env pWal iFrame [] = Some (SQLITE_OK, iFrame, pWal)"
| "append_frames env pWal iFrame (p # ps) = do {
     (rc, pWal) \<leftarrow> walIndexAppend env pWal (iFrame + 1) p;
     if rc = SQLITE_OK then append_frames env pWal (iFrame + 1) ps else Some (rc, iFrame + 1, pWal) }"

text \<open>\<open>nTruncate\<close> is not zero for a commit.\<close>

definition walFrames_index :: "wi_env \<Rightarrow> Wal \<Rightarrow> nat \<Rightarrow> u32 list \<Rightarrow> u32 \<Rightarrow> (nat \<times> Wal) option" where
  "walFrames_index env pWal sz ps nTruncate = do {
     (rc, iFrame, pWal) \<leftarrow> append_frames env pWal (unat (mxFrame (hdr pWal))) ps;
     if rc = SQLITE_OK then do {
       let h = (hdr pWal) \<lparr>h_szPage := of_nat ((sz AND 0xff00) OR drop_bit 16 sz), mxFrame := of_nat iFrame\<rparr>;
       let h = (if nTruncate \<noteq> 0 then h \<lparr>iChange := iChange h + 1, nPage := nTruncate\<rparr> else h);
       let pWal = pWal \<lparr>hdr := h\<rparr>;
       pWal \<leftarrow> (if nTruncate \<noteq> 0 then walIndexWriteHdr pWal else Some pWal);
       Some (rc, pWal) }
     else Some (rc, pWal) }"

text \<open>
  \<open>undo_loop\<close> is the loop of \<open>sqlite3WalUndo\<close>: it gives the code and the pages for which \<open>xUndo\<close>, an
  argument with its answers, was called.
\<close>

fun undo_loop :: "(u32 \<Rightarrow> nat) \<Rightarrow> Wal \<Rightarrow> nat \<Rightarrow> nat \<Rightarrow> (nat \<times> u32 list) option" where
  "undo_loop xUndo pWal iFrame 0 = Some (SQLITE_OK, [])"
| "undo_loop xUndo pWal iFrame (Suc n) = do {
     p \<leftarrow> walFramePgno pWal iFrame;
     let rc = xUndo p;
     if rc = SQLITE_OK then do { (rc, us) \<leftarrow> undo_loop xUndo pWal (iFrame + 1) n; Some (rc, p # us) }
     else Some (rc, [p]) }"

definition sqlite3WalUndo :: "wi_env \<Rightarrow> (u32 \<Rightarrow> nat) \<Rightarrow> Wal \<Rightarrow> (nat \<times> u32 list \<times> Wal) option" where
  "sqlite3WalUndo env xUndo pWal =
     (if writeLock pWal then do {
        let iMax = unat (mxFrame (hdr pWal));
        let pWal = pWal \<lparr>hdr := fst (aHdr pWal)\<rparr>;
        let mx = unat (mxFrame (hdr pWal));
        (rc, us) \<leftarrow> undo_loop xUndo pWal (mx + 1) (iMax - mx);
        let pWal = (if iMax \<noteq> mx then walCleanupHash env pWal else pWal);
        Some (rc, us, pWal \<lparr>iReCksum := 0\<rparr>) }
      else Some (SQLITE_OK, [], pWal))"

definition sqlite3WalSavepoint :: "Wal \<Rightarrow> u32 \<times> u32 \<times> u32 \<times> u32" where
  "sqlite3WalSavepoint pWal = (mxFrame (hdr pWal), fst (aFrameCksum (hdr pWal)), snd (aFrameCksum (hdr pWal)), nCkpt pWal)"

text \<open>The code changes \<open>aWalData\<close> too; it is the first component of the result.\<close>

definition sqlite3WalSavepointUndo :: "wi_env \<Rightarrow> Wal \<Rightarrow> u32 \<times> u32 \<times> u32 \<times> u32 \<Rightarrow> (u32 \<times> u32 \<times> u32 \<times> u32) \<times> Wal" where
  "sqlite3WalSavepointUndo env pWal aWalData =
     (let (d0, d1, d2, d3) = aWalData;
          (d0, d3) = (if d3 \<noteq> nCkpt pWal then (0, nCkpt pWal) else (d0, d3));
          pWal = (if d0 < mxFrame (hdr pWal)
            then let pWal = pWal \<lparr>hdr := (hdr pWal) \<lparr>mxFrame := d0, aFrameCksum := (d1, d2)\<rparr>\<rparr>;
                     pWal = walCleanupHash env pWal in
                 if iReCksum pWal > mxFrame (hdr pWal) then pWal \<lparr>iReCksum := 0\<rparr> else pWal
            else pWal) in
      ((d0, d1, d2, d3), pWal))"

definition walRestartHdr :: "Wal \<Rightarrow> u8 list \<Rightarrow> Wal option" where
  "walRestartHdr pWal salt1 = do {
     s0 \<leftarrow> get4 (aSalt (hdr pWal)) 0;
     salt \<leftarrow> put4 (aSalt (hdr pWal)) 0 (1 + s0);
     salt \<leftarrow> wrs salt 4 salt1;
     let pWal = pWal \<lparr>nCkpt := nCkpt pWal + 1, hdr := (hdr pWal) \<lparr>mxFrame := 0, aSalt := salt\<rparr>\<rparr>;
     pWal \<leftarrow> walIndexWriteHdr pWal;
     Some (pWal \<lparr>ckptInfo := \<lparr>nBackfill = 0,
       aReadMark = map (\<lambda>i. if i = 0 then aReadMark (ckptInfo pWal) ! 0 else if i = 1 then 0 else READMARK_NOT_USED)
         [0..<WAL_NREADER],
       nBackfillAttempted = 0\<rparr>\<rparr>) }"

declare append_probe.simps [simp del] find_slots.simps [simp del]

subsection \<open>Probing\<close>

lemmas wi_consts = HASHTABLE_NPAGE_def HASHTABLE_NSLOT_def HASHTABLE_NPAGE_ONE_def WALINDEX_HDR_SIZE_def

definition slot :: "nat \<Rightarrow> nat \<Rightarrow> nat" where
  "slot s d = (s + d) mod HASHTABLE_NSLOT"

lemma probe_slot_less [simp]: "slot s d < HASHTABLE_NSLOT"
  by (simp add: slot_def HASHTABLE_NSLOT_def HASHTABLE_NPAGE_def)

lemma probe_slot_inj: "slot s d = slot s e \<Longrightarrow> d < HASHTABLE_NSLOT \<Longrightarrow> e < HASHTABLE_NSLOT \<Longrightarrow> d = e"
proof (induction d e rule: linorder_wlog)
  case (le d e)
  then have "HASHTABLE_NSLOT dvd (s + e) - (s + d)"
    by (subst mod_eq_dvd_iff_nat [symmetric]) (simp_all add: slot_def)
  with le show ?case by (auto dest: dvd_imp_le)
qed simp

lemma slot_surj: "a < HASHTABLE_NSLOT \<Longrightarrow> \<exists>d < HASHTABLE_NSLOT. slot s d = a"
proof -
  assume a: "a < HASHTABLE_NSLOT"
  let ?N = HASHTABLE_NSLOT
  have N: "0 < ?N" by (simp add: HASHTABLE_NSLOT_def HASHTABLE_NPAGE_def)
  let ?d = "(a + (?N - s mod ?N)) mod ?N"
  have "s mod ?N + (a + (?N - s mod ?N)) = a + ?N"
    using mod_less_divisor [OF N, of s] by simp
  then have "slot s ?d = (a + ?N) mod ?N"
    unfolding slot_def by (metis mod_add_eq mod_mod_trivial)
  then show ?thesis using a N by (intro exI [of _ ?d]) simp
qed

lemma and_low: "x AND (2 ^ n - 1) = x mod 2 ^ n" for x :: nat
  using take_bit_eq_mask [of n x] by (simp add: take_bit_eq_mod mask_eq_exp_minus_1)

lemma walNextHash_mod: "walNextHash k = (k + 1) mod HASHTABLE_NSLOT"
  using and_low [of "k + 1" 13] by (simp add: walNextHash_def wi_consts)

lemma walNextHash_slot: "walNextHash (slot s d) = slot s (Suc d)"
  by (simp add: walNextHash_mod slot_def mod_Suc_eq)

lemma walHash_less: "walHash p < HASHTABLE_NSLOT"
proof -
  have "unat ((p * HASHTABLE_HASH_1) AND 8191) \<le> unat (8191 :: u32)"
    by (meson word_and_le2 word_le_nat_alt word_and_le1)
  then show ?thesis by (simp add: walHash_def wi_consts)
qed

lemma probe_slot_0: "s < HASHTABLE_NSLOT \<Longrightarrow> slot s 0 = s"
  by (simp add: slot_def)

text \<open>
  What the tables keep: every entry is in the first free slot it met when it was added, so that on the way
  to it there are only older entries.
\<close>

definition chain :: "u16 list \<Rightarrow> u32 list \<Rightarrow> bool" where
  "chain h P \<longleftrightarrow> length h = HASHTABLE_NSLOT
     \<and> (\<forall>a < HASHTABLE_NSLOT. unat (h ! a) \<le> length P)
     \<and> (\<forall>a < HASHTABLE_NSLOT. \<forall>b < HASHTABLE_NSLOT. h ! a = h ! b \<longrightarrow> h ! a \<noteq> 0 \<longrightarrow> a = b)
     \<and> (\<forall>i < length P. \<exists>d < HASHTABLE_NSLOT. unat (h ! slot (walHash (P ! i)) d) = Suc i
          \<and> (\<forall>e < d. h ! slot (walHash (P ! i)) e \<noteq> 0 \<and> unat (h ! slot (walHash (P ! i)) e) \<le> i))"

lemma chain_length: "chain h P \<Longrightarrow> length h = HASHTABLE_NSLOT"
  by (simp add: chain_def)

lemma chain_le: "chain h P \<Longrightarrow> a < HASHTABLE_NSLOT \<Longrightarrow> unat (h ! a) \<le> length P"
  by (simp add: chain_def)

lemma chain_inj: "chain h P \<Longrightarrow> a < HASHTABLE_NSLOT \<Longrightarrow> b < HASHTABLE_NSLOT \<Longrightarrow> h ! a = h ! b \<Longrightarrow> h ! a \<noteq> 0 \<Longrightarrow> a = b"
  by (simp add: chain_def)

lemma chain_entry:
  assumes "chain h P" "i < length P"
  obtains d where "d < HASHTABLE_NSLOT" "unat (h ! slot (walHash (P ! i)) d) = Suc i"
    "\<And>e. e < d \<Longrightarrow> h ! slot (walHash (P ! i)) e \<noteq> 0" "\<And>e. e < d \<Longrightarrow> unat (h ! slot (walHash (P ! i)) e) \<le> i"
  using assms unfolding chain_def by blast

lemma chain_card:
  assumes "chain h P" "A \<subseteq> {..<HASHTABLE_NSLOT}" "\<And>a. a \<in> A \<Longrightarrow> h ! a \<noteq> 0"
  shows "card A \<le> length P"
proof -
  have "inj_on (\<lambda>a. unat (h ! a)) A"
    using assms by (intro inj_onI) (auto intro!: chain_inj [OF assms(1)] dest: unsigned_word_eqI)
  moreover have "(\<lambda>a. unat (h ! a)) ` A \<subseteq> {1..length P}"
    using assms chain_le [OF assms(1)] by (fastforce simp: Suc_le_eq unat_gt_0)
  ultimately show ?thesis using card_inj_on_le [of "\<lambda>a. unat (h ! a)" A "{1..length P}"] by simp
qed

definition first_free :: "u16 list \<Rightarrow> nat \<Rightarrow> nat \<Rightarrow> bool" where
  "first_free h s D \<longleftrightarrow> D < HASHTABLE_NSLOT \<and> h ! slot s D = 0 \<and> (\<forall>e < D. h ! slot s e \<noteq> 0)"

lemma chain_first_free:
  assumes "chain h P" "length P < HASHTABLE_NSLOT"
  obtains D where "first_free h s D" "D \<le> length P"
proof -
  have "\<exists>a < HASHTABLE_NSLOT. h ! a = 0"
  proof (rule ccontr)
    assume "\<not> ?thesis"
    then have "card {..<HASHTABLE_NSLOT} \<le> length P"
      by (intro chain_card [OF assms(1)]) auto
    with assms(2) show False by simp
  qed
  then obtain d where d: "d < HASHTABLE_NSLOT" "h ! slot s d = 0"
    using slot_surj by metis
  define D where "D = (LEAST d. h ! slot s d = 0)"
  have D: "h ! slot s D = 0" "D \<le> d"
    unfolding D_def using d(2) by (rule LeastI, rule Least_le)
  have less: "h ! slot s e \<noteq> 0" if "e < D" for e
    using not_less_Least that unfolding D_def by blast
  have ff: "first_free h s D"
    using D d(1) less by (simp add: first_free_def)
  have "inj_on (slot s) {..<D}"
    using probe_slot_inj D(2) d(1) by (intro inj_onI) auto
  then have "card (slot s ` {..<D}) = D" by (simp add: card_image)
  moreover have "card (slot s ` {..<D}) \<le> length P"
    using less by (intro chain_card [OF assms(1)]) auto
  ultimately have "D \<le> length P" by simp
  with ff that show thesis by blast
qed

lemma append_probe_free:
  assumes "length h = HASHTABLE_NSLOT" "first_free h s D" "d \<le> D" "D - d \<le> n"
  shows "append_probe h (slot s d) n = Some (Some (slot s D))"
  using assms(3,4)
proof (induction n arbitrary: d)
  case 0
  then have "d = D" by simp
  then show ?case
    using assms(1,2) by (subst append_probe.simps) (simp add: rd_def first_free_def)
next
  case (Suc n)
  show ?case
  proof (cases "d = D")
    case True
    then show ?thesis
      using assms(1,2) by (subst append_probe.simps) (simp add: rd_def first_free_def)
  next
    case False
    then have "h ! slot s d \<noteq> 0" using Suc.prems assms(2) by (simp add: first_free_def)
    moreover have "append_probe h (slot s (Suc d)) n = Some (Some (slot s D))"
      using Suc.prems False by (intro Suc.IH) simp_all
    ultimately show ?thesis
      using assms(1) by (subst append_probe.simps) (simp add: rd_def walNextHash_slot)
  qed
qed

lemma chain_Nil: "chain (replicate HASHTABLE_NSLOT 0) []"
  by (simp add: chain_def)

lemma chain_insert:
  assumes c: "chain h P" and len: "length P < HASHTABLE_NPAGE" and D: "first_free h (walHash p) D"
  shows "chain (h[slot (walHash p) D := of_nat (Suc (length P))]) (P @ [p])"
proof -
  define k where "k = slot (walHash p) D"
  define v :: u16 where "v = of_nat (Suc (length P))"
  have v: "unat v = Suc (length P)"
    unfolding v_def using len by (simp only: unat_of_nat HASHTABLE_NPAGE_def) simp
  have k: "k < HASHTABLE_NSLOT" "h ! k = 0" using D by (simp_all add: k_def first_free_def)
  have lh: "length h = HASHTABLE_NSLOT" by (rule chain_length [OF c])
  have nv: "h ! a \<noteq> v" if "a < HASHTABLE_NSLOT" for a
    using chain_le [OF c that] v by auto
  have inj: "a = b" if "a < HASHTABLE_NSLOT" "b < HASHTABLE_NSLOT" "h[k := v] ! a = h[k := v] ! b" "h[k := v] ! a \<noteq> 0" for a b
    using that nv chain_inj [OF c that(1,2)] lh k by (auto simp: nth_list_update split: if_splits)
  have entry: "\<exists>d < HASHTABLE_NSLOT. unat (h[k := v] ! slot (walHash ((P @ [p]) ! i)) d) = Suc i
      \<and> (\<forall>e < d. h[k := v] ! slot (walHash ((P @ [p]) ! i)) e \<noteq> 0 \<and> unat (h[k := v] ! slot (walHash ((P @ [p]) ! i)) e) \<le> i)"
    if i: "i < length (P @ [p])" for i
  proof (cases "i < length P")
    case True
    obtain d where d: "d < HASHTABLE_NSLOT" "unat (h ! slot (walHash (P ! i)) d) = Suc i"
      "\<And>e. e < d \<Longrightarrow> h ! slot (walHash (P ! i)) e \<noteq> 0" "\<And>e. e < d \<Longrightarrow> unat (h ! slot (walHash (P ! i)) e) \<le> i"
      using chain_entry [OF c True] by blast
    have "slot (walHash (P ! i)) e \<noteq> k" if "e \<le> d" for e
      using that d k by (metis le_neq_implies_less unat_0 nat.distinct(1))
    then have "h[k := v] ! slot (walHash (P ! i)) e = h ! slot (walHash (P ! i)) e" if "e \<le> d" for e
      using that by (metis nth_list_update_neq)
    with d True show ?thesis by (intro exI [of _ d]) (simp add: nth_append)
  next
    case False
    with i have i: "i = length P" by simp
    have "slot (walHash p) e \<noteq> k" if "e < D" for e
      using that D probe_slot_inj [of "walHash p" e D] by (auto simp: k_def first_free_def)
    then have "h[k := v] ! slot (walHash p) e = h ! slot (walHash p) e" if "e < D" for e
      using that by (metis nth_list_update_neq)
    then show ?thesis
      using D lh v chain_le [OF c probe_slot_less] i
      by (intro exI [of _ D]) (auto simp: first_free_def k_def)
  qed
  have "unat (h[k := v] ! a) \<le> length (P @ [p])" if "a < HASHTABLE_NSLOT" for a
    using chain_le [OF c that] v lh that by (cases "a = k") simp_all
  with inj entry lh show ?thesis
    unfolding chain_def k_def [symmetric] v_def [symmetric] by simp
qed

lemma chain_take:
  assumes c: "chain h P"
  shows "chain (map (\<lambda>s. if unat s > n then 0 else s) h) (take n P)"
proof -
  let ?f = "\<lambda>s :: u16. if unat s > n then 0 else s"
  have lh: "length h = HASHTABLE_NSLOT" by (rule chain_length [OF c])
  have entry: "\<exists>d < HASHTABLE_NSLOT. unat (map ?f h ! slot (walHash (take n P ! i)) d) = Suc i
      \<and> (\<forall>e < d. map ?f h ! slot (walHash (take n P ! i)) e \<noteq> 0 \<and> unat (map ?f h ! slot (walHash (take n P ! i)) e) \<le> i)"
    if i: "i < length (take n P)" for i
  proof -
    have "i < length P" "i < n" using i by simp_all
    then obtain d where "d < HASHTABLE_NSLOT" "unat (h ! slot (walHash (P ! i)) d) = Suc i"
      "\<And>e. e < d \<Longrightarrow> h ! slot (walHash (P ! i)) e \<noteq> 0" "\<And>e. e < d \<Longrightarrow> unat (h ! slot (walHash (P ! i)) e) \<le> i"
      using chain_entry [OF c] by blast
    with \<open>i < n\<close> lh show ?thesis by (intro exI [of _ d]) (fastforce simp: not_less)
  qed
  have "unat (map ?f h ! a) \<le> length (take n P)" if "a < HASHTABLE_NSLOT" for a
    using chain_le [OF c that] that lh by simp
  moreover have "a = b" if "a < HASHTABLE_NSLOT" "b < HASHTABLE_NSLOT" "map ?f h ! a = map ?f h ! b" "map ?f h ! a \<noteq> 0" for a b
    using that chain_inj [OF c that(1,2)] lh by (simp split: if_splits)
  ultimately show ?thesis using lh entry unfolding chain_def by simp
qed

subsection \<open>Searching\<close>

text \<open>The linear search that the code's own assertion compares the result with.\<close>

fun linear_search :: "u32 list \<Rightarrow> u32 \<Rightarrow> nat \<Rightarrow> nat \<Rightarrow> nat" where
  "linear_search G p lo 0 = 0"
| "linear_search G p lo (Suc f) =
     (if Suc f < lo then 0 else if f < length G \<and> G ! f = p then Suc f else linear_search G p lo f)"

definition is_hit :: "u32 list \<Rightarrow> u32 \<Rightarrow> nat \<Rightarrow> nat \<Rightarrow> bool" where
  "is_hit G p lo f \<longleftrightarrow> lo \<le> f \<and> 0 < f \<and> f \<le> length G \<and> G ! (f - 1) = p"

lemma linear_search_hit:
  "is_hit G p lo f \<Longrightarrow> f \<le> hi \<Longrightarrow> (\<And>g. f < g \<Longrightarrow> g \<le> hi \<Longrightarrow> \<not> is_hit G p lo g) \<Longrightarrow> linear_search G p lo hi = f"
proof (induction hi)
  case (Suc hi)
  show ?case
  proof (cases "f = Suc hi")
    case True
    with Suc.prems(1) show ?thesis by (simp add: is_hit_def)
  next
    case False
    then have "\<not> is_hit G p lo (Suc hi)" "linear_search G p lo hi = f"
      using Suc.prems Suc.IH by auto
    with Suc.prems(1,2) False show ?thesis by (auto simp: is_hit_def Suc_le_eq)
  qed
qed (simp add: is_hit_def)

lemma linear_search_skip:
  "a \<le> hi \<Longrightarrow> (\<And>g. a < g \<Longrightarrow> g \<le> hi \<Longrightarrow> \<not> is_hit G p lo g) \<Longrightarrow> linear_search G p lo hi = linear_search G p lo a"
proof (induction hi)
  case (Suc hi)
  show ?case
  proof (cases "a = Suc hi")
    case False
    then have "\<not> is_hit G p lo (Suc hi)" "linear_search G p lo hi = linear_search G p lo a"
      using Suc.prems Suc.IH by auto
    moreover have "linear_search G p lo b = 0" if "Suc hi < lo" "b \<le> hi" for b
      using that by (cases b) simp_all
    ultimately show ?thesis using Suc.prems(1) False by (auto simp: is_hit_def Suc_le_eq)
  qed simp
qed simp

lemma linear_search_none: "(\<And>g. g \<le> hi \<Longrightarrow> \<not> is_hit G p lo g) \<Longrightarrow> linear_search G p lo hi = 0"
  using linear_search_skip [of 0 hi G p lo] by simp

text \<open>The inner loop visits the slots up to the first free one and keeps the last hit.\<close>

definition page_rep :: "nat \<Rightarrow> wi_page \<Rightarrow> u32 list \<Rightarrow> bool" where
  "page_rep k pg P \<longleftrightarrow> length P \<le> n_pgno k \<and> aPgno pg = P @ replicate (n_pgno k - length P) 0 \<and> chain (aHash pg) P"

lemma n_pgno_le: "n_pgno k \<le> HASHTABLE_NPAGE"
  by (simp add: n_pgno_def wi_consts)

lemma page_rep_length: "page_rep k pg P \<Longrightarrow> length (aPgno pg) = n_pgno k"
  by (simp add: page_rep_def)

definition find_hit :: "wi_page \<Rightarrow> u32 list \<Rightarrow> nat \<Rightarrow> nat \<Rightarrow> nat \<Rightarrow> u32 \<Rightarrow> nat \<Rightarrow> nat \<Rightarrow> nat" where
  "find_hit pg P iz iLast iMin p r d =
     (let i = unat (aHash pg ! slot (walHash p) d) in
      if i + iz \<le> iLast \<and> iMin \<le> i + iz \<and> P ! (i - 1) = p then i + iz else r)"

lemma find_slots_fold:
  assumes rep: "page_rep k pg P" and D: "first_free (aHash pg) (walHash p) D" and "d \<le> D" "D - d \<le> n"
  shows "find_slots pg iz iLast iMin p (slot (walHash p) d) n r
    = Some (Some (foldl (find_hit pg P iz iLast iMin p) r [d..<D]))"
  using assms(3,4)
proof (induction n arbitrary: d r)
  have c: "chain (aHash pg) P" using rep by (simp add: page_rep_def)
  have lh: "length (aHash pg) = HASHTABLE_NSLOT" by (rule chain_length [OF c])
  {
    case 0
    then have "d = D" by simp
    then show ?case using D lh by (subst find_slots.simps) (simp add: rd_def first_free_def)
  next
    case (Suc n)
    show ?case
    proof (cases "d = D")
      case True
      then show ?thesis using D lh by (subst find_slots.simps) (simp add: rd_def first_free_def)
    next
      case False
      let ?s = "aHash pg ! slot (walHash p) d"
      have nz: "?s \<noteq> 0" using False Suc.prems D by (simp add: first_free_def)
      then have i: "0 < unat ?s" "unat ?s \<le> length P" using chain_le [OF c probe_slot_less] by (simp_all add: unat_gt_0)
      then have "unat ?s - 1 < HASHTABLE_NPAGE" using rep n_pgno_le [of k] unfolding page_rep_def by linarith
      then have "(unat ?s - 1) AND (HASHTABLE_NPAGE - 1) = unat ?s - 1"
        using and_low [of "unat ?s - 1" 12] by (simp add: HASHTABLE_NPAGE_def)
      moreover have "unat ?s - 1 < length P" using i by linarith
      ultimately have rd: "rd (aPgno pg) ((unat ?s - 1) AND (HASHTABLE_NPAGE - 1)) = Some (P ! (unat ?s - 1))"
        using rep by (simp add: page_rep_def rd_def nth_append)
      have up: "[d..<D] = d # [Suc d..<D]" using False Suc.prems by (simp add: upt_conv_Cons)
      have ih: "find_slots pg iz iLast iMin p (slot (walHash p) (Suc d)) n r'
          = Some (Some (foldl (find_hit pg P iz iLast iMin p) r' [Suc d..<D]))" for r'
        using Suc.prems False by (intro Suc.IH) simp_all
      show ?thesis
        using nz lh unfolding up foldl_Cons
        by (subst find_slots.simps) (simp add: rd_def [of "aHash pg"] rd walNextHash_slot ih find_hit_def Let_def
            del: One_nat_def)
    qed
  }
qed

lemma foldl_last:
  assumes "d < D" "Q d" "\<And>e. d < e \<Longrightarrow> e < D \<Longrightarrow> \<not> Q e"
  shows "foldl (\<lambda>r e. if Q e then f e else r) r [0..<D] = f d"
  using assms
proof (induction D)
  case (Suc D)
  then show ?case by (cases "d = D") auto
qed simp

lemma foldl_never:
  "(\<And>e. e < D \<Longrightarrow> \<not> Q e) \<Longrightarrow> foldl (\<lambda>r e. if Q e then f e else r) r [0..<D] = r"
  by (induction D) auto

text \<open>In one table the loop gives the newest of the frames that qualify.\<close>

lemma find_slots_newest:
  assumes rep: "page_rep k pg P"
    and hit: "\<And>i. i < length P \<Longrightarrow> Suc i + iz = f i"
  shows "(\<forall>i < length P. \<not> (P ! i = p \<and> iMin \<le> f i \<and> f i \<le> iLast)) \<longrightarrow>
      find_slots pg iz iLast iMin p (walHash p) HASHTABLE_NSLOT 0 = Some (Some 0)"
    and "i < length P \<Longrightarrow> P ! i = p \<Longrightarrow> iMin \<le> f i \<Longrightarrow> f i \<le> iLast \<Longrightarrow>
      (\<And>j. i < j \<Longrightarrow> j < length P \<Longrightarrow> \<not> (P ! j = p \<and> iMin \<le> f j \<and> f j \<le> iLast)) \<Longrightarrow>
      find_slots pg iz iLast iMin p (walHash p) HASHTABLE_NSLOT 0 = Some (Some (f i))"
proof -
  let ?h = "aHash pg"
  let ?v = "\<lambda>d. unat (?h ! slot (walHash p) d)"
  let ?Q = "\<lambda>d. ?v d + iz \<le> iLast \<and> iMin \<le> ?v d + iz \<and> P ! (?v d - 1) = p"
  have c: "chain ?h P" and le: "length P \<le> HASHTABLE_NPAGE"
    using rep n_pgno_le [of k] by (auto simp: page_rep_def)
  have "length P < HASHTABLE_NSLOT" using le by (simp add: wi_consts)
  with c obtain D where D: "first_free ?h (walHash p) D" by (rule chain_first_free)
  have D': "D < HASHTABLE_NSLOT" using D by (simp add: first_free_def)
  have "slot (walHash p) 0 = walHash p" by (rule probe_slot_0 [OF walHash_less])
  then have fold: "find_slots pg iz iLast iMin p (walHash p) HASHTABLE_NSLOT 0
      = Some (Some (foldl (\<lambda>r d. if ?Q d then ?v d + iz else r) 0 [0..<D]))"
    using find_slots_fold [OF rep D, of 0 HASHTABLE_NSLOT iz iLast iMin 0] D'
    unfolding find_hit_def Let_def by simp
  have entry: "\<exists>j < length P. ?v d = Suc j \<and> f j = ?v d + iz" if "d < D" for d
  proof -
    have "?v d \<noteq> 0" using that D by (simp add: first_free_def unat_eq_0)
    moreover have "?v d \<le> length P" using chain_le [OF c probe_slot_less] .
    ultimately show ?thesis using hit by (intro exI [of _ "?v d - 1"]) (simp flip: hit)
  qed
  show "(\<forall>i < length P. \<not> (P ! i = p \<and> iMin \<le> f i \<and> f i \<le> iLast)) \<longrightarrow>
      find_slots pg iz iLast iMin p (walHash p) HASHTABLE_NSLOT 0 = Some (Some 0)"
  proof
    assume none: "\<forall>i < length P. \<not> (P ! i = p \<and> iMin \<le> f i \<and> f i \<le> iLast)"
    have "\<not> ?Q d" if "d < D" for d using entry [OF that] none by fastforce
    then show "find_slots pg iz iLast iMin p (walHash p) HASHTABLE_NSLOT 0 = Some (Some 0)"
      unfolding fold by (subst foldl_never) simp_all
  qed
  assume i: "i < length P" "P ! i = p" "iMin \<le> f i" "f i \<le> iLast"
    and last: "\<And>j. i < j \<Longrightarrow> j < length P \<Longrightarrow> \<not> (P ! j = p \<and> iMin \<le> f j \<and> f j \<le> iLast)"
  obtain d where d: "d < HASHTABLE_NSLOT" "?v d = Suc i" "\<And>e. e < d \<Longrightarrow> ?h ! slot (walHash p) e \<noteq> 0"
      "\<And>e. e < d \<Longrightarrow> ?v e \<le> i"
    using chain_entry [OF c i(1)] i(2) by metis
  have dD: "d < D"
  proof (rule ccontr)
    assume "\<not> d < D"
    then have "?h ! slot (walHash p) D \<noteq> 0" using d(2,3) by (cases "D = d") auto
    with D show False by (simp add: first_free_def)
  qed
  have Qd: "?Q d" using i d(2) hit [OF i(1)] by simp
  have "\<not> ?Q e" if e: "d < e" "e < D" for e
  proof
    assume Qe: "?Q e"
    obtain j where j: "j < length P" "?v e = Suc j" "f j = ?v e + iz" using entry [OF e(2)] by blast
    with Qe last [of j] have "j \<le> i" by (auto simp: not_less [symmetric])
    moreover have "j \<noteq> i"
    proof
      assume "j = i"
      with j d(2) have "?h ! slot (walHash p) e = ?h ! slot (walHash p) d" by (simp add: word_unat_eq_iff)
      then have "slot (walHash p) e = slot (walHash p) d"
        using chain_inj [OF c probe_slot_less probe_slot_less] d(2) by fastforce
      then have "e = d" using probe_slot_inj e D' by simp
      with e show False by simp
    qed
    ultimately have ji: "j < i" by simp
    have "P ! j = p" using Qe j by simp
    then obtain d' where d': "d' < HASHTABLE_NSLOT" "?v d' = Suc j" "\<And>e. e < d' \<Longrightarrow> ?v e \<le> j"
      using chain_entry [OF c j(1)] by metis
    with j have "?h ! slot (walHash p) e = ?h ! slot (walHash p) d'" by (simp add: word_unat_eq_iff)
    then have "slot (walHash p) e = slot (walHash p) d'"
      using chain_inj [OF c probe_slot_less probe_slot_less] j(2) by fastforce
    then have "e = d'" using probe_slot_inj e D' d' by simp
    with d'(3) [of d] e d(2) ji show False by simp
  qed
  then have "foldl (\<lambda>r d. if ?Q d then ?v d + iz else r) 0 [0..<D] = ?v d + iz"
    using foldl_last [of d D ?Q "\<lambda>d. ?v d + iz" 0] dD Qd by blast
  then show "find_slots pg iz iLast iMin p (walHash p) HASHTABLE_NSLOT 0 = Some (Some (f i))"
    using fold d(2) hit [OF i(1)] by simp
qed

subsection \<open>The index as a list of pages\<close>

text \<open>\<open>G ! (f - 1)\<close> is the page of frame \<open>f\<close>.\<close>

definition seg :: "nat \<Rightarrow> u32 list \<Rightarrow> u32 list" where
  "seg k G = take (n_pgno k) (drop (iZero k) G)"

definition shaped :: "nat \<Rightarrow> wi_page \<Rightarrow> bool" where
  "shaped k pg \<longleftrightarrow> length (aPgno pg) = n_pgno k \<and> length (aHash pg) = HASHTABLE_NSLOT"

definition is_mapped :: "Wal \<Rightarrow> nat \<Rightarrow> bool" where
  "is_mapped w k \<longleftrightarrow> k < nWiData w \<and> mapped w k"

definition index_rep :: "Wal \<Rightarrow> u32 list \<Rightarrow> bool" where
  "index_rep w G \<longleftrightarrow> (\<forall>k. shaped k (wi w k)) \<and> 0 \<notin> set G \<and> length G + 34 \<le> 2 ^ 32
     \<and> (G \<noteq> [] \<longrightarrow> (\<forall>k \<le> walFramePage (length G). page_rep k (wi w k) (seg k G)
          \<and> (exclusiveMode w = WAL_HEAPMEMORY_MODE \<longrightarrow> is_mapped w k)))"

lemma iZero_0 [simp]: "iZero 0 = 0"
  by (simp add: iZero_def)

lemma iZero_Suc: "iZero (Suc k) = iZero k + n_pgno k"
  by (cases k) (simp_all add: iZero_def n_pgno_def)

lemma iZero_mono: "k \<le> l \<Longrightarrow> iZero k \<le> iZero l"
  by (rule lift_Suc_mono_le [of iZero]) (simp_all add: iZero_Suc)

lemma walFramePage_iff:
  assumes "0 < f" "f + 34 \<le> 2 ^ 32"
  shows "walFramePage f = k \<longleftrightarrow> iZero k < f \<and> f \<le> iZero (Suc k)"
proof -
  have "walFramePage f = (f + 33) div 4096"
    using assms by (simp add: walFramePage_def wi_consts)
  then have "walFramePage f = k \<longleftrightarrow> 4096 * k \<le> f + 33 \<and> f + 33 < 4096 * Suc k"
    by (simp only: nat_div_eq_iff zero_less_numeral)
  then show ?thesis
    using assms(1) by (cases k) (auto simp: iZero_def wi_consts)
qed

lemma walFramePage_bounds:
  "0 < f \<Longrightarrow> f + 34 \<le> 2 ^ 32 \<Longrightarrow> iZero (walFramePage f) < f \<and> f \<le> iZero (Suc (walFramePage f))"
  using walFramePage_iff [of f "walFramePage f"] by simp

lemma walFramePage_mono: "0 < f \<Longrightarrow> f \<le> g \<Longrightarrow> g + 34 \<le> 2 ^ 32 \<Longrightarrow> walFramePage f \<le> walFramePage g"
  by (simp add: walFramePage_def wi_consts div_le_mono)

lemma walFramePage_0: "walFramePage 0 = 0"
  by (simp add: walFramePage_def wi_consts)

text \<open>What \<open>walHashGet\<close> may change.\<close>

lemma walHashGet_props:
  assumes "walHashGet env w k = (rc, w', z)"
  shows "z = iZero k" "hdr w' = hdr w" "minFrame w' = minFrame w" "readLock w' = readLock w"
    "bShmUnreliable w' = bShmUnreliable w" "exclusiveMode w' = exclusiveMode w"
    "rc = SQLITE_OK \<Longrightarrow> is_mapped w' k" "is_mapped w k \<Longrightarrow> rc = SQLITE_OK \<and> w' = w"
    "is_mapped w l \<Longrightarrow> is_mapped w' l" "l \<noteq> k \<or> exclusiveMode w \<noteq> WAL_HEAPMEMORY_MODE \<Longrightarrow> wi w' l = wi w l"
    "wi w' k = wi w k \<or> wi w' k = zero_page k" "is_mapped w 0 \<Longrightarrow> aHdr w' = aHdr w \<and> ckptInfo w' = ckptInfo w"
    "szPage w' = szPage w"
  using assms
  by (auto simp: walHashGet_def walIndexPage_def walIndexPageRealloc_def is_mapped_def Let_def result_codes SQLITE_ERROR_def
      split: prod.splits if_splits) (metis gr0I)

lemma shaped_zero_page: "shaped k (zero_page k)"
  by (simp add: shaped_def zero_page_def)

lemma walHashGet_rep:
  assumes "walHashGet env w k = (rc, w', z)" "index_rep w G"
  shows "index_rep w' G"
proof -
  note props = walHashGet_props [OF assms(1)]
  have same: "wi w' l = wi w l" if "is_mapped w l" for l
    using props(8,10) that by (cases "l = k") auto
  have shaped: "shaped l (wi w' l)" for l
    using assms(2) props(10) [of l] props(11) shaped_zero_page by (cases "l = k") (auto simp: index_rep_def)
  have "page_rep l (wi w' l) (seg l G)" if "G \<noteq> []" "l \<le> walFramePage (length G)" for l
    using assms(2) that same [of l] props(10) [of l] by (auto simp: index_rep_def)
  then show ?thesis
    using assms(2) props(6,9) shaped by (simp add: index_rep_def)
qed

lemma seg_nth: "i < length (seg k G) \<Longrightarrow> seg k G ! i = G ! (iZero k + i) \<and> iZero k + i < length G"
  by (auto simp: seg_def)

lemma length_seg: "length (seg k G) = min (n_pgno k) (length G - iZero k)"
  by (simp add: seg_def min_def)

lemma exists_last: "\<exists>i < n. Q i \<Longrightarrow> \<exists>i < n. Q i \<and> (\<forall>j. i < j \<longrightarrow> j < n \<longrightarrow> \<not> Q j)" for n :: nat
proof (induction n)
  case (Suc n)
  then show ?case by (metis less_Suc_eq not_less_eq)
qed simp

lemma find_tables_search:
  assumes "index_rep w G" "unat (mxFrame (hdr w)) \<le> length G" "G \<noteq> []"
    and lo: "lo = unat (minFrame w)" and hi: "hi = unat (mxFrame (hdr w))"
    and base: "base = walFramePage lo" and top: "n \<noteq> 0 \<Longrightarrow> base + n - 1 \<le> walFramePage (length G)"
    and lo_le: "lo + 34 \<le> 2 ^ 32"
  shows "\<exists>rc r w'. find_tables env w p base n = Some (rc, r, w')
    \<and> (rc = SQLITE_OK \<longrightarrow> r = linear_search G p lo (min hi (iZero (base + n))))
    \<and> ((\<forall>k < base + n. is_mapped w k) \<longrightarrow> rc = SQLITE_OK)"
  using assms
proof (induction n arbitrary: w)
  case 0
  have "iZero base < lo \<or> iZero base = 0"
    using walFramePage_bounds [of lo] lo_le base walFramePage_0 by (cases "lo = 0") simp_all
  then have "linear_search G p lo (min hi (iZero base)) = 0"
    by (intro linear_search_none) (auto simp: is_hit_def)
  then show ?case by simp
next
  case (Suc n)
  let ?k = "base + n"
  obtain rc w' z where get: "walHashGet env w ?k = (rc, w', z)" by (metis prod_cases3)
  note props = walHashGet_props [OF get]
  have rep': "index_rep w' G" by (rule walHashGet_rep [OF get Suc.prems(1)])
  have k: "?k \<le> walFramePage (length G)" using Suc.prems(7) by simp
  then have page: "page_rep ?k (wi w' ?k) (seg ?k G)" using rep' Suc.prems(3) by (simp add: index_rep_def)
  show ?case
  proof (cases "rc = SQLITE_OK")
    case False
    then show ?thesis using get props(8) by auto
  next
    case True
    let ?f = "\<lambda>i. Suc (iZero ?k + i)"
    let ?hi = "min hi (iZero (base + Suc n))"
    let ?hit = "\<lambda>i. seg ?k G ! i = p \<and> lo \<le> ?f i \<and> ?f i \<le> hi"
    have hit_iff: "is_hit G p lo g \<and> g \<le> hi \<longleftrightarrow> ?hit (g - 1 - iZero ?k) \<and> g - 1 - iZero ?k < length (seg ?k G)"
      if "iZero ?k < g" "g \<le> iZero (base + Suc n)" for g
    proof -
      have i: "g = ?f (g - 1 - iZero ?k)" using that(1) by simp
      have "g - 1 - iZero ?k < n_pgno ?k" using that by (simp add: iZero_Suc)
      then show ?thesis
        using that(1) Suc.prems(2) hi seg_nth [of "g - 1 - iZero ?k" ?k G] i by (auto simp: is_hit_def length_seg)
    qed
    note slots = find_slots_newest [OF page, where iz = "iZero ?k" and f = ?f and p = p and iMin = lo and iLast = hi]
    show ?thesis
    proof (cases "\<exists>i < length (seg ?k G). ?hit i")
      case hit: True
      then obtain i where i: "i < length (seg ?k G)" "?hit i"
        and max: "\<And>j. i < j \<Longrightarrow> j < length (seg ?k G) \<Longrightarrow> \<not> ?hit j"
        using exists_last [of "length (seg ?k G)" ?hit] by blast
      have "find_slots (wi w' ?k) (iZero ?k) hi lo p (walHash p) HASHTABLE_NSLOT 0 = Some (Some (?f i))"
        using i max by (intro slots(2)) simp_all
      moreover have "linear_search G p lo ?hi = ?f i"
      proof (rule linear_search_hit)
        have b: "?f i \<le> iZero (base + Suc n)" using i by (simp add: iZero_Suc length_seg)
        with i show "is_hit G p lo (?f i)" "?f i \<le> ?hi"
          using hit_iff [of "?f i"] by simp_all
        fix g assume g: "?f i < g" "g \<le> ?hi"
        have "i < g - 1 - iZero ?k" using g by simp
        then show "\<not> is_hit G p lo g"
          using hit_iff [of g] g max [of "g - 1 - iZero ?k"] by auto
      qed
      ultimately show ?thesis
        using get True props(1,2,3) lo hi Suc.prems by (simp add: Let_def)
    next
      case none: False
      have "find_slots (wi w' ?k) (iZero ?k) hi lo p (walHash p) HASHTABLE_NSLOT 0 = Some (Some 0)"
        using none slots(1) by fastforce
      moreover have "\<exists>rc r w''. find_tables env w' p base n = Some (rc, r, w'')
          \<and> (rc = SQLITE_OK \<longrightarrow> r = linear_search G p lo (min hi (iZero (base + n))))
          \<and> ((\<forall>k < base + n. is_mapped w' k) \<longrightarrow> rc = SQLITE_OK)"
        using Suc.prems rep' props(2,3) by (intro Suc.IH) simp_all
      moreover have "linear_search G p lo ?hi = linear_search G p lo (min hi (iZero ?k))"
      proof (rule linear_search_skip)
        show "min hi (iZero ?k) \<le> ?hi" by (simp add: iZero_Suc min_def)
        fix g assume g: "min hi (iZero ?k) < g" "g \<le> ?hi"
        then have "iZero ?k < g" "g \<le> hi" "g \<le> iZero (base + Suc n)" by auto
        then show "\<not> is_hit G p lo g" using hit_iff [of g] none by metis
      qed
      ultimately show ?thesis
        using get True props(1,2,3,9) lo hi Suc.prems by (fastforce simp: Let_def)
    qed
  qed
qed

lemma walFindFrame_search:
  assumes "index_rep w G" "unat (mxFrame (hdr w)) \<le> length G" "minFrame w \<le> mxFrame (hdr w)"
  shows "\<exists>rc r w'. walFindFrame env w p = Some (rc, r, w')
    \<and> (rc = SQLITE_OK \<longrightarrow> r = (if readLock w = 0 \<and> \<not> bShmUnreliable w then 0
          else linear_search G p (unat (minFrame w)) (unat (mxFrame (hdr w)))))
    \<and> ((\<forall>k \<le> walFramePage (unat (mxFrame (hdr w))). is_mapped w k) \<longrightarrow> rc = SQLITE_OK)"
proof (cases "mxFrame (hdr w) = 0 \<or> readLock w = 0 \<and> \<not> bShmUnreliable w")
  case True
  then show ?thesis by (auto simp: walFindFrame_def)
next
  case False
  let ?lo = "unat (minFrame w)" and ?hi = "unat (mxFrame (hdr w))"
  have pos: "0 < ?hi" using False by (simp add: unat_gt_0)
  have le: "?lo \<le> ?hi" using assms(3) by (simp add: word_le_nat_alt)
  have len: "length G + 34 \<le> 2 ^ 32" using assms(1) by (simp add: index_rep_def)
  have bound: "?hi + 34 \<le> 2 ^ 32" using len assms(2) by simp
  have pages: "walFramePage ?lo \<le> walFramePage ?hi" "walFramePage ?hi \<le> walFramePage (length G)"
    using walFramePage_mono [of ?lo ?hi] walFramePage_mono [of ?hi "length G"] le pos bound assms(2) len walFramePage_0
    by (cases "?lo = 0"; simp)+
  let ?n = "walFramePage ?hi + 1 - walFramePage ?lo"
  have n: "walFramePage ?lo + ?n = Suc (walFramePage ?hi)" using pages by simp
  have top: "min ?hi (iZero (Suc (walFramePage ?hi))) = ?hi"
    using walFramePage_bounds [OF pos bound] by simp
  have "G \<noteq> []" using pos assms(2) by auto
  then show ?thesis
    using find_tables_search [OF assms(1,2) _ refl refl refl, of ?n env p] n top pages le bound False
    by (simp add: walFindFrame_def Let_def less_Suc_eq_le) (use False in blast)
qed

subsection \<open>Cleaning and adding\<close>

lemma chain_shaped: "page_rep k pg P \<Longrightarrow> shaped k pg"
  by (auto simp: page_rep_def shaped_def dest: chain_length)

lemma page_rep_clean:
  assumes "page_rep k pg P" "n \<le> length P"
  shows "page_rep k (pg \<lparr>aHash := map (\<lambda>s. if unat s > n then 0 else s) (aHash pg), aPgno := zero_from n (aPgno pg)\<rparr>) (take n P)"
  using assms chain_take [of "aHash pg" P n] unfolding page_rep_def zero_from_def by simp

lemma page_rep_add:
  assumes "page_rep k pg P" "length P < n_pgno k"
  shows "\<exists>key. append_probe (aHash pg) (walHash p) (Suc (length P)) = Some (Some key) \<and> key < HASHTABLE_NSLOT
    \<and> page_rep k \<lparr>aPgno = (aPgno pg)[length P := p], aHash = (aHash pg)[key := of_nat (Suc (length P))]\<rparr> (P @ [p])"
proof -
  have c: "chain (aHash pg) P" and l: "length P < HASHTABLE_NPAGE"
    using assms n_pgno_le [of k] by (auto simp: page_rep_def)
  then have "length P < HASHTABLE_NSLOT" by (simp add: wi_consts)
  with c obtain D where D: "first_free (aHash pg) (walHash p) D" "D \<le> length P" by (rule chain_first_free)
  have "append_probe (aHash pg) (slot (walHash p) 0) (Suc (length P)) = Some (Some (slot (walHash p) D))"
    using chain_length [OF c] D by (intro append_probe_free) simp_all
  moreover have "page_rep k \<lparr>aPgno = (aPgno pg)[length P := p],
      aHash = (aHash pg)[slot (walHash p) D := of_nat (Suc (length P))]\<rparr> (P @ [p])"
    using chain_insert [OF c l D(1)] assms
    by (cases "n_pgno k - length P") (auto simp: page_rep_def list_update_append)
  ultimately show ?thesis using probe_slot_0 [OF walHash_less] by auto
qed

lemma index_rep_Nil: "index_rep w G \<Longrightarrow> index_rep w []"
  by (simp add: index_rep_def)

lemma seg_take_full: "iZero (Suc k) \<le> m \<Longrightarrow> seg k (take m G) = seg k G"
  by (simp add: seg_def drop_take iZero_Suc min_def)

lemma seg_take_last: "iZero k \<le> m \<Longrightarrow> m \<le> iZero (Suc k) \<Longrightarrow> seg k (take m G) = take (m - iZero k) (seg k G)"
  by (simp add: seg_def drop_take iZero_Suc min_def)

lemma seg_append_full: "iZero (Suc k) \<le> length G \<Longrightarrow> seg k (G @ H) = seg k G"
  by (simp add: seg_def iZero_Suc)

lemma seg_append_last: "iZero k \<le> length G \<Longrightarrow> length G < iZero (Suc k) \<Longrightarrow> seg k (G @ [p]) = seg k G @ [p]"
  by (simp add: seg_def iZero_Suc min_def)

lemma index_rep_shaped: "index_rep w G \<Longrightarrow> shaped k (wi w k)"
  by (simp add: index_rep_def)

lemma index_rep_page:
  "index_rep w G \<Longrightarrow> G \<noteq> [] \<Longrightarrow> k \<le> walFramePage (length G) \<Longrightarrow> page_rep k (wi w k) (seg k G)"
  by (simp add: index_rep_def)

text \<open>A shorter list is represented when its last page is changed to represent the shorter segment.\<close>

lemma index_rep_truncate:
  assumes rep: "index_rep w G" and m: "0 < m" "m \<le> length G" and k: "k = walFramePage m"
    and page: "page_rep k pg (take (m - iZero k) (seg k G))"
  shows "index_rep (w \<lparr>wi := (wi w)(k := pg)\<rparr>) (take m G)"
proof -
  have len: "length G + 34 \<le> 2 ^ 32" using rep by (simp add: index_rep_def)
  then have mb: "m + 34 \<le> 2 ^ 32" using m by simp
  have G: "G \<noteq> []" using m by auto
  have kb: "iZero k < m" "m \<le> iZero (Suc k)" using walFramePage_bounds [OF m(1) mb] k by simp_all
  have kG: "k \<le> walFramePage (length G)" using walFramePage_mono [OF m(1,2) len] k by simp
  have "page_rep l (((wi w)(k := pg)) l) (seg l (take m G))" if l: "l \<le> k" for l
  proof (cases "l = k")
    case True
    then show ?thesis using page kb seg_take_last [of k m G] by simp
  next
    case False
    with l have "iZero (Suc l) \<le> m" using iZero_mono [of "Suc l" k] kb by simp
    then show ?thesis using False l kG index_rep_page [OF rep G, of l] by (simp add: seg_take_full)
  qed
  moreover have "shaped l (((wi w)(k := pg)) l)" for l
    using index_rep_shaped [OF rep] chain_shaped [OF page] by simp
  ultimately show ?thesis
    using rep m k G kG mb by (auto simp: index_rep_def is_mapped_def dest: in_set_takeD)
qed

lemma walCleanupHash_props:
  "hdr (walCleanupHash env w) = hdr w" "minFrame (walCleanupHash env w) = minFrame w"
  "is_mapped w l \<Longrightarrow> is_mapped (walCleanupHash env w) l"
  "is_mapped w 0 \<Longrightarrow> aHdr (walCleanupHash env w) = aHdr w \<and> ckptInfo (walCleanupHash env w) = ckptInfo w"
proof -
  obtain rc w' z where get: "walHashGet env w (walFramePage (unat (mxFrame (hdr w)))) = (rc, w', z)"
    by (metis prod_cases3)
  note props = walHashGet_props [OF get] and defs = walCleanupHash_def Let_def get is_mapped_def
  show "hdr (walCleanupHash env w) = hdr w" "minFrame (walCleanupHash env w) = minFrame w"
    using props(2,3) by (simp_all add: defs)
  show "is_mapped w l \<Longrightarrow> is_mapped (walCleanupHash env w) l" using props(9) [of l] by (simp add: defs)
  show "is_mapped w 0 \<Longrightarrow> aHdr (walCleanupHash env w) = aHdr w \<and> ckptInfo (walCleanupHash env w) = ckptInfo w"
    using props(12) by (simp add: defs)
qed

lemma walCleanupHash_rep:
  assumes rep: "index_rep w G" and m: "m = unat (mxFrame (hdr w))" "m \<le> length G"
  shows "index_rep (walCleanupHash env w) (take m G)
    \<or> index_rep (walCleanupHash env w) G \<and> \<not> is_mapped w (walFramePage m)"
proof (cases "mxFrame (hdr w) = 0")
  case True
  then show ?thesis using index_rep_Nil [OF rep] m by (simp add: walCleanupHash_def)
next
  case False
  then have pos: "0 < m" using m by (simp add: unat_gt_0)
  let ?k = "walFramePage m"
  obtain rc w' z where get: "walHashGet env w ?k = (rc, w', z)" by (metis prod_cases3)
  note props = walHashGet_props [OF get]
  have rep': "index_rep w' G" by (rule walHashGet_rep [OF get rep])
  show ?thesis
  proof (cases "rc = SQLITE_OK")
    case False
    then have "walCleanupHash env w = w'" using \<open>mxFrame (hdr w) \<noteq> 0\<close> get m by (simp add: walCleanupHash_def Let_def)
    then show ?thesis using rep' props(8) False by auto
  next
    case True
    have mb: "m + 34 \<le> 2 ^ 32" and G: "G \<noteq> []" using rep m pos by (auto simp: index_rep_def)
    have kb: "iZero ?k < m" "m \<le> iZero (Suc ?k)" using walFramePage_bounds [OF pos mb] by simp_all
    have len: "length G + 34 \<le> 2 ^ 32" using rep by (simp add: index_rep_def)
    have "?k \<le> walFramePage (length G)" using walFramePage_mono [OF pos m(2) len] .
    then have "page_rep ?k (wi w' ?k) (seg ?k G)" using index_rep_page [OF rep' G] by simp
    moreover have "m - iZero ?k \<le> length (seg ?k G)" using kb m(2) by (simp only: length_seg iZero_Suc min.bounded_iff) arith
    ultimately have "page_rep ?k ((wi w' ?k) \<lparr>aHash := map (\<lambda>s. if unat s > m - iZero ?k then 0 else s) (aHash (wi w' ?k)),
        aPgno := zero_from (m - iZero ?k) (aPgno (wi w' ?k))\<rparr>) (take (m - iZero ?k) (seg ?k G))"
      by (rule page_rep_clean)
    then have "index_rep (w' \<lparr>wi := (wi w')(?k := (wi w' ?k) \<lparr>aHash := map (\<lambda>s. if unat s > m - iZero ?k then 0 else s) (aHash (wi w' ?k)),
        aPgno := zero_from (m - iZero ?k) (aPgno (wi w' ?k))\<rparr>)\<rparr>) (take m G)"
      using index_rep_truncate [OF rep' pos m(2) refl] by simp
    then show ?thesis
      using \<open>mxFrame (hdr w) \<noteq> 0\<close> get True props(1,2) m by (simp add: walCleanupHash_def Let_def)
  qed
qed

lemma walCleanupHash_mapped:
  assumes "m = unat (mxFrame (hdr w))" "0 < m" "is_mapped w (walFramePage m)" "k = walFramePage m"
  shows "walCleanupHash env w = w \<lparr>wi := (wi w)(k := (wi w k) \<lparr>aHash := map (\<lambda>s. if unat s > m - iZero k then 0 else s)
      (aHash (wi w k)), aPgno := zero_from (m - iZero k) (aPgno (wi w k))\<rparr>)\<rparr>"
proof -
  obtain rc w' z where get: "walHashGet env w k = (rc, w', z)" by (metis prod_cases3)
  have "mxFrame (hdr w) \<noteq> 0" using assms(1,2) by (auto simp: unat_gt_0)
  then show ?thesis
    using get walHashGet_props(1,8) [OF get] assms by (simp add: walCleanupHash_def Let_def)
qed

lemma page_rep_zero: "page_rep k (zero_page k) []"
  by (simp add: page_rep_def zero_page_def chain_Nil)

lemma n_pgno_pos: "0 < n_pgno k"
  by (simp add: n_pgno_def wi_consts)

lemma walFramePage_range: "iZero k < f \<Longrightarrow> f \<le> iZero (Suc k) \<Longrightarrow> f + 34 \<le> 2 ^ 32 \<Longrightarrow> walFramePage f = k"
  using walFramePage_iff [of f k] by simp

text \<open>
  After the table is emptied for its first entry, or cleaned of the leftovers of a lost transaction, it holds the entries
  of the first \<open>j\<close> frames and no other.
\<close>

lemma append_prepare:
  assumes rep: "index_rep w G" and m: "m = unat (mxFrame (hdr w))" "j \<le> length G" and ends: "j = m \<or> j = length G"
    and bound: "Suc j + 34 \<le> 2 ^ 32" and k: "k = walFramePage (Suc j)" "is_mapped w k"
    and w2: "w2 = (if Suc j - iZero k = 1 then w \<lparr>wi := (wi w)(k := zero_page k)\<rparr> else w)"
    and w3: "w3 = (if aPgno (wi w2 k) ! (j - iZero k) \<noteq> 0 then walCleanupHash env w2 else w2)"
  shows "\<exists>pg. w3 = w \<lparr>wi := (wi w)(k := pg)\<rparr> \<and> page_rep k pg (take (j - iZero k) (seg k G))"
    and "j - iZero k < length (aPgno (wi w2 k))"
proof -
  have kb: "iZero k \<le> j" "j < iZero (Suc k)"
    using walFramePage_bounds [of "Suc j"] bound k(1) by simp_all
  then have idx: "j - iZero k < n_pgno k" by (simp add: iZero_Suc)
  then show "j - iZero k < length (aPgno (wi w2 k))"
    using index_rep_shaped [OF rep, of k] shaped_zero_page [of k] w2 by (simp add: shaped_def)
  show "\<exists>pg. w3 = w \<lparr>wi := (wi w)(k := pg)\<rparr> \<and> page_rep k pg (take (j - iZero k) (seg k G))"
  proof (cases "j = iZero k")
    case True
    then have "w3 = w \<lparr>wi := (wi w)(k := zero_page k)\<rparr>"
      using w2 w3 n_pgno_pos [of k] by (simp add: zero_page_def)
    with True show ?thesis using page_rep_zero by auto
  next
    case False
    with kb have j: "iZero k < j" by simp
    then have w2: "w2 = w" using w2 by simp
    have kj: "walFramePage j = k" using j kb bound by (intro walFramePage_range) simp_all
    have G: "G \<noteq> []" and len: "length G + 34 \<le> 2 ^ 32" using j m rep by (auto simp: index_rep_def)
    have "k \<le> walFramePage (length G)" using walFramePage_mono [of j "length G"] j m(2) len kj by simp
    then have page: "page_rep k (wi w k) (seg k G)" by (rule index_rep_page [OF rep G])
    have same: "w = w \<lparr>wi := (wi w)(k := wi w k)\<rparr>" by simp
    show ?thesis
    proof (cases "j = length G")
      case True
      then have l: "length (seg k G) = j - iZero k" using idx by (simp add: length_seg)
      then have "aPgno (wi w k) ! (j - iZero k) = 0"
        using page idx by (simp add: page_rep_def nth_append)
      then have "w3 = w" using w3 w2 by simp
      then show ?thesis using page l same by (intro exI [of _ "wi w k"]) simp
    next
      case False
      with m(2) ends have jm: "j = m" and less: "j < length G" by simp_all
      have i: "j - iZero k < length (seg k G)" using less idx j by (simp add: length_seg)
      then have "aPgno (wi w k) ! (j - iZero k) = G ! j"
        using page seg_nth [OF i] j by (simp add: page_rep_def nth_append)
      moreover have "G ! j \<noteq> 0" using rep nth_mem [OF less] by (auto simp: index_rep_def)
      ultimately have w3: "w3 = walCleanupHash env w" using w3 w2 by simp
      have pos: "0 < m" "is_mapped w (walFramePage m)" "k = walFramePage m" using j k(2) kj jm by simp_all
      have "w3 = w \<lparr>wi := (wi w)(k := (wi w k) \<lparr>aHash := map (\<lambda>s. if unat s > j - iZero k then 0 else s)
          (aHash (wi w k)), aPgno := zero_from (j - iZero k) (aPgno (wi w k))\<rparr>)\<rparr>"
        unfolding w3 jm by (rule walCleanupHash_mapped [OF m(1) pos])
      with page_rep_clean [OF page less_imp_le [OF i]] show ?thesis by blast
    qed
  qed
qed

text \<open>A represented list grows by a frame when the table of that frame does.\<close>

lemma index_rep_extend:
  assumes rep: "index_rep w G" and j: "j \<le> length G" and p: "p \<noteq> 0" and bound: "Suc j + 34 \<le> 2 ^ 32"
    and k: "k = walFramePage (Suc j)" "is_mapped w k"
    and page: "page_rep k pg (take (j - iZero k) (seg k G) @ [p])"
  shows "index_rep (w \<lparr>wi := (wi w)(k := pg)\<rparr>) (take j G @ [p])"
proof -
  have kb: "iZero k \<le> j" "j < iZero (Suc k)"
    using walFramePage_bounds [of "Suc j"] bound k(1) by simp_all
  have len: "length G + 34 \<le> 2 ^ 32" using rep by (simp add: index_rep_def)
  have below: "G \<noteq> [] \<and> l \<le> walFramePage (length G) \<and> seg l (take j G @ [p]) = seg l G" if "l < k" for l
  proof -
    have l: "iZero (Suc l) \<le> j" using iZero_mono [of "Suc l" k] that kb by simp
    then have pos: "0 < j" using n_pgno_pos [of l] by (simp add: iZero_Suc)
    have "walFramePage j \<le> walFramePage (length G)" using walFramePage_mono [OF pos j len] .
    moreover have "l \<le> walFramePage j"
    proof (rule ccontr)
      assume "\<not> l \<le> walFramePage j"
      then have "iZero (Suc (walFramePage j)) \<le> iZero l" by (intro iZero_mono) simp
      moreover have "j \<le> iZero (Suc (walFramePage j))" using walFramePage_bounds [OF pos] bound by simp
      ultimately show False using l n_pgno_pos [of l] by (simp add: iZero_Suc)
    qed
    moreover have "seg l (take j G @ [p]) = seg l G"
      using j l seg_append_full [of l "take j G" "[p]"] seg_take_full [of l j G] by simp
    moreover have "G \<noteq> []" using pos j by auto
    ultimately show ?thesis by simp
  qed
  have "page_rep l (((wi w)(k := pg)) l) (seg l (take j G @ [p]))" if l: "l \<le> k" for l
  proof (cases "l = k")
    case True
    then show ?thesis using page kb j seg_append_last [of k "take j G" p] seg_take_last [of k j G] by simp
  next
    case False
    with l below [of l] show ?thesis using index_rep_page [OF rep, of l] by simp
  qed
  moreover have "exclusiveMode w = WAL_HEAPMEMORY_MODE \<longrightarrow> is_mapped w l" if "l \<le> k" for l
    using that k(2) below [of l] rep by (cases "l = k") (auto simp: index_rep_def)
  moreover have "shaped l (((wi w)(k := pg)) l)" for l
    using index_rep_shaped [OF rep] chain_shaped [OF page] by simp
  ultimately show ?thesis
    using rep p j bound k(1) by (auto simp: index_rep_def is_mapped_def dest: in_set_takeD)
qed

lemma walIndexAppend_unfold:
  assumes get: "walHashGet env w k = (SQLITE_OK, w1, z)" and k: "k = walFramePage iFrame"
    and w2: "w2 = (if iFrame - z = 1 then w1 \<lparr>wi := (wi w1)(k := zero_page k)\<rparr> else w1)"
    and old: "iFrame - z - 1 < length (aPgno (wi w2 k))"
    and w3: "w3 = (if aPgno (wi w2 k) ! (iFrame - z - 1) \<noteq> 0 then walCleanupHash env w2 else w2)"
    and key: "append_probe (aHash (wi w3 k)) (walHash p) (iFrame - z) = Some (Some key)"
    and i: "(iFrame - z - 1) AND (HASHTABLE_NPAGE - 1) = i"
    and sh: "i < length (aPgno (wi w3 k))" "key < length (aHash (wi w3 k))"
  shows "walIndexAppend env w iFrame p = Some (SQLITE_OK, w3 \<lparr>wi := (wi w3)(k :=
    \<lparr>aPgno = (aPgno (wi w3 k))[i := p], aHash = (aHash (wi w3 k))[key := of_nat (iFrame - z)]\<rparr>)\<rparr>)"
proof -
  have rd: "rd (aPgno (wi w2 k)) (iFrame - z - 1) = Some (aPgno (wi w2 k) ! (iFrame - z - 1))"
    using old by (simp add: rd_def)
  have wr: "wr (aPgno (wi w3 k)) i p = Some ((aPgno (wi w3 k))[i := p])"
    "wr (aHash (wi w3 k)) key v = Some ((aHash (wi w3 k))[key := v])" for v
    using sh by (simp_all add: wr_def)
  show ?thesis
    unfolding walIndexAppend_def Let_def k [symmetric] get prod.case
    by (simp only: if_False simp_thms w2 [symmetric] rd bind.bind_lunit w3 [symmetric] key option.case i wr)
qed

text \<open>Frame \<open>j + 1\<close> is added behind the first \<open>j\<close>; leftovers behind the header's \<open>mxFrame\<close> go first.\<close>

lemma walIndexAppend_rep:
  assumes rep: "index_rep w G" and m: "m = unat (mxFrame (hdr w))" "j \<le> length G"
    and ends: "j = m \<or> j = length G" and p: "p \<noteq> 0" and bound: "Suc j + 34 \<le> 2 ^ 32"
  shows "\<exists>rc w'. walIndexAppend env w (Suc j) p = Some (rc, w')
    \<and> index_rep w' (if rc = SQLITE_OK then take j G @ [p] else G)
    \<and> hdr w' = hdr w \<and> minFrame w' = minFrame w
    \<and> (\<forall>l. is_mapped w l \<longrightarrow> is_mapped w' l) \<and> (is_mapped w 0 \<longrightarrow> aHdr w' = aHdr w \<and> ckptInfo w' = ckptInfo w)
    \<and> (is_mapped w (walFramePage (Suc j)) \<longrightarrow> rc = SQLITE_OK) \<and> szPage w' = szPage w
    \<and> (rc = SQLITE_OK \<longrightarrow> is_mapped w' (walFramePage (Suc j)))"
proof -
  let ?k = "walFramePage (Suc j)"
  obtain rc w1 z where get: "walHashGet env w ?k = (rc, w1, z)" by (metis prod_cases3)
  note props = walHashGet_props [OF get]
  have rep1: "index_rep w1 G" by (rule walHashGet_rep [OF get rep])
  show ?thesis
  proof (cases "rc = SQLITE_OK")
    case False
    then show ?thesis using get rep1 props by (auto simp: walIndexAppend_def)
  next
    case True
    have kb: "iZero ?k \<le> j" "j < iZero (Suc ?k)"
      using walFramePage_bounds [of "Suc j"] bound by simp_all
    let ?i = "j - iZero ?k" and ?P = "take (j - iZero ?k) (seg ?k G)"
    have lP: "length ?P = ?i" "?i < n_pgno ?k" using kb m(2) by (simp_all add: length_seg iZero_Suc)
    define w2 where "w2 = (if Suc j - iZero ?k = 1 then w1 \<lparr>wi := (wi w1)(?k := zero_page ?k)\<rparr> else w1)"
    define w3 where "w3 = (if aPgno (wi w2 ?k) ! ?i \<noteq> 0 then walCleanupHash env w2 else w2)"
    have m1: "m = unat (mxFrame (hdr w1))" using m props(2) by simp
    note prep = append_prepare [OF rep1 m1 m(2) ends bound refl props(7) [OF True] w2_def w3_def]
    from prep(1) obtain pg where w3: "w3 = w1 \<lparr>wi := (wi w1)(?k := pg)\<rparr>" and pg: "page_rep ?k pg ?P" by blast
    from page_rep_add [OF pg, of p] lP obtain key where
      key: "append_probe (aHash pg) (walHash p) (Suc ?i) = Some (Some key)" "key < HASHTABLE_NSLOT" and
      new: "page_rep ?k \<lparr>aPgno = (aPgno pg)[?i := p], aHash = (aHash pg)[key := of_nat (Suc ?i)]\<rparr> (?P @ [p])"
      by auto
    let ?pg = "\<lparr>aPgno = (aPgno pg)[?i := p], aHash = (aHash pg)[key := of_nat (Suc ?i)]\<rparr>"
    have idx: "Suc j - iZero ?k = Suc ?i" using kb by simp
    have mask: "(Suc j - iZero ?k - 1) AND (HASHTABLE_NPAGE - 1) = ?i"
      using and_low [of ?i 12] lP n_pgno_le [of ?k] by (simp add: HASHTABLE_NPAGE_def)
    have sh: "?i < length (aPgno pg)" "key < length (aHash pg)"
      using chain_shaped [OF pg] lP key(2) by (simp_all add: shaped_def)
    have get': "walHashGet env w ?k = (SQLITE_OK, w1, iZero ?k)" using get True props(1) by simp
    have "walIndexAppend env w (Suc j) p = Some (SQLITE_OK, w3 \<lparr>wi := (wi w3)(?k :=
        \<lparr>aPgno = (aPgno (wi w3 ?k))[?i := p], aHash = (aHash (wi w3 ?k))[key := of_nat (Suc j - iZero ?k)]\<rparr>)\<rparr>)"
      using walIndexAppend_unfold [OF get' refl w2_def _ _ _ mask _ _ ] prep(2) key(1) sh w3 w3_def idx
      by simp
    then have "walIndexAppend env w (Suc j) p = Some (SQLITE_OK, w1 \<lparr>wi := (wi w1)(?k := ?pg)\<rparr>)"
      by (simp add: w3 idx)
    moreover have "index_rep (w1 \<lparr>wi := (wi w1)(?k := ?pg)\<rparr>) (take j G @ [p])"
      using index_rep_extend [OF rep1 m(2) p bound refl props(7) [OF True] new] .
    ultimately show ?thesis
      using props(2,3,9,12,13) props(7) [OF True] True by (auto simp: is_mapped_def)
  qed
qed

subsection \<open>The index through transactions\<close>

lemma length_hdr_bytes: "length (aSalt h) = 8 \<Longrightarrow> length (hdr_bytes h) = 40"
  by (simp add: hdr_bytes_def le32_def)

lemma walIndexWriteHdr_eq:
  assumes "length (aSalt (hdr w)) = 8"
  shows "\<exists>h. walIndexWriteHdr w = Some (w \<lparr>hdr := h, aHdr := (h, h)\<rparr>) \<and> mxFrame h = mxFrame (hdr w)
    \<and> aSalt h = aSalt (hdr w) \<and> aFrameCksum h = aFrameCksum (hdr w) \<and> nPage h = nPage (hdr w)"
proof -
  let ?h = "(hdr w) \<lparr>isInit := 1, iVersion := WALINDEX_MAX_VERSION\<rparr>"
  have "length (hdr_bytes ?h) = 40" using assms by (intro length_hdr_bytes) simp
  then have "walChecksumBytes True (hdr_bytes ?h) None = Some (cksum True (hdr_bytes ?h) (0, 0))"
    by (subst walChecksumBytes_reference) auto
  then show ?thesis
    by (intro exI [of _ "?h \<lparr>h_aCksum := cksum True (hdr_bytes ?h) (0, 0)\<rparr>"]) (simp add: walIndexWriteHdr_def Let_def)
qed

text \<open>
  The abstract log: the pages of the committed frames \<open>C\<close> and of those \<open>T\<close> that the open transaction has written.
  \<open>X\<close> are leftovers. The regions of the frames of \<open>T\<close>, which a rollback reads, are mapped.
\<close>

definition wal_rep :: "Wal \<Rightarrow> u32 list \<Rightarrow> u32 list \<Rightarrow> bool" where
  "wal_rep w C T \<longleftrightarrow> (\<exists>X. index_rep w (C @ T @ X)) \<and> is_mapped w 0
     \<and> unat (mxFrame (hdr w)) = length C + length T \<and> unat (mxFrame (fst (aHdr w))) = length C
     \<and> length (aSalt (hdr w)) = 8 \<and> length (aSalt (fst (aHdr w))) = 8
     \<and> (\<forall>f. length C < f \<longrightarrow> f \<le> length C + length T \<longrightarrow> is_mapped w (walFramePage f))"

text \<open>
  What a writer does to the log, and what may happen to it: frames are written, with the last of a transaction
  as its commit or not, or not all of them (an error); the transaction is rolled back, to its start or to
  a savepoint; the writer dies, and the next one starts from the shared header; the log is restarted.
\<close>

inductive wal_step :: "Wal \<times> u32 list \<times> u32 list \<Rightarrow> Wal \<times> u32 list \<times> u32 list \<Rightarrow> bool" where
  frames: "walFrames_index env w sz ps nTruncate = Some (rc, w') \<Longrightarrow> 0 \<notin> set ps \<Longrightarrow>
    length C + length T + length ps + 34 \<le> 2 ^ 32 \<Longrightarrow>
    wal_step (w, C, T) (w', if rc \<noteq> SQLITE_OK then (C, T) else if nTruncate = 0 then (C, T @ ps) else (C @ T @ ps, []))"
| undo: "sqlite3WalUndo env xUndo w = Some (rc, us, w') \<Longrightarrow> writeLock w \<Longrightarrow> wal_step (w, C, T) (w', C, [])"
| savepoint_undo: "sqlite3WalSavepointUndo env w d = (d', w') \<Longrightarrow> n \<le> length T \<Longrightarrow>
    (if snd (snd (snd d)) = nCkpt w then unat (fst d) = length C + n else C = [] \<and> n = 0) \<Longrightarrow>
    wal_step (w, C, T) (w', C, take n T)"
| crash: "wal_step (w, C, T) (w \<lparr>hdr := fst (aHdr w), iReCksum := 0\<rparr>, C, [])"
| restart: "walRestartHdr w salt1 = Some w' \<Longrightarrow> length salt1 = 4 \<Longrightarrow> wal_step (w, C, []) (w', [], [])"

lemma append_frames_rep:
  assumes "index_rep w G" "unat (mxFrame (hdr w)) \<le> j" "j \<le> length G" "j = unat (mxFrame (hdr w)) \<or> j = length G"
    and "0 \<notin> set ps" "j + length ps + 34 \<le> 2 ^ 32"
  shows "\<exists>rc f w'. append_frames env w j ps = Some (rc, f, w') \<and> hdr w' = hdr w \<and> minFrame w' = minFrame w
    \<and> (\<forall>l. is_mapped w l \<longrightarrow> is_mapped w' l) \<and> (is_mapped w 0 \<longrightarrow> aHdr w' = aHdr w \<and> ckptInfo w' = ckptInfo w)
    \<and> (if rc = SQLITE_OK then f = j + length ps \<and> (\<exists>X. index_rep w' (take j G @ ps @ X))
       else \<exists>X. index_rep w' (take j G @ X))
    \<and> ((\<forall>k \<le> walFramePage (j + length ps). is_mapped w k) \<longrightarrow> rc = SQLITE_OK)
    \<and> (rc = SQLITE_OK \<longrightarrow> (\<forall>f. j < f \<longrightarrow> f \<le> j + length ps \<longrightarrow> is_mapped w' (walFramePage f)))"
  using assms
proof (induction ps arbitrary: w G j)
  case Nil
  then show ?case by (auto intro: exI [of _ "drop j G"])
next
  case (Cons p ps)
  have bound: "Suc j + 34 \<le> 2 ^ 32" and p: "p \<noteq> 0" using Cons.prems by simp_all
  obtain rc w' where app: "walIndexAppend env w (Suc j) p = Some (rc, w')"
    and rep: "index_rep w' (if rc = SQLITE_OK then take j G @ [p] else G)"
    and same: "hdr w' = hdr w" "minFrame w' = minFrame w" "\<forall>l. is_mapped w l \<longrightarrow> is_mapped w' l"
      "is_mapped w 0 \<longrightarrow> aHdr w' = aHdr w \<and> ckptInfo w' = ckptInfo w"
    and ok: "is_mapped w (walFramePage (Suc j)) \<longrightarrow> rc = SQLITE_OK"
    and here: "rc = SQLITE_OK \<longrightarrow> is_mapped w' (walFramePage (Suc j))"
    using walIndexAppend_rep [OF Cons.prems(1) refl Cons.prems(3,4) p bound, of env] by blast
  have pages: "walFramePage (Suc j) \<le> walFramePage (j + length (p # ps))"
    using Cons.prems(6) by (intro walFramePage_mono) simp_all
  show ?case
  proof (cases "rc = SQLITE_OK")
    case False
    then have "index_rep w' (take j G @ drop j G)" using rep by simp
    then have "\<exists>X. index_rep w' (take j G @ X)" by blast
    with False app same ok pages show ?thesis by auto
  next
    case True
    then have rep': "index_rep w' (take j G @ [p])" using rep by simp
    have "\<exists>rc f w''. append_frames env w' (Suc j) ps = Some (rc, f, w'') \<and> hdr w'' = hdr w' \<and> minFrame w'' = minFrame w'
      \<and> (\<forall>l. is_mapped w' l \<longrightarrow> is_mapped w'' l) \<and> (is_mapped w' 0 \<longrightarrow> aHdr w'' = aHdr w' \<and> ckptInfo w'' = ckptInfo w')
      \<and> (if rc = SQLITE_OK then f = Suc j + length ps \<and> (\<exists>X. index_rep w'' (take (Suc j) (take j G @ [p]) @ ps @ X))
         else \<exists>X. index_rep w'' (take (Suc j) (take j G @ [p]) @ X))
      \<and> ((\<forall>k \<le> walFramePage (Suc j + length ps). is_mapped w' k) \<longrightarrow> rc = SQLITE_OK)
      \<and> (rc = SQLITE_OK \<longrightarrow> (\<forall>f. Suc j < f \<longrightarrow> f \<le> Suc j + length ps \<longrightarrow> is_mapped w'' (walFramePage f)))"
      using Cons.prems same(1) by (intro Cons.IH [OF rep']) simp_all
    then obtain rc' f w'' where ih: "append_frames env w' (Suc j) ps = Some (rc', f, w'')" "hdr w'' = hdr w'"
      "minFrame w'' = minFrame w'" "\<forall>l. is_mapped w' l \<longrightarrow> is_mapped w'' l"
      "is_mapped w' 0 \<longrightarrow> aHdr w'' = aHdr w' \<and> ckptInfo w'' = ckptInfo w'"
      "if rc' = SQLITE_OK then f = Suc j + length ps \<and> (\<exists>X. index_rep w'' (take (Suc j) (take j G @ [p]) @ ps @ X))
         else \<exists>X. index_rep w'' (take (Suc j) (take j G @ [p]) @ X)"
      "(\<forall>k \<le> walFramePage (Suc j + length ps). is_mapped w' k) \<longrightarrow> rc' = SQLITE_OK"
      "rc' = SQLITE_OK \<longrightarrow> (\<forall>f. Suc j < f \<longrightarrow> f \<le> Suc j + length ps \<longrightarrow> is_mapped w'' (walFramePage f))"
      by blast
    have "is_mapped w'' (walFramePage f)" if "rc' = SQLITE_OK" "j < f" "f \<le> j + length (p # ps)" for f
      using that here True ih(4,8) by (cases "f = Suc j") auto
    moreover have "take (Suc j) (take j G @ [p]) = take j G @ [p]" using Cons.prems(3) by simp
    ultimately show ?thesis using True app same ih by (cases "rc' = SQLITE_OK") auto
  qed
qed

lemma unat_of_nat_u32: "n + 34 \<le> 2 ^ 32 \<Longrightarrow> unat (of_nat n :: u32) = n"
  by (simp add: unat_of_nat)

lemma index_rep_cong:
  "wi w' = wi w \<Longrightarrow> mapped w' = mapped w \<Longrightarrow> nWiData w' = nWiData w \<Longrightarrow> exclusiveMode w' = exclusiveMode w \<Longrightarrow>
   index_rep w' G = index_rep w G"
  by (simp add: index_rep_def is_mapped_def)

lemma wal_rep_frames:
  assumes rep: "wal_rep w C T" and run: "walFrames_index env w sz ps nTruncate = Some (rc, w')"
    and ps: "0 \<notin> set ps" "length C + length T + length ps + 34 \<le> 2 ^ 32"
  shows "if rc \<noteq> SQLITE_OK then wal_rep w' C T else if nTruncate = 0 then wal_rep w' C (T @ ps) else wal_rep w' (C @ T @ ps) []"
proof -
  let ?j = "length C + length T"
  obtain X where X: "index_rep w (C @ T @ X)" using rep by (auto simp: wal_rep_def)
  have mx: "unat (mxFrame (hdr w)) = ?j" and m0: "is_mapped w 0" using rep by (simp_all add: wal_rep_def)
  have tk: "take ?j (C @ T @ X) = C @ T" by simp
  obtain rc' f w1 where app: "append_frames env w ?j ps = Some (rc', f, w1)" and
    w1: "hdr w1 = hdr w" "\<forall>l. is_mapped w l \<longrightarrow> is_mapped w1 l" "is_mapped w 0 \<longrightarrow> aHdr w1 = aHdr w \<and> ckptInfo w1 = ckptInfo w"
    and res: "if rc' = SQLITE_OK then f = ?j + length ps \<and> (\<exists>Y. index_rep w1 ((C @ T) @ ps @ Y))
       else \<exists>Y. index_rep w1 ((C @ T) @ Y)"
    and new: "rc' = SQLITE_OK \<longrightarrow> (\<forall>f. ?j < f \<longrightarrow> f \<le> ?j + length ps \<longrightarrow> is_mapped w1 (walFramePage f))"
    using append_frames_rep [OF X _ _ _ ps(1), of ?j env] mx ps(2) unfolding tk by auto
  have old: "is_mapped w1 (walFramePage f)" if "length C < f" "f \<le> ?j" for f
    using rep w1(2) that by (simp add: wal_rep_def)
  show ?thesis
  proof (cases "rc' = SQLITE_OK")
    case False
    then have "rc = rc' \<and> w' = w1" using run app mx by (simp add: walFrames_index_def)
    with False res rep w1 show ?thesis by (auto simp: wal_rep_def)
  next
    case True
    define h where "h = (let h = (hdr w) \<lparr>h_szPage := of_nat ((sz AND 0xff00) OR drop_bit 16 sz), mxFrame := of_nat f\<rparr> in
      if nTruncate \<noteq> 0 then h \<lparr>iChange := iChange h + 1, nPage := nTruncate\<rparr> else h)"
    have h: "unat (mxFrame h) = ?j + length ps" "aSalt h = aSalt (hdr w)"
      using True res ps(2) unat_of_nat_u32 [of f] by (auto simp: h_def Let_def)
    obtain Y where Y: "index_rep w1 (C @ T @ ps @ Y)" using True res by auto
    have salt: "length (aSalt h) = 8" using rep h by (simp add: wal_rep_def)
    obtain h' where wh: "walIndexWriteHdr (w1 \<lparr>hdr := h\<rparr>) = Some (w1 \<lparr>hdr := h', aHdr := (h', h')\<rparr>)"
      "mxFrame h' = mxFrame h" "aSalt h' = aSalt h"
      using walIndexWriteHdr_eq [of "w1 \<lparr>hdr := h\<rparr>"] salt by auto
    have out: "rc = SQLITE_OK" "w' = (if nTruncate = 0 then w1 \<lparr>hdr := h\<rparr> else w1 \<lparr>hdr := h', aHdr := (h', h')\<rparr>)"
      using run app mx True wh(1) w1(1) by (auto simp: walFrames_index_def h_def Let_def split: if_splits)
    have rep': "index_rep w' (C @ T @ ps @ Y)" using Y out(2) index_rep_cong [of w' w1] by simp
    have maps: "is_mapped w' (walFramePage f)" if "length C < f" "f \<le> ?j + length ps" for f
      using old [OF that(1)] new True that(2) out(2) by (cases "f \<le> ?j") (auto simp: is_mapped_def)
    show ?thesis
      using rep rep' w1 out h wh(2,3) m0 maps by (auto simp: wal_rep_def is_mapped_def)
  qed
qed

lemma walFramePgno_rep:
  assumes rep: "index_rep w G" and f: "0 < f" "f \<le> length G" and here: "is_mapped w (walFramePage f)"
  shows "walFramePgno w f = Some (G ! (f - 1))"
proof -
  let ?k = "walFramePage f"
  have len: "length G + 34 \<le> 2 ^ 32" and G: "G \<noteq> []" using rep f by (auto simp: index_rep_def)
  then have fb: "f + 34 \<le> 2 ^ 32" using f by simp
  have kb: "iZero ?k < f" "f \<le> iZero (Suc ?k)" using walFramePage_bounds [OF f(1) fb] by simp_all
  have page: "page_rep ?k (wi w ?k) (seg ?k G)"
    using index_rep_page [OF rep G] walFramePage_mono [OF f len] by simp
  have i: "f - 1 - iZero ?k < length (seg ?k G)" using kb f by (simp add: length_seg iZero_Suc) linarith
  have "rd (aPgno (wi w ?k)) (f - 1 - iZero ?k) = Some (G ! (f - 1))"
    using page i seg_nth [OF i] kb by (simp add: rd_def page_rep_def nth_append)
  moreover have "(f - 1 - HASHTABLE_NPAGE_ONE) mod HASHTABLE_NPAGE = f - 1 - iZero ?k" if "?k \<noteq> 0"
  proof -
    have "f - 1 - HASHTABLE_NPAGE_ONE = (?k - 1) * HASHTABLE_NPAGE + (f - 1 - iZero ?k)"
      using kb that by (simp add: iZero_def)
    moreover have "f - 1 - iZero ?k < HASHTABLE_NPAGE" using kb that by (simp add: iZero_Suc n_pgno_def)
    ultimately show ?thesis by simp
  qed
  ultimately show ?thesis using here by (cases "?k = 0") (simp_all add: walFramePgno_def Let_def is_mapped_def)
qed

lemma undo_loop_pages:
  assumes "index_rep w G" "f + n \<le> length G" "\<forall>i. f < i \<longrightarrow> i \<le> f + n \<longrightarrow> is_mapped w (walFramePage i)"
  shows "\<exists>rc us. undo_loop xUndo w (Suc f) n = Some (rc, us) \<and> (rc = SQLITE_OK \<longrightarrow> us = take n (drop f G))
    \<and> ((\<forall>p. xUndo p = SQLITE_OK) \<longrightarrow> rc = SQLITE_OK)"
  using assms(2,3)
proof (induction n arbitrary: f)
  case (Suc n)
  have "walFramePgno w (Suc f) = Some (G ! f)"
    using walFramePgno_rep [OF assms(1), of "Suc f"] Suc.prems by simp
  moreover have "take (Suc n) (drop f G) = G ! f # take n (drop (Suc f) G)"
    using Suc.prems by (metis Cons_nth_drop_Suc Suc_le_lessD add_Suc_right le_add1 le_trans take_Suc_Cons not_less_eq_eq)
  ultimately show ?case
    using Suc.IH [of "Suc f"] Suc.prems by (cases "xUndo (G ! f) = SQLITE_OK") auto
qed simp

lemma wal_rep_undo:
  assumes rep: "wal_rep w C T" and lock: "writeLock w"
  shows "\<exists>rc us w'. sqlite3WalUndo env xUndo w = Some (rc, us, w') \<and> wal_rep w' C []
    \<and> (rc = SQLITE_OK \<longrightarrow> us = T) \<and> ((\<forall>p. xUndo p = SQLITE_OK) \<longrightarrow> rc = SQLITE_OK)"
proof -
  obtain X where X: "index_rep w (C @ T @ X)" using rep by (auto simp: wal_rep_def)
  have mx: "unat (mxFrame (hdr w)) = length C + length T" "unat (mxFrame (fst (aHdr w))) = length C"
    using rep by (simp_all add: wal_rep_def)
  define w0 where "w0 = w \<lparr>hdr := fst (aHdr w)\<rparr>"
  have X0: "index_rep w0 (C @ T @ X)" using X by (simp add: w0_def index_rep_def is_mapped_def)
  obtain rc us where loop: "undo_loop xUndo w0 (Suc (length C)) (length T) = Some (rc, us)"
    "rc = SQLITE_OK \<longrightarrow> us = T" "(\<forall>p. xUndo p = SQLITE_OK) \<longrightarrow> rc = SQLITE_OK"
    using undo_loop_pages [OF X0, of "length C" "length T" xUndo] rep by (auto simp: w0_def wal_rep_def is_mapped_def)
  define w1 where "w1 = (if length C + length T \<noteq> length C then walCleanupHash env w0 else w0)"
  have Y: "\<exists>Y. index_rep w1 (C @ Y)"
  proof (cases "T = []")
    case False
    have "index_rep (walCleanupHash env w0) (take (length C) (C @ T @ X)) \<or> index_rep (walCleanupHash env w0) (C @ T @ X)"
      using walCleanupHash_rep [OF X0 refl, where env = env] mx by (auto simp: w0_def)
    then show ?thesis using False by (auto simp: w1_def intro: exI [of _ "[]"])
  qed (use X0 in \<open>auto simp: w1_def\<close>)
  have m0: "is_mapped w0 0" "hdr w0 = fst (aHdr w)" "aHdr w0 = aHdr w"
    using rep by (simp_all add: w0_def wal_rep_def is_mapped_def)
  have w1: "hdr w1 = fst (aHdr w)" "aHdr w1 = aHdr w" "is_mapped w1 0"
    using walCleanupHash_props [where env = env and w = w0] m0 by (simp_all add: w1_def)
  have "length (aSalt (fst (aHdr w))) = 8" using rep by (simp add: wal_rep_def)
  with Y w1 mx(2) have "wal_rep (w1 \<lparr>iReCksum := 0\<rparr>) C []"
    using index_rep_cong [of "w1 \<lparr>iReCksum := 0\<rparr>" w1] by (simp add: wal_rep_def is_mapped_def)
  moreover have "sqlite3WalUndo env xUndo w = Some (rc, us, w1 \<lparr>iReCksum := 0\<rparr>)"
    using lock loop(1) mx by (simp add: sqlite3WalUndo_def Let_def w1_def w0_def)
  ultimately show ?thesis using loop(2,3) by blast
qed

lemma wal_rep_savepoint_undo:
  assumes rep: "wal_rep w C T" and run: "sqlite3WalSavepointUndo env w d = (d', w')" and n: "n \<le> length T"
    and d: "if snd (snd (snd d)) = nCkpt w then unat (fst d) = length C + n else C = [] \<and> n = 0"
  shows "wal_rep w' C (take n T)"
proof -
  obtain d0 d1 d2 d3 where d4: "d = (d0, d1, d2, d3)" by (metis prod_cases4)
  define e where "e = (if d3 \<noteq> nCkpt w then 0 else d0)"
  have e: "unat e = length C + n" using d d4 by (auto simp: e_def split: if_splits)
  have d03: "(if d3 \<noteq> nCkpt w then (0, nCkpt w) else (d0, d3)) = (e, nCkpt w)" by (simp add: e_def)
  obtain X where X: "index_rep w (C @ T @ X)" using rep by (auto simp: wal_rep_def)
  have mx: "unat (mxFrame (hdr w)) = length C + length T" using rep by (simp add: wal_rep_def)
  show ?thesis
  proof (cases "e < mxFrame (hdr w)")
    case False
    then have "n = length T" using e mx n by (simp add: word_less_nat_alt)
    moreover have "w' = w" using run False by (simp add: sqlite3WalSavepointUndo_def d4 d03 Let_def)
    ultimately show ?thesis using rep by simp
  next
    case True
    define w0 where "w0 = w \<lparr>hdr := (hdr w) \<lparr>mxFrame := e, aFrameCksum := (d1, d2)\<rparr>\<rparr>"
    have X0: "index_rep w0 (C @ T @ X)" using X by (simp add: w0_def index_rep_def is_mapped_def)
    have tk: "take (length C + n) (C @ T @ X) = C @ take n T" using n by simp
    have Y: "\<exists>Y. index_rep (walCleanupHash env w0) (C @ take n T @ Y)"
    proof -
      have "index_rep (walCleanupHash env w0) (C @ take n T) \<or> index_rep (walCleanupHash env w0) (C @ T @ X)"
        using walCleanupHash_rep [OF X0, where m = "length C + n" and env = env] e n unfolding tk by (auto simp: w0_def)
      moreover have "C @ T @ X = C @ take n T @ (drop n T @ X)" by simp
      ultimately show ?thesis by (metis append_Nil2)
    qed
    have keep: "is_mapped (walCleanupHash env w0) l" if "is_mapped w l" for l
      using walCleanupHash_props(3) [of w0 l env] that by (simp add: w0_def is_mapped_def)
    have m0: "is_mapped w0 0" "aHdr w0 = aHdr w" "hdr w0 = (hdr w) \<lparr>mxFrame := e, aFrameCksum := (d1, d2)\<rparr>"
      using rep by (simp_all add: w0_def wal_rep_def is_mapped_def)
    have "hdr (walCleanupHash env w0) = (hdr w) \<lparr>mxFrame := e, aFrameCksum := (d1, d2)\<rparr>"
      "aHdr (walCleanupHash env w0) = aHdr w" "is_mapped (walCleanupHash env w0) 0"
      using walCleanupHash_props [where env = env and w = w0] m0 by simp_all
    with Y keep rep e n have "wal_rep (walCleanupHash env w0) C (take n T)" by (simp add: wal_rep_def)
    moreover have "wal_rep (x \<lparr>iReCksum := 0\<rparr>) C' T' = wal_rep x C' T'" for x C' T'
      using index_rep_cong [of "x \<lparr>iReCksum := 0\<rparr>" x] by (simp add: wal_rep_def is_mapped_def)
    moreover have "w' = walCleanupHash env w0 \<or> w' = (walCleanupHash env w0) \<lparr>iReCksum := 0\<rparr>"
      using run True by (auto simp: sqlite3WalSavepointUndo_def d4 d03 w0_def [symmetric] Let_def split: if_splits)
    ultimately show ?thesis by auto
  qed
qed

lemma wal_rep_restart:
  assumes rep: "wal_rep w C T" and salt: "length salt1 = 4"
  shows "\<exists>w'. walRestartHdr w salt1 = Some w' \<and> wal_rep w' [] []"
proof -
  have l: "length (aSalt (hdr w)) = 8" using rep by (simp add: wal_rep_def)
  define s where "s = be32 (1 + word4 False (aSalt (hdr w))) @ salt1"
  define w0 where "w0 = w \<lparr>nCkpt := nCkpt w + 1, hdr := (hdr w) \<lparr>mxFrame := 0, aSalt := s\<rparr>\<rparr>"
  have "length (aSalt (hdr w0)) = 8" using salt by (simp add: w0_def s_def)
  then obtain h where h: "walIndexWriteHdr w0 = Some (w0 \<lparr>hdr := h, aHdr := (h, h)\<rparr>)" "mxFrame h = 0" "length (aSalt h) = 8"
    using walIndexWriteHdr_eq [of w0] by (auto simp: w0_def)
  have steps: "get4 (aSalt (hdr w)) 0 = Some (word4 False (aSalt (hdr w)))"
    "put4 (aSalt (hdr w)) 0 v = Some (be32 v @ drop 4 (aSalt (hdr w)))"
    "wrs (be32 v @ drop 4 (aSalt (hdr w))) 4 salt1 = Some (be32 v @ salt1)" for v
    using l salt get4_word4 [of 0 "aSalt (hdr w)"] by (simp_all add: put4_eq wrs_eq)
  obtain w' where w': "walRestartHdr w salt1 = Some w'" "wi w' = wi w" "mapped w' = mapped w" "nWiData w' = nWiData w"
      "exclusiveMode w' = exclusiveMode w" "hdr w' = h" "aHdr w' = (h, h)"
    using h(1) by (simp add: walRestartHdr_def steps s_def [symmetric] w0_def [symmetric] Let_def) (simp add: w0_def)
  obtain X where "index_rep w (C @ T @ X)" using rep by (auto simp: wal_rep_def)
  then have "index_rep w []" by (rule index_rep_Nil)
  then have "index_rep w' ([] @ [] @ [])" using index_rep_cong [OF w'(2-5), of "[]"] by simp
  then have "wal_rep w' [] []" using w' h(2,3) rep unfolding wal_rep_def is_mapped_def by auto
  with w'(1) show ?thesis by blast
qed

lemma wal_step_rep:
  assumes "wal_step (w, C, T) (w', C', T')" "wal_rep w C T"
  shows "wal_rep w' C' T'"
  using assms(1)
proof (cases rule: wal_step.cases)
  case (frames env sz ps nTruncate rc)
  then show ?thesis using wal_rep_frames [OF assms(2) frames(2)] by (auto split: if_splits)
next
  case (undo env xUndo rc us)
  then show ?thesis using wal_rep_undo [OF assms(2), of env xUndo] by auto
next
  case (savepoint_undo env d d' n)
  then show ?thesis using wal_rep_savepoint_undo [OF assms(2)] by auto
next
  case crash
  obtain X where "index_rep w (C @ [] @ (T @ X))" using assms(2) by (auto simp: wal_rep_def)
  then have "index_rep w' (C @ [] @ (T @ X))" using crash index_rep_cong [of w' w] by simp
  with crash show ?thesis using assms(2) unfolding wal_rep_def is_mapped_def by auto
next
  case (restart salt1)
  then show ?thesis using wal_rep_restart [OF assms(2), of salt1] by auto
qed

text \<open>A run of the log from the moment a connection finds it empty.\<close>

inductive wal_reach :: "Wal \<Rightarrow> u32 list \<Rightarrow> u32 list \<Rightarrow> bool" where
  start: "(\<forall>k. shaped k (wi w k)) \<Longrightarrow> is_mapped w 0 \<Longrightarrow> mxFrame (hdr w) = 0 \<Longrightarrow> mxFrame (fst (aHdr w)) = 0 \<Longrightarrow>
    length (aSalt (hdr w)) = 8 \<Longrightarrow> length (aSalt (fst (aHdr w))) = 8 \<Longrightarrow> wal_reach w [] []"
| step: "wal_reach w C T \<Longrightarrow> wal_step (w, C, T) (w', C', T') \<Longrightarrow> wal_reach w' C' T'"

lemma wal_reach_rep: "wal_reach w C T \<Longrightarrow> wal_rep w C T"
proof (induction rule: wal_reach.induct)
  case (start w)
  then have "index_rep w ([] @ [] @ [])" by (simp add: index_rep_def)
  with start show ?case unfolding wal_rep_def by auto
next
  case (step w C T w' C' T')
  then show ?case by (blast intro: wal_step_rep)
qed

lemma walFrames_index_total:
  assumes rep: "wal_rep w C T" and ps: "0 \<notin> set ps" "length C + length T + length ps + 34 \<le> 2 ^ 32"
  shows "\<exists>rc w'. walFrames_index env w sz ps nTruncate = Some (rc, w')
    \<and> ((\<forall>k \<le> walFramePage (length C + length T + length ps). is_mapped w k) \<longrightarrow> rc = SQLITE_OK)"
proof -
  obtain X where X: "index_rep w (C @ T @ X)" using rep by (auto simp: wal_rep_def)
  have mx: "unat (mxFrame (hdr w)) = length C + length T" and salt: "length (aSalt (hdr w)) = 8"
    using rep by (simp_all add: wal_rep_def)
  obtain rc f w1 where app: "append_frames env w (length C + length T) ps = Some (rc, f, w1)" "hdr w1 = hdr w"
    "(\<forall>k \<le> walFramePage (length C + length T + length ps). is_mapped w k) \<longrightarrow> rc = SQLITE_OK"
    using append_frames_rep [OF X _ _ _ ps(1), of "length C + length T" env] mx ps(2) by auto
  let ?h = "(hdr w) \<lparr>h_szPage := of_nat ((sz AND 0xff00) OR drop_bit 16 sz), mxFrame := of_nat f,
    iChange := iChange (hdr w) + 1, nPage := nTruncate\<rparr>"
  obtain w' where "walIndexWriteHdr (w1 \<lparr>hdr := ?h\<rparr>) = Some w'"
    using walIndexWriteHdr_eq [of "w1 \<lparr>hdr := ?h\<rparr>"] salt by auto
  then show ?thesis
    using app mx by (cases "rc = SQLITE_OK"; cases "nTruncate = 0") (simp_all add: walFrames_index_def Let_def)
qed

text \<open>A log whose only transaction wrote pages 5, 9 and 5.\<close>

definition example_wal :: Wal where
  "example_wal = \<lparr>wi = zero_page, aHdr = (zero_hdr, zero_hdr),
     ckptInfo = \<lparr>nBackfill = 0, aReadMark = replicate 5 0, nBackfillAttempted = 0\<rparr>, mapped = \<lambda>_. True, nWiData = 1,
     szPage = 512, readLock = 0, exclusiveMode = 0, writeLock = True, ckptLock = False, readOnly = 0, bShmUnreliable = False,
     hdr = zero_hdr, minFrame = 1, iReCksum = 0, nCkpt = 0\<rparr>"

definition example_env :: wi_env where
  "example_env = \<lparr>realloc_ok = False, zero_ok = False, xShmMap = \<lambda>_. (10, False), faultSim = False\<rparr>"

lemma example_reach: "\<exists>w'. wal_reach w' [5, 9, 5] []"
proof -
  have start: "wal_reach example_wal [] []"
    by (rule wal_reach.start) (simp_all add: example_wal_def shaped_zero_page is_mapped_def zero_hdr_def)
  have rep: "wal_rep example_wal [] []" by (rule wal_reach_rep [OF start])
  have m: "\<forall>k \<le> walFramePage (length ([] :: u32 list) + length ([] :: u32 list) + length [5, 9, 5 :: u32]). is_mapped example_wal k"
    by (simp add: is_mapped_def example_wal_def walFramePage_def wi_consts)
  have ps: "0 \<notin> set [5, 9, 5 :: u32]" "length ([] :: u32 list) + length ([] :: u32 list) + length [5, 9, 5 :: u32] + 34 \<le> 2 ^ 32"
    by simp_all
  obtain rc w' where w': "walFrames_index \<lparr>realloc_ok = False, zero_ok = False, xShmMap = \<lambda>_. (10, False), faultSim = False\<rparr>
      example_wal 512 [5, 9, 5] 9 = Some (rc, w')" "rc = SQLITE_OK"
    using walFrames_index_total [OF rep ps] m by blast
  have "wal_step (example_wal, [], []) (w', if rc \<noteq> SQLITE_OK then ([], []) else if (9 :: u32) = 0 then ([], [] @ [5, 9, 5])
      else ([] @ [] @ [5, 9, 5], []))"
    by (rule wal_step.frames [OF w'(1) ps])
  then show ?thesis using wal_reach.step [OF start] w'(2) by auto
qed

text \<open>
  C38. In every state that commits, spills, rollbacks, savepoints, crashes of writers, failed writes and restarts of the log lead
  to, a reader with a snapshot of the committed log finds for every page the frame that a linear search
  of the committed frames finds. Neither the frames of an open transaction nor what crashed
  writers left in the index are seen, and the search ends.
\<close>

theorem walFindFrame_refines:
  assumes "wal_reach w C T" "unat (mxFrame h) \<le> length C" "lo \<le> mxFrame h" "lock > 0"
  shows "\<exists>rc f w'. walFindFrame env (w \<lparr>hdr := h, minFrame := lo, readLock := lock, exclusiveMode := 0, mapped := mp, nWiData := n\<rparr>) p
      = Some (rc, f, w')
    \<and> (rc = SQLITE_OK \<longrightarrow> f = linear_search C p (unat lo) (unat (mxFrame h)))
    \<and> ((\<forall>k \<le> walFramePage (unat (mxFrame h)). k < n \<and> mp k) \<longrightarrow> rc = SQLITE_OK)"
proof -
  let ?r = "w \<lparr>hdr := h, minFrame := lo, readLock := lock, exclusiveMode := 0, mapped := mp, nWiData := n\<rparr>"
  obtain X where "index_rep w (C @ T @ X)" using wal_reach_rep [OF assms(1)] by (auto simp: wal_rep_def)
  then have rep: "index_rep ?r (C @ T @ X)" by (simp add: index_rep_def WAL_HEAPMEMORY_MODE_def)
  have eq: "linear_search (C @ G) p l m = linear_search C p l m" if "m \<le> length C" for G l m
    using that by (induction m) (auto simp: nth_append)
  show ?thesis
    using walFindFrame_search [OF rep, of env p] assms(2-4) eq by (simp add: is_mapped_def)
qed

theorem walFindFrame_refines_witness:
  "\<exists>w w' f. wal_reach w [5, 9, 5] [] \<and> walFindFrame example_env (w \<lparr>hdr := zero_hdr \<lparr>mxFrame := 3\<rparr>, minFrame := 1, readLock := 1,
      exclusiveMode := 0, mapped := \<lambda>_. True, nWiData := 1\<rparr>) 5 = Some (SQLITE_OK, f, w') \<and> f = 3"
proof -
  obtain w where w: "wal_reach w [5, 9, 5] []" using example_reach by blast
  have p: "k = 0" if "k \<le> walFramePage 3" for k using that by (simp add: walFramePage_def wi_consts)
  have ls: "linear_search [5, 9, 5] 5 1 3 = 3" by (simp add: numeral_3_eq_3)
  have "\<exists>rc f w'. walFindFrame example_env (w \<lparr>hdr := zero_hdr \<lparr>mxFrame := 3\<rparr>, minFrame := 1, readLock := 1, exclusiveMode := 0,
      mapped := \<lambda>_. True, nWiData := 1\<rparr>) 5 = Some (rc, f, w')
    \<and> (rc = SQLITE_OK \<longrightarrow> f = linear_search [5, 9, 5] 5 (unat (1 :: u32)) (unat (mxFrame (zero_hdr \<lparr>mxFrame := 3\<rparr>))))
    \<and> ((\<forall>k \<le> walFramePage (unat (mxFrame (zero_hdr \<lparr>mxFrame := 3\<rparr>))). k < 1 \<and> True) \<longrightarrow> rc = SQLITE_OK)"
    by (rule walFindFrame_refines [OF w]) (simp_all add: zero_hdr_def)
  with w p ls show ?thesis by (auto simp: zero_hdr_def)
qed

text \<open>
  C39. No operation of a writer touches memory outside the index, and a rollback calls \<open>xUndo\<close> for the pages of exactly
  the frames of the transaction, oldest first.
\<close>

theorem wal_writer_total:
  assumes "wal_reach w C T" "0 \<notin> set ps" "length C + length T + length ps + 34 \<le> 2 ^ 32"
    and "writeLock w" "length salt1 = 4"
  shows "(\<exists>rc w'. walFrames_index env w sz ps nTruncate = Some (rc, w'))
    \<and> (\<exists>rc us w'. sqlite3WalUndo env xUndo w = Some (rc, us, w') \<and> wal_reach w' C [] \<and> (rc = SQLITE_OK \<longrightarrow> us = T))
    \<and> (\<exists>w'. walRestartHdr w salt1 = Some w')"
proof -
  have rep: "wal_rep w C T" by (rule wal_reach_rep [OF assms(1)])
  show ?thesis
    using wal_rep_undo [OF rep assms(4), of env xUndo] wal_reach.step [OF assms(1) wal_step.undo [OF _ assms(4)]]
      wal_rep_restart [OF rep assms(5)] walFrames_index_total [OF rep assms(2,3), of env sz nTruncate] by metis
qed

theorem wal_writer_total_witness:
  "\<exists>rc us w'. sqlite3WalUndo example_env (\<lambda>_. 0) example_wal = Some (rc, us, w') \<and> wal_reach w' [] []"
proof -
  have "wal_reach example_wal [] []"
    by (rule wal_reach.start) (simp_all add: example_wal_def shaped_zero_page is_mapped_def zero_hdr_def)
  from wal_writer_total [OF this, of "[5, 9]" "[1, 2, 3, 4]" example_env 512 0 "\<lambda>_. 0"] show ?thesis
    by (auto simp: example_wal_def)
qed

end
