(* ===== verification/Wal_Log.thy ===== *)
theory Wal_Log
  imports Wal_Index
begin

text \<open>
  The log file (\<open>wal.c\<close>): recovery of the index from it (\<open>walIndexRecover\<close>). A file is the list of its
  bytes. The operating system is an argument (\<open>os\<close>): each call
  answers with a result code, and what a call that succeeds does is the hypothesis \<open>os_ok\<close>, the documented
  behaviour of the VFS methods. The outcomes of locks and allocations are arguments too.
\<close>

unbundle bit_operations_syntax

subsection \<open>The operating system\<close>

record os =
  os_read :: "u8 list \<Rightarrow> nat \<Rightarrow> nat \<Rightarrow> nat \<times> u8 list"
  os_write :: "u8 list \<Rightarrow> u8 list \<Rightarrow> nat \<Rightarrow> nat \<times> u8 list"
  os_size :: "u8 list \<Rightarrow> nat \<times> nat"
  os_sync :: "nat \<Rightarrow> nat"
  os_lock :: "nat \<Rightarrow> nat \<Rightarrow> nat"
  os_malloc :: bool

definition write_at :: "u8 list \<Rightarrow> u8 list \<Rightarrow> nat \<Rightarrow> u8 list" where
  "write_at f d i = take i f @ replicate (i - length f) 0 @ d @ drop (i + length d) f"

text \<open>
  \<open>xRead\<close> fills the buffer, or fails: with a short read when the file ends before. \<open>xWrite\<close> that succeeds has
  written all bytes, extending the file as needed. \<open>xFileSize\<close> that succeeds gives the size.
\<close>

definition os_ok :: "os \<Rightarrow> bool" where
  "os_ok os \<longleftrightarrow> (\<forall>f n i rc b. os_read os f n i = (rc, b) \<longrightarrow> length b = n \<and> (rc = SQLITE_OK \<longrightarrow> i + n \<le> length f \<and> b = take n (drop i f)))
    \<and> (\<forall>f d i rc g. os_write os f d i = (rc, g) \<longrightarrow> rc = SQLITE_OK \<longrightarrow> g = write_at f d i)
    \<and> (\<forall>f rc n. os_size os f = (rc, n) \<longrightarrow> rc = SQLITE_OK \<longrightarrow> n = length f)"

subsection \<open>Recovery\<close>

definition SQLITE_CANTOPEN :: nat where "SQLITE_CANTOPEN = 14"
definition WAL_ALL_BUT_WRITE :: nat where "WAL_ALL_BUT_WRITE = 1"
definition WAL_READ_LOCK :: "nat \<Rightarrow> nat" where "WAL_READ_LOCK I = 3 + I"
definition SQLITE_MAX_PAGE_SIZE :: int where "SQLITE_MAX_PAGE_SIZE = 65536"

definition walFrameOffset :: "nat \<Rightarrow> nat \<Rightarrow> nat" where
  "walFrameOffset iFrame sz = WAL_HDRSIZE + (iFrame - 1) * (sz + WAL_FRAME_HDRSIZE)"

definition walLockExclusive :: "os \<Rightarrow> Wal \<Rightarrow> nat \<Rightarrow> nat \<Rightarrow> nat" where
  "walLockExclusive os pWal lockIdx n = (if exclusiveMode pWal \<noteq> 0 then SQLITE_OK else os_lock os lockIdx n)"

text \<open>
  The loop over the frames \<open>iFrame \<dots> iFrame + n - 1\<close> of one wal-index page. The last component of the
  result is whether the loop ran to its end; \<open>ck\<close> is the local \<open>aFrameCksum\<close>.
\<close>

fun recover_frames :: "os \<Rightarrow> wi_env \<Rightarrow> u8 list \<Rightarrow> nat \<Rightarrow> Wal \<Rightarrow> u32 \<times> u32 \<Rightarrow> nat \<Rightarrow> nat \<Rightarrow> (nat \<times> Wal \<times> (u32 \<times> u32) \<times> bool) option" where
  "recover_frames os env file sz pWal ck iFrame 0 = Some (SQLITE_OK, pWal, ck, True)"
| "recover_frames os env file sz pWal ck iFrame (Suc n) =
     (let (rc, buf) = os_read os file (sz + WAL_FRAME_HDRSIZE) (walFrameOffset iFrame sz) in
      if rc \<noteq> SQLITE_OK then Some (rc, pWal, ck, False)
      else do {
        (pWal, r) \<leftarrow> walDecodeFrame pWal (drop WAL_FRAME_HDRSIZE buf) (take WAL_FRAME_HDRSIZE buf);
        case r of
          None \<Rightarrow> Some (rc, pWal, ck, False)
        | Some (pgno, nTruncate) \<Rightarrow> do {
            (rc, pWal) \<leftarrow> walIndexAppend env pWal iFrame pgno;
            if rc \<noteq> SQLITE_OK then Some (rc, pWal, ck, False)
            else
              let (pWal, ck) = (if nTruncate \<noteq> 0
                then (pWal \<lparr>hdr := (hdr pWal) \<lparr>mxFrame := of_nat iFrame, nPage := nTruncate,
                        h_szPage := of_nat ((sz AND 0xff00) OR drop_bit 16 sz)\<rparr>\<rparr>, aFrameCksum (hdr pWal))
                else (pWal, ck)) in
              recover_frames os env file sz pWal ck (iFrame + 1) n } })"

text \<open>
  The loop over the \<open>n\<close> wal-index pages from \<open>iPg\<close> on. The frames of a page are entered into the private copy
  \<open>aPrivate\<close>, allocated without being cleared, which then replaces the shared page: \<open>aPrivate iPg\<close> is what
  the copy holds when page \<open>iPg\<close> is begun. \<open>recover_page\<close> is one round.
\<close>

definition recover_page :: "os \<Rightarrow> wi_env \<Rightarrow> (nat \<Rightarrow> wi_page) \<Rightarrow> u8 list \<Rightarrow> nat \<Rightarrow> nat \<Rightarrow> Wal \<Rightarrow> u32 \<times> u32 \<Rightarrow> nat
    \<Rightarrow> (nat \<times> Wal \<times> (u32 \<times> u32) \<times> bool) option" where
  "recover_page os env aPrivate file sz iLastFrame pWal ck iPg =
     (let iLast = min iLastFrame (HASHTABLE_NPAGE_ONE + iPg * HASHTABLE_NPAGE);
          iFirst = 1 + (if iPg = 0 then 0 else HASHTABLE_NPAGE_ONE + (iPg - 1) * HASHTABLE_NPAGE);
          (rc, pWal, ptr) = walIndexPage env pWal iPg in
      if \<not> ptr then Some (rc, pWal, ck, False)
      else
        let pWal = pWal \<lparr>wi := (wi pWal)(iPg := aPrivate iPg)\<rparr> in
        if iFirst \<le> iLast then recover_frames os env file sz pWal ck iFirst (iLast + 1 - iFirst)
        else Some (rc, pWal, ck, True))"

fun recover_pages :: "os \<Rightarrow> wi_env \<Rightarrow> (nat \<Rightarrow> wi_page) \<Rightarrow> u8 list \<Rightarrow> nat \<Rightarrow> nat \<Rightarrow> Wal \<Rightarrow> u32 \<times> u32 \<Rightarrow> nat \<Rightarrow> nat \<Rightarrow> nat
    \<Rightarrow> (nat \<times> Wal \<times> (u32 \<times> u32)) option" where
  "recover_pages os env aPrivate file sz iLastFrame pWal ck rc iPg 0 = Some (rc, pWal, ck)"
| "recover_pages os env aPrivate file sz iLastFrame pWal ck rc iPg (Suc n) = do {
     (rc, pWal, ck, whole) \<leftarrow> recover_page os env aPrivate file sz iLastFrame pWal ck iPg;
     if \<not> whole then Some (rc, pWal, ck)
     else recover_pages os env aPrivate file sz iLastFrame pWal ck rc (iPg + 1) n }"

text \<open>Reading the log: \<open>Inl\<close> for \<open>goto recovery_error\<close>, \<open>Inr\<close> for reaching \<open>finished\<close>.\<close>

definition recover_log :: "os \<Rightarrow> wi_env \<Rightarrow> (nat \<Rightarrow> wi_page) \<Rightarrow> u8 list \<Rightarrow> nat \<Rightarrow> Wal \<Rightarrow> ((nat \<times> Wal) + (nat \<times> Wal \<times> (u32 \<times> u32))) option" where
  "recover_log os env aPrivate file nSize pWal =
     (let (rc, aBuf) = os_read os file WAL_HDRSIZE 0 in
      if rc \<noteq> SQLITE_OK then Some (Inl (rc, pWal))
      else do {
        magic \<leftarrow> get4 aBuf 0;
        sz \<leftarrow> get4 aBuf 8;
        if magic AND 0xFFFFFFFE \<noteq> WAL_MAGIC \<or> sz AND (sz - 1) \<noteq> 0 \<or> sint sz > SQLITE_MAX_PAGE_SIZE \<or> sint sz < 512
        then Some (Inr (SQLITE_OK, pWal, (0, 0)))
        else do {
          nCk \<leftarrow> get4 aBuf 12;
          let pWal = pWal \<lparr>hdr := (hdr pWal) \<lparr>bigEndCksum := ucast (magic AND 1), aSalt := take 8 (drop 16 aBuf)\<rparr>,
                       szPage := sz, nCkpt := nCk\<rparr>;
          c \<leftarrow> walChecksumBytes (bigEndCksum (hdr pWal) = SQLITE_BIGENDIAN) (take (WAL_HDRSIZE - 2 * 4) aBuf) None;
          let pWal = pWal \<lparr>hdr := (hdr pWal) \<lparr>aFrameCksum := c\<rparr>\<rparr>;
          c0 \<leftarrow> get4 aBuf 24;
          c1 \<leftarrow> get4 aBuf 28;
          if fst c \<noteq> c0 \<or> snd c \<noteq> c1 then Some (Inr (SQLITE_OK, pWal, (0, 0)))
          else do {
            version \<leftarrow> get4 aBuf 4;
            if version \<noteq> WAL_MAX_VERSION then Some (Inr (SQLITE_CANTOPEN, pWal, (0, 0)))
            else if \<not> os_malloc os then Some (Inl (SQLITE_NOMEM, pWal))
            else do {
              let szFrame = unat sz + WAL_FRAME_HDRSIZE;
              let iLastFrame = (nSize - WAL_HDRSIZE) div szFrame;
              r \<leftarrow> recover_pages os env aPrivate file (unat sz) iLastFrame pWal (0, 0) SQLITE_OK 0 (walFramePage iLastFrame + 1);
              Some (Inr r) } } } })"

text \<open>The read marks from \<open>i\<close> on, \<open>n\<close> of them.\<close>

fun recover_marks :: "os \<Rightarrow> Wal \<Rightarrow> nat \<Rightarrow> nat \<Rightarrow> nat \<Rightarrow> nat \<times> Wal" where
  "recover_marks os pWal rc i 0 = (rc, pWal)"
| "recover_marks os pWal rc i (Suc n) =
     (let rc = walLockExclusive os pWal (WAL_READ_LOCK i) 1 in
      if rc = SQLITE_OK then
        let m = (if i = 1 \<and> mxFrame (hdr pWal) \<noteq> 0 then mxFrame (hdr pWal) else READMARK_NOT_USED);
            pWal = pWal \<lparr>ckptInfo := (ckptInfo pWal) \<lparr>aReadMark := (aReadMark (ckptInfo pWal))[i := m]\<rparr>\<rparr> in
        recover_marks os pWal rc (i + 1) n
      else if rc \<noteq> SQLITE_BUSY then (rc, pWal)
      else recover_marks os pWal rc (i + 1) n)"

definition walIndexRecover :: "os \<Rightarrow> wi_env \<Rightarrow> (nat \<Rightarrow> wi_page) \<Rightarrow> u8 list \<Rightarrow> Wal \<Rightarrow> (nat \<times> Wal) option" where
  "walIndexRecover os env aPrivate file pWal =
     (let iLock = WAL_ALL_BUT_WRITE + of_bool (ckptLock pWal);
          rc = walLockExclusive os pWal iLock (WAL_READ_LOCK 0 - iLock) in
      if rc \<noteq> SQLITE_OK then Some (rc, pWal)
      else
        let pWal = pWal \<lparr>hdr := zero_hdr\<rparr>; (rc, nSize) = os_size os file in
        if rc \<noteq> SQLITE_OK then Some (rc, pWal)
        else do {
          r \<leftarrow> (if nSize > WAL_HDRSIZE then recover_log os env aPrivate file nSize pWal else Some (Inr (rc, pWal, (0, 0))));
          case r of
            Inl (rc, pWal) \<Rightarrow> Some (rc, pWal)
          | Inr (rc, pWal, ck) \<Rightarrow>
              if rc \<noteq> SQLITE_OK then Some (rc, pWal)
              else do {
                let pWal = pWal \<lparr>hdr := (hdr pWal) \<lparr>aFrameCksum := ck\<rparr>\<rparr>;
                pWal \<leftarrow> walIndexWriteHdr pWal;
                let pWal = pWal \<lparr>ckptInfo := (ckptInfo pWal) \<lparr>nBackfill := 0, nBackfillAttempted := mxFrame (hdr pWal),
                             aReadMark := (aReadMark (ckptInfo pWal))[0 := 0]\<rparr>\<rparr>;
                Some (recover_marks os pWal rc 1 (WAL_NREADER - 1)) } })"

subsection \<open>What a log holds\<close>

type_synonym frame = "u32 \<times> u32 \<times> u8 list"

abbreviation f_page :: "frame \<Rightarrow> u32" where "f_page f \<equiv> fst f"
abbreviation f_trunc :: "frame \<Rightarrow> u32" where "f_trunc f \<equiv> fst (snd f)"
abbreviation f_data :: "frame \<Rightarrow> u8 list" where "f_data f \<equiv> snd (snd f)"

text \<open>The state of a connection behind some frames, and their bytes; of the state only the checksum changes.\<close>

definition after_frame :: "Wal \<Rightarrow> frame \<Rightarrow> Wal" where
  "after_frame w f = set_cksum (frame_cksum w (f_page f) (f_trunc f) (f_data f)) w"

definition frame_bytes :: "Wal \<Rightarrow> frame \<Rightarrow> u8 list" where
  "frame_bytes w f = frame_hdr w (f_page f) (f_trunc f) (f_data f) @ f_data f"

fun log_bytes :: "Wal \<Rightarrow> frame list \<Rightarrow> u8 list" where
  "log_bytes w [] = []"
| "log_bytes w (f # F) = frame_bytes w f @ log_bytes (after_frame w f) F"

abbreviation log_state :: "Wal \<Rightarrow> frame list \<Rightarrow> Wal" where "log_state w F \<equiv> foldl after_frame w F"

text \<open>The part of a connection that frames depend on.\<close>

definition key :: "Wal \<Rightarrow> u8 list \<times> u8 \<times> u32 \<times> u32 \<times> u32" where
  "key w = (aSalt (hdr w), bigEndCksum (hdr w), szPage w, aFrameCksum (hdr w))"

lemma frame_cksum_key: "key w = key v \<Longrightarrow> frame_cksum w p t d = frame_cksum v p t d"
  by (simp add: frame_cksum_def key_def)

lemma frame_hdr_key:
  assumes "key w = key v"
  shows "frame_hdr w p t d = frame_hdr v p t d"
  using assms unfolding frame_hdr_def frame_cksum_key [OF assms] by (simp add: key_def)

lemma key_set_cksum: "key w = key v \<Longrightarrow> key (set_cksum c w) = key (set_cksum c v)"
  by (simp add: key_def set_cksum_def)

lemma after_frame_key:
  assumes "key w = key v"
  shows "key (after_frame w f) = key (after_frame v f)"
  unfolding after_frame_def frame_cksum_key [OF assms] by (rule key_set_cksum [OF assms])

lemma wal_sized_key: "key w = key v \<Longrightarrow> wal_sized w = wal_sized v"
  by (simp add: wal_sized_def key_def)

lemma wal_sized_after [simp]: "wal_sized (after_frame w f) = wal_sized w"
  by (simp add: after_frame_def)

lemma wal_sized_log_state [simp]: "wal_sized (log_state w F) = wal_sized w"
  by (induction F arbitrary: w) simp_all

lemma szPage_after [simp]: "szPage (after_frame w f) = szPage w"
  by (simp add: after_frame_def set_cksum_def)

lemma szPage_log_state [simp]: "szPage (log_state w F) = szPage w"
  by (induction F arbitrary: w) simp_all

definition frame_ok :: "nat \<Rightarrow> frame \<Rightarrow> bool" where
  "frame_ok sz f \<longleftrightarrow> f_page f \<noteq> 0 \<and> length (f_data f) = sz"

lemma length_frame_bytes:
  "wal_sized w \<Longrightarrow> frame_ok sz f \<Longrightarrow> length (frame_bytes w f) = sz + WAL_FRAME_HDRSIZE"
  by (simp add: frame_bytes_def frame_ok_def length_frame_hdr)

lemma length_log_bytes:
  "wal_sized w \<Longrightarrow> list_all (frame_ok sz) F \<Longrightarrow> length (log_bytes w F) = length F * (sz + WAL_FRAME_HDRSIZE)"
  by (induction F arbitrary: w) (simp_all add: length_frame_bytes)

lemma log_bytes_append: "log_bytes w (F @ F') = log_bytes w F @ log_bytes (log_state w F) F'"
  by (induction F arbitrary: w) simp_all

lemma drop_log_bytes:
  assumes "wal_sized w" "list_all (frame_ok sz) F" "i \<le> length F"
  shows "drop (i * (sz + WAL_FRAME_HDRSIZE)) (log_bytes w F @ r) = log_bytes (log_state w (take i F)) (drop i F) @ r"
proof -
  have ok: "list_all (frame_ok sz) (take i F)" using assms(2) by (simp add: list_all_iff) (meson in_set_takeD)
  have "log_bytes w F = log_bytes w (take i F) @ log_bytes (log_state w (take i F)) (drop i F)"
    by (metis append_take_drop_id log_bytes_append)
  moreover have "length (log_bytes w (take i F)) = i * (sz + WAL_FRAME_HDRSIZE)"
    using length_log_bytes [OF assms(1) ok] assms(3) by simp
  ultimately show ?thesis by simp
qed

text \<open>Bytes behind a log that do not begin with a further valid frame.\<close>

definition no_frame :: "Wal \<Rightarrow> u8 list \<Rightarrow> bool" where
  "no_frame w r \<longleftrightarrow> length r < unat (szPage w) + WAL_FRAME_HDRSIZE
     \<or> \<not> (\<exists>w' q. walDecodeFrame w (drop WAL_FRAME_HDRSIZE (take (unat (szPage w) + WAL_FRAME_HDRSIZE) r))
          (take WAL_FRAME_HDRSIZE r) = Some (w', Some q))"

text \<open>How many frames there are up to the last that commits a transaction.\<close>

definition last_commit :: "frame list \<Rightarrow> nat" where
  "last_commit F = length (dropWhile (\<lambda>f. f_trunc f = 0) (rev F))"

lemma last_commit_le: "last_commit F \<le> length F"
  unfolding last_commit_def by (metis length_dropWhile_le length_rev)

lemma last_commit_snoc: "last_commit (F @ [f]) = (if f_trunc f = 0 then last_commit F else Suc (length F))"
  by (simp add: last_commit_def)

lemma last_commit_Nil [simp]: "last_commit [] = 0"
  by (simp add: last_commit_def)

subsection \<open>Recovery finds the last commit\<close>

text \<open>After \<open>i\<close> frames of the log \<open>F\<close>; \<open>exact\<close> as long as every frame decoded was valid.\<close>

definition recovered :: "Wal \<Rightarrow> frame list \<Rightarrow> nat \<Rightarrow> bool \<Rightarrow> Wal \<Rightarrow> u32 \<times> u32 \<Rightarrow> bool" where
  "recovered w0 F i exact w ck \<longleftrightarrow> index_rep w (map f_page (take i F))
     \<and> (exact \<longrightarrow> key w = key (log_state w0 (take i F)))
     \<and> aSalt (hdr w) = aSalt (hdr w0) \<and> bigEndCksum (hdr w) = bigEndCksum (hdr w0) \<and> szPage w = szPage w0
     \<and> mxFrame (hdr w) = of_nat (last_commit (take i F))
     \<and> nPage (hdr w) = (if last_commit (take i F) = 0 then 0 else f_trunc (F ! (last_commit (take i F) - 1)))
     \<and> ck = (if last_commit (take i F) = 0 then (0, 0) else aFrameCksum (hdr (log_state w0 (take (last_commit (take i F)) F))))"

lemma of_nat_0_u32: "n + 34 \<le> 2 ^ 32 \<Longrightarrow> (of_nat n :: u32) = 0 \<longleftrightarrow> n = 0"
  using unat_eq_0 [of "of_nat n :: u32"] unat_of_nat_u32 [of n] by simp

lemma walDecodeFrame_total:
  assumes "wal_sized w" "unat (szPage w) \<le> length d" "length a = WAL_FRAME_HDRSIZE"
  obtains w' r c where "walDecodeFrame w d a = Some (w', r)" "w' = w \<or> w' = set_cksum c w"
proof -
  have len: "length a = 24" using assms(3) by (simp add: WAL_FRAME_HDRSIZE_def)
  define f where "f = (\<lambda>i. word4 False (drop i a))"
  have get: "get4 a 0 = Some (f 0)" "get4 a 4 = Some (f 4)" "get4 a 16 = Some (f 16)" "get4 a 20 = Some (f 20)"
    using len by (simp_all add: get4_word4 f_def)
  have be: "be32 (f i) = take 4 (drop i a)" if "i + 4 \<le> 24" for i
    using that len by (simp add: f_def be32_word4)
  have eight: "take 8 a = be32 (f 0) @ be32 (f 4)"
    using take_add [of 4 4 a] by (simp add: be)
  note ck = frame_cksums [OF assms(1,2), of "f 0" "f 4"]
  show thesis
  proof (cases "take 8 (drop 8 a) \<noteq> aSalt (hdr w) \<or> f 0 = 0 \<or> szPage w = 0")
    case True
    then have "walDecodeFrame w d a = Some (w, None)" by (auto simp: walDecodeFrame_def get)
    then show thesis using that by blast
  next
    case False
    then have "\<exists>r. walDecodeFrame w d a = Some (set_cksum (frame_cksum w (f 0) (f 4) d) w, r)"
      by (simp add: walDecodeFrame_def Let_def get eight ck set_cksum_def)
    then show thesis using that by blast
  qed
qed

lemma index_rep_hdr: "index_rep (w \<lparr>hdr := h\<rparr>) G = index_rep w G"
  by (rule index_rep_cong) simp_all

lemma key_hdr: "key (w \<lparr>hdr := (hdr w) \<lparr>mxFrame := m, nPage := n, h_szPage := s\<rparr>\<rparr>) = key w"
  by (simp add: key_def)

lemma is_mapped_hdr: "is_mapped (w \<lparr>hdr := h\<rparr>) k = is_mapped w k"
  by (simp add: is_mapped_def)

text \<open>A valid frame is read back, entered, and counted when it commits.\<close>

lemma recovered_step:
  assumes rec: "recovered w0 F i True w ck" and i: "i < length F" and w0: "wal_sized w0"
    and ok: "list_all (frame_ok (unat (szPage w0))) F" and bound: "length F + 34 \<le> 2 ^ 32"
    and mapped: "is_mapped w (walFramePage (Suc i))"
    and buf: "buf = frame_bytes (log_state w0 (take i F)) (F ! i)"
  shows "\<exists>w1 w2. walDecodeFrame w (drop WAL_FRAME_HDRSIZE buf) (take WAL_FRAME_HDRSIZE buf) = Some (w1, Some (f_page (F ! i), f_trunc (F ! i)))
    \<and> walIndexAppend env w1 (Suc i) (f_page (F ! i)) = Some (SQLITE_OK, w2) \<and> (\<forall>k. is_mapped w k \<longrightarrow> is_mapped w2 k)
    \<and> (if f_trunc (F ! i) \<noteq> 0
       then recovered w0 F (Suc i) True (w2 \<lparr>hdr := (hdr w2) \<lparr>mxFrame := of_nat (Suc i), nPage := f_trunc (F ! i), h_szPage := s\<rparr>\<rparr>) (aFrameCksum (hdr w2))
       else recovered w0 F (Suc i) True w2 ck)"
proof -
  let ?f = "F ! i" and ?v = "log_state w0 (take i F)"
  have key: "key w = key ?v" using rec by (simp add: recovered_def)
  have sized: "wal_sized w" using wal_sized_key [OF key] w0 by simp
  have f: "f_page ?f \<noteq> 0" "length (f_data ?f) = unat (szPage w)"
    using ok i key by (auto simp: list_all_length frame_ok_def key_def)
  have "buf = frame_hdr w (f_page ?f) (f_trunc ?f) (f_data ?f) @ f_data ?f"
    using buf frame_hdr_key [OF key] by (simp add: frame_bytes_def)
  then have split: "take WAL_FRAME_HDRSIZE buf = frame_hdr w (f_page ?f) (f_trunc ?f) (f_data ?f)"
    "drop WAL_FRAME_HDRSIZE buf = f_data ?f"
    using length_frame_hdr [OF sized] by simp_all
  define w1 where "w1 = after_frame w ?f"
  have dec: "walDecodeFrame w (drop WAL_FRAME_HDRSIZE buf) (take WAL_FRAME_HDRSIZE buf) = Some (w1, Some (f_page ?f, f_trunc ?f))"
    using walDecodeFrame_eq [OF sized, of "f_data ?f" "f_page ?f" "f_trunc ?f"] f by (simp add: split w1_def after_frame_def)
  have w1: "w1 = w \<lparr>hdr := (hdr w) \<lparr>aFrameCksum := frame_cksum w (f_page ?f) (f_trunc ?f) (f_data ?f)\<rparr>\<rparr>"
    by (simp add: w1_def after_frame_def set_cksum_def)
  have take_Suc: "take (Suc i) F = take i F @ [?f]" using i by (simp add: take_Suc_conv_app_nth)
  have key1: "key w1 = key (log_state w0 (take (Suc i) F))"
    using after_frame_key [OF key] by (simp add: w1_def take_Suc)
  have rep1: "index_rep w1 (map f_page (take i F))" using rec by (simp add: w1 index_rep_hdr recovered_def)
  have lc: "last_commit (take i F) \<le> i" using last_commit_le [of "take i F"] by simp
  have mx: "unat (mxFrame (hdr w1)) = last_commit (take i F)"
    using rec lc bound i unat_of_nat_u32 [of "last_commit (take i F)"] by (simp add: w1 recovered_def)
  obtain rc w2 where app: "walIndexAppend env w1 (Suc i) (f_page ?f) = Some (rc, w2)"
    and rep2: "index_rep w2 (if rc = SQLITE_OK then take i (map f_page (take i F)) @ [f_page ?f] else map f_page (take i F))"
    and same: "hdr w2 = hdr w1" "\<forall>k. is_mapped w1 k \<longrightarrow> is_mapped w2 k" "is_mapped w1 (walFramePage (Suc i)) \<longrightarrow> rc = SQLITE_OK"
    and sz2: "szPage w2 = szPage w1"
    using walIndexAppend_rep [OF rep1 refl, of i "f_page ?f" env] mx lc i f(1) bound by auto
  have ok: "rc = SQLITE_OK" using same(3) mapped by (simp add: w1 is_mapped_hdr)
  have G: "take i (map f_page (take i F)) @ [f_page ?f] = map f_page (take (Suc i) F)"
    using i by (simp add: take_Suc take_map)
  have key2: "key w2 = key (log_state w0 (take (Suc i) F))"
    using key1 same(1) sz2 by (simp add: key_def)
  have base: "index_rep w2 (map f_page (take (Suc i) F))" "aSalt (hdr w2) = aSalt (hdr w0)"
    "bigEndCksum (hdr w2) = bigEndCksum (hdr w0)" "szPage w2 = szPage w0"
    using rep2 ok G rec same(1) sz2 by (simp_all add: recovered_def w1)
  have m: "\<forall>k. is_mapped w k \<longrightarrow> is_mapped w2 k" using same(2) by (simp add: w1 is_mapped_hdr)
  show ?thesis
  proof (cases "f_trunc ?f = 0")
    case False
    then have "last_commit (take (Suc i) F) = Suc i"
      using i by (simp add: take_Suc last_commit_snoc)
    then have "recovered w0 F (Suc i) True (w2 \<lparr>hdr := (hdr w2) \<lparr>mxFrame := of_nat (Suc i), nPage := f_trunc ?f, h_szPage := s\<rparr>\<rparr>)
        (aFrameCksum (hdr w2))"
      using base key2 by (simp add: recovered_def index_rep_hdr key_hdr) (simp add: key_def)
    with dec app ok m False show ?thesis by auto
  next
    case True
    then have lc2: "last_commit (take (Suc i) F) = last_commit (take i F)"
      by (simp add: take_Suc last_commit_snoc)
    have "recovered w0 F (Suc i) True w2 ck"
      using base key2 rec same(1) unfolding recovered_def lc2 by (simp add: w1)
    with dec app ok m True show ?thesis by auto
  qed
qed

lemma recovered_stop:
  assumes "recovered w0 F i True w ck" "w' = w \<or> w' = set_cksum c w"
  shows "recovered w0 F i False w' ck"
  using assms by (auto simp: recovered_def set_cksum_def index_rep_hdr)

lemma walDecodeFrame_key:
  assumes "key w = key v" "wal_sized w" "unat (szPage w) \<le> length d" "length a = WAL_FRAME_HDRSIZE"
    and "walDecodeFrame w d a = Some (w', Some (p, t))"
  shows "\<exists>v'. walDecodeFrame v d a = Some (v', Some (p, t))"
proof -
  have "a = frame_hdr v p t d" "p \<noteq> 0"
    using walDecodeFrame_sound [OF assms(2,3,4,5)] frame_hdr_key [OF assms(1)] by simp_all
  moreover have "wal_sized v" "unat (szPage v) \<le> length d"
    using assms(1-3) wal_sized_key [OF assms(1)] by (simp_all add: key_def)
  ultimately show ?thesis using walDecodeFrame_eq by blast
qed

text \<open>A file with the log \<open>F\<close> behind its header, and \<open>r\<close> behind that.\<close>

definition log_file :: "Wal \<Rightarrow> frame list \<Rightarrow> u8 list \<Rightarrow> u8 list \<Rightarrow> bool" where
  "log_file w0 F r file \<longleftrightarrow> wal_sized w0 \<and> list_all (frame_ok (unat (szPage w0))) F
     \<and> WAL_HDRSIZE \<le> length file \<and> drop WAL_HDRSIZE file = log_bytes w0 F @ r \<and> no_frame (log_state w0 F) r"

definition n_frames :: "Wal \<Rightarrow> u8 list \<Rightarrow> nat" where
  "n_frames w0 file = (length file - WAL_HDRSIZE) div (unat (szPage w0) + WAL_FRAME_HDRSIZE)"

lemma log_file_drop:
  assumes "log_file w0 F r file" "i \<le> length F"
  shows "drop (walFrameOffset (Suc i) (unat (szPage w0))) file = log_bytes (log_state w0 (take i F)) (drop i F) @ r"
proof -
  have "drop (walFrameOffset (Suc i) (unat (szPage w0))) file
      = drop (i * (unat (szPage w0) + WAL_FRAME_HDRSIZE)) (drop WAL_HDRSIZE file)"
    by (simp add: walFrameOffset_def add.commute)
  also have "\<dots> = drop (i * (unat (szPage w0) + WAL_FRAME_HDRSIZE)) (log_bytes w0 F @ r)"
    using assms(1) by (simp only: log_file_def)
  also have "\<dots> = log_bytes (log_state w0 (take i F)) (drop i F) @ r"
    using assms by (intro drop_log_bytes) (simp_all add: log_file_def)
  finally show ?thesis .
qed

lemma log_file_n_frames:
  assumes "log_file w0 F r file"
  shows "length F \<le> n_frames w0 file"
    and "length F < n_frames w0 file \<Longrightarrow> unat (szPage w0) + WAL_FRAME_HDRSIZE \<le> length r"
proof -
  let ?s = "unat (szPage w0) + WAL_FRAME_HDRSIZE"
  have "length file - WAL_HDRSIZE = length (drop WAL_HDRSIZE file)" by simp
  also have "\<dots> = length F * ?s + length r"
    using assms length_log_bytes by (simp add: log_file_def)
  finally have n: "n_frames w0 file = length F + length r div ?s"
    by (simp add: n_frames_def WAL_FRAME_HDRSIZE_def)
  then show "length F \<le> n_frames w0 file" by simp
  assume "length F < n_frames w0 file"
  with n have "0 < length r div ?s" by simp
  then show "?s \<le> length r" by (simp add: div_greater_zero_iff)
qed

text \<open>The loop over frames enters the valid ones, up to the end of a wal-index page or of the log.\<close>

lemma recover_frames_log:
  assumes os: "os_ok os" and log: "log_file w0 F r file" and bound: "length F + 34 \<le> 2 ^ 32"
    and rec: "recovered w0 F i True w ck" and n: "i + n \<le> n_frames w0 file" and i: "i \<le> length F"
    and k: "\<forall>j. i < j \<and> j \<le> i + n \<longrightarrow> walFramePage j = k" "is_mapped w k"
  shows "\<exists>rc w' ck' whole. recover_frames os env file (unat (szPage w0)) w ck (Suc i) n = Some (rc, w', ck', whole)
    \<and> (rc = SQLITE_OK \<longrightarrow> (if whole then i + n \<le> length F \<and> recovered w0 F (i + n) True w' ck'
         else length F < i + n \<and> recovered w0 F (length F) False w' ck'))
    \<and> (whole \<longrightarrow> rc = SQLITE_OK) \<and> ((\<forall>m j. j + m \<le> length file \<longrightarrow> fst (os_read os file m j) = SQLITE_OK) \<longrightarrow> rc = SQLITE_OK)
    \<and> (\<forall>l. is_mapped w l \<longrightarrow> is_mapped w' l)"
  using rec n i k
proof (induction n arbitrary: i w ck)
  case 0
  then show ?case by (auto intro: exI [of _ True])
next
  case (Suc n)
  let ?sz = "unat (szPage w0)" and ?off = "walFrameOffset (Suc i) (unat (szPage w0))"
  let ?m = "?sz + WAL_FRAME_HDRSIZE"
  obtain rc buf where read: "os_read os file ?m ?off = (rc, buf)" by fastforce
  have sized: "wal_sized w0" using log by (simp add: log_file_def)
  have inside: "?off + ?m \<le> length file"
  proof -
    have "Suc i * ?m \<le> length file - WAL_HDRSIZE"
      using Suc.prems(2) unfolding n_frames_def by (metis add_Suc_right add_leD1 add_Suc div_times_less_eq_dividend le_trans mult_le_mono1)
    moreover have "WAL_HDRSIZE \<le> length file" using log by (simp add: log_file_def)
    ultimately show ?thesis by (simp add: walFrameOffset_def)
  qed
  show ?case
  proof (cases "rc = SQLITE_OK")
    case False
    with read inside have "\<exists>m j. j + m \<le> length file \<and> fst (os_read os file m j) \<noteq> SQLITE_OK"
      by (metis fst_conv)
    with False read show ?thesis by (auto simp: Let_def)
  next
    case True
    then have buf: "buf = take ?m (drop ?off file)" and lbuf: "length buf = ?m"
      using os read by (auto simp: os_ok_def)
    show ?thesis
    proof (cases "i < length F")
      case True
      have "drop i F = F ! i # drop (Suc i) F" using True by (simp add: Cons_nth_drop_Suc)
      then have "drop ?off file = frame_bytes (log_state w0 (take i F)) (F ! i)
          @ log_bytes (after_frame (log_state w0 (take i F)) (F ! i)) (drop (Suc i) F) @ r"
        using log_file_drop [OF log Suc.prems(3)] by simp
      moreover have "length (frame_bytes (log_state w0 (take i F)) (F ! i)) = ?m"
        using log True sized by (intro length_frame_bytes) (simp_all add: log_file_def list_all_length)
      ultimately have fb: "buf = frame_bytes (log_state w0 (take i F)) (F ! i)" using buf by simp
      have ok: "list_all (frame_ok ?sz) F" using log by (simp add: log_file_def)
      have page: "walFramePage (Suc i) = k" using Suc.prems(4) by simp
      let ?s = "of_nat ((?sz AND 0xff00) OR drop_bit 16 ?sz) :: u16"
      obtain w1 w2 where st: "walDecodeFrame w (drop WAL_FRAME_HDRSIZE buf) (take WAL_FRAME_HDRSIZE buf) = Some (w1, Some (f_page (F ! i), f_trunc (F ! i)))"
        "walIndexAppend env w1 (Suc i) (f_page (F ! i)) = Some (SQLITE_OK, w2)" "\<forall>k. is_mapped w k \<longrightarrow> is_mapped w2 k"
        and rec2: "if f_trunc (F ! i) \<noteq> 0
         then recovered w0 F (Suc i) True (w2 \<lparr>hdr := (hdr w2) \<lparr>mxFrame := of_nat (Suc i), nPage := f_trunc (F ! i), h_szPage := ?s\<rparr>\<rparr>) (aFrameCksum (hdr w2))
         else recovered w0 F (Suc i) True w2 ck"
        using recovered_step [OF Suc.prems(1) True sized ok bound _ fb, of env ?s] Suc.prems(5) page by blast
      define w3 where "w3 = (if f_trunc (F ! i) \<noteq> 0
        then w2 \<lparr>hdr := (hdr w2) \<lparr>mxFrame := of_nat (Suc i), nPage := f_trunc (F ! i), h_szPage := ?s\<rparr>\<rparr> else w2)"
      define ck3 where "ck3 = (if f_trunc (F ! i) \<noteq> 0 then aFrameCksum (hdr w2) else ck)"
      have m3: "\<forall>l. is_mapped w l \<longrightarrow> is_mapped w3 l" using st(3) by (simp add: w3_def is_mapped_hdr)
      have rec3: "recovered w0 F (Suc i) True w3 ck3" using rec2 by (auto simp: w3_def ck3_def)
      have "recover_frames os env file ?sz w ck (Suc i) (Suc n) = recover_frames os env file ?sz w3 ck3 (Suc (Suc i)) n"
        using read \<open>rc = SQLITE_OK\<close> st(1,2) by (simp add: Let_def w3_def ck3_def)
      moreover have next_: "Suc i + n \<le> n_frames w0 file" "Suc i \<le> length F"
        "\<forall>j. Suc i < j \<and> j \<le> Suc i + n \<longrightarrow> walFramePage j = k" "is_mapped w3 k"
        using Suc.prems(2,4,5) True m3 by simp_all
      ultimately show ?thesis
        using Suc.IH [OF rec3 next_] m3 unfolding add_Suc add_Suc_right by metis
    next
      case False
      then have iF: "i = length F" using Suc.prems(3) by simp
      have "?m \<le> length r" using log_file_n_frames(2) [OF log] Suc.prems(2) iF by simp
      moreover have "drop ?off file = r" using log_file_drop [OF log, of i] iF by simp
      ultimately have r: "buf = take ?m r" using buf by simp
      have key: "key w = key (log_state w0 F)" using Suc.prems(1) iF by (simp add: recovered_def)
      then have sw: "wal_sized w" "szPage w = szPage w0" using wal_sized_key [OF key] sized by (simp_all add: key_def)
      have l: "unat (szPage w) \<le> length (drop WAL_FRAME_HDRSIZE buf)" "length (take WAL_FRAME_HDRSIZE buf) = WAL_FRAME_HDRSIZE"
        using lbuf sw(2) by simp_all
      obtain w1 q c where dec: "walDecodeFrame w (drop WAL_FRAME_HDRSIZE buf) (take WAL_FRAME_HDRSIZE buf) = Some (w1, q)"
        "w1 = w \<or> w1 = set_cksum c w"
        using walDecodeFrame_total [OF sw(1) l] by blast
      have "q = None"
      proof (rule ccontr)
        assume "q \<noteq> None"
        then obtain p t where "q = Some (p, t)" by auto
        then obtain v' where "walDecodeFrame (log_state w0 F) (drop WAL_FRAME_HDRSIZE buf) (take WAL_FRAME_HDRSIZE buf) = Some (v', Some (p, t))"
          using walDecodeFrame_key [OF key sw(1) l] dec(1) by blast
        moreover have "take WAL_FRAME_HDRSIZE buf = take WAL_FRAME_HDRSIZE r" by (simp add: r min_def)
        ultimately have "\<not> no_frame (log_state w0 F) r"
          using \<open>?m \<le> length r\<close> r by (auto simp: no_frame_def)
        with log show False by (simp add: log_file_def)
      qed
      moreover have "recovered w0 F (length F) False w1 ck"
        using recovered_stop [OF Suc.prems(1) dec(2)] iF by simp
      moreover have "\<forall>l. is_mapped w l \<longrightarrow> is_mapped w1 l"
        using dec(2) by (auto simp: set_cksum_def is_mapped_def)
      ultimately show ?thesis using read True dec(1) iF by (simp add: Let_def) (metis (full_types))
    qed
  qed
qed

text \<open>\<open>xShmMap\<close> that succeeds, or finds the file read-only, gives a pointer, as the code asserts.\<close>

definition env_ok :: "wi_env \<Rightarrow> bool" where
  "env_ok env \<longleftrightarrow> (\<forall>k rc ptr. xShmMap env k = (rc, ptr) \<longrightarrow> rc = SQLITE_OK \<or> rc = SQLITE_READONLY \<longrightarrow> ptr)"

lemma walIndexPage_props:
  assumes "walIndexPage env w k = (rc, w', ptr)" "env_ok env"
  shows "ptr \<or> rc \<noteq> SQLITE_OK" "ptr \<Longrightarrow> is_mapped w' k" "hdr w' = hdr w" "szPage w' = szPage w"
    "is_mapped w l \<Longrightarrow> is_mapped w' l" "is_mapped w k \<Longrightarrow> rc = SQLITE_OK \<and> ptr" "index_rep w G \<Longrightarrow> index_rep w' G"
proof -
  have get: "walHashGet env w k = (if \<not> ptr \<and> rc = SQLITE_OK then SQLITE_ERROR else rc, w', iZero k)"
    using assms(1) by (simp add: walHashGet_def)
  note props = walHashGet_props [OF get]
  show "hdr w' = hdr w" "szPage w' = szPage w" "is_mapped w l \<Longrightarrow> is_mapped w' l" by (fact props)+
  show "index_rep w G \<Longrightarrow> index_rep w' G" by (rule walHashGet_rep [OF get])
  show "is_mapped w k \<Longrightarrow> rc = SQLITE_OK \<and> ptr"
    using assms(1) by (auto simp: walIndexPage_def is_mapped_def)
  show "ptr \<or> rc \<noteq> SQLITE_OK" "ptr \<Longrightarrow> is_mapped w' k"
    using assms unfolding walIndexPage_def walIndexPageRealloc_def is_mapped_def env_ok_def Let_def
    by (auto simp: result_codes split: prod.splits if_splits)
qed

lemma index_rep_new_page:
  assumes "index_rep w G" "length G = iZero k" "shaped k pg"
  shows "index_rep (w \<lparr>wi := (wi w)(k := pg)\<rparr>) G"
proof -
  have "walFramePage (length G) < k" if "G \<noteq> []"
  proof (rule ccontr)
    assume "\<not> ?thesis"
    then have "iZero k \<le> iZero (walFramePage (length G))" by (intro iZero_mono) simp
    moreover have "iZero (walFramePage (length G)) < length G"
      using walFramePage_bounds [of "length G"] that assms(1) by (simp add: index_rep_def)
    ultimately show False using assms(2) by simp
  qed
  then show ?thesis using assms(1,3) by (auto simp: index_rep_def is_mapped_def)
qed

lemma iZero_Suc_alt: "HASHTABLE_NPAGE_ONE + k * HASHTABLE_NPAGE = iZero (Suc k)"
  "1 + (if k = 0 then 0 else HASHTABLE_NPAGE_ONE + (k - 1) * HASHTABLE_NPAGE) = Suc (iZero k)"
  by (simp_all add: iZero_def)

definition readable :: "os \<Rightarrow> u8 list \<Rightarrow> bool" where
  "readable os file \<longleftrightarrow> (\<forall>m j. j + m \<le> length file \<longrightarrow> fst (os_read os file m j) = SQLITE_OK)"

lemma recover_page_log:
  assumes os: "os_ok os" and log: "log_file w0 F r file" and N: "N = n_frames w0 file" "N + 34 \<le> 2 ^ 32"
    and env: "env_ok env" and junk: "\<forall>k. shaped k (aPrivate k)"
    and rec: "recovered w0 F (iZero k) True w ck" and i: "iZero k \<le> length F" and k: "k \<le> walFramePage N"
  shows "\<exists>rc w' ck' whole. recover_page os env aPrivate file (unat (szPage w0)) N w ck k = Some (rc, w', ck', whole)
    \<and> (rc = SQLITE_OK \<longrightarrow> (if whole then min N (iZero (Suc k)) \<le> length F \<and> recovered w0 F (min N (iZero (Suc k))) True w' ck'
         else recovered w0 F (length F) False w' ck'))
    \<and> (readable os file \<longrightarrow> is_mapped w k \<longrightarrow> rc = SQLITE_OK) \<and> (\<forall>l. is_mapped w l \<longrightarrow> is_mapped w' l)
    \<and> (whole \<longrightarrow> 0 < N \<longrightarrow> rc = SQLITE_OK)"
proof -
  have FN: "length F \<le> N" using log_file_n_frames(1) [OF log] N by simp
  have bF: "length F + 34 \<le> 2 ^ 32" using FN N(2) by simp
  obtain rc w1 ptr where pg: "walIndexPage env w k = (rc, w1, ptr)" by (metis prod_cases3)
  note props = walIndexPage_props [OF pg env]
  define w2 where "w2 = w1 \<lparr>wi := (wi w1)(k := aPrivate k)\<rparr>"
  let ?n = "min N (iZero (Suc k)) - iZero k"
  have len: "length (map f_page (take (iZero k) F)) = iZero k" using i by simp
  have "index_rep w1 (map f_page (take (iZero k) F))" using rec props(7) by (simp add: recovered_def)
  then have "index_rep w2 (map f_page (take (iZero k) F))"
    unfolding w2_def using junk len by (intro index_rep_new_page) simp_all
  moreover have "key w2 = key w" "hdr w2 = hdr w" "szPage w2 = szPage w" using props(3,4) by (simp_all add: key_def w2_def)
  ultimately have rec2: "recovered w0 F (iZero k) True w2 ck"
    using rec by (simp add: recovered_def)
  have m2: "is_mapped w l \<Longrightarrow> is_mapped w2 l" for l using props(5) by (simp add: w2_def is_mapped_def)
  have unf: "recover_page os env aPrivate file (unat (szPage w0)) N w ck k = (if \<not> ptr then Some (rc, w1, ck, False)
      else if Suc (iZero k) \<le> min N (iZero (Suc k)) then recover_frames os env file (unat (szPage w0)) w2 ck (Suc (iZero k)) ?n
      else Some (rc, w2, ck, True))"
    unfolding recover_page_def Let_def iZero_Suc_alt pg prod.case w2_def [symmetric] by (simp del: min_less_iff_conj min.bounded_iff)
  show ?thesis
  proof (cases "ptr \<and> iZero k < min N (iZero (Suc k))")
    case True
    have b: "iZero k + ?n = min N (iZero (Suc k))" using True by linarith
    have pages: "\<forall>j. iZero k < j \<and> j \<le> iZero k + ?n \<longrightarrow> walFramePage j = k"
      unfolding b using N(2) by (auto intro!: walFramePage_range)
    have nN: "iZero k + ?n \<le> n_frames w0 file" unfolding b N(1) [symmetric] by simp
    have mk: "is_mapped w2 k" using props(2) True by (simp add: w2_def is_mapped_def)
    obtain rc' w' ck' whole where fr: "recover_frames os env file (unat (szPage w0)) w2 ck (Suc (iZero k)) ?n = Some (rc', w', ck', whole)"
      and res: "rc' = SQLITE_OK \<longrightarrow> (if whole then min N (iZero (Suc k)) \<le> length F \<and> recovered w0 F (min N (iZero (Suc k))) True w' ck'
         else length F < min N (iZero (Suc k)) \<and> recovered w0 F (length F) False w' ck')"
      "whole \<longrightarrow> rc' = SQLITE_OK" "readable os file \<longrightarrow> rc' = SQLITE_OK" "\<forall>l. is_mapped w2 l \<longrightarrow> is_mapped w' l"
      using recover_frames_log [OF os log bF rec2 nN i pages mk, of env] unfolding b readable_def by blast
    have "recover_page os env aPrivate file (unat (szPage w0)) N w ck k = Some (rc', w', ck', whole)"
      using unf fr True by (simp only: Suc_le_eq) simp
    then show ?thesis using res m2 by (cases whole) auto
  next
    case False
    show ?thesis
    proof (cases ptr)
      case False
      then show ?thesis using unf props(1,5,6) by auto
    next
      case True
      with \<open>\<not> (ptr \<and> _)\<close> have le: "\<not> iZero k < min N (iZero (Suc k))" by simp
      have "N = 0"
      proof (rule ccontr)
        assume "N \<noteq> 0"
        then have "iZero (walFramePage N) < N" using walFramePage_bounds [of N] N(2) by simp
        moreover have "iZero k \<le> iZero (walFramePage N)" using k by (rule iZero_mono)
        ultimately have "iZero k < min N (iZero (Suc k))" using n_pgno_pos [of k] by (simp add: iZero_Suc)
        with le show False by simp
      qed
      moreover from this FN i have "F = []" "iZero k = 0" by simp_all
      ultimately show ?thesis using unf True le rec2 props(6) m2 by (simp add: Suc_le_eq) metis
    qed
  qed
qed

lemma recover_pages_log:
  assumes os: "os_ok os" and log: "log_file w0 F r file" and N: "N = n_frames w0 file" "N + 34 \<le> 2 ^ 32"
    and env: "env_ok env" and junk: "\<forall>k. shaped k (aPrivate k)"
    and rec: "recovered w0 F (iZero k) True w ck" and i: "iZero k \<le> length F" and n: "k + n = walFramePage N"
  shows "\<exists>rc w' ck'. recover_pages os env aPrivate file (unat (szPage w0)) N w ck rc0 k (Suc n) = Some (rc, w', ck')
    \<and> (rc = SQLITE_OK \<longrightarrow> recovered w0 F (length F) False w' ck')
    \<and> (readable os file \<longrightarrow> (\<forall>k \<le> walFramePage N. is_mapped w k) \<longrightarrow> rc = SQLITE_OK)
    \<and> (\<forall>l. is_mapped w l \<longrightarrow> is_mapped w' l)"
  using rec i n
proof (induction n arbitrary: k w ck rc0)
  case 0
  have FN: "length F \<le> N" using log_file_n_frames(1) [OF log] N by simp
  have "N \<le> iZero (Suc k)"
    using walFramePage_bounds [of N] N(2) 0 by (cases "N = 0") auto
  then have "min N (iZero (Suc k)) = N" by simp
  moreover have "recovered w0 F (length F) True w' ck' \<Longrightarrow> recovered w0 F (length F) False w' ck'" for w' ck'
    by (simp add: recovered_def)
  ultimately show ?case
    using recover_page_log [OF os log N env junk 0(1,2)] 0(3) FN by (fastforce split: if_splits)
next
  case (Suc n)
  then have k: "k < walFramePage N" by simp
  then have "N \<noteq> 0" using walFramePage_0 by (metis not_less_zero)
  then have "iZero (Suc k) < N"
    using walFramePage_bounds [of N] N(2) iZero_mono [of "Suc k" "walFramePage N"] k by simp
  then have m: "min N (iZero (Suc k)) = iZero (Suc k)" by simp
  obtain rc w' ck' whole where pg: "recover_page os env aPrivate file (unat (szPage w0)) N w ck k = Some (rc, w', ck', whole)"
    and res: "rc = SQLITE_OK \<longrightarrow> (if whole then iZero (Suc k) \<le> length F \<and> recovered w0 F (iZero (Suc k)) True w' ck'
         else recovered w0 F (length F) False w' ck')"
    and good: "readable os file \<longrightarrow> is_mapped w k \<longrightarrow> rc = SQLITE_OK" and mp: "\<forall>l. is_mapped w l \<longrightarrow> is_mapped w' l"
    and whole: "whole \<longrightarrow> rc = SQLITE_OK"
    using recover_page_log [OF os log N env junk Suc.prems(1,2) less_imp_le [OF k]] \<open>N \<noteq> 0\<close> unfolding m by auto
  show ?case
  proof (cases whole)
    case False
    then show ?thesis using pg res good mp Suc.prems(3) by auto
  next
    case True
    with whole res have i': "iZero (Suc k) \<le> length F" "recovered w0 F (iZero (Suc k)) True w' ck'" by simp_all
    have "recover_pages os env aPrivate file (unat (szPage w0)) N w ck rc0 k (Suc (Suc n))
        = recover_pages os env aPrivate file (unat (szPage w0)) N w' ck' rc (Suc k) (Suc n)"
      using pg True by (simp only: recover_pages.simps(2) [of _ _ _ _ _ _ _ _ _ _ "Suc n"]) simp
    moreover have "Suc k + n = walFramePage N" using Suc.prems(3) by simp
    ultimately show ?thesis using Suc.IH [OF i'(2,1), of rc] mp by metis
  qed
qed

text \<open>The header of a log, and a connection that has read it.\<close>

definition log_header24 :: "u8 \<Rightarrow> u32 \<Rightarrow> u32 \<Rightarrow> u8 list \<Rightarrow> u8 list" where
  "log_header24 be sz nck salt = be32 (WAL_MAGIC OR ucast be) @ be32 WAL_MAX_VERSION @ be32 sz @ be32 nck @ salt"

definition header_cksum :: "u8 \<Rightarrow> u32 \<Rightarrow> u32 \<Rightarrow> u8 list \<Rightarrow> u32 \<times> u32" where
  "header_cksum be sz nck salt = cksum (be = SQLITE_BIGENDIAN) (log_header24 be sz nck salt) (0, 0)"

definition log_header :: "u8 \<Rightarrow> u32 \<Rightarrow> u32 \<Rightarrow> u8 list \<Rightarrow> u8 list" where
  "log_header be sz nck salt = log_header24 be sz nck salt
     @ be32 (fst (header_cksum be sz nck salt)) @ be32 (snd (header_cksum be sz nck salt))"

definition log_start :: "Wal \<Rightarrow> u8 \<Rightarrow> u32 \<Rightarrow> u32 \<Rightarrow> u8 list \<Rightarrow> Wal" where
  "log_start w be sz nck salt = w \<lparr>szPage := sz, nCkpt := nck,
     hdr := zero_hdr \<lparr>bigEndCksum := be, aSalt := salt, aFrameCksum := header_cksum be sz nck salt\<rparr>\<rparr>"

definition header_ok :: "u8 \<Rightarrow> u32 \<Rightarrow> u8 list \<Rightarrow> bool" where
  "header_ok be sz salt \<longleftrightarrow> be \<in> {0, 1} \<and> sz \<in> {512, 1024, 2048, 4096, 8192, 16384, 32768, 65536} \<and> length salt = 8"

lemma length_log_header: "length salt = 8 \<Longrightarrow> length (log_header be sz nck salt) = WAL_HDRSIZE"
  by (simp add: log_header_def log_header24_def WAL_HDRSIZE_def)

lemma page_sizes:
  assumes "header_ok be sz salt"
  shows "sz AND (sz - 1) = 0" "\<not> sint sz > SQLITE_MAX_PAGE_SIZE" "\<not> sint sz < 512" "8 dvd unat sz" "sz \<noteq> 0"
  using assms by (auto simp: header_ok_def SQLITE_MAX_PAGE_SIZE_def)

lemma log_start_sized: "header_ok be sz salt \<Longrightarrow> wal_sized (log_start w be sz nck salt)"
  using page_sizes [of be sz salt] by (simp add: wal_sized_def log_start_def header_ok_def)

text \<open>Reading the header of a log that has one goes on to its pages.\<close>

lemma recover_log_header:
  assumes ok: "header_ok be sz salt" and buf: "os_read os file WAL_HDRSIZE 0 = (SQLITE_OK, log_header be sz nck salt)"
  shows "recover_log os env aPrivate file nSize (w \<lparr>hdr := zero_hdr\<rparr>) =
    (if \<not> os_malloc os then Some (Inl (SQLITE_NOMEM, log_start w be sz nck salt))
     else let N = (nSize - WAL_HDRSIZE) div (unat sz + WAL_FRAME_HDRSIZE) in
       do { r \<leftarrow> recover_pages os env aPrivate file (unat sz) N (log_start w be sz nck salt) (0, 0) SQLITE_OK 0 (Suc (walFramePage N));
            Some (Inr r) })"
proof -
  let ?b = "log_header be sz nck salt" and ?c = "header_cksum be sz nck salt"
  have salt: "length salt = 8" and be: "be = 0 \<or> be = 1" using ok by (auto simp: header_ok_def)
  note g = get4_be32 [of "[]", simplified] get4_be32 [of "be32 (WAL_MAGIC OR ucast be)", simplified]
    get4_be32 [of "be32 (WAL_MAGIC OR ucast be) @ be32 WAL_MAX_VERSION", simplified]
    get4_be32 [of "be32 (WAL_MAGIC OR ucast be) @ be32 WAL_MAX_VERSION @ be32 sz", simplified]
    get4_be32 [of "be32 (WAL_MAGIC OR ucast be) @ be32 WAL_MAX_VERSION @ be32 sz @ be32 nck @ salt", simplified]
    get4_be32 [of "be32 (WAL_MAGIC OR ucast be) @ be32 WAL_MAX_VERSION @ be32 sz @ be32 nck @ salt @ be32 (fst ?c)" _ "[]", simplified]
  have get: "get4 ?b 0 = Some (WAL_MAGIC OR ucast be)" "get4 ?b 4 = Some WAL_MAX_VERSION" "get4 ?b 8 = Some sz"
    "get4 ?b 12 = Some nck" "get4 ?b 24 = Some (fst ?c)" "get4 ?b 28 = Some (snd ?c)"
    using g salt by (simp_all add: log_header_def log_header24_def)
  have parts: "take (WAL_HDRSIZE - 8) ?b = log_header24 be sz nck salt" "take 8 (drop 16 ?b) = salt"
    using salt by (simp_all add: log_header_def log_header24_def WAL_HDRSIZE_def)
  have "length (log_header24 be sz nck salt) = 24" using salt by (simp add: log_header24_def)
  then have ck: "walChecksumBytes (be = SQLITE_BIGENDIAN) (log_header24 be sz nck salt) None = Some ?c"
    unfolding header_cksum_def by (subst walChecksumBytes_reference) auto
  have magic: "(WAL_MAGIC OR ucast be) AND 0xFFFFFFFE = WAL_MAGIC" "ucast ((WAL_MAGIC OR ucast be) AND 1 :: u32) = be"
    using be by (auto simp: WAL_MAGIC_def)
  show ?thesis
    unfolding recover_log_def buf prod.case Let_def
    by (simp add: get parts ck magic page_sizes [OF ok] log_start_def del: recover_pages.simps)
qed

lemma recover_marks_ckptInfo:
  "\<exists>rc' ci. recover_marks os w rc i n = (rc', w \<lparr>ckptInfo := ci\<rparr>)
    \<and> (rc = SQLITE_OK \<longrightarrow> (\<forall>i n. os_lock os i n = SQLITE_OK) \<longrightarrow> rc' = SQLITE_OK)"
proof (induction n arbitrary: w rc i)
  case 0
  then show ?case by (intro exI [of _ rc] exI [of _ "ckptInfo w"]) simp
next
  case (Suc n)
  let ?rc = "walLockExclusive os w (WAL_READ_LOCK i) 1"
  let ?w = "w \<lparr>ckptInfo := (ckptInfo w) \<lparr>aReadMark := (aReadMark (ckptInfo w))[i := if i = 1 \<and> mxFrame (hdr w) \<noteq> 0
    then mxFrame (hdr w) else READMARK_NOT_USED]\<rparr>\<rparr>"
  have lock: "(\<forall>i n. os_lock os i n = SQLITE_OK) \<Longrightarrow> ?rc = SQLITE_OK" by (simp add: walLockExclusive_def)
  show ?case
  proof (cases "?rc = SQLITE_OK")
    case True
    then have "recover_marks os w rc i (Suc n) = recover_marks os ?w ?rc (i + 1) n" by (simp add: Let_def)
    then show ?thesis using Suc.IH [of ?w ?rc "i + 1"] True by auto
  next
    case False
    show ?thesis
    proof (cases "?rc = SQLITE_BUSY")
      case True
      then have "recover_marks os w rc i (Suc n) = recover_marks os w ?rc (i + 1) n" using False by (simp add: Let_def)
      then show ?thesis using Suc.IH [of w ?rc "i + 1"] False lock by auto
    next
      case busy: False
      then have "recover_marks os w rc i (Suc n) = (?rc, w \<lparr>ckptInfo := ckptInfo w\<rparr>)" using False by (simp add: Let_def)
      then show ?thesis using False lock by metis
    qed
  qed
qed

text \<open>What recovery leaves behind.\<close>

definition at_last_commit :: "Wal \<Rightarrow> frame list \<Rightarrow> Wal \<Rightarrow> bool" where
  "at_last_commit w0 F w \<longleftrightarrow> index_rep w (map f_page F) \<and> mxFrame (hdr w) = of_nat (last_commit F)
     \<and> nPage (hdr w) = (if last_commit F = 0 then 0 else f_trunc (F ! (last_commit F - 1)))
     \<and> aFrameCksum (hdr w) = (if last_commit F = 0 then (0, 0) else aFrameCksum (hdr (log_state w0 (take (last_commit F) F))))
     \<and> aHdr w = (hdr w, hdr w)"

definition commit_state :: "Wal \<Rightarrow> frame list \<Rightarrow> Wal \<Rightarrow> u32 \<times> u32 \<Rightarrow> bool" where
  "commit_state w0 F w ck \<longleftrightarrow> index_rep w (map f_page F) \<and> length (aSalt (hdr w)) = 8
     \<and> mxFrame (hdr w) = of_nat (last_commit F)
     \<and> nPage (hdr w) = (if last_commit F = 0 then 0 else f_trunc (F ! (last_commit F - 1)))
     \<and> ck = (if last_commit F = 0 then (0, 0) else aFrameCksum (hdr (log_state w0 (take (last_commit F) F))))"

lemma recovered_commit_state:
  "recovered w0 F (length F) e w ck \<Longrightarrow> length (aSalt (hdr w0)) = 8 \<Longrightarrow> commit_state w0 F w ck"
  by (simp add: recovered_def commit_state_def)

lemma recover_finish:
  assumes "commit_state w0 F w1 ck"
  shows "\<exists>w2. walIndexWriteHdr (w1 \<lparr>hdr := (hdr w1) \<lparr>aFrameCksum := ck\<rparr>\<rparr>) = Some w2
    \<and> (\<forall>ci. at_last_commit w0 F (w2 \<lparr>ckptInfo := ci\<rparr>))"
proof -
  let ?w = "w1 \<lparr>hdr := (hdr w1) \<lparr>aFrameCksum := ck\<rparr>\<rparr>"
  have "length (aSalt (hdr ?w)) = 8" using assms by (simp add: commit_state_def)
  then obtain h where h: "walIndexWriteHdr ?w = Some (?w \<lparr>hdr := h, aHdr := (h, h)\<rparr>)" "mxFrame h = mxFrame (hdr ?w)"
      "aFrameCksum h = aFrameCksum (hdr ?w)" "nPage h = nPage (hdr ?w)"
    using walIndexWriteHdr_eq [of ?w] by blast
  have "at_last_commit w0 F ((?w \<lparr>hdr := h, aHdr := (h, h)\<rparr>) \<lparr>ckptInfo := ci\<rparr>)" for ci
    using assms h(2-4) unfolding at_last_commit_def commit_state_def
    by (simp add: index_rep_def is_mapped_def)
  with h(1) show ?thesis by blast
qed

lemma walIndexRecover_log:
  assumes os: "os_ok os" and env: "env_ok env" and junk: "\<forall>k. shaped k (aPrivate k)"
    and w: "\<forall>k. shaped k (wi w k)"
    and hd: "header_ok be sz salt" and w0: "w0 = log_start w be sz nck salt"
    and fl: "file = log_header be sz nck salt @ log_bytes w0 F @ r"
    and F: "list_all (frame_ok (unat sz)) F" "no_frame (log_state w0 F) r"
    and N: "n_frames w0 file + 34 \<le> 2 ^ 32"
  shows "\<exists>rc w'. walIndexRecover os env aPrivate file w = Some (rc, w') \<and> (rc = SQLITE_OK \<longrightarrow> at_last_commit w0 F w')
    \<and> (readable os file \<longrightarrow> fst (os_size os file) = SQLITE_OK \<longrightarrow> os_malloc os \<longrightarrow> (\<forall>i n. os_lock os i n = SQLITE_OK)
        \<longrightarrow> (\<forall>k \<le> walFramePage (n_frames w0 file). is_mapped w k) \<longrightarrow> rc = SQLITE_OK)"
proof -
  let ?iLock = "WAL_ALL_BUT_WRITE + of_bool (ckptLock w)"
  let ?lk = "walLockExclusive os w ?iLock (WAL_READ_LOCK 0 - ?iLock)"
  obtain rcs nSize where size: "os_size os file = (rcs, nSize)" by fastforce
  have salt: "length salt = 8" using hd by (simp add: header_ok_def)
  have lh: "length (log_header be sz nck salt) = WAL_HDRSIZE" by (rule length_log_header [OF salt])
  have sz0: "szPage w0 = sz" by (simp add: w0 log_start_def)
  have log: "log_file w0 F r file"
    using log_start_sized [OF hd] F lh fl by (simp add: log_file_def w0 sz0) (simp add: log_start_def)
  show ?thesis
  proof (cases "?lk = SQLITE_OK \<and> rcs = SQLITE_OK")
    case False
    then show ?thesis
      using size by (auto simp: walIndexRecover_def Let_def walLockExclusive_def)
  next
    case True
    have nSize: "nSize = length file" using os size True by (auto simp: os_ok_def)
    let ?w = "w \<lparr>hdr := zero_hdr\<rparr>"
    have rep: "index_rep v []" if "wi v = wi w" for v using w that by (simp add: index_rep_def)
    define step where "step = (if nSize > WAL_HDRSIZE then recover_log os env aPrivate file nSize ?w else Some (Inr (SQLITE_OK, ?w, (0, 0))))"
    have unf: "walIndexRecover os env aPrivate file w = do {
          r \<leftarrow> step;
          case r of Inl e \<Rightarrow> Some e
          | Inr (rc, pWal, ck) \<Rightarrow>
              if rc \<noteq> SQLITE_OK then Some (rc, pWal)
              else do {
                pWal \<leftarrow> walIndexWriteHdr (pWal \<lparr>hdr := (hdr pWal) \<lparr>aFrameCksum := ck\<rparr>\<rparr>);
                Some (recover_marks os (pWal \<lparr>ckptInfo := (ckptInfo pWal) \<lparr>nBackfill := 0, nBackfillAttempted := mxFrame (hdr pWal),
                             aReadMark := (aReadMark (ckptInfo pWal))[0 := 0]\<rparr>\<rparr>) rc 1 (WAL_NREADER - 1)) } }"
      unfolding walIndexRecover_def step_def Let_def size prod.case using True by simp
    have "(\<exists>rc v. step = Some (Inl (rc, v)) \<and> rc \<noteq> SQLITE_OK \<and> (readable os file \<longrightarrow> \<not> os_malloc os))
      \<or> (\<exists>rc v ck. step = Some (Inr (rc, v, ck)) \<and> (rc = SQLITE_OK \<longrightarrow> commit_state w0 F v ck)
          \<and> (readable os file \<longrightarrow> (\<forall>k \<le> walFramePage (n_frames w0 file). is_mapped w k) \<longrightarrow> rc = SQLITE_OK))"
    proof (cases "nSize > WAL_HDRSIZE")
      case False
      then have "length file \<le> WAL_HDRSIZE" using nSize by simp
      then have "log_bytes w0 F = []" using fl lh by simp
      then have "F = []" using log length_log_bytes [of w0 "unat sz" F] F(1)
        by (cases F) (auto simp: log_file_def frame_bytes_def frame_hdr_def be32_def)
      moreover have "commit_state w0 [] ?w (0, 0)"
        using rep [of ?w] by (simp add: commit_state_def zero_hdr_def)
      ultimately show ?thesis using False by (simp add: step_def)
    next
      case big: True
      obtain rc aBuf where read: "os_read os file WAL_HDRSIZE 0 = (rc, aBuf)" by fastforce
      show ?thesis
      proof (cases "rc = SQLITE_OK")
        case False
        then have "step = Some (Inl (rc, ?w))" using big read by (simp add: step_def recover_log_def)
        moreover have "\<not> readable os file"
        proof
          assume "readable os file"
          then have "0 + WAL_HDRSIZE \<le> length file \<longrightarrow> fst (os_read os file WAL_HDRSIZE 0) = SQLITE_OK"
            unfolding readable_def by blast
          then show False using read False fl lh by simp
        qed
        ultimately show ?thesis using False by blast
      next
        case True
        have "aBuf = take WAL_HDRSIZE (drop 0 file)" using os read True unfolding os_ok_def by blast
        then have "aBuf = log_header be sz nck salt" using fl lh by simp
        with read True have read': "os_read os file WAL_HDRSIZE 0 = (SQLITE_OK, log_header be sz nck salt)" by simp
        have N': "(nSize - WAL_HDRSIZE) div (unat sz + WAL_FRAME_HDRSIZE) = n_frames w0 file"
          by (simp add: n_frames_def nSize sz0)
        have rec0: "recovered w0 F (iZero 0) True w0 (0, 0)"
          using rep [of w0] by (simp add: recovered_def w0 log_start_def zero_hdr_def)
        note pages = recover_pages_log [OF os log refl N env junk rec0, of "walFramePage (n_frames w0 file)" SQLITE_OK]
        show ?thesis
        proof (cases "os_malloc os")
          case False
          then have "step = Some (Inl (SQLITE_NOMEM, w0))"
            using big by (simp add: step_def recover_log_header [OF hd read'] w0)
          then show ?thesis using False by (auto simp: result_codes)
        next
          case malloc: True
          have "is_mapped w k \<longrightarrow> is_mapped w0 k" for k by (simp add: w0 log_start_def is_mapped_def)
          moreover have "step = do { r \<leftarrow> recover_pages os env aPrivate file (unat sz) (n_frames w0 file) w0 (0, 0) SQLITE_OK 0
              (Suc (walFramePage (n_frames w0 file))); Some (Inr r) }"
            using big malloc by (simp add: step_def recover_log_header [OF hd read'] N' w0 [symmetric] Let_def del: recover_pages.simps)
          moreover have "length (aSalt (hdr w0)) = 8" using salt by (simp add: w0 log_start_def)
          ultimately show ?thesis
            using pages recovered_commit_state [of w0 F False] unfolding sz0 by (auto simp del: recover_pages.simps)
        qed
      qed
    qed
    then show ?thesis
    proof (elim disjE exE conjE)
      fix rc v
      assume "step = Some (Inl (rc, v))" "rc \<noteq> SQLITE_OK" "readable os file \<longrightarrow> \<not> os_malloc os"
      then show ?thesis by (simp add: unf)
    next
      fix rc v ck
      assume st: "step = Some (Inr (rc, v, ck))" "rc = SQLITE_OK \<longrightarrow> commit_state w0 F v ck"
        "readable os file \<longrightarrow> (\<forall>k \<le> walFramePage (n_frames w0 file). is_mapped w k) \<longrightarrow> rc = SQLITE_OK"
      show ?thesis
      proof (cases "rc = SQLITE_OK")
        case False
        then show ?thesis using st by (auto simp: unf)
      next
        case ok: True
        obtain w2 where w2: "walIndexWriteHdr (v \<lparr>hdr := (hdr v) \<lparr>aFrameCksum := ck\<rparr>\<rparr>) = Some w2"
          "\<forall>ci. at_last_commit w0 F (w2 \<lparr>ckptInfo := ci\<rparr>)"
          using recover_finish st(2) ok by blast
        obtain rc' ci where marks: "recover_marks os (w2 \<lparr>ckptInfo := (ckptInfo w2) \<lparr>nBackfill := 0, nBackfillAttempted := mxFrame (hdr w2),
              aReadMark := (aReadMark (ckptInfo w2))[0 := 0]\<rparr>\<rparr>) rc 1 (WAL_NREADER - 1) = (rc', w2 \<lparr>ckptInfo := ci\<rparr>)"
          "(\<forall>i n. os_lock os i n = SQLITE_OK) \<longrightarrow> rc' = SQLITE_OK"
          using recover_marks_ckptInfo [of os "w2 \<lparr>ckptInfo := (ckptInfo w2) \<lparr>nBackfill := 0, nBackfillAttempted := mxFrame (hdr w2),
              aReadMark := (aReadMark (ckptInfo w2))[0 := 0]\<rparr>\<rparr>" rc 1 "WAL_NREADER - 1"] ok by auto
        have "walIndexRecover os env aPrivate file w = Some (rc', w2 \<lparr>ckptInfo := ci\<rparr>)"
          unfolding unf st(1) using ok w2(1) marks(1) by simp
        then show ?thesis using w2(2) marks(2) by blast
      qed
    qed
  qed
qed

text \<open>
  C40. Recovery rebuilds the index from the log file as it was at the last commit: of a file with a log header, valid frames
  \<open>F\<close> and behind them anything that does not begin with a further valid frame (a torn frame, frames of an
  earlier log), exactly the frames \<open>F\<close> are entered, and the header counts those up to the last one that commits, with
  the database size and the checksums of that frame. It ends without touching memory out of bounds, whatever
  the operating system answers, and reports success only in that state; when the
  file can be read, memory and locks can be had and the pages of the index are there, it succeeds.
\<close>

theorem walIndexRecover_last_commit:
  assumes "os_ok os" "env_ok env" "\<forall>k. shaped k (aPrivate k)" "\<forall>k. shaped k (wi w k)"
    and "header_ok be sz salt" "w0 = log_start w be sz nck salt"
    and "file = log_header be sz nck salt @ log_bytes w0 F @ r"
    and "list_all (frame_ok (unat sz)) F" "no_frame (log_state w0 F) r" "n_frames w0 file + 34 \<le> 2 ^ 32"
  shows "\<exists>rc w'. walIndexRecover os env aPrivate file w = Some (rc, w') \<and> (rc = SQLITE_OK \<longrightarrow> at_last_commit w0 F w')
    \<and> (readable os file \<longrightarrow> fst (os_size os file) = SQLITE_OK \<longrightarrow> os_malloc os \<longrightarrow> (\<forall>i n. os_lock os i n = SQLITE_OK)
        \<longrightarrow> (\<forall>k \<le> walFramePage (n_frames w0 file). is_mapped w k) \<longrightarrow> rc = SQLITE_OK)"
  by (rule walIndexRecover_log [OF assms])

text \<open>A file system that answers every call, and a log of two frames whose last bytes are lost.\<close>

definition plain_os :: os where
  "plain_os = \<lparr>os_read = \<lambda>f n i. if i + n \<le> length f then (SQLITE_OK, take n (drop i f)) else (522, replicate n 0),
     os_write = \<lambda>f d i. (SQLITE_OK, write_at f d i), os_size = \<lambda>f. (SQLITE_OK, length f), os_sync = \<lambda>_. SQLITE_OK,
     os_lock = \<lambda>_ _. SQLITE_OK, os_malloc = True\<rparr>"

lemma plain_os_ok: "os_ok plain_os"
  unfolding os_ok_def plain_os_def by (auto simp: SQLITE_OK_def)

lemma plain_os_readable: "readable plain_os file"
  by (simp add: readable_def plain_os_def)

theorem walIndexRecover_last_commit_witness:
  "\<exists>f w'. length f = 32 + (24 + 512) + 11
    \<and> walIndexRecover plain_os \<lparr>realloc_ok = True, zero_ok = True, xShmMap = \<lambda>_. (SQLITE_OK, True), faultSim = False\<rparr> zero_page f example_wal
      = Some (SQLITE_OK, w')
    \<and> mxFrame (hdr w') = 1 \<and> nPage (hdr w') = 7"
proof -
  let ?salt = "[1, 2, 3, 4, 5, 6, 7, 8 :: u8]" and ?F = "[(3, 7, replicate 512 0)] :: frame list"
  let ?env = "\<lparr>realloc_ok = True, zero_ok = True, xShmMap = \<lambda>_. (SQLITE_OK, True), faultSim = False\<rparr>"
  define w0 where "w0 = log_start example_wal 0 512 0 ?salt"
  define f where "f = log_header 0 512 0 ?salt @ log_bytes w0 ?F @ replicate 11 0"
  have hd: "header_ok 0 512 ?salt" by (simp add: header_ok_def)
  have sz: "szPage w0 = 512" by (simp add: w0_def log_start_def)
  have F: "list_all (frame_ok (unat (512 :: u32))) ?F" by (simp add: frame_ok_def)
  have len: "length f = 32 + (24 + 512) + 11"
    using length_log_bytes [OF log_start_sized [OF hd] F, of example_wal 0] length_log_header [of ?salt 0 512 0]
    by (simp add: f_def w0_def WAL_HDRSIZE_def WAL_FRAME_HDRSIZE_def del: log_bytes.simps)
  have n: "n_frames w0 f = 1" using len by (simp add: n_frames_def sz WAL_HDRSIZE_def WAL_FRAME_HDRSIZE_def)
  have torn: "no_frame (log_state w0 ?F) (replicate 11 0)"
    by (simp add: no_frame_def sz del: foldl.simps)
  have "\<exists>rc w'. walIndexRecover plain_os ?env zero_page f example_wal = Some (rc, w') \<and> (rc = SQLITE_OK \<longrightarrow> at_last_commit w0 ?F w')
    \<and> (readable plain_os f \<longrightarrow> fst (os_size plain_os f) = SQLITE_OK \<longrightarrow> os_malloc plain_os
        \<longrightarrow> (\<forall>i n. os_lock plain_os i n = SQLITE_OK)
        \<longrightarrow> (\<forall>k \<le> walFramePage (n_frames w0 f). is_mapped example_wal k) \<longrightarrow> rc = SQLITE_OK)"
    using n by (intro walIndexRecover_last_commit [OF plain_os_ok _ _ _ hd w0_def f_def F torn])
      (simp_all add: env_ok_def shaped_zero_page example_wal_def)
  moreover have "\<forall>k \<le> walFramePage (n_frames w0 f). is_mapped example_wal k"
    unfolding n by (simp add: is_mapped_def example_wal_def walFramePage_def wi_consts)
  ultimately show ?thesis
    using len plain_os_readable [of f] by (auto simp: plain_os_def at_last_commit_def last_commit_def)
qed

end
