(* ===== verification/Util_Arith.thy ===== *)
theory Util_Arith
  imports Prelude "HOL-Library.Signed_Division" "HOL-Library.Log_Nat"
begin

text \<open>
  The 64-bit arithmetic helpers of \<open>util.c\<close>: checked addition, subtraction and
  multiplication (both the branch that a GCC build takes, which uses the overflow builtins,
  and the portable branch), absolute value, the 64 by 64 to 128 bit product, and the
  logarithmic estimates \<open>LogEst\<close> of the query planner. An \<open>i64\<close> is an \<open>int\<close> in
  range (\<open>in_i64\<close>); the overflow builtins store the wrapped result. A checked operation
  returns the C return code as a boolean (\<open>True\<close> for overflow) and the final \<open>*pA\<close>.
\<close>

unbundle bit_operations_syntax

subsection \<open>Checked 64-bit arithmetic\<close>

abbreviation LARGEST_INT64 :: int where "LARGEST_INT64 \<equiv> 0x7fffffffffffffff"
abbreviation SMALLEST_INT64 :: int where "SMALLEST_INT64 \<equiv> - 0x8000000000000000"

definition in_i64 :: "int \<Rightarrow> bool" where
  "in_i64 x \<longleftrightarrow> SMALLEST_INT64 \<le> x \<and> x \<le> LARGEST_INT64"

definition wrap_i64 :: "int \<Rightarrow> int" where
  "wrap_i64 x = (x + 0x8000000000000000) mod 0x10000000000000000 - 0x8000000000000000"

definition sqlite3AddInt64 :: "int \<Rightarrow> int \<Rightarrow> bool \<times> int" where
  "sqlite3AddInt64 pA iB = (\<not> in_i64 (pA + iB), wrap_i64 (pA + iB))"

definition sqlite3SubInt64 :: "int \<Rightarrow> int \<Rightarrow> bool \<times> int" where
  "sqlite3SubInt64 pA iB = (\<not> in_i64 (pA - iB), wrap_i64 (pA - iB))"

definition sqlite3MulInt64 :: "int \<Rightarrow> int \<Rightarrow> bool \<times> int" where
  "sqlite3MulInt64 pA iB = (\<not> in_i64 (pA * iB), wrap_i64 (pA * iB))"

definition sqlite3AddInt64_portable :: "int \<Rightarrow> int \<Rightarrow> bool \<times> int" where
  "sqlite3AddInt64_portable pA iB =
     (let iA = pA in
      if iB \<ge> 0 then
        if iA > 0 \<and> LARGEST_INT64 - iA < iB then (True, pA) else (False, pA + iB)
      else
        if iA < 0 \<and> - (iA + LARGEST_INT64) > iB + 1 then (True, pA) else (False, pA + iB))"

definition sqlite3SubInt64_portable :: "int \<Rightarrow> int \<Rightarrow> bool \<times> int" where
  "sqlite3SubInt64_portable pA iB =
     (if iB = SMALLEST_INT64 then
        if pA \<ge> 0 then (True, pA) else (False, pA - iB)
      else sqlite3AddInt64_portable pA (- iB))"

definition sqlite3MulInt64_portable :: "int \<Rightarrow> int \<Rightarrow> bool \<times> int" where
  "sqlite3MulInt64_portable pA iB =
     (let iA = pA in
      if iB > 0 then
        if iA > LARGEST_INT64 sdiv iB then (True, pA)
        else if iA < SMALLEST_INT64 sdiv iB then (True, pA)
        else (False, iA * iB)
      else if iB < 0 then
        if iA > 0 then
          if iB < SMALLEST_INT64 sdiv iA then (True, pA) else (False, iA * iB)
        else if iA < 0 then
          if iB = SMALLEST_INT64 then (True, pA)
          else if iA = SMALLEST_INT64 then (True, pA)
          else if - iA > LARGEST_INT64 sdiv (- iB) then (True, pA)
          else (False, iA * iB)
        else (False, iA * iB)
      else (False, iA * iB))"

definition sqlite3AbsInt32 :: "int \<Rightarrow> int" where
  "sqlite3AbsInt32 x = (if x \<ge> 0 then x else if x = - 0x80000000 then 0x7fffffff else - x)"

text \<open>The branch of \<open>sqlite3Multiply128\<close> without a 128-bit type; the result is (high, low).\<close>

definition sqlite3Multiply128 :: "u64 \<Rightarrow> u64 \<Rightarrow> u64 \<times> u64" where
  "sqlite3Multiply128 a b =
     (let a0 = ucast (ucast a :: u32);
          a1 = drop_bit 32 a;
          b0 = ucast (ucast b :: u32);
          b1 = drop_bit 32 b;
          a0b0 = a0 * b0;
          a1b1 = a1 * b1;
          a0b1 = a0 * b1;
          a1b0 = a1 * b0;
          t = drop_bit 32 a0b0 + ucast (ucast a0b1 :: u32) + ucast (ucast a1b0 :: u32)
      in (a1b1 + drop_bit 32 a0b1 + drop_bit 32 a1b0 + drop_bit 32 t,
          (a0b0 AND 0xffffffff) OR push_bit 32 t))"

subsection \<open>Logarithmic estimates\<close>

definition logest_add_table :: "int list" where
  "logest_add_table =
     [10, 10,
      9, 9,
      8, 8,
      7, 7, 7,
      6, 6, 6,
      5, 5, 5,
      4, 4, 4, 4,
      3, 3, 3, 3, 3, 3,
      2, 2, 2, 2, 2, 2, 2]"

definition sqlite3LogEstAdd :: "int \<Rightarrow> int \<Rightarrow> int" where
  "sqlite3LogEstAdd a b =
     (if a \<ge> b then
        if a > b + 49 then a
        else if a > b + 31 then a + 1
        else a + logest_add_table ! nat (a - b)
      else
        if b > a + 49 then b
        else if b > a + 31 then b + 1
        else b + logest_add_table ! nat (b - a))"

text \<open>
  \<open>sqlite3LogEst\<close> of a \<open>u64\<close>, as a \<open>nat\<close>: the loop for small values; for the others
  the GCC branch with \<open>__builtin_clzll\<close>, and the two loops of the portable branch.
\<close>

definition clzll :: "nat \<Rightarrow> nat" where
  "clzll x = 64 - floorlog 2 x"

function logest_small :: "nat \<Rightarrow> int \<Rightarrow> nat \<times> int" where
  "logest_small x y = (if 0 < x \<and> x < 8 then logest_small (x * 2) (y - 10) else (x, y))"
  by pat_completeness auto
termination by (relation "measure (\<lambda>(x, y). 8 - x)") auto

definition logest_table :: "int list" where
  "logest_table = [0, 2, 3, 5, 6, 7, 8, 9]"

definition sqlite3LogEst :: "nat \<Rightarrow> int" where
  "sqlite3LogEst x =
     (if x < 8 then
        if x < 2 then 0
        else (let (x, y) = logest_small x 40 in logest_table ! (x mod 8) + y - 10)
      else
        (let i = 60 - clzll x; y = 40 + int i * 10; x = x div 2 ^ i
         in logest_table ! (x mod 8) + y - 10))"

fun logest_by_16 :: "nat \<Rightarrow> int \<Rightarrow> nat \<times> int" where
  "logest_by_16 x y = (if x > 255 then logest_by_16 (x div 16) (y + 40) else (x, y))"

fun logest_by_2 :: "nat \<Rightarrow> int \<Rightarrow> nat \<times> int" where
  "logest_by_2 x y = (if x > 15 then logest_by_2 (x div 2) (y + 10) else (x, y))"

declare logest_by_16.simps [simp del] logest_by_2.simps [simp del] logest_small.simps [simp del]

definition sqlite3LogEst_portable :: "nat \<Rightarrow> int" where
  "sqlite3LogEst_portable x =
     (if x < 8 then
        if x < 2 then 0
        else (let (x, y) = logest_small x 40 in logest_table ! (x mod 8) + y - 10)
      else
        (let (x, y) = logest_by_16 x 40; (x, y) = logest_by_2 x y
         in logest_table ! (x mod 8) + y - 10))"

text \<open>\<open>%\<close> and \<open>/\<close> truncate; the result is a \<open>u64\<close>, in which a negative remainder wraps.\<close>

definition sqlite3LogEstToInt :: "int \<Rightarrow> u64" where
  "sqlite3LogEstToInt x =
     (let n = (word_of_int (x smod 10) :: u64);
          x = x sdiv 10;
          n = (if n \<ge> 5 then n - 2 else if n \<ge> 1 then n - 1 else n)
      in if x > 60 then word_of_int LARGEST_INT64
         else if x \<ge> 3 then push_bit (nat (x - 3)) (n + 8) else drop_bit (nat (3 - x)) (n + 8))"

subsection \<open>The portable branches agree with the builtins\<close>

lemma wrap_i64_id: "in_i64 x \<Longrightarrow> wrap_i64 x = x"
  by (simp add: in_i64_def wrap_i64_def)

lemma in_i64_wrap: "in_i64 (wrap_i64 x)"
  by (simp add: in_i64_def wrap_i64_def)

lemma add_portable:
  "in_i64 a \<Longrightarrow> in_i64 b \<Longrightarrow>
   sqlite3AddInt64_portable a b = (\<not> in_i64 (a + b), if in_i64 (a + b) then a + b else a)"
  by (auto simp: sqlite3AddInt64_portable_def in_i64_def Let_def)

lemma sub_portable:
  "in_i64 a \<Longrightarrow> in_i64 b \<Longrightarrow>
   sqlite3SubInt64_portable a b = (\<not> in_i64 (a - b), if in_i64 (a - b) then a - b else a)"
  by (auto simp: sqlite3SubInt64_portable_def sqlite3AddInt64_portable_def in_i64_def Let_def)

lemma sdiv_nonneg: "0 \<le> a \<Longrightarrow> 0 < b \<Longrightarrow> a sdiv b = a div b" for a b :: int
  by (simp add: signed_divide_int_def sgn_if)

lemma sdiv_neg: "0 < a \<Longrightarrow> 0 < b \<Longrightarrow> (- a) sdiv b = - (a div b)" for a b :: int
  by (simp add: signed_divide_int_def sgn_if)

lemma le_div_iff: "0 < b \<Longrightarrow> a \<le> n div b \<longleftrightarrow> a * b \<le> n" for a b n :: int
proof
  assume b: "0 < b" and "a \<le> n div b"
  then have "a * b \<le> (n div b) * b" by (intro mult_right_mono) auto
  also have "\<dots> \<le> n" using b by (simp add: minus_mod_eq_div_mult [symmetric])
  finally show "a * b \<le> n" .
next
  assume "0 < b" and "a * b \<le> n"
  then show "a \<le> n div b" using zdiv_mono1 [of "a * b" n b] by simp
qed

lemma div_less_iff: "0 < b \<Longrightarrow> n div b < a \<longleftrightarrow> n < a * b" for a b n :: int
  using le_div_iff [of b a n] by linarith

lemma mul_portable:
  assumes a: "in_i64 a" and b: "in_i64 b"
  shows "sqlite3MulInt64_portable a b = (\<not> in_i64 (a * b), if in_i64 (a * b) then a * b else a)"
proof -
  have big: "0 < c \<Longrightarrow> d > LARGEST_INT64 sdiv c \<longleftrightarrow> d * c > LARGEST_INT64" for c d :: int
    by (simp add: sdiv_nonneg div_less_iff)
  have small: "0 < c \<Longrightarrow> d < SMALLEST_INT64 sdiv c \<longleftrightarrow> d * c < SMALLEST_INT64" for c d :: int
    using div_less_iff [of c "0x8000000000000000" "- d"] sdiv_neg [of "0x8000000000000000" c] by auto
  consider "b > 0" "a \<ge> 0" | "b > 0" "a < 0" | "b < 0" "a > 0" | "b < 0" "a < 0" | "b = 0 \<or> a = 0" by linarith
  then show ?thesis
  proof cases
    case 1
    then have "\<not> a * b < SMALLEST_INT64" using mult_nonneg_nonneg [of a b] by linarith
    with 1 big [of b a] small [of b a] show ?thesis
      by (simp add: sqlite3MulInt64_portable_def in_i64_def not_le not_less)
  next
    case 2
    then have "\<not> a * b > LARGEST_INT64" using mult_neg_pos [of a b] by linarith
    with 2 big [of b a] small [of b a] show ?thesis
      by (simp add: sqlite3MulInt64_portable_def in_i64_def not_le not_less)
  next
    case 3
    then have "\<not> a * b > LARGEST_INT64" using mult_pos_neg [of a b] by linarith
    with 3 small [of a b] show ?thesis
      by (simp add: sqlite3MulInt64_portable_def in_i64_def not_le not_less mult.commute)
  next
    case 4
    then have pos: "a * b > 0" by (simp add: mult_neg_neg)
    have "b = SMALLEST_INT64 \<Longrightarrow> a * b > LARGEST_INT64" using 4(2) by simp
    moreover have "a = SMALLEST_INT64 \<Longrightarrow> a * b > LARGEST_INT64" using 4(1) by simp
    ultimately show ?thesis using 4 pos big [of "- b" "- a"]
      by (auto simp: sqlite3MulInt64_portable_def in_i64_def not_le not_less)
  next
    case 5
    then show ?thesis
      by (auto simp: sqlite3MulInt64_portable_def in_i64_def sdiv_nonneg signed_divide_int_def sgn_if div_less_iff)
  qed
qed

text \<open>
  C5. For operands that are 64-bit integers, the builtin and the portable branch of each
  checked operation report overflow exactly when the mathematical result does not fit, and
  both store that result when it fits. When it does not, the portable branch leaves
  \<open>*pA\<close> alone and the builtin branch stores the wrapped value.
\<close>

theorem checked_arith_exact:
  assumes "in_i64 a" and "in_i64 b"
  shows "sqlite3AddInt64 a b = (\<not> in_i64 (a + b), if in_i64 (a + b) then a + b else wrap_i64 (a + b))
     \<and> sqlite3SubInt64 a b = (\<not> in_i64 (a - b), if in_i64 (a - b) then a - b else wrap_i64 (a - b))
     \<and> sqlite3MulInt64 a b = (\<not> in_i64 (a * b), if in_i64 (a * b) then a * b else wrap_i64 (a * b))
     \<and> sqlite3AddInt64_portable a b = (\<not> in_i64 (a + b), if in_i64 (a + b) then a + b else a)
     \<and> sqlite3SubInt64_portable a b = (\<not> in_i64 (a - b), if in_i64 (a - b) then a - b else a)
     \<and> sqlite3MulInt64_portable a b = (\<not> in_i64 (a * b), if in_i64 (a * b) then a * b else a)"
  using assms
  by (simp add: sqlite3AddInt64_def sqlite3SubInt64_def sqlite3MulInt64_def wrap_i64_id
      add_portable sub_portable mul_portable)

theorem checked_arith_exact_witness:
  "sqlite3AddInt64 LARGEST_INT64 1 = (True, SMALLEST_INT64)
   \<and> sqlite3AddInt64_portable LARGEST_INT64 1 = (True, LARGEST_INT64)"
proof -
  have h: "in_i64 LARGEST_INT64" "in_i64 1" by (simp_all add: in_i64_def)
  from checked_arith_exact [OF h] show ?thesis by (simp add: in_i64_def wrap_i64_def)
qed

subsection \<open>The 128-bit product\<close>

lemma unat_mult_small: "unat x < 2 ^ 32 \<Longrightarrow> unat y < 2 ^ 32 \<Longrightarrow> unat (x * y) = unat x * unat y" for x y :: u64
proof -
  assume "unat x < 2 ^ 32" and "unat y < 2 ^ 32"
  then have "unat x * unat y \<le> (2 ^ 32 - 1) * (2 ^ 32 - 1)" by (intro mult_le_mono) simp_all
  then show ?thesis by (simp add: unat_mult_lem [THEN iffD1])
qed

lemma unat_low_half: "unat (ucast (ucast w :: u32) :: u64) = unat w mod 2 ^ 32" for w :: u64
proof -
  have "ucast (ucast w :: u32) = take_bit 32 w" by (rule u64_eqI) (simp add: bit_simps)
  moreover have "unat (take_bit 32 w) = take_bit 32 (unat w)" by (rule unsigned_take_bit_eq)
  ultimately show ?thesis by (simp only: take_bit_nat_def)
qed

lemma unat_high_half: "unat (drop_bit 32 w) = unat w div 2 ^ 32" for w :: u64
  by (simp add: drop_bit_eq_div unat_div_distrib)

lemma low_or_high: "unat ((x AND 0xffffffff) OR push_bit 32 y) = unat x mod 2 ^ 32 + 2 ^ 32 * (unat y mod 2 ^ 32)" for x y :: u64
proof -
  have "(x AND 0xffffffff) AND push_bit 32 y = 0" by (rule u64_eqI) (simp add: bit_simps)
  then have "(x AND 0xffffffff) OR push_bit 32 y = (x AND 0xffffffff) + push_bit 32 y"
    by (simp add: disjunctive_add_eq_or)
  moreover have "unat (x AND 0xffffffff) = unat x mod 2 ^ 32"
  proof -
    have "x AND 0xffffffff = take_bit 32 x" by (simp add: take_bit_eq_mask mask_numeral)
    moreover have "unat (take_bit 32 x) = take_bit 32 (unat x)" by (rule unsigned_take_bit_eq)
    ultimately show ?thesis by (simp only: take_bit_nat_def)
  qed
  moreover have "unat (push_bit 32 y) = 2 ^ 32 * (unat y mod 2 ^ 32)"
    using mult_mod_right [of "2 ^ 32" "unat y" "2 ^ 32"]
    by (simp add: push_bit_eq_mult unat_word_ariths mult.commute)
  moreover have "unat x mod 2 ^ 32 + 2 ^ 32 * (unat y mod 2 ^ 32) < 2 ^ 64"
  proof -
    have "unat x mod 2 ^ 32 < 2 ^ 32" "unat y mod 2 ^ 32 \<le> 2 ^ 32 - 1" by (simp_all add: less_imp_le)
    then have "2 ^ 32 * (unat y mod 2 ^ 32) \<le> 2 ^ 32 * (2 ^ 32 - 1)" by (intro mult_le_mono2)
    with \<open>unat x mod 2 ^ 32 < 2 ^ 32\<close> show ?thesis by simp
  qed
  ultimately show ?thesis by (simp add: unat_word_ariths)
qed


lemma mult_halves:
  fixes B :: nat
  assumes "a0 * b0 = q0 * B + r0" "a0 * b1 = q1 * B + r1" "a1 * b0 = q2 * B + r2"
    and "q0 + r1 + r2 = tq * B + tr"
  shows "(a1 * B + a0) * (b1 * B + b0) = (a1 * b1 + q1 + q2 + tq) * (B * B) + (r0 + B * tr)"
proof -
  have "(a1 * B + a0) * (b1 * B + b0) = a1 * b1 * (B * B) + (a1 * b0) * B + (a0 * b1) * B + a0 * b0"
    by (simp add: algebra_simps)
  also have "\<dots> = (a1 * b1 + q1 + q2) * (B * B) + (q0 + r1 + r2) * B + r0"
    by (simp only: assms(1-3)) (simp add: algebra_simps)
  also have "\<dots> = (a1 * b1 + q1 + q2 + tq) * (B * B) + (r0 + B * tr)"
    by (simp only: assms(4)) (simp add: algebra_simps)
  finally show ?thesis .
qed

text \<open>
  C7. The 128-bit product assembled from four 32-bit products: the two halves returned are
  exactly the product of the two 64-bit numbers, so no carry is lost.
\<close>

theorem sqlite3Multiply128_exact:
  "case sqlite3Multiply128 a b of (hi, lo) \<Rightarrow> unat hi * 2 ^ 64 + unat lo = unat a * unat b"
proof -
  let ?B = "2 ^ 32 :: nat"
  define a0 a1 b0 b1 :: u64 where ab: "a0 = ucast (ucast a :: u32)" "a1 = drop_bit 32 a"
    "b0 = ucast (ucast b :: u32)" "b1 = drop_bit 32 b"
  have lt: "unat a0 < ?B" "unat a1 < ?B" "unat b0 < ?B" "unat b1 < ?B"
    using unat_u64 [of a] unat_u64 [of b] unfolding ab unat_low_half unat_high_half
    by (simp_all add: div_less_iff_less_mult)
  define t where "t = drop_bit 32 (a0 * b0) + ucast (ucast (a0 * b1) :: u32) + ucast (ucast (a1 * b0) :: u32)"
  have prods: "unat (a0 * b0) = unat a0 * unat b0" "unat (a0 * b1) = unat a0 * unat b1"
      "unat (a1 * b0) = unat a1 * unat b0" "unat (a1 * b1) = unat a1 * unat b1"
    using lt by (simp_all only: unat_mult_small)
  have q0: "unat a0 * unat b0 div ?B < ?B"
    using lt unat_u64 [of "a0 * b0"] by (simp add: prods div_less_iff_less_mult)
  have t: "unat t = unat a0 * unat b0 div ?B + (unat a0 * unat b1) mod ?B + (unat a1 * unat b0) mod ?B"
  proof -
    have "(unat a0 * unat b1) mod ?B < ?B" "(unat a1 * unat b0) mod ?B < ?B" by simp_all
    moreover have "unat (drop_bit 32 (a0 * b0)) = unat a0 * unat b0 div ?B"
      "unat (ucast (ucast (a0 * b1) :: u32) :: u64) = (unat a0 * unat b1) mod ?B"
      "unat (ucast (ucast (a1 * b0) :: u32) :: u64) = (unat a1 * unat b0) mod ?B"
      by (simp_all only: unat_high_half unat_low_half prods)
    ultimately show ?thesis using q0 unfolding t_def by (simp add: unat_plus_if')
  qed
  let ?hi = "unat a1 * unat b1 + unat a0 * unat b1 div ?B + unat a1 * unat b0 div ?B + unat t div ?B"
  let ?lo = "(unat a0 * unat b0) mod ?B + ?B * (unat t mod ?B)"
  have a: "unat a = unat a1 * ?B + unat a0" and b: "unat b = unat b1 * ?B + unat b0"
    unfolding ab unat_low_half unat_high_half by simp_all
  have eq: "unat a * unat b = ?hi * (?B * ?B) + ?lo"
    unfolding a b by (rule mult_halves) (simp_all add: t)
  have "unat a * unat b \<le> (2 ^ 64 - 1) * (2 ^ 64 - 1)"
    using unat_u64 [of a] unat_u64 [of b] by (intro mult_le_mono) simp_all
  with eq have "?hi * (?B * ?B) < 2 ^ 64 * (?B * ?B)" by simp
  then have "?hi < 2 ^ 64" by simp
  then have "unat (a1 * b1 + drop_bit 32 (a0 * b1) + drop_bit 32 (a1 * b0) + drop_bit 32 t) = ?hi"
    by (simp add: unat_plus_if' unat_high_half prods)
  moreover have "unat ((a0 * b0 AND 0xffffffff) OR push_bit 32 t) = ?lo"
    by (simp only: low_or_high prods)
  moreover have "sqlite3Multiply128 a b
      = (a1 * b1 + drop_bit 32 (a0 * b1) + drop_bit 32 (a1 * b0) + drop_bit 32 t,
         (a0 * b0 AND 0xffffffff) OR push_bit 32 t)"
    by (simp only: sqlite3Multiply128_def Let_def ab t_def)
  ultimately show ?thesis using eq by simp
qed

subsection \<open>LogEst\<close>

lemma floorlog_double: "0 < x \<Longrightarrow> 2 \<le> x \<Longrightarrow> floorlog 2 (x div 2) = floorlog 2 x - 1"
  using compute_floorlog [of 2 x] by simp

lemma floorlog_8_15: "8 \<le> x \<Longrightarrow> x \<le> 15 \<Longrightarrow> floorlog 2 x = 4"
  using floorlog_leI [of x 2 4] floorlog_geI [of 2 4 x] by simp

lemma logest_by_2_eq:
  "8 \<le> x \<Longrightarrow> logest_by_2 x y = (x div 2 ^ (floorlog 2 x - 4), y + 10 * int (floorlog 2 x - 4))"
proof (induction x y rule: logest_by_2.induct)
  case (1 x y)
  show ?case
  proof (cases "x > 15")
    case True
    then have "5 \<le> floorlog 2 x" using floorlog_geI [of 2 5 x] by simp
    then obtain k where k: "floorlog 2 x = Suc (k + 4)"
      using le_Suc_ex [of 5 "floorlog 2 x"] by auto
    with True 1 show ?thesis
      by (subst logest_by_2.simps) (simp add: floorlog_double div_mult2_eq [symmetric])
  next
    case False
    with 1 show ?thesis by (subst logest_by_2.simps) (simp add: floorlog_8_15)
  qed
qed

lemma logest_by_16_by_2:
  "8 \<le> x \<Longrightarrow> (case logest_by_16 x y of (x', y') \<Rightarrow> logest_by_2 x' y')
     = (x div 2 ^ (floorlog 2 x - 4), y + 10 * int (floorlog 2 x - 4))"
proof (induction x y rule: logest_by_16.induct)
  case (1 x y)
  show ?case
  proof (cases "x > 255")
    case True
    then have "9 \<le> floorlog 2 x" using floorlog_geI [of 2 9 x] by simp
    then obtain k where k: "floorlog 2 x = k + 8" using le_Suc_ex [of 9 "floorlog 2 x"] by auto
    have "x div 16 = x div 2 div 2 div 2 div 2" by (simp add: div_mult2_eq [symmetric])
    with True k have "floorlog 2 (x div 16) = k + 4" by (simp add: floorlog_double)
    moreover have "x div 2 ^ (4 + k) = x div 16 div 2 ^ k"
      by (simp add: power_add div_mult2_eq [symmetric] mult.commute)
    ultimately show ?thesis using True 1 k
      by (subst logest_by_16.simps) simp
  next
    case False
    with 1 show ?thesis by (subst logest_by_16.simps) (simp add: logest_by_2_eq)
  qed
qed

lemma sqlite3LogEst_large:
  assumes "8 \<le> x" and "x < 2 ^ 64"
  shows "sqlite3LogEst x = logest_table ! (x div 2 ^ (floorlog 2 x - 4) - 8) + 10 * int (floorlog 2 x - 4) + 30"
    and "8 \<le> x div 2 ^ (floorlog 2 x - 4)" and "x div 2 ^ (floorlog 2 x - 4) < 16"
proof -
  from assms have L: "4 \<le> floorlog 2 x" "floorlog 2 x \<le> 64"
    using floorlog_geI [of 2 4 x] floorlog_leI [of x 2 64] by simp_all
  then obtain k where k: "floorlog 2 x = k + 4" using le_Suc_ex [of 4 "floorlog 2 x"] by auto
  from assms floorlog_bounds [of x 2] k have "8 * 2 ^ k \<le> x" "x < 16 * 2 ^ k"
    by (simp_all add: power_add)
  then have m: "8 \<le> x div 2 ^ k" "x div 2 ^ k < 16"
    by (simp_all add: less_eq_div_iff_mult_less_eq div_less_iff_less_mult)
  then have "(x div 2 ^ k) mod 8 = x div 2 ^ k - 8" by (simp add: mod_if)
  with assms L k m show "sqlite3LogEst x = logest_table ! (x div 2 ^ (floorlog 2 x - 4) - 8) + 10 * int (floorlog 2 x - 4) + 30"
    and "8 \<le> x div 2 ^ (floorlog 2 x - 4)" and "x div 2 ^ (floorlog 2 x - 4) < 16"
    by (simp_all add: sqlite3LogEst_def clzll_def)
qed

lemma sqlite3LogEst_portable_eq: "x < 2 ^ 64 \<Longrightarrow> sqlite3LogEst_portable x = sqlite3LogEst x"
proof (cases "x < 8")
  case False
  assume x: "x < 2 ^ 64"
  from False have "4 \<le> floorlog 2 x" using floorlog_geI [of 2 4 x] by simp
  moreover have "floorlog 2 x \<le> 64" using x floorlog_leI [of x 2 64] by simp
  ultimately have "60 - clzll x = floorlog 2 x - 4" by (simp add: clzll_def)
  with False logest_by_16_by_2 [of x 40] show ?thesis
    by (simp add: sqlite3LogEst_portable_def sqlite3LogEst_def split_beta Let_def)
qed (simp add: sqlite3LogEst_portable_def sqlite3LogEst_def)

lemma logest_table_mono: "i \<le> j \<Longrightarrow> j < 8 \<Longrightarrow> logest_table ! i \<le> logest_table ! j"
proof -
  assume "i \<le> j" and "j < 8"
  then have "j \<in> {0, 1, 2, 3, 4, 5, 6, 7}" "i \<in> {0, 1, 2, 3, 4, 5, 6, 7}" by auto
  with \<open>i \<le> j\<close> show ?thesis by (auto simp: logest_table_def)
qed

lemma logest_table_range: "i < 8 \<Longrightarrow> 0 \<le> logest_table ! i \<and> logest_table ! i \<le> 9"
  using logest_table_mono [of 0 i] logest_table_mono [of i 7] by (simp add: logest_table_def)

lemma sqlite3LogEst_small:
  "sqlite3LogEst 0 = 0" "sqlite3LogEst (Suc 0) = 0" "sqlite3LogEst 2 = 10" "sqlite3LogEst 3 = 16"
  "sqlite3LogEst 4 = 20" "sqlite3LogEst 5 = 23" "sqlite3LogEst 6 = 26" "sqlite3LogEst 7 = 28"
  by (simp_all add: sqlite3LogEst_def logest_small.simps logest_table_def)

lemma sqlite3LogEst_bounds:
  assumes "1 \<le> x" and "x < 2 ^ 64"
  shows "10 * int (floorlog 2 x - 1) \<le> sqlite3LogEst x \<and> sqlite3LogEst x \<le> 10 * int (floorlog 2 x - 1) + 9"
proof (cases "x < 8")
  case True
  with assms have "x \<in> {1, 2, 3, 4, 5, 6, 7}" by auto
  moreover have "floorlog 2 (1 :: nat) = 1" by (simp add: compute_floorlog)
  moreover have "floorlog 2 (2 :: nat) = 2" "floorlog 2 (3 :: nat) = 2" "floorlog 2 (4 :: nat) = 3"
    "floorlog 2 (5 :: nat) = 3" "floorlog 2 (6 :: nat) = 3" "floorlog 2 (7 :: nat) = 3"
    by (simp_all add: compute_floorlog)
  ultimately show ?thesis by (auto simp: sqlite3LogEst_small)
next
  case False
  with assms have "x div 2 ^ (floorlog 2 x - 4) - 8 < 8" using sqlite3LogEst_large(2,3) [of x] by simp
  then have "0 \<le> logest_table ! (x div 2 ^ (floorlog 2 x - 4) - 8)"
     "logest_table ! (x div 2 ^ (floorlog 2 x - 4) - 8) \<le> 9" using logest_table_range by simp_all
  moreover have "4 \<le> floorlog 2 x" using False floorlog_geI [of 2 4 x] by simp
  ultimately show ?thesis using False assms sqlite3LogEst_large(1) [of x] by simp
qed

lemma sqlite3LogEst_mono:
  assumes "x \<le> y" and "y < 2 ^ 64"
  shows "sqlite3LogEst x \<le> sqlite3LogEst y"
proof (cases "floorlog 2 x = floorlog 2 y \<and> 8 \<le> x")
  case True
  with assms have "x div 2 ^ (floorlog 2 x - 4) \<le> y div 2 ^ (floorlog 2 y - 4)"
    by (simp add: div_le_mono)
  then have "x div 2 ^ (floorlog 2 x - 4) - 8 \<le> y div 2 ^ (floorlog 2 y - 4) - 8" by simp
  moreover have "y div 2 ^ (floorlog 2 y - 4) - 8 < 8" using True assms sqlite3LogEst_large(2,3) [of y] by linarith
  ultimately show ?thesis
    using True assms sqlite3LogEst_large(1) [of x] sqlite3LogEst_large(1) [of y]
      logest_table_mono [of "x div 2 ^ (floorlog 2 x - 4) - 8" "y div 2 ^ (floorlog 2 y - 4) - 8"] by simp
next
  case not_same: False
  show ?thesis
  proof (cases "y < 8")
    case True
    with assms have "y \<in> {0, 1, 2, 3, 4, 5, 6, 7}" "x \<in> {0, 1, 2, 3, 4, 5, 6, 7}" by auto
    with assms(1) show ?thesis by (auto simp: sqlite3LogEst_small)
  next
    case False
    show ?thesis
    proof (cases "x = 0")
      case True
      with assms False sqlite3LogEst_bounds [of y] show ?thesis by (simp add: sqlite3LogEst_small)
    next
      case pos: False
      have "floorlog 2 x \<le> floorlog 2 y" using assms(1) by (rule floorlog_mono)
      moreover have "4 \<le> floorlog 2 y" using False floorlog_geI [of 2 4 y] by simp
      moreover have "x < 8 \<Longrightarrow> floorlog 2 x \<le> 3" using floorlog_leI [of x 2 3] by simp
      ultimately have "floorlog 2 x < floorlog 2 y" using not_same by linarith
      moreover have "1 \<le> floorlog 2 x" using pos floorlog_geI [of 2 1 x] by simp
      ultimately show ?thesis
        using assms pos False sqlite3LogEst_bounds [of x] sqlite3LogEst_bounds [of y] by simp
    qed
  qed
qed

text \<open>
  C6. \<open>sqlite3LogEst\<close> is monotone, stays within nine of ten times the position of the top
  bit, and the GCC branch computes what the portable loops compute.
\<close>

theorem sqlite3LogEst_correct:
  assumes "x \<le> y" and "y < 2 ^ 64"
  shows "sqlite3LogEst x \<le> sqlite3LogEst y
     \<and> sqlite3LogEst_portable y = sqlite3LogEst y
     \<and> (2 ^ k \<le> y \<and> y < 2 ^ Suc k \<longrightarrow> 10 * int k \<le> sqlite3LogEst y \<and> sqlite3LogEst y \<le> 10 * int k + 9)"
proof -
  have "floorlog 2 y - 1 = k" if "2 ^ k \<le> y" "y < 2 ^ Suc k"
    using floorlog_geI [of 2 "Suc k" y] floorlog_leI [of y 2 "Suc k"] that by simp
  moreover have "1 \<le> y" if "2 ^ k \<le> y" using that by (metis le_trans one_le_numeral one_le_power)
  ultimately show ?thesis
    using sqlite3LogEst_mono [OF assms] sqlite3LogEst_portable_eq [OF assms(2)]
      sqlite3LogEst_bounds [of y] assms(2) by metis
qed

theorem sqlite3LogEst_correct_witness:
  "sqlite3LogEst 1000 \<le> sqlite3LogEst 5000 \<and> 10 * 12 \<le> sqlite3LogEst 5000 \<and> sqlite3LogEst 5000 \<le> 129"
proof -
  have h: "(1000 :: nat) \<le> 5000" "(5000 :: nat) < 2 ^ 64" by simp_all
  from sqlite3LogEst_correct [OF h, of 12] show ?thesis by simp
qed

end
