(* ===== verification/Ctype.thy ===== *)
theory Ctype
  imports Prelude
begin

text \<open>
  The two character tables of \<open>global.c\<close> that every text routine consults: the ASCII case
  folding \<open>sqlite3UpperToLower\<close> (its first 256 entries) and the class bits
  \<open>sqlite3CtypeMap\<close>, with the classification macros of \<open>sqliteInt.h\<close>. A zero-terminated C
  string is the list of its bytes; reading its terminator is \<open>chd [] = 0\<close>.
\<close>

unbundle bit_operations_syntax

definition sqlite3UpperToLower :: "u8 list" where
  "sqlite3UpperToLower = [
    0, 1, 2, 3, 4, 5, 6, 7, 8, 9, 10, 11, 12, 13, 14, 15,
    16, 17, 18, 19, 20, 21, 22, 23, 24, 25, 26, 27, 28, 29, 30, 31,
    32, 33, 34, 35, 36, 37, 38, 39, 40, 41, 42, 43, 44, 45, 46, 47,
    48, 49, 50, 51, 52, 53, 54, 55, 56, 57, 58, 59, 60, 61, 62, 63,
    64, 97, 98, 99, 100, 101, 102, 103, 104, 105, 106, 107, 108, 109, 110, 111,
    112, 113, 114, 115, 116, 117, 118, 119, 120, 121, 122, 91, 92, 93, 94, 95,
    96, 97, 98, 99, 100, 101, 102, 103, 104, 105, 106, 107, 108, 109, 110, 111,
    112, 113, 114, 115, 116, 117, 118, 119, 120, 121, 122, 123, 124, 125, 126, 127,
    128, 129, 130, 131, 132, 133, 134, 135, 136, 137, 138, 139, 140, 141, 142, 143,
    144, 145, 146, 147, 148, 149, 150, 151, 152, 153, 154, 155, 156, 157, 158, 159,
    160, 161, 162, 163, 164, 165, 166, 167, 168, 169, 170, 171, 172, 173, 174, 175,
    176, 177, 178, 179, 180, 181, 182, 183, 184, 185, 186, 187, 188, 189, 190, 191,
    192, 193, 194, 195, 196, 197, 198, 199, 200, 201, 202, 203, 204, 205, 206, 207,
    208, 209, 210, 211, 212, 213, 214, 215, 216, 217, 218, 219, 220, 221, 222, 223,
    224, 225, 226, 227, 228, 229, 230, 231, 232, 233, 234, 235, 236, 237, 238, 239,
    240, 241, 242, 243, 244, 245, 246, 247, 248, 249, 250, 251, 252, 253, 254, 255]"

definition sqlite3CtypeMap :: "u8 list" where
  "sqlite3CtypeMap = [
    0x00, 0x00, 0x00, 0x00, 0x00, 0x00, 0x00, 0x00, 0x00, 0x01, 0x01, 0x01, 0x01, 0x01, 0x00, 0x00,
    0x00, 0x00, 0x00, 0x00, 0x00, 0x00, 0x00, 0x00, 0x00, 0x00, 0x00, 0x00, 0x00, 0x00, 0x00, 0x00,
    0x01, 0x00, 0x80, 0x00, 0x40, 0x00, 0x00, 0x80, 0x00, 0x00, 0x00, 0x00, 0x00, 0x00, 0x00, 0x00,
    0x0c, 0x0c, 0x0c, 0x0c, 0x0c, 0x0c, 0x0c, 0x0c, 0x0c, 0x0c, 0x00, 0x00, 0x00, 0x00, 0x00, 0x00,
    0x00, 0x0a, 0x0a, 0x0a, 0x0a, 0x0a, 0x0a, 0x02, 0x02, 0x02, 0x02, 0x02, 0x02, 0x02, 0x02, 0x02,
    0x02, 0x02, 0x02, 0x02, 0x02, 0x02, 0x02, 0x02, 0x02, 0x02, 0x02, 0x80, 0x00, 0x00, 0x00, 0x40,
    0x80, 0x2a, 0x2a, 0x2a, 0x2a, 0x2a, 0x2a, 0x22, 0x22, 0x22, 0x22, 0x22, 0x22, 0x22, 0x22, 0x22,
    0x22, 0x22, 0x22, 0x22, 0x22, 0x22, 0x22, 0x22, 0x22, 0x22, 0x22, 0x00, 0x00, 0x00, 0x00, 0x00,
    0x40, 0x40, 0x40, 0x40, 0x40, 0x40, 0x40, 0x40, 0x40, 0x40, 0x40, 0x40, 0x40, 0x40, 0x40, 0x40,
    0x40, 0x40, 0x40, 0x40, 0x40, 0x40, 0x40, 0x40, 0x40, 0x40, 0x40, 0x40, 0x40, 0x40, 0x40, 0x40,
    0x40, 0x40, 0x40, 0x40, 0x40, 0x40, 0x40, 0x40, 0x40, 0x40, 0x40, 0x40, 0x40, 0x40, 0x40, 0x40,
    0x40, 0x40, 0x40, 0x40, 0x40, 0x40, 0x40, 0x40, 0x40, 0x40, 0x40, 0x40, 0x40, 0x40, 0x40, 0x40,
    0x40, 0x40, 0x40, 0x40, 0x40, 0x40, 0x40, 0x40, 0x40, 0x40, 0x40, 0x40, 0x40, 0x40, 0x40, 0x40,
    0x40, 0x40, 0x40, 0x40, 0x40, 0x40, 0x40, 0x40, 0x40, 0x40, 0x40, 0x40, 0x40, 0x40, 0x40, 0x40,
    0x40, 0x40, 0x40, 0x40, 0x40, 0x40, 0x40, 0x40, 0x40, 0x40, 0x40, 0x40, 0x40, 0x40, 0x40, 0x40,
    0x40, 0x40, 0x40, 0x40, 0x40, 0x40, 0x40, 0x40, 0x40, 0x40, 0x40, 0x40, 0x40, 0x40, 0x40, 0x40]"

definition UpperToLower :: "u8 \<Rightarrow> u8" where
  "UpperToLower c = sqlite3UpperToLower ! unat c"

definition sqlite3Toupper :: "u8 \<Rightarrow> u8" where
  "sqlite3Toupper x = x AND NOT ((sqlite3CtypeMap ! unat x) AND 0x20)"

definition sqlite3Isspace :: "u8 \<Rightarrow> bool" where
  "sqlite3Isspace x \<longleftrightarrow> (sqlite3CtypeMap ! unat x) AND 0x01 \<noteq> 0"

definition sqlite3Isalnum :: "u8 \<Rightarrow> bool" where
  "sqlite3Isalnum x \<longleftrightarrow> (sqlite3CtypeMap ! unat x) AND 0x06 \<noteq> 0"

definition sqlite3Isalpha :: "u8 \<Rightarrow> bool" where
  "sqlite3Isalpha x \<longleftrightarrow> (sqlite3CtypeMap ! unat x) AND 0x02 \<noteq> 0"

definition sqlite3Isdigit :: "u8 \<Rightarrow> bool" where
  "sqlite3Isdigit x \<longleftrightarrow> (sqlite3CtypeMap ! unat x) AND 0x04 \<noteq> 0"

definition sqlite3Isxdigit :: "u8 \<Rightarrow> bool" where
  "sqlite3Isxdigit x \<longleftrightarrow> (sqlite3CtypeMap ! unat x) AND 0x08 \<noteq> 0"

definition sqlite3Tolower :: "u8 \<Rightarrow> u8" where
  "sqlite3Tolower x = sqlite3UpperToLower ! unat x"

definition sqlite3Isquote :: "u8 \<Rightarrow> bool" where
  "sqlite3Isquote x \<longleftrightarrow> (sqlite3CtypeMap ! unat x) AND 0x80 \<noteq> 0"

definition IdChar :: "u8 \<Rightarrow> bool" where
  "IdChar x \<longleftrightarrow> (sqlite3CtypeMap ! unat x) AND 0x46 \<noteq> 0"

definition chd :: "u8 list \<Rightarrow> u8" where
  "chd z = (case z of [] \<Rightarrow> 0 | c # _ \<Rightarrow> c)"

lemma chd_simps [simp]: "chd [] = 0" "chd (c # z) = c"
  by (simp_all add: chd_def)

subsection \<open>What the tables say\<close>

lemma all_256: "map word_of_nat [0..<256] = [
    0, 1, 2, 3, 4, 5, 6, 7, 8, 9, 10, 11, 12, 13, 14, 15, 16, 17, 18, 19, 20, 21, 22, 23,
    24, 25, 26, 27, 28, 29, 30, 31, 32, 33, 34, 35, 36, 37, 38, 39, 40, 41, 42, 43, 44, 45,
    46, 47, 48, 49, 50, 51, 52, 53, 54, 55, 56, 57, 58, 59, 60, 61, 62, 63, 64, 65, 66, 67,
    68, 69, 70, 71, 72, 73, 74, 75, 76, 77, 78, 79, 80, 81, 82, 83, 84, 85, 86, 87, 88, 89,
    90, 91, 92, 93, 94, 95, 96, 97, 98, 99, 100, 101, 102, 103, 104, 105, 106, 107, 108,
    109, 110, 111, 112, 113, 114, 115, 116, 117, 118, 119, 120, 121, 122, 123, 124, 125,
    126, 127, 128, 129, 130, 131, 132, 133, 134, 135, 136, 137, 138, 139, 140, 141, 142,
    143, 144, 145, 146, 147, 148, 149, 150, 151, 152, 153, 154, 155, 156, 157, 158, 159,
    160, 161, 162, 163, 164, 165, 166, 167, 168, 169, 170, 171, 172, 173, 174, 175, 176,
    177, 178, 179, 180, 181, 182, 183, 184, 185, 186, 187, 188, 189, 190, 191, 192, 193,
    194, 195, 196, 197, 198, 199, 200, 201, 202, 203, 204, 205, 206, 207, 208, 209, 210,
    211, 212, 213, 214, 215, 216, 217, 218, 219, 220, 221, 222, 223, 224, 225, 226, 227,
    228, 229, 230, 231, 232, 233, 234, 235, 236, 237, 238, 239, 240, 241, 242, 243, 244,
    245, 246, 247, 248, 249, 250, 251, 252, 253, 254, 255 :: u8]"
  by (simp add: upt_rec)

lemma numeral_le_1_u8: "(numeral k :: u8) \<le> 1 \<longleftrightarrow> unat (numeral k :: u8) \<le> 1"
  by (simp add: word_le_nat_alt)

text \<open>A table that lists the values of a function on the 256 bytes is that function.\<close>

lemma table_lookup:
  assumes "map f (map word_of_nat [0..<256]) = t"
  shows "t ! unat (x :: u8) = f x"
  using unat_u8 [of x] unfolding assms [symmetric] by simp

lemma bytes_eqI:
  assumes "map f (map word_of_nat [0..<256]) = map g (map word_of_nat [0..<256])"
  shows "f (x :: u8) = g x"
  using table_lookup [OF assms, of x] unat_u8 [of x] by simp

definition ctype_class :: "u8 \<Rightarrow> u8" where
  "ctype_class x =
     (if x = 0x20 \<or> 9 \<le> x \<and> x \<le> 13 then 0x01
      else if 0x30 \<le> x \<and> x \<le> 0x39 then 0x0c
      else if 0x41 \<le> x \<and> x \<le> 0x46 then 0x0a
      else if 0x47 \<le> x \<and> x \<le> 0x5a then 0x02
      else if 0x61 \<le> x \<and> x \<le> 0x66 then 0x2a
      else if 0x67 \<le> x \<and> x \<le> 0x7a then 0x22
      else if x = 0x24 \<or> x = 0x5f \<or> 0x80 \<le> x then 0x40
      else if x = 0x22 \<or> x = 0x27 \<or> x = 0x5b \<or> x = 0x60 then 0x80
      else 0)"

lemma sqlite3UpperToLower_table:
  "map (\<lambda>x. if 65 \<le> x \<and> x \<le> 90 then x + 32 else x) (map word_of_nat [0..<256]) = sqlite3UpperToLower"
  unfolding all_256 sqlite3UpperToLower_def by (simp add: numeral_le_1_u8)

lemma sqlite3CtypeMap_table: "map ctype_class (map word_of_nat [0..<256]) = sqlite3CtypeMap"
  unfolding all_256 sqlite3CtypeMap_def by (simp add: ctype_class_def numeral_le_1_u8)

lemma UpperToLower_eq: "UpperToLower x = (if 65 \<le> x \<and> x \<le> 90 then x + 32 else x)"
  unfolding UpperToLower_def by (rule table_lookup [OF sqlite3UpperToLower_table])

lemma sqlite3CtypeMap_eq: "sqlite3CtypeMap ! unat x = ctype_class x"
  by (rule table_lookup [OF sqlite3CtypeMap_table])

lemma sqlite3Isdigit_iff: "sqlite3Isdigit x \<longleftrightarrow> 48 \<le> x \<and> x \<le> 57"
  unfolding sqlite3Isdigit_def sqlite3CtypeMap_eq by (auto simp: ctype_class_def word_le_nat_alt)

lemma sqlite3Isspace_iff: "sqlite3Isspace x \<longleftrightarrow> x = 32 \<or> 9 \<le> x \<and> x \<le> 13"
  unfolding sqlite3Isspace_def sqlite3CtypeMap_eq by (auto simp: ctype_class_def word_le_nat_alt)

lemma sqlite3Isxdigit_iff:
  "sqlite3Isxdigit x \<longleftrightarrow> 48 \<le> x \<and> x \<le> 57 \<or> 65 \<le> x \<and> x \<le> 70 \<or> 97 \<le> x \<and> x \<le> 102"
  unfolding sqlite3Isxdigit_def sqlite3CtypeMap_eq by (auto simp: ctype_class_def word_le_nat_alt)

lemma sqlite3Isquote_iff: "sqlite3Isquote x \<longleftrightarrow> x = 34 \<or> x = 39 \<or> x = 91 \<or> x = 96"
  unfolding sqlite3Isquote_def sqlite3CtypeMap_eq by (auto simp: ctype_class_def word_le_nat_alt)

lemma IdChar_class: "IdChar x \<longleftrightarrow> ctype_class x AND 0x46 \<noteq> 0"
  by (simp add: IdChar_def sqlite3CtypeMap_eq)

lemma UpperToLower_0 [simp]: "UpperToLower x = 0 \<longleftrightarrow> x = 0"
proof (cases "65 \<le> x \<and> x \<le> 90")
  case True
  then have "unat (x + 32) = unat x + 32" "unat x \<ge> 65"
    by (simp_all add: unat_word_ariths word_le_nat_alt)
  then have "x + 32 \<noteq> 0" "x \<noteq> 0" by (metis add_is_0 unat_0 zero_neq_numeral, auto)
  with True show ?thesis by (simp add: UpperToLower_eq)
qed (auto simp: UpperToLower_eq)

end
