(* ===== verification/Util_Text.thy ===== *)
theory Util_Text
  imports Ctype Util_Arith
begin

text \<open>
  Text conversions of \<open>util.c\<close>: case-insensitive comparison and hashing, dequoting of SQL
  identifiers and strings, and the conversions between integers and decimal or hexadecimal
  text. A \<open>char\<close> is a byte; a zero-terminated string is the list of its bytes (no zero
  byte inside), a counted buffer is a list of exactly that length. A C return code is an
  \<open>int\<close>, an output parameter the second component of the result.
\<close>

unbundle bit_operations_syntax

subsection \<open>Case-insensitive strings\<close>

function sqlite3StrICmp :: "u8 list \<Rightarrow> u8 list \<Rightarrow> int" where
  "sqlite3StrICmp a b =
     (let c = chd a; x = chd b in
      if c = x then
        if c = 0 then 0 else sqlite3StrICmp (tl a) (tl b)
      else
        let d = uint (UpperToLower c) - uint (UpperToLower x) in
        if d \<noteq> 0 then d else sqlite3StrICmp (tl a) (tl b))"
  by pat_completeness auto
termination
proof (relation "measure (\<lambda>(a, b). length a + length b)")
  fix a b :: "u8 list" and x xa
  assume "x = chd a" "xa = chd b" "x = xa" "x \<noteq> 0"
  then show "((tl a, tl b), a, b) \<in> measure (\<lambda>(a, b). length a + length b)"
    by (cases a; cases b) auto
next
  fix a b :: "u8 list" and x xa xb
  assume "x = chd a" "xa = chd b" "x \<noteq> xa"
  then show "((tl a, tl b), a, b) \<in> measure (\<lambda>(a, b). length a + length b)"
    by (cases a; cases b) auto
qed simp

declare sqlite3StrICmp.simps [simp del]

definition sqlite3_stricmp :: "u8 list option \<Rightarrow> u8 list option \<Rightarrow> int" where
  "sqlite3_stricmp zLeft zRight =
     (case zLeft of
        None \<Rightarrow> (if zRight \<noteq> None then -1 else 0)
      | Some a \<Rightarrow> (case zRight of None \<Rightarrow> 1 | Some b \<Rightarrow> sqlite3StrICmp a b))"

text \<open>The loop of \<open>sqlite3_strnicmp\<close> returns the final \<open>N\<close> and the two pointers.\<close>

function strnicmp_loop :: "int \<Rightarrow> u8 list \<Rightarrow> u8 list \<Rightarrow> int \<times> u8 list \<times> u8 list" where
  "strnicmp_loop N a b =
     (if N > 0 \<and> chd a \<noteq> 0 \<and> UpperToLower (chd a) = UpperToLower (chd b)
      then strnicmp_loop (N - 1) (tl a) (tl b) else (N - 1, a, b))"
  by pat_completeness auto
termination by (relation "measure (\<lambda>(N, a, b). nat N)") auto

declare strnicmp_loop.simps [simp del]

definition sqlite3_strnicmp :: "u8 list option \<Rightarrow> u8 list option \<Rightarrow> int \<Rightarrow> int" where
  "sqlite3_strnicmp zLeft zRight N =
     (case zLeft of
        None \<Rightarrow> (if zRight \<noteq> None then -1 else 0)
      | Some a \<Rightarrow> (case zRight of
          None \<Rightarrow> 1
        | Some b \<Rightarrow>
            (case strnicmp_loop N a b of (N, a, b) \<Rightarrow>
               if N < 0 then 0 else uint (UpperToLower (chd a)) - uint (UpperToLower (chd b)))))"

fun strIHash_loop :: "u8 \<Rightarrow> u8 list \<Rightarrow> u8" where
  "strIHash_loop h [] = h"
| "strIHash_loop h (c # z) = (if c = 0 then h else strIHash_loop (h + UpperToLower c) z)"

definition sqlite3StrIHash :: "u8 list option \<Rightarrow> u8" where
  "sqlite3StrIHash z = (case z of None \<Rightarrow> 0 | Some z \<Rightarrow> strIHash_loop 0 z)"

subsection \<open>Dequoting\<close>

text \<open>
  The loop reads the characters after the opening quote and returns what it has stored at
  the start of the string when it meets the closing quote; reaching the terminator first
  violates its assertion and is \<open>None\<close>.
\<close>

fun dequote_loop :: "u8 \<Rightarrow> u8 list \<Rightarrow> u8 list option" where
  "dequote_loop quote [] = None"
| "dequote_loop quote (c # z) =
     (if c = quote then
        if chd z = quote then do { out \<leftarrow> dequote_loop quote (tl z); Some (quote # out) }
        else Some []
      else do { out \<leftarrow> dequote_loop quote z; Some (c # out) })"

definition sqlite3Dequote :: "u8 list \<Rightarrow> u8 list option" where
  "sqlite3Dequote z =
     (let quote = chd z in
      if \<not> sqlite3Isquote quote then Some z
      else let quote = (if quote = 0x5b then 0x5d else quote) in dequote_loop quote (tl z))"

subsection \<open>Integers to text\<close>

definition sqlite3DigitPairs :: "u8 list" where
  "sqlite3DigitPairs = [
    48, 48, 48, 49, 48, 50, 48, 51, 48, 52, 48, 53, 48, 54, 48, 55, 48, 56, 48, 57, 49, 48,
    49, 49, 49, 50, 49, 51, 49, 52, 49, 53, 49, 54, 49, 55, 49, 56, 49, 57, 50, 48, 50, 49,
    50, 50, 50, 51, 50, 52, 50, 53, 50, 54, 50, 55, 50, 56, 50, 57, 51, 48, 51, 49, 51, 50,
    51, 51, 51, 52, 51, 53, 51, 54, 51, 55, 51, 56, 51, 57, 52, 48, 52, 49, 52, 50, 52, 51,
    52, 52, 52, 53, 52, 54, 52, 55, 52, 56, 52, 57, 53, 48, 53, 49, 53, 50, 53, 51, 53, 52,
    53, 53, 53, 54, 53, 55, 53, 56, 53, 57, 54, 48, 54, 49, 54, 50, 54, 51, 54, 52, 54, 53,
    54, 54, 54, 55, 54, 56, 54, 57, 55, 48, 55, 49, 55, 50, 55, 51, 55, 52, 55, 53, 55, 54,
    55, 55, 55, 56, 55, 57, 56, 48, 56, 49, 56, 50, 56, 51, 56, 52, 56, 53, 56, 54, 56, 55,
    56, 56, 56, 57, 57, 48, 57, 49, 57, 50, 57, 51, 57, 52, 57, 53, 57, 54, 57, 55, 57, 56,
    57, 57]"

text \<open>
  The digits are stored from the end of a local buffer towards its start; \<open>a\<close> is the part
  of the buffer from the current index to the terminator.
\<close>

fun int64ToText_loop :: "nat \<Rightarrow> u8 list \<Rightarrow> u8 list" where
  "int64ToText_loop x a =
     (if x \<ge> 10 then
        let kk = (x mod 100) * 2
        in int64ToText_loop (x div 100) (sqlite3DigitPairs ! kk # sqlite3DigitPairs ! (kk + 1) # a)
      else if x \<noteq> 0 then (word_of_nat x + 0x30) # a else a)"

declare int64ToText_loop.simps [simp del]

definition sqlite3Int64ToText :: "int \<Rightarrow> u8 list" where
  "sqlite3Int64ToText v =
     (if v = 0 then [0x30]
      else
        let x = (if v > 0 then nat v
                 else if v = SMALLEST_INT64 then 2 ^ 63 else nat (- v));
            a = int64ToText_loop x []
        in if v < 0 then 0x2d # a else a)"

subsection \<open>Text to integers\<close>

datatype encoding = SQLITE_UTF8 | SQLITE_UTF16LE | SQLITE_UTF16BE

fun incr_of :: "encoding \<Rightarrow> nat" where
  "incr_of SQLITE_UTF8 = 1"
| "incr_of SQLITE_UTF16LE = 2"
| "incr_of SQLITE_UTF16BE = 2"

lemma incr_of_pos [simp]: "0 < incr_of enc"
  by (cases enc) auto

definition pow63 :: "int list" where
  "pow63 = [57, 50, 50, 51, 51, 55, 50, 48, 51, 54, 56, 53, 52, 55, 55, 53, 56, 48]"

text \<open>\<open>compare2pow63\<close> reads the nineteen characters \<open>zNum[i*incr]\<close>, here \<open>get i\<close>.\<close>

fun compare2pow63_loop :: "(nat \<Rightarrow> u8) \<Rightarrow> nat \<Rightarrow> int list \<Rightarrow> int" where
  "compare2pow63_loop get i [] = 0"
| "compare2pow63_loop get i (p # ps) =
     (let c = (sint (get i) - p) * 10 in if c = 0 then compare2pow63_loop get (Suc i) ps else c)"

definition compare2pow63 :: "(nat \<Rightarrow> u8) \<Rightarrow> int" where
  "compare2pow63 get =
     (let c = compare2pow63_loop get 0 pow63 in if c = 0 then sint (get 18) - 56 else c)"

text \<open>
  \<open>sqlite3Atoi64\<close>. The buffer is \<open>z\<close>; a pointer into it is an index. The five loops: the
  scan for a UTF-16 high byte, leading spaces, leading zeros, the digits (the new index
  relative to \<open>zNum\<close>, and the accumulated \<open>u64\<close>), trailing spaces.
\<close>

function atoi64_high :: "u8 list \<Rightarrow> nat \<Rightarrow> nat \<Rightarrow> nat" where
  "atoi64_high z len i = (if i < len \<and> z ! i = 0 then atoi64_high z len (i + 2) else i)"
  by pat_completeness auto
termination by (relation "measure (\<lambda>(z, len, i). len - i)") auto

function atoi64_skip :: "(u8 \<Rightarrow> bool) \<Rightarrow> encoding \<Rightarrow> u8 list \<Rightarrow> nat \<Rightarrow> nat \<Rightarrow> nat" where
  "atoi64_skip test enc z zEnd zNum =
     (if zNum < zEnd \<and> test (z ! zNum) then atoi64_skip test enc z zEnd (zNum + incr_of enc) else zNum)"
  by pat_completeness auto
termination by (relation "measure (\<lambda>(test, enc, z, zEnd, zNum). zEnd - zNum)") (auto intro: diff_less_mono2)

function atoi64_digits :: "encoding \<Rightarrow> u8 list \<Rightarrow> nat \<Rightarrow> nat \<Rightarrow> nat \<Rightarrow> u64 \<Rightarrow> nat \<times> u64" where
  "atoi64_digits enc z zEnd zNum i u =
     (if zNum + i < zEnd \<and> 48 \<le> z ! (zNum + i) \<and> z ! (zNum + i) \<le> 57
      then atoi64_digits enc z zEnd zNum (i + incr_of enc) (u * 10 + ucast (z ! (zNum + i) - 48))
      else (i, u))"
  by pat_completeness auto
termination by (relation "measure (\<lambda>(enc, z, zEnd, zNum, i, u). zEnd - (zNum + i))") (auto intro: diff_less_mono2)

function atoi64_trailing :: "encoding \<Rightarrow> u8 list \<Rightarrow> nat \<Rightarrow> nat \<Rightarrow> int" where
  "atoi64_trailing enc z zEnd jj =
     (if \<not> sqlite3Isspace (z ! jj) then 1
      else if jj + incr_of enc < zEnd then atoi64_trailing enc z zEnd (jj + incr_of enc) else 0)"
  by pat_completeness auto
termination by (relation "measure (\<lambda>(enc, z, zEnd, jj). zEnd - jj)") (auto intro: diff_less_mono2)

declare atoi64_high.simps [simp del] atoi64_skip.simps [simp del]
  atoi64_digits.simps [simp del] atoi64_trailing.simps [simp del]

text \<open>\<open>length & ~1\<close>, the end pointer \<open>&zNum[i^1]\<close> and the start \<open>zNum + (enc&1)\<close>.\<close>

definition atoi64_setup :: "encoding \<Rightarrow> u8 list \<Rightarrow> nat \<times> nat \<times> bool" where
  "atoi64_setup enc z =
     (case enc of
        SQLITE_UTF8 \<Rightarrow> (0, length z, False)
      | SQLITE_UTF16LE \<Rightarrow>
          (let len = length z - length z mod 2; i = atoi64_high z len 1
           in (0, (if even i then i + 1 else i - 1), i < len))
      | SQLITE_UTF16BE \<Rightarrow>
          (let len = length z - length z mod 2; i = atoi64_high z len 0
           in (1, (if even i then i + 1 else i - 1), i < len)))"

definition atoi64_number :: "u8 list \<Rightarrow> encoding \<Rightarrow> nat \<Rightarrow> bool \<Rightarrow> bool \<Rightarrow> nat \<Rightarrow> int \<times> int" where
  "atoi64_number z enc zEnd nonNum neg zNum =
     (let incr = incr_of enc;
          zStart = zNum;
          zNum = atoi64_skip (\<lambda>c. c = 0x30) enc z zEnd zNum;
          (i, u) = atoi64_digits enc z zEnd zNum 0 0;
          pNum = (if unat u > nat LARGEST_INT64 then (if neg then SMALLEST_INT64 else LARGEST_INT64)
                  else if neg then - int (unat u) else int (unat u));
          rc = (if i = 0 \<and> zStart = zNum then -1
                else if nonNum then 1
                else if zNum + i < zEnd then atoi64_trailing enc z zEnd (zNum + i)
                else 0)
      in if i < 19 * incr then (rc, pNum)
         else
           let j = (if i > 19 * incr then 1 else compare2pow63 (\<lambda>k. z ! (zNum + k * incr)))
           in if j < 0 then (rc, pNum)
              else
                let pNum = (if neg then SMALLEST_INT64 else LARGEST_INT64)
                in if j > 0 then (2, pNum) else (if neg then rc else 3, pNum))"

definition sqlite3Atoi64 :: "u8 list \<Rightarrow> encoding \<Rightarrow> int \<times> int" where
  "sqlite3Atoi64 z enc =
     (case atoi64_setup enc z of (zNum, zEnd, nonNum) \<Rightarrow>
        let zNum = atoi64_skip sqlite3Isspace enc z zEnd zNum in
        if zNum < zEnd \<and> z ! zNum = 0x2d
          then atoi64_number z enc zEnd nonNum True (zNum + incr_of enc)
        else if zNum < zEnd \<and> z ! zNum = 0x2b
          then atoi64_number z enc zEnd nonNum False (zNum + incr_of enc)
        else atoi64_number z enc zEnd nonNum False zNum)"

definition sqlite3HexToInt :: "u8 \<Rightarrow> u8" where
  "sqlite3HexToInt h =
     (let h = uint h; h = h + 9 * (1 AND (drop_bit 6 h)) in word_of_int (h AND 0xf))"

function hexToBlob_loop :: "u8 list \<Rightarrow> nat \<Rightarrow> nat \<Rightarrow> u8 list" where
  "hexToBlob_loop z n i =
     (if i < n then (push_bit 4 (sqlite3HexToInt (z ! i)) OR sqlite3HexToInt (z ! (i + 1))) # hexToBlob_loop z n (i + 2)
      else [])"
  by pat_completeness auto
termination by (relation "measure (\<lambda>(z, n, i). n - i)") auto

declare hexToBlob_loop.simps [simp del]

text \<open>
  \<open>sqlite3HexToBlob(db, z, n)\<close> is called with the text after \<open>x'\<close> and \<open>n\<close> counting the
  closing quote; \<open>alloc\<close> says whether the allocation succeeds. The result includes the
  terminator the code adds.
\<close>

definition sqlite3HexToBlob :: "bool \<Rightarrow> u8 list \<Rightarrow> nat \<Rightarrow> u8 list option" where
  "sqlite3HexToBlob alloc z n = (if alloc then Some (hexToBlob_loop z (n - 1) 0 @ [0]) else None)"

subsection \<open>Comparison and hashing ignore case\<close>

abbreviation fold_case :: "u8 list \<Rightarrow> int list" where
  "fold_case z \<equiv> map (\<lambda>c. uint (UpperToLower c)) z"

lemma UpperToLower_pos: "c \<noteq> 0 \<Longrightarrow> 0 < uint (UpperToLower c)"
  using UpperToLower_0 [of c] uint_0_iff [of "UpperToLower c"] unsigned_greater_eq [of "UpperToLower c"]
  by (simp add: less_le del: UpperToLower_0)

lemma UpperToLower_zero: "uint (UpperToLower 0) = 0"
  using UpperToLower_0 [of 0] by (simp del: UpperToLower_0 add: UpperToLower_eq)

lemma sqlite3StrICmp_Nil_Nil: "sqlite3StrICmp [] [] = 0"
  by (simp add: sqlite3StrICmp.simps)

lemma sqlite3StrICmp_Nil_Cons: "x \<noteq> 0 \<Longrightarrow> sqlite3StrICmp [] (x # b) < 0"
  using UpperToLower_pos [of x]
  by (subst sqlite3StrICmp.simps) (simp add: Let_def UpperToLower_zero)

lemma sqlite3StrICmp_Cons_Nil: "c \<noteq> 0 \<Longrightarrow> sqlite3StrICmp (c # a) [] > 0"
  using UpperToLower_pos [of c]
  by (subst sqlite3StrICmp.simps) (simp add: Let_def UpperToLower_zero)

lemma sqlite3StrICmp_Cons_Cons:
  "c \<noteq> 0 \<Longrightarrow> sqlite3StrICmp (c # a) (x # b) =
     (if UpperToLower c = UpperToLower x then sqlite3StrICmp a b
      else uint (UpperToLower c) - uint (UpperToLower x))"
proof -
  assume c: "c \<noteq> 0"
  have "uint (UpperToLower c) = uint (UpperToLower x) \<longleftrightarrow> UpperToLower c = UpperToLower x"
    by (simp only: word_uint_eq_iff)
  with c show ?thesis by (subst sqlite3StrICmp.simps) (auto simp: Let_def)
qed

lemma sqlite3StrICmp_order:
  "0 \<notin> set a \<Longrightarrow> 0 \<notin> set b \<Longrightarrow>
     (sqlite3StrICmp a b = 0 \<longleftrightarrow> fold_case a = fold_case b)
   \<and> (sqlite3StrICmp a b < 0 \<longleftrightarrow> ord_class.lexordp (fold_case a) (fold_case b))"
proof (induction a arbitrary: b)
  case Nil
  then show ?case
    using sqlite3StrICmp_Nil_Cons [of "hd b" "tl b"]
    by (cases b) (simp_all add: sqlite3StrICmp_Nil_Nil)
next
  case (Cons c a)
  show ?case
  proof (cases b)
    case Nil
    with Cons.prems sqlite3StrICmp_Cons_Nil [of c a] show ?thesis by simp
  next
    case (Cons x b')
    with Cons.prems Cons.IH [of b'] show ?thesis
      by (auto simp: sqlite3StrICmp_Cons_Cons word_uint_eq_iff)
  qed
qed

lemma strIHash_loop_fold:
  "0 \<notin> set z \<Longrightarrow> strIHash_loop h z = foldl (\<lambda>h n. h + word_of_int n) h (fold_case z)"
  by (induction z arbitrary: h) auto

text \<open>
  C11. On zero-terminated strings \<open>sqlite3_stricmp\<close> returns 0 exactly when the strings are
  equal after mapping upper to lower case, is negative exactly when the first folded string is
  lexicographically smaller, and strings that compare equal have the same hash, as the hash
  table needs.
\<close>

theorem sqlite3StrICmp_correct:
  assumes "0 \<notin> set a" and "0 \<notin> set b"
  shows "(sqlite3_stricmp (Some a) (Some b) = 0 \<longleftrightarrow> map UpperToLower a = map UpperToLower b)
     \<and> (sqlite3_stricmp (Some a) (Some b) < 0 \<longleftrightarrow> ord_class.lexordp (fold_case a) (fold_case b))
     \<and> (sqlite3_stricmp (Some a) (Some b) = 0 \<longrightarrow> sqlite3StrIHash (Some a) = sqlite3StrIHash (Some b))"
proof -
  have "inj (uint :: u8 \<Rightarrow> int)" by (simp add: inj_on_def word_uint_eq_iff)
  then have eq: "fold_case a = fold_case b \<longleftrightarrow> map UpperToLower a = map UpperToLower b"
    using inj_map_eq_map [of uint "map UpperToLower a" "map UpperToLower b"] by (simp add: comp_def)
  moreover have "sqlite3StrIHash (Some z) = foldl (\<lambda>h n. h + word_of_int n) 0 (fold_case z)"
    if "0 \<notin> set z" for z
    using that by (simp add: sqlite3StrIHash_def strIHash_loop_fold)
  ultimately have hash: "map UpperToLower a = map UpperToLower b \<Longrightarrow> sqlite3StrIHash (Some a) = sqlite3StrIHash (Some b)"
    using assms eq by metis
  show ?thesis
    using sqlite3StrICmp_order [OF assms] hash by (simp only: sqlite3_stricmp_def option.case eq) blast
qed

theorem sqlite3StrICmp_correct_witness:
  "sqlite3_stricmp (Some [0x41, 0x62]) (Some [0x61, 0x42]) = 0"
proof -
  have h: "0 \<notin> set [0x41, 0x62 :: u8]" "0 \<notin> set [0x61, 0x42 :: u8]" by simp_all
  from sqlite3StrICmp_correct [OF h] show ?thesis by (simp add: UpperToLower_eq)
qed

subsection \<open>Dequoting undoes quoting\<close>

definition escape_quote :: "u8 \<Rightarrow> u8 list \<Rightarrow> u8 list" where
  "escape_quote q s = concat (map (\<lambda>c. if c = q then [q, q] else [c]) s)"

definition closing :: "u8 \<Rightarrow> u8" where
  "closing q = (if q = 0x5b then 0x5d else q)"

lemma dequote_loop_escape:
  "chd rest \<noteq> q \<Longrightarrow> dequote_loop q (escape_quote q s @ q # rest) = Some s"
  by (induction s) (simp_all add: escape_quote_def)

text \<open>
  C12. Dequoting undoes quoting: a string written between quotes, its closing quote doubled
  where it occurs, is restored by \<open>sqlite3Dequote\<close>, for each of the four quoting styles
  (the bracket style closes with \<open>]\<close>).
\<close>

theorem sqlite3Dequote_roundtrip:
  assumes "sqlite3Isquote q" and "chd rest \<noteq> closing q"
  shows "sqlite3Dequote (q # escape_quote (closing q) s @ closing q # rest) = Some s"
  using assms dequote_loop_escape [of rest "closing q" s]
  by (simp add: sqlite3Dequote_def closing_def Let_def)

theorem sqlite3Dequote_roundtrip_witness:
  "sqlite3Dequote [0x27, 0x61, 0x27, 0x27, 0x62, 0x27] = Some [0x61, 0x27, 0x62]"
proof -
  have h: "sqlite3Isquote 0x27" "chd [] \<noteq> closing 0x27"
    by (simp_all add: sqlite3Isquote_iff closing_def)
  from sqlite3Dequote_roundtrip [OF h, of "[0x61, 0x27, 0x62]"] show ?thesis
    by (simp add: escape_quote_def closing_def)
qed

subsection \<open>Decimal values\<close>

definition dec_value :: "u8 list \<Rightarrow> nat" where
  "dec_value ds = foldl (\<lambda>v d. v * 10 + (unat d - 48)) 0 ds"

definition is_dec :: "u8 \<Rightarrow> bool" where
  "is_dec c \<longleftrightarrow> 48 \<le> c \<and> c \<le> 57"

lemma foldl_dec_0:
  "foldl (\<lambda>v d. v * 10 + f d) a ds = a * 10 ^ length ds + foldl (\<lambda>v d. v * 10 + f d) 0 ds" for a :: nat
proof (induction ds arbitrary: a)
  case Nil
  then show ?case by simp
next
  case (Cons d ds)
  show ?case
    using Cons.IH [of "a * 10 + f d"] Cons.IH [of "f d"] by (simp add: algebra_simps)
qed

lemma foldl_dec: "foldl (\<lambda>v d. v * 10 + (unat d - 48)) a ds = a * 10 ^ length ds + dec_value ds"
  unfolding dec_value_def by (rule foldl_dec_0)

lemma dec_value_Cons: "dec_value (d # ds) = (unat d - 48) * 10 ^ length ds + dec_value ds"
  using foldl_dec [of "unat d - 48" ds] by (simp add: dec_value_def)

lemma dec_value_Nil [simp]: "dec_value [] = 0"
  by (simp add: dec_value_def)

lemma dec_value_append: "dec_value (xs @ ys) = dec_value xs * 10 ^ length ys + dec_value ys"
  using foldl_dec [of "dec_value xs" ys] by (simp add: dec_value_def)

lemma is_dec_unat: "is_dec c \<longleftrightarrow> 48 \<le> unat c \<and> unat c \<le> 57"
  by (simp add: is_dec_def word_le_nat_alt)

lemma dec_value_less: "list_all is_dec ds \<Longrightarrow> dec_value ds < 10 ^ length ds"
proof (induction ds)
  case Nil
  then show ?case by simp
next
  case (Cons d ds)
  then have "unat d \<le> 57" and IH: "dec_value ds < 10 ^ length ds" by (simp_all add: is_dec_unat)
  then have "unat d - 48 \<le> 9" by linarith
  then have "(unat d - 48) * 10 ^ length ds \<le> 9 * 10 ^ length ds" by simp
  with IH have "(unat d - 48) * 10 ^ length ds + dec_value ds < 10 * 10 ^ length ds" by linarith
  then show ?case by (simp add: dec_value_Cons)
qed

lemma dec_value_ge: "ds \<noteq> [] \<Longrightarrow> is_dec (hd ds) \<Longrightarrow> hd ds \<noteq> 48 \<Longrightarrow> 10 ^ (length ds - 1) \<le> dec_value ds"
proof (cases ds)
  case (Cons d ds')
  assume "is_dec (hd ds)" and "hd ds \<noteq> 48"
  with Cons have "1 \<le> unat d - 48" by (auto simp: is_dec_unat word_unat_eq_iff)
  then have "1 * 10 ^ length ds' \<le> (unat d - 48) * 10 ^ length ds'" by (intro mult_le_mono1)
  then have "10 ^ length ds' \<le> (unat d - 48) * 10 ^ length ds'" by simp
  then have "10 ^ length ds' \<le> (unat d - 48) * 10 ^ length ds' + dec_value ds'" by linarith
  with Cons show ?thesis by (simp add: dec_value_Cons)
qed simp

lemma dec_value_zeros: "list_all (\<lambda>c. c = 48) zs \<Longrightarrow> dec_value (zs @ ds) = dec_value ds"
  by (induction zs) (simp_all add: dec_value_Cons)

subsection \<open>The loops of \<open>sqlite3Atoi64\<close> on UTF-8\<close>

lemma atoi64_skip_utf8:
  "p \<le> length z \<Longrightarrow>
   atoi64_skip test SQLITE_UTF8 z (length z) p = p + length (takeWhile test (drop p z))"
proof (induction "length z - p" arbitrary: p)
  case 0
  then show ?case by (subst atoi64_skip.simps) simp
next
  case (Suc n)
  then have "p < length z" by simp
  then have d: "drop p z = z ! p # drop (Suc p) z" by (simp add: Cons_nth_drop_Suc)
  have "atoi64_skip test SQLITE_UTF8 z (length z) (Suc p) = Suc p + length (takeWhile test (drop (Suc p) z))"
    using Suc by (intro Suc.hyps(1)) auto
  with d \<open>p < length z\<close> show ?case by (subst atoi64_skip.simps) simp
qed

lemma atoi64_digits_utf8:
  "p + i \<le> length z \<Longrightarrow>
   atoi64_digits SQLITE_UTF8 z (length z) p i u
     = (i + length (takeWhile is_dec (drop (p + i) z)),
        foldl (\<lambda>u c. u * 10 + ucast (c - 48)) u (takeWhile is_dec (drop (p + i) z)))"
proof (induction "length z - (p + i)" arbitrary: i u)
  case 0
  then show ?case by (subst atoi64_digits.simps) simp
next
  case (Suc n)
  then have lt: "p + i < length z" by simp
  then have d: "drop (p + i) z = z ! (p + i) # drop (p + Suc i) z" by (simp add: Cons_nth_drop_Suc)
  have "atoi64_digits SQLITE_UTF8 z (length z) p (Suc i) u'
      = (Suc i + length (takeWhile is_dec (drop (p + Suc i) z)),
         foldl (\<lambda>u c. u * 10 + ucast (c - 48)) u' (takeWhile is_dec (drop (p + Suc i) z)))" for u'
    using Suc by (intro Suc.hyps(1)) auto
  with d lt show ?case by (subst atoi64_digits.simps) (simp add: is_dec_def)
qed

lemma atoi64_trailing_utf8:
  "jj < length z \<Longrightarrow>
   atoi64_trailing SQLITE_UTF8 z (length z) jj = (if list_all sqlite3Isspace (drop jj z) then 0 else 1)"
proof (induction "length z - jj" arbitrary: jj)
  case 0
  then show ?case by simp
next
  case (Suc n)
  have d: "drop jj z = z ! jj # drop (Suc jj) z" using Suc.prems by (simp add: Cons_nth_drop_Suc)
  show ?case
  proof (cases "Suc jj < length z")
    case True
    have "atoi64_trailing SQLITE_UTF8 z (length z) (Suc jj) = (if list_all sqlite3Isspace (drop (Suc jj) z) then 0 else 1)"
      using Suc True by (intro Suc.hyps(1)) auto
    with d True show ?thesis by (subst atoi64_trailing.simps) simp
  next
    case False
    then have "drop (Suc jj) z = []" using Suc.prems by simp
    with d False show ?thesis by (subst atoi64_trailing.simps) simp
  qed
qed

lemma ucast_of_unat: "(ucast (c :: u8) :: u64) = word_of_nat (unat c)"
  by (simp add: word_of_nat_eq_iff unsigned_of_nat)

lemma foldl_word_dec:
  "list_all is_dec ds \<Longrightarrow>
   foldl (\<lambda>u c. u * 10 + ucast (c - 48)) (word_of_nat a) ds
     = (word_of_nat (foldl (\<lambda>v d. v * 10 + (unat d - 48)) a ds) :: u64)"
proof (induction ds arbitrary: a)
  case Nil
  then show ?case by simp
next
  case (Cons d ds)
  then have "48 \<le> d" by (simp add: is_dec_def)
  then have "unat (d - 48) = unat d - 48" by (simp add: unat_sub)
  moreover have "(ucast (d - 48) :: u64) = word_of_nat (unat (d - 48))" by (rule ucast_of_unat)
  ultimately have "(ucast (d - 48) :: u64) = word_of_nat (unat d - 48)" by simp
  then have "word_of_nat a * 10 + ucast (d - 48) = (word_of_nat (a * 10 + (unat d - 48)) :: u64)"
    by simp
  with Cons show ?case by (simp del: of_nat_add of_nat_mult)
qed

lemma atoi64_u:
  assumes "list_all is_dec ds" and "length ds \<le> 19"
  shows "unat (foldl (\<lambda>u c. u * 10 + ucast (c - 48)) 0 ds :: u64) = dec_value ds"
proof -
  have "dec_value ds < 10 ^ length ds" using assms(1) by (rule dec_value_less)
  also have "\<dots> \<le> 10 ^ 19" using assms(2) by (intro power_increasing) auto
  also have "\<dots> < (2::nat) ^ 64" by simp
  finally have "dec_value ds < 2 ^ 64" .
  then have "unat (word_of_nat (dec_value ds) :: u64) = dec_value ds" by (simp add: unat_of_nat)
  moreover have "foldl (\<lambda>u c. u * 10 + ucast (c - 48)) 0 ds = (word_of_nat (dec_value ds) :: u64)"
    using foldl_word_dec [OF assms(1), of 0] by (simp add: dec_value_def)
  ultimately show ?thesis by simp
qed

subsection \<open>Comparing with \<open>2^63\<close>\<close>

lemma is_dec_uint: "is_dec c \<longleftrightarrow> 48 \<le> uint c \<and> uint c \<le> 57"
  by (simp add: is_dec_def word_le_def)

lemma sint_digit: "is_dec c \<Longrightarrow> sint c = uint c"
proof -
  assume "is_dec c"
  then have "c < 128" by (simp add: is_dec_uint word_less_def)
  then have "\<not> bit c 7" using u8_less_128 by blast
  then show ?thesis by (simp add: u8_sint_uint)
qed

lemma dec_value_Cons_int:
  "is_dec d \<Longrightarrow> int (dec_value (d # ds)) = (uint d - 48) * 10 ^ length ds + int (dec_value ds)"
  by (simp add: dec_value_Cons is_dec_unat of_nat_diff)

fun int_value :: "int list \<Rightarrow> int" where
  "int_value [] = 0"
| "int_value (p # ps) = (p - 48) * 10 ^ length ps + int_value ps"

lemma int_value_range:
  "list_all (\<lambda>p. 48 \<le> p \<and> p \<le> 57) ps \<Longrightarrow> 0 \<le> int_value ps \<and> int_value ps < 10 ^ length ps"
proof (induction ps)
  case (Cons p ps)
  then have a: "0 \<le> p - 48" "p - 48 \<le> 9" and IH: "0 \<le> int_value ps" "int_value ps < 10 ^ length ps"
    by simp_all
  have "0 \<le> (p - 48) * 10 ^ length ps" using a by simp
  moreover have "(p - 48) * 10 ^ length ps \<le> 9 * 10 ^ length ps" using a by (intro mult_right_mono) auto
  moreover have "10 ^ length (p # ps) = 10 * (10::int) ^ length ps" by simp
  ultimately show ?case using IH unfolding int_value.simps by linarith
qed simp

lemma compare2pow63_loop_sign:
  assumes "list_all (\<lambda>p. 48 \<le> p \<and> p \<le> 57) ps" and "list_all is_dec ds" and "length ds = length ps"
    and "\<And>k. k < length ds \<Longrightarrow> get (i + k) = ds ! k"
  shows "(compare2pow63_loop get i ps < 0 \<longleftrightarrow> int (dec_value ds) < int_value ps)
       \<and> (compare2pow63_loop get i ps = 0 \<longleftrightarrow> int (dec_value ds) = int_value ps)"
  using assms
proof (induction ps arbitrary: ds i)
  case Nil
  then show ?case by simp
next
  case (Cons p ps)
  then obtain d ds' where ds: "ds = d # ds'" by (cases ds) auto
  have d: "get i = d" using Cons.prems(4) [of 0] ds by simp
  have IH: "(compare2pow63_loop get (Suc i) ps < 0 \<longleftrightarrow> int (dec_value ds') < int_value ps)
       \<and> (compare2pow63_loop get (Suc i) ps = 0 \<longleftrightarrow> int (dec_value ds') = int_value ps)"
  proof (rule Cons.IH)
    show "get (Suc i + k) = ds' ! k" if "k < length ds'" for k
      using Cons.prems(4) [of "Suc k"] ds that by simp
  qed (use Cons.prems ds in simp_all)
  let ?n = "length ps"
  have v: "int (dec_value ds) = (uint d - 48) * 10 ^ ?n + int (dec_value ds')"
    using Cons.prems(2,3) ds by (simp add: dec_value_Cons_int)
  have r: "0 \<le> int_value ps" "int_value ps < 10 ^ ?n" using int_value_range [of ps] Cons.prems(1) by simp_all
  have r': "int (dec_value ds') < 10 ^ ?n"
    using dec_value_less [of ds'] Cons.prems(2,3) ds
    by (metis (mono_tags) list.pred_inject(2) list.size(4) add_right_cancel of_nat_less_iff of_nat_numeral of_nat_power)
  have s: "sint (get i) = uint d" using d sint_digit [of d] Cons.prems(2) ds by simp
  define A where "A = (uint d - 48) * 10 ^ ?n"
  define B where "B = (p - 48) * 10 ^ ?n"
  define x where "x = int (dec_value ds')"
  have xs: "int (dec_value ds) = A + x" "int_value (p # ps) = B + int_value ps" "0 \<le> x" "x < 10 ^ ?n"
    using v r' by (simp_all add: A_def B_def x_def)
  consider "uint d < p" | "uint d = p" | "uint d > p" by linarith
  then show ?case
  proof cases
    case 1
    then have "A + 10 ^ ?n \<le> B"
      using mult_right_mono [of "uint d - 48 + 1" "p - 48" "10 ^ ?n"] by (simp add: A_def B_def algebra_simps)
    with xs r have "int (dec_value ds) < int_value (p # ps)" by linarith
    moreover have "compare2pow63_loop get i (p # ps) < 0" using 1 s by (simp add: Let_def)
    ultimately show ?thesis by linarith
  next
    case 2
    then have "A = B" by (simp add: A_def B_def)
    moreover have "compare2pow63_loop get i (p # ps) = compare2pow63_loop get (Suc i) ps"
      using 2 s by (simp add: Let_def)
    ultimately show ?thesis using IH xs x_def by linarith
  next
    case 3
    then have "B + 10 ^ ?n \<le> A"
      using mult_right_mono [of "p - 48 + 1" "uint d - 48" "10 ^ ?n"] by (simp add: A_def B_def algebra_simps)
    with xs r have "int (dec_value ds) > int_value (p # ps)" by linarith
    moreover have "compare2pow63_loop get i (p # ps) > 0" using 3 s by (simp add: Let_def)
    ultimately show ?thesis by linarith
  qed
qed

lemma compare2pow63_sign:
  assumes "list_all is_dec ds" and "length ds = 19" and "\<And>k. k < 19 \<Longrightarrow> get k = ds ! k"
  shows "(compare2pow63 get < 0 \<longleftrightarrow> int (dec_value ds) < 2 ^ 63)
       \<and> (compare2pow63 get = 0 \<longleftrightarrow> int (dec_value ds) = 2 ^ 63)"
proof -
  obtain ds' d where ds: "ds = ds' @ [d]" "length ds' = 18"
    using assms(2) by (cases ds rule: rev_exhaust) auto
  have loop: "(compare2pow63_loop get 0 pow63 < 0 \<longleftrightarrow> int (dec_value ds') < int_value pow63)
       \<and> (compare2pow63_loop get 0 pow63 = 0 \<longleftrightarrow> int (dec_value ds') = int_value pow63)"
  proof (rule compare2pow63_loop_sign)
    show "get (0 + k) = ds' ! k" if "k < length ds'" for k
      using assms(3) [of k] ds that by (simp add: nth_append)
  qed (use assms ds in \<open>simp_all add: pow63_def\<close>)
  have v: "int_value pow63 = 922337203685477580" by (simp add: pow63_def)
  have d: "is_dec d" using assms(1) ds by simp
  have "dec_value ds = dec_value ds' * 10 + (unat d - 48)"
    using ds by (simp add: dec_value_append dec_value_Cons)
  then have vd: "int (dec_value ds) = int (dec_value ds') * 10 + (uint d - 48)"
    using d by (simp add: is_dec_unat of_nat_diff)
  have s: "sint (get 18) = uint d" "48 \<le> uint d" "uint d \<le> 57"
    using assms(3) [of 18] d ds sint_digit [of d] by (simp_all add: nth_append is_dec_uint)
  define x where "x = int (dec_value ds')"
  define c where "c = compare2pow63_loop get 0 pow63"
  have c: "(c < 0 \<longleftrightarrow> x < 922337203685477580) \<and> (c = 0 \<longleftrightarrow> x = 922337203685477580)"
    using loop v by (simp add: c_def x_def)
  have "compare2pow63 get = (if c = 0 then uint d - 56 else c)"
    by (simp add: compare2pow63_def c_def Let_def s)
  moreover have "int (dec_value ds) = x * 10 + (uint d - 48)" using vd x_def by simp
  ultimately show ?thesis using c s by auto
qed


subsection \<open>\<open>sqlite3Atoi64\<close> against its specification\<close>

definition signed_text :: "u8 list \<Rightarrow> bool \<times> u8 list" where
  "signed_text s = (if s \<noteq> [] \<and> hd s = 0x2d then (True, tl s)
                    else if s \<noteq> [] \<and> hd s = 0x2b then (False, tl s) else (False, s))"

definition atoi64_spec :: "u8 list \<Rightarrow> int \<times> int" where
  "atoi64_spec z =
     (let (neg, t) = signed_text (dropWhile sqlite3Isspace z);
          ds = takeWhile is_dec t; rest = dropWhile is_dec t;
          v = (if neg then - int (dec_value ds) else int (dec_value ds))
      in if in_i64 v then
           (if ds = [] then -1 else if list_all sqlite3Isspace rest then 0 else 1, v)
         else (if v = 2 ^ 63 then 3 else 2, if neg then SMALLEST_INT64 else LARGEST_INT64))"

lemma takeWhile_split: "(\<And>x. P x \<Longrightarrow> Q x) \<Longrightarrow>
   takeWhile Q xs = takeWhile P xs @ takeWhile Q (dropWhile P xs)"
  by (induction xs) auto

lemma dropWhile_split: "(\<And>x. P x \<Longrightarrow> Q x) \<Longrightarrow> dropWhile Q (dropWhile P xs) = dropWhile Q xs"
  by (induction xs) auto

lemma drop_takeWhile: "drop (length (takeWhile P xs)) xs = dropWhile P xs"
  by (simp add: dropWhile_eq_drop)

lemma drop_add: "drop p z = t \<Longrightarrow> drop (p + n) z = drop n t"
  by (simp add: add.commute flip: drop_drop)

lemma list_all_takeWhile: "list_all P (takeWhile P xs)"
  by (induction xs) auto

lemma hd_digits:
  assumes "takeWhile is_dec (dropWhile (\<lambda>c. c = 0x30) t) \<noteq> []"
  shows "hd (takeWhile is_dec (dropWhile (\<lambda>c. c = 0x30) t)) \<noteq> 48"
proof -
  define t' where "t' = dropWhile (\<lambda>c. c = 0x30) t"
  have "t' \<noteq> []" using assms unfolding t'_def [symmetric] by (cases t') auto
  moreover have "hd (takeWhile is_dec t') = hd t'"
    using assms unfolding t'_def [symmetric] by (cases t') (auto split: if_splits)
  ultimately show ?thesis using hd_dropWhile [of "\<lambda>c. c = 0x30" t] by (simp add: t'_def)
qed

text \<open>The part of the function after the sign, on the text \<open>t\<close> that begins at \<open>p\<close>.\<close>

lemma atoi64_after_sign:
  assumes t: "drop p z = t" and p: "p \<le> length z"
  shows "atoi64_number z SQLITE_UTF8 (length z) False neg p
    = (let ds = takeWhile is_dec t; rest = dropWhile is_dec t;
          v = (if neg then - int (dec_value ds) else int (dec_value ds))
      in if in_i64 v then
           (if ds = [] then -1 else if list_all sqlite3Isspace rest then 0 else (1::int), v)
         else (if v = 2 ^ 63 then 3 else 2, if neg then SMALLEST_INT64 else LARGEST_INT64))"
    (is "?l = ?r")
proof -
  define zs where "zs = takeWhile (\<lambda>c. c = 0x30) t"
  define t' where "t' = dropWhile (\<lambda>c. c = 0x30) t"
  define ds where "ds = takeWhile is_dec t'"
  define rest where "rest = dropWhile is_dec t'"
  define q where "q = p + length zs"
  have is0: "is_dec c" if "c = 0x30" for c using that by (simp add: is_dec_unat)
  have split: "takeWhile is_dec t = zs @ ds" "dropWhile is_dec t = rest"
    unfolding zs_def ds_def rest_def t'_def
    using takeWhile_split [of "\<lambda>c. c = 0x30" is_dec t, OF is0] dropWhile_split [of "\<lambda>c. c = 0x30" is_dec t, OF is0]
    by simp_all
  have q: "drop q z = t'"
    unfolding q_def zs_def t'_def using drop_add [OF t, of "length (takeWhile (\<lambda>c. c = 0x30) t)"]
    by (simp add: drop_takeWhile)
  have lt: "length t = length z - p" using t by auto
  have "length zs \<le> length t" unfolding zs_def by (rule length_takeWhile_le)
  then have qle: "q \<le> length z" using lt p by (simp add: q_def)
  have z1: "atoi64_skip (\<lambda>c. c = 0x30) SQLITE_UTF8 z (length z) p = q"
    using atoi64_skip_utf8 [OF p, of "\<lambda>c. c = 0x30"] t by (simp add: q_def zs_def)
  have z2: "atoi64_digits SQLITE_UTF8 z (length z) q 0 0 = (length ds, foldl (\<lambda>u c. u * 10 + ucast (c - 48)) 0 ds)"
    using atoi64_digits_utf8 [of q 0 z 0] q qle by (simp add: ds_def)
  have qi: "drop (q + length ds) z = rest"
    using drop_add [OF q, of "length ds"] by (simp add: ds_def rest_def drop_takeWhile)
  have lr: "length rest = length z - (q + length ds)" using qi by auto
  have tr: "(if q + length ds < length z then atoi64_trailing SQLITE_UTF8 z (length z) (q + length ds) else 0)
       = (if list_all sqlite3Isspace rest then 0 else 1)"
    using atoi64_trailing_utf8 [of "q + length ds" z] lr qi by (cases "q + length ds < length z") auto
  have dec: "list_all is_dec ds" by (simp add: ds_def list_all_takeWhile)
  have zval: "dec_value (zs @ ds) = dec_value ds"
    by (rule dec_value_zeros) (simp add: zs_def list_all_takeWhile)
  have emp: "(length ds = 0 \<and> p = q) = (zs @ ds = [])" by (auto simp: q_def)
  define rc where "rc = (if zs @ ds = [] then -1 else if list_all sqlite3Isspace rest then 0 else (1::int))"
  define u where "u = foldl (\<lambda>u c. u * 10 + ucast (c - 48)) (0 :: u64) ds"
  define pn where "pn = (if unat u > nat LARGEST_INT64 then (if neg then SMALLEST_INT64 else LARGEST_INT64)
                  else if neg then - int (unat u) else int (unat u))"
  define j where "j = (if length ds > 19 then 1 else compare2pow63 (\<lambda>k. z ! (q + k)))"
  have L: "?l = (if length ds < 19 then (rc, pn)
         else if j < 0 then (rc, pn)
              else if j > 0 then (2, if neg then SMALLEST_INT64 else LARGEST_INT64)
              else (if neg then rc else 3, if neg then SMALLEST_INT64 else LARGEST_INT64))"
    unfolding atoi64_number_def incr_of.simps Let_def z1 z2 case_prod_conv emp if_False tr mult_1_right
      rc_def pn_def u_def j_def by (rule refl)
  define V where "V = int (dec_value ds)"
  have R: "?r = (if in_i64 (if neg then - V else V) then (rc, if neg then - V else V)
     else (if (if neg then - V else V) = 2 ^ 63 then 3 else 2, if neg then SMALLEST_INT64 else LARGEST_INT64))"
    unfolding Let_def split zval rc_def V_def by simp
  have V0: "0 \<le> V" by (simp add: V_def)
  have pn: "pn = (if neg then - V else V)" if "length ds \<le> 19" "V < 2 ^ 63"
    using that atoi64_u [OF dec that(1)] by (simp add: pn_def u_def V_def)
  consider "length ds < 19" | "length ds = 19" | "length ds > 19" by linarith
  then show ?thesis
  proof cases
    case 1
    have "dec_value ds < 10 ^ length ds" using dec by (rule dec_value_less)
    also have "\<dots> \<le> 10 ^ 18" using 1 by (intro power_increasing) auto
    finally have "V < 10 ^ 18" by (simp add: V_def)
    then have "V < 2 ^ 63" by simp
    with 1 pn V0 show ?thesis unfolding L R by (simp add: in_i64_def)
  next
    case 2
    have get: "z ! (q + k) = ds ! k" if "k < 19" for k
    proof -
      have "z ! (q + k) = t' ! k" using q qle that 2 lr by (metis nth_drop)
      also have "\<dots> = ds ! k" using that 2 by (simp add: ds_def takeWhile_nth)
      finally show ?thesis .
    qed
    have j: "(j < 0 \<longleftrightarrow> V < 2 ^ 63) \<and> (j = 0 \<longleftrightarrow> V = 2 ^ 63)"
      using compare2pow63_sign [OF dec 2, of "\<lambda>k. z ! (q + k)"] get 2 by (simp add: j_def V_def)
    consider "V < 2 ^ 63" | "V = 2 ^ 63" | "V > 2 ^ 63" by linarith
    then show ?thesis
    proof cases
      case 1
      with j pn 2 V0 show ?thesis unfolding L R by (simp add: in_i64_def)
    next
      case v: 2
      with j 2 show ?thesis unfolding L R by (simp add: in_i64_def)
    next
      case 3
      with j have "j > 0" by linarith
      with j 2 3 show ?thesis unfolding L R by (simp add: in_i64_def)
    qed
  next
    case 3
    then have ne: "ds \<noteq> []" by auto
    have "hd ds \<noteq> 48" using hd_digits ne by (simp add: ds_def t'_def)
    moreover have "is_dec (hd ds)" using dec ne by (cases ds) auto
    ultimately have "10 ^ (length ds - 1) \<le> dec_value ds" using ne by (intro dec_value_ge)
    moreover have "(10::nat) ^ 19 \<le> 10 ^ (length ds - 1)" using 3 by (intro power_increasing) auto
    ultimately have "10 ^ 19 \<le> dec_value ds" by linarith
    then have "V > 2 ^ 63" by (simp add: V_def)
    moreover have "j = 1" using 3 by (simp add: j_def)
    ultimately show ?thesis using 3 unfolding L R by (simp add: in_i64_def)
  qed
qed

lemma sqlite3Atoi64_utf8: "sqlite3Atoi64 z SQLITE_UTF8 = atoi64_spec z"
proof -
  define p where "p = length (takeWhile sqlite3Isspace z)"
  have p: "p \<le> length z" unfolding p_def by (rule length_takeWhile_le)
  have s: "drop p z = dropWhile sqlite3Isspace z" by (simp add: p_def drop_takeWhile)
  have skip: "atoi64_skip sqlite3Isspace SQLITE_UTF8 z (length z) 0 = p"
    using atoi64_skip_utf8 [of 0 z sqlite3Isspace] by (simp add: p_def)
  have hd: "(p < length z) = (drop p z \<noteq> [])" "p < length z \<Longrightarrow> z ! p = hd (drop p z)"
    by (auto simp: hd_drop_conv_nth)
  show ?thesis
  proof (cases "p < length z \<and> (z ! p = 0x2d \<or> z ! p = 0x2b)")
    case True
    then have sg: "signed_text (drop p z) = (z ! p = 0x2d, drop (p + 1) z)"
      using hd by (auto simp: signed_text_def drop_Suc tl_drop)
    have "sqlite3Atoi64 z SQLITE_UTF8 = atoi64_number z SQLITE_UTF8 (length z) False (z ! p = 0x2d) (p + 1)"
      using True by (auto simp: sqlite3Atoi64_def atoi64_setup_def skip Let_def)
    also have "\<dots> = atoi64_spec z"
      using atoi64_after_sign [OF refl, of "p + 1" z "z ! p = 0x2d"] True
      by (simp add: atoi64_spec_def s [symmetric] sg)
    finally show ?thesis .
  next
    case False
    then have sg: "signed_text (drop p z) = (False, drop p z)"
      using hd by (auto simp: signed_text_def)
    have "sqlite3Atoi64 z SQLITE_UTF8 = atoi64_number z SQLITE_UTF8 (length z) False False p"
      using False by (auto simp: sqlite3Atoi64_def atoi64_setup_def skip Let_def)
    also have "\<dots> = atoi64_spec z"
      using atoi64_after_sign [OF refl p, of False] by (simp add: atoi64_spec_def s [symmetric] sg)
    finally show ?thesis .
  qed
qed


text \<open>
  C8. On UTF-8 text \<open>sqlite3Atoi64\<close> skips leading white space, takes one optional sign and
  the longest run of digits, and returns the exact value when it fits in 64 bits: result 0 when
  only white space follows, 1 when other text follows, -1 when there is no digit. When the value
  does not fit, the result is 2 and the output is the nearest 64-bit integer, except that
  exactly 9223372036854775808 gives result 3. Leading zeros never count towards the limit.
\<close>

theorem sqlite3Atoi64_correct:
  "sqlite3Atoi64 z SQLITE_UTF8 =
     (let (neg, t) = signed_text (dropWhile sqlite3Isspace z);
          ds = takeWhile is_dec t; rest = dropWhile is_dec t;
          v = (if neg then - int (dec_value ds) else int (dec_value ds))
      in if in_i64 v then
           (if ds = [] then -1 else if list_all sqlite3Isspace rest then 0 else 1, v)
         else (if v = 2 ^ 63 then 3 else 2, if neg then SMALLEST_INT64 else LARGEST_INT64))"
  unfolding sqlite3Atoi64_utf8 atoi64_spec_def by (rule refl)

subsection \<open>Decimal text of an integer\<close>

lemma word_of_nat_unat_u8: "word_of_nat (unat (c :: u8)) = c"
  by simp

lemma sqlite3DigitPairs_nth:
  assumes "m < 100"
  shows "sqlite3DigitPairs ! (m * 2) = word_of_nat (48 + m div 10)"
    and "sqlite3DigitPairs ! (m * 2 + 1) = word_of_nat (48 + m mod 10)"
proof -
  have "list_all (\<lambda>m. unat (sqlite3DigitPairs ! (m * 2)) = 48 + m div 10
      \<and> unat (sqlite3DigitPairs ! (m * 2 + 1)) = 48 + m mod 10) [0..<100]"
    by code_simp
  with assms have a: "unat (sqlite3DigitPairs ! (m * 2)) = 48 + m div 10"
      and b: "unat (sqlite3DigitPairs ! (m * 2 + 1)) = 48 + m mod 10"
    by (simp_all add: list_all_iff)
  show "sqlite3DigitPairs ! (m * 2) = word_of_nat (48 + m div 10)" by (metis a word_of_nat_unat_u8)
  show "sqlite3DigitPairs ! (m * 2 + 1) = word_of_nat (48 + m mod 10)" by (metis b word_of_nat_unat_u8)
qed

lemma unat_digit: "d < 10 \<Longrightarrow> unat (word_of_nat (48 + d) :: u8) = 48 + d"
  by (simp add: unat_of_nat del: of_nat_add)

lemma int64ToText_loop_small:
  assumes "0 < x" "x < 10"
  shows "int64ToText_loop x a = [word_of_nat (48 + x)] @ a"
  using assms by (subst int64ToText_loop.simps) (simp add: add.commute)

lemma int64ToText_loop_step:
  assumes "10 \<le> x"
  shows "int64ToText_loop x a = int64ToText_loop (x div 100)
    (word_of_nat (48 + x mod 100 div 10) # word_of_nat (48 + x mod 100 mod 10) # a)"
proof -
  have "int64ToText_loop x a = int64ToText_loop (x div 100)
      (sqlite3DigitPairs ! (x mod 100 * 2) # sqlite3DigitPairs ! (x mod 100 * 2 + 1) # a)"
    using assms by (subst int64ToText_loop.simps) (simp add: Let_def)
  also have "sqlite3DigitPairs ! (x mod 100 * 2) = word_of_nat (48 + x mod 100 div 10)"
    by (rule sqlite3DigitPairs_nth) simp
  also have "sqlite3DigitPairs ! (x mod 100 * 2 + 1) = word_of_nat (48 + x mod 100 mod 10)"
    by (rule sqlite3DigitPairs_nth) simp
  finally show ?thesis .
qed

definition decimal_of :: "u8 list \<Rightarrow> nat \<Rightarrow> bool" where
  "decimal_of ds x \<longleftrightarrow> list_all is_dec ds \<and> dec_value ds = x \<and> (if x = 0 then ds = [] else ds \<noteq> [] \<and> hd ds \<noteq> 48)"

lemma decimal_of_digit:
  assumes "0 < x" "x < 10"
  shows "decimal_of [word_of_nat (48 + x)] x"
proof -
  have u: "unat (word_of_nat (48 + x) :: u8) = 48 + x" using assms(2) by (rule unat_digit)
  then have "(word_of_nat (48 + x) :: u8) \<noteq> 48" using assms by (auto simp: word_unat_eq_iff)
  with u assms show ?thesis
    by (simp add: decimal_of_def is_dec_unat dec_value_Cons del: of_nat_add)
qed

lemma decimal_of_pair:
  assumes "decimal_of ds (x div 100)" and "10 \<le> x"
  shows "decimal_of (ds @ [word_of_nat (48 + x mod 100 div 10), word_of_nat (48 + x mod 100 mod 10)]) x"
proof -
  define h where "h = x mod 100 div 10"
  define l where "l = x mod 100 mod 10"
  have hl: "h < 10" "l < 10" by (auto simp: h_def l_def)
  have x: "x = x div 100 * 100 + (h * 10 + l)" by (simp add: h_def l_def)
  have u: "unat (word_of_nat (48 + h) :: u8) = 48 + h" "unat (word_of_nat (48 + l) :: u8) = 48 + l"
    using hl by (auto intro: unat_digit simp del: of_nat_add)
  have ds: "list_all is_dec ds" "dec_value ds = x div 100" using assms(1) by (auto simp: decimal_of_def)
  have val: "dec_value (ds @ [word_of_nat (48 + h), word_of_nat (48 + l)]) = x"
    using x ds(2) u by (simp add: dec_value_append dec_value_Cons del: of_nat_add)
  have ok: "list_all is_dec (ds @ [word_of_nat (48 + h), word_of_nat (48 + l)])"
    using ds(1) u hl by (simp add: is_dec_unat del: of_nat_add)
  have nz: "hd (ds @ [word_of_nat (48 + h), word_of_nat (48 + l)]) \<noteq> 48"
  proof (cases "x div 100 = 0")
    case True
    then have "0 < h" using x hl assms(2) by linarith
    then have "unat (word_of_nat (48 + h) :: u8) \<noteq> unat (48 :: u8)" using u by simp
    then have "(word_of_nat (48 + h) :: u8) \<noteq> 48" by metis
    with True assms(1) show ?thesis by (simp add: decimal_of_def del: of_nat_add)
  next
    case False
    with assms(1) show ?thesis by (simp add: decimal_of_def)
  qed
  show ?thesis unfolding h_def [symmetric] l_def [symmetric] decimal_of_def
    using val ok nz assms(2) by simp
qed

lemma int64ToText_loop_digits:
  "\<exists>ds. int64ToText_loop x a = ds @ a \<and> decimal_of ds x"
proof (induction x arbitrary: a rule: less_induct)
  case (less x)
  consider "x = 0" | "0 < x" "x < 10" | "10 \<le> x" by linarith
  then show ?case
  proof cases
    case 1
    then show ?thesis by (subst int64ToText_loop.simps) (simp add: decimal_of_def)
  next
    case 2
    with int64ToText_loop_small decimal_of_digit show ?thesis by blast
  next
    case 3
    then have "x div 100 < x" by simp
    from less.IH [OF this] obtain ds where
      "int64ToText_loop x a = ds @ (word_of_nat (48 + x mod 100 div 10) # word_of_nat (48 + x mod 100 mod 10) # a)"
      "decimal_of ds (x div 100)"
      unfolding int64ToText_loop_step [OF 3] by blast
    with decimal_of_pair [OF _ 3, of ds] show ?thesis by (metis append.assoc append_Cons append_Nil)
  qed
qed

lemma decimal_of_length:
  assumes "decimal_of ds x" and "x \<le> 2 ^ 63"
  shows "length ds \<le> 19"
proof (rule ccontr)
  assume "\<not> length ds \<le> 19"
  then have l: "20 \<le> length ds" by simp
  then have "ds \<noteq> []" by auto
  then have "is_dec (hd ds)" "hd ds \<noteq> 48" using assms(1) by (cases ds; auto simp: decimal_of_def split: if_splits)+
  then have "10 ^ (length ds - 1) \<le> dec_value ds" using \<open>ds \<noteq> []\<close> by (intro dec_value_ge)
  then have "10 ^ (length ds - 1) \<le> x" using assms(1) by (simp add: decimal_of_def)
  moreover have "(10::nat) ^ 19 \<le> 10 ^ (length ds - 1)" using l by (intro power_increasing) auto
  ultimately have "10 ^ 19 \<le> x" by linarith
  with assms(2) show False by simp
qed

text \<open>What the function writes: an optional minus sign and the digits of the magnitude.\<close>

lemma sqlite3Int64ToText_shape:
  assumes "in_i64 v"
  obtains ds where "sqlite3Int64ToText v = (if v < 0 then 0x2d # ds else ds)"
    and "list_all is_dec ds" "ds \<noteq> []" "int (dec_value ds) = \<bar>v\<bar>" "length ds \<le> 19"
proof (cases "v = 0")
  case True
  then show ?thesis
    using that [of "[48]"] by (simp add: sqlite3Int64ToText_def is_dec_unat dec_value_Cons)
next
  case False
  define x where "x = (if v > 0 then nat v else if v = SMALLEST_INT64 then 2 ^ 63 else nat (- v))"
  obtain ds where ds: "int64ToText_loop x [] = ds @ []" "decimal_of ds x"
    using int64ToText_loop_digits by blast
  have x: "int x = \<bar>v\<bar>" using False by (simp add: x_def)
  then have "0 < x" using False by linarith
  have "int x \<le> 2 ^ 63" using x assms by (simp add: in_i64_def abs_if split: if_splits)
  then have "x \<le> 2 ^ 63" by (simp add: x_def split: if_splits)
  then have "length ds \<le> 19" using ds(2) decimal_of_length by blast
  moreover have "sqlite3Int64ToText v = (if v < 0 then 0x2d # ds else ds)"
    using ds(1) unfolding sqlite3Int64ToText_def Let_def x_def [symmetric] if_not_P [OF False] by simp
  ultimately show ?thesis using that [of ds] ds(2) x \<open>0 < x\<close> by (auto simp: decimal_of_def)
qed

lemma is_dec_not_sign: "is_dec c \<Longrightarrow> c \<noteq> 0x2d \<and> c \<noteq> 0x2b \<and> \<not> sqlite3Isspace c"
  by (auto simp: is_dec_uint sqlite3Isspace_iff word_le_def)

text \<open>
  C9. Writing any 64-bit integer with \<open>sqlite3Int64ToText\<close> takes at most 20 characters, and
  reading the text back with \<open>sqlite3Atoi64\<close> succeeds with the same integer, the smallest
  one included.
\<close>

theorem sqlite3Int64ToText_roundtrip:
  assumes "in_i64 v"
  shows "sqlite3Atoi64 (sqlite3Int64ToText v) SQLITE_UTF8 = (0, v) \<and> length (sqlite3Int64ToText v) \<le> 20"
proof -
  obtain ds where ds: "sqlite3Int64ToText v = (if v < 0 then 0x2d # ds else ds)"
    "list_all is_dec ds" "ds \<noteq> []" "int (dec_value ds) = \<bar>v\<bar>" "length ds \<le> 19"
    using assms by (rule sqlite3Int64ToText_shape)
  then obtain d ds' where d: "ds = d # ds'" "is_dec d" by (cases ds) auto
  have sp: "\<not> sqlite3Isspace 0x2d" by (simp add: sqlite3Isspace_iff)
  have dw: "dropWhile sqlite3Isspace (sqlite3Int64ToText v) = sqlite3Int64ToText v"
    using ds(1) d is_dec_not_sign [OF d(2)] sp by simp
  have sg: "signed_text (sqlite3Int64ToText v) = (v < 0, ds)"
    using ds(1) d is_dec_not_sign [OF d(2)] by (simp add: signed_text_def)
  have tw: "takeWhile is_dec ds = ds" "dropWhile is_dec ds = []"
    using ds(2) by (simp_all add: list_all_iff)
  have val: "(if v < 0 then - int (dec_value ds) else int (dec_value ds)) = v" using ds(4) by simp
  have "sqlite3Atoi64 (sqlite3Int64ToText v) SQLITE_UTF8 = (0, v)"
    unfolding sqlite3Atoi64_utf8 atoi64_spec_def dw sg Let_def case_prod_conv tw val
    using assms ds(3) by simp
  moreover have "length (sqlite3Int64ToText v) \<le> 20" using ds(1,5) by simp
  ultimately show ?thesis by blast
qed

theorem sqlite3Int64ToText_roundtrip_witness:
  "sqlite3Atoi64 (sqlite3Int64ToText SMALLEST_INT64) SQLITE_UTF8 = (0, SMALLEST_INT64)"
proof -
  have h: "in_i64 SMALLEST_INT64" by (simp add: in_i64_def)
  from sqlite3Int64ToText_roundtrip [OF h] show ?thesis by simp
qed


subsection \<open>32-bit integers\<close>

text \<open>
  \<open>sqlite3GetInt32\<close> answers \<open>Some\<close> of the stored value for a true return and \<open>None\<close>
  for a false one, which stores nothing. The digit loops return the number of characters read
  and the value; the hexadecimal one reads at most eight, the decimal one at most eleven.
\<close>

function getInt32_hex :: "nat \<Rightarrow> u32 \<Rightarrow> u8 list \<Rightarrow> nat \<times> u32" where
  "getInt32_hex i u z =
     (if i < 8 \<and> sqlite3Isxdigit (chd z)
      then getInt32_hex (Suc i) (u * 16 + ucast (sqlite3HexToInt (chd z))) (tl z) else (i, u))"
  by pat_completeness auto
termination by (relation "measure (\<lambda>(i, u, z). 8 - i)") auto

function getInt32_dec :: "nat \<Rightarrow> int \<Rightarrow> u8 list \<Rightarrow> nat \<times> int" where
  "getInt32_dec i v z =
     (let c = sint (chd z) - 0x30 in
      if i < 11 \<and> c \<ge> 0 \<and> c \<le> 9 then getInt32_dec (Suc i) (v * 10 + c) (tl z) else (i, v))"
  by pat_completeness auto
termination by (relation "measure (\<lambda>(i, v, z). 11 - i)") auto

declare getInt32_hex.simps [simp del] getInt32_dec.simps [simp del]

definition getInt32_number :: "bool \<Rightarrow> u8 list \<Rightarrow> int option" where
  "getInt32_number neg z =
     (if \<not> sqlite3Isdigit (chd z) then None
      else
        let z = dropWhile (\<lambda>c. c = 0x30) z;
            (i, v) = getInt32_dec 0 0 z
        in if i > 10 then None
           else if v - (if neg then 1 else 0) > 2147483647 then None
           else Some (if neg then - v else v))"

definition sqlite3GetInt32 :: "u8 list \<Rightarrow> int option" where
  "sqlite3GetInt32 z =
     (if chd z = 0x2d then getInt32_number True (tl z)
      else if chd z = 0x2b then getInt32_number False (tl z)
      else if chd z = 0x30 \<and> (chd (drop 1 z) = 0x78 \<or> chd (drop 1 z) = 0x58) \<and> sqlite3Isxdigit (chd (drop 2 z))
      then
        let z = dropWhile (\<lambda>c. c = 0x30) (drop 2 z);
            (i, u) = getInt32_hex 0 0 z
        in if u AND 0x80000000 = 0 \<and> \<not> sqlite3Isxdigit (chd (drop i z)) then Some (sint u) else None
      else getInt32_number False z)"

definition sqlite3Atoi :: "u8 list \<Rightarrow> int" where
  "sqlite3Atoi z = (case sqlite3GetInt32 z of None \<Rightarrow> 0 | Some x \<Rightarrow> x)"

text \<open>
  \<open>sqlite3GetUInt32\<close> always stores: 0 when it returns false. The loop gives up with
  \<open>None\<close> when the value passes the limit.
\<close>

fun getUInt32_loop :: "u64 \<Rightarrow> nat \<Rightarrow> u8 list \<Rightarrow> (nat \<times> u64 \<times> u8 list) option" where
  "getUInt32_loop v i [] = Some (i, v, [])"
| "getUInt32_loop v i (c # z) =
     (if sqlite3Isdigit c then
        let v = v * 10 + ucast c - 0x30
        in if v > 4294967296 then None else getUInt32_loop v (Suc i) z
      else Some (i, v, c # z))"

definition sqlite3GetUInt32 :: "u8 list \<Rightarrow> bool \<times> u32" where
  "sqlite3GetUInt32 z =
     (case getUInt32_loop 0 0 z of
        None \<Rightarrow> (False, 0)
      | Some (i, v, r) \<Rightarrow> if i = 0 \<or> chd r \<noteq> 0 then (False, 0) else (True, ucast v))"

lemma sqlite3Isdigit_is_dec: "sqlite3Isdigit c = is_dec c"
  by (simp add: sqlite3Isdigit_iff is_dec_def)

lemma ucast_word_of_nat: "(ucast (word_of_nat n :: u64) :: u32) = word_of_nat n"
  by (simp add: unsigned_of_nat word_of_nat_eq_iff)

lemma foldl_dec_ge: "a \<le> foldl (\<lambda>v (d :: u8). v * 10 + (unat d - 48)) a ds"
  unfolding foldl_dec by (simp add: trans_le_add1)

lemma getUInt32_step:
  assumes "is_dec c" and "v \<le> 4294967296"
  shows "word_of_nat v * 10 + ucast c - 0x30 = (word_of_nat (v * 10 + (unat c - 48)) :: u64)"
    and "unat (word_of_nat (v * 10 + (unat c - 48)) :: u64) = v * 10 + (unat c - 48)"
proof -
  have c: "48 \<le> unat c" "unat c \<le> 57" using assms(1) by (simp_all add: is_dec_unat)
  have "(ucast c :: u64) = word_of_nat (unat c)" by (rule ucast_of_unat)
  also have "\<dots> = word_of_nat ((unat c - 48) + 48)" using c by simp
  also have "\<dots> = word_of_nat (unat c - 48) + 0x30" by (simp only: of_nat_add of_nat_numeral)
  finally have "(ucast c :: u64) = word_of_nat (unat c - 48) + 0x30" .
  then show "word_of_nat v * 10 + ucast c - 0x30 = (word_of_nat (v * 10 + (unat c - 48)) :: u64)" by simp
  have "v * 10 + (unat c - 48) < 2 ^ 64" using assms(2) c by simp
  then show "unat (word_of_nat (v * 10 + (unat c - 48)) :: u64) = v * 10 + (unat c - 48)"
    by (simp add: unat_of_nat del: of_nat_add of_nat_mult)
qed

lemma getUInt32_loop_eq:
  "v \<le> 4294967296 \<Longrightarrow>
   getUInt32_loop (word_of_nat v) i z =
     (let ds = takeWhile is_dec z; w = foldl (\<lambda>v d. v * 10 + (unat d - 48)) v ds
      in if w \<le> 4294967296 then Some (i + length ds, word_of_nat w, dropWhile is_dec z) else None)"
proof (induction z arbitrary: v i)
  case Nil
  then show ?case by simp
next
  case (Cons c z)
  show ?case
  proof (cases "is_dec c")
    case False
    with Cons.prems show ?thesis by (simp add: sqlite3Isdigit_is_dec)
  next
    case True
    define v' where "v' = v * 10 + (unat c - 48)"
    have w: "word_of_nat v * 10 + ucast c - 0x30 = (word_of_nat v' :: u64)"
      and u: "unat (word_of_nat v' :: u64) = v'"
      using getUInt32_step [OF True Cons.prems] by (simp_all only: v'_def)
    have gt: "(word_of_nat v' :: u64) > 4294967296 \<longleftrightarrow> v' > 4294967296"
      by (simp only: word_less_nat_alt u) simp
    have "v' \<le> foldl (\<lambda>v d. v * 10 + (unat d - 48)) v' (takeWhile is_dec z)" by (rule foldl_dec_ge)
    with True Cons.IH [of v' "Suc i"] w gt show ?thesis
      by (simp add: sqlite3Isdigit_is_dec Let_def v'_def [symmetric])
  qed
qed

text \<open>
  C10. \<open>sqlite3GetUInt32\<close> accepts exactly the non-empty digit strings (nothing may follow)
  whose value is at most 4294967296, one more than the largest 32-bit value, and stores the
  value modulo \<open>2^32\<close>: 4294967296 itself is accepted and stored as 0. Everything else is
  refused, with 0 stored.
\<close>

theorem sqlite3GetUInt32_correct:
  assumes "0 \<notin> set z"
  shows "sqlite3GetUInt32 z =
     (if z \<noteq> [] \<and> list_all is_dec z \<and> dec_value z \<le> 4294967296
      then (True, word_of_nat (dec_value z)) else (False, 0))"
proof -
  define ds where "ds = takeWhile is_dec z"
  define r where "r = dropWhile is_dec z"
  have z: "z = ds @ r" by (simp add: ds_def r_def)
  have "chd r = 0 \<longleftrightarrow> r = []" using assms z by (cases r) auto
  moreover have "r = [] \<longleftrightarrow> list_all is_dec z" by (simp add: r_def list_all_iff dropWhile_eq_Nil_conv)
  moreover have "ds = z" if "r = []" using z that by simp
  moreover have "getUInt32_loop 0 0 z = (if dec_value ds \<le> 4294967296
      then Some (length ds, word_of_nat (dec_value ds), r) else None)"
    using getUInt32_loop_eq [of 0 0 z] by (simp add: dec_value_def ds_def r_def Let_def)
  ultimately show ?thesis
    by (auto simp: sqlite3GetUInt32_def ucast_word_of_nat)
qed

theorem sqlite3GetUInt32_correct_witness:
  "sqlite3GetUInt32 [52, 50, 57, 52, 57, 54, 55, 50, 57, 54] = (True, 0)"
proof -
  have h: "0 \<notin> set [52, 50, 57, 52, 57, 54, 55, 50, 57, 54 :: u8]" by simp
  from sqlite3GetUInt32_correct [OF h] show ?thesis
    by (simp add: is_dec_def dec_value_Cons)
qed


lemma sint_dec_digit: "0 \<le> sint c - 0x30 \<and> sint c - 0x30 \<le> 9 \<longleftrightarrow> is_dec c" for c :: u8
proof (cases "bit c 7")
  case True
  then have "128 \<le> uint c" using u8_less_128 [of c] by (simp add: word_less_def)
  moreover have "uint c < 256" using uint_bounded [of c] by simp
  ultimately show ?thesis using True by (simp add: u8_sint is_dec_uint)
next
  case False
  then show ?thesis by (auto simp: u8_sint is_dec_uint)
qed

lemma getInt32_dec_eq:
  "i + length (takeWhile is_dec z) \<le> 11 \<Longrightarrow>
   getInt32_dec i (int v) z = (i + length (takeWhile is_dec z),
      int (foldl (\<lambda>v d. v * 10 + (unat d - 48)) v (takeWhile is_dec z)))"
proof (induction z arbitrary: i v)
  case Nil
  then show ?case by (subst getInt32_dec.simps) (simp add: Let_def)
next
  case (Cons c z)
  show ?case
  proof (cases "is_dec c")
    case True
    have "int v * 10 + (sint c - 0x30) = int (v * 10 + (unat c - 48))"
      using True by (simp add: sint_digit is_dec_unat of_nat_diff)
    moreover have "i < 11" using True Cons.prems by simp
    moreover have "getInt32_dec (Suc i) (int (v * 10 + (unat c - 48))) z
        = (Suc i + length (takeWhile is_dec z),
           int (foldl (\<lambda>v d. v * 10 + (unat d - 48)) (v * 10 + (unat c - 48)) (takeWhile is_dec z)))"
      using True Cons.prems by (intro Cons.IH) simp
    ultimately show ?thesis using True sint_dec_digit [of c]
      by (subst getInt32_dec.simps) (simp add: Let_def)
  next
    case False
    with sint_dec_digit [of c] show ?thesis by (subst getInt32_dec.simps) (auto simp: Let_def)
  qed
qed

lemma getInt32_dec_long:
  "i \<le> 11 \<Longrightarrow> 11 \<le> i + length (takeWhile is_dec z) \<Longrightarrow> fst (getInt32_dec i v z) = 11"
proof (induction z arbitrary: i v)
  case Nil
  then show ?case by (subst getInt32_dec.simps) (simp add: Let_def)
next
  case (Cons c z)
  show ?case
  proof (cases "i < 11")
    case True
    then have c: "is_dec c" using Cons.prems by (simp split: if_splits)
    have "fst (getInt32_dec (Suc i) (v * 10 + (sint c - 0x30)) z) = 11"
      using True Cons.prems c by (intro Cons.IH) simp_all
    with True c sint_dec_digit [of c] show ?thesis by (subst getInt32_dec.simps) (simp add: Let_def)
  next
    case False
    with Cons.prems show ?thesis by (subst getInt32_dec.simps) (simp add: Let_def)
  qed
qed

lemma getInt32_number_eq:
  "getInt32_number neg t =
     (let ds = takeWhile is_dec t; v = (if neg then - int (dec_value ds) else int (dec_value ds))
      in if ds \<noteq> [] \<and> - (2 ^ 31) \<le> v \<and> v < 2 ^ 31 then Some v else None)"
proof (cases "is_dec (chd t)")
  case False
  then have "takeWhile is_dec t = []" by (cases t) auto
  with False show ?thesis by (simp add: getInt32_number_def sqlite3Isdigit_is_dec)
next
  case True
  define t' where "t' = dropWhile (\<lambda>c. c = 0x30) t"
  define ds where "ds = takeWhile is_dec t'"
  have is0: "is_dec c" if "c = 0x30" for c using that by (simp add: is_dec_unat)
  have "takeWhile is_dec t = takeWhile (\<lambda>c. c = 0x30) t @ ds"
    unfolding ds_def t'_def using takeWhile_split [of "\<lambda>c. c = 0x30" is_dec t, OF is0] by simp
  then have val: "dec_value (takeWhile is_dec t) = dec_value ds"
    using dec_value_zeros [of "takeWhile (\<lambda>c. c = 0x30) t" ds] by (simp add: list_all_takeWhile)
  have ne: "takeWhile is_dec t \<noteq> []" using True by (cases t) (auto simp: is_dec_unat)
  have dec: "list_all is_dec ds" by (simp add: ds_def list_all_takeWhile)
  show ?thesis
  proof (cases "length ds \<le> 10")
    case short: True
    then have "getInt32_dec 0 0 t' = (length ds, int (dec_value ds))"
      using getInt32_dec_eq [of 0 t' 0] by (simp add: ds_def dec_value_def)
    then show ?thesis using True ne val short
      by (simp add: getInt32_number_def sqlite3Isdigit_is_dec Let_def flip: t'_def)
  next
    case False
    then have "fst (getInt32_dec 0 0 t') = 11" by (intro getInt32_dec_long) (simp_all add: ds_def)
    then have l: "getInt32_number neg t = None"
      using True by (auto simp: getInt32_number_def sqlite3Isdigit_is_dec Let_def simp flip: t'_def split: prod.splits)
    have "ds \<noteq> []" using False by auto
    moreover have "hd ds \<noteq> 48" using hd_digits \<open>ds \<noteq> []\<close> by (simp add: ds_def t'_def)
    moreover have "is_dec (hd ds)" using dec \<open>ds \<noteq> []\<close> by (cases ds) auto
    ultimately have "10 ^ (length ds - 1) \<le> dec_value ds" by (intro dec_value_ge)
    moreover have "(10::nat) ^ 10 \<le> 10 ^ (length ds - 1)" using False by (intro power_increasing) auto
    ultimately have "10 ^ 10 \<le> dec_value ds" by linarith
    with l val show ?thesis by (simp add: Let_def)
  qed
qed

text \<open>
  On text that is not a hexadecimal literal, \<open>sqlite3GetInt32\<close> reads an optional sign
  and the longest run of digits, ignores what follows, and succeeds exactly when there is a
  digit and the signed value lies in the 32-bit range, with that value; \<open>sqlite3Atoi\<close> is 0
  where it fails.
\<close>

theorem sqlite3GetInt32_correct:
  assumes "\<not> (chd z = 0x30 \<and> (chd (drop 1 z) = 0x78 \<or> chd (drop 1 z) = 0x58))"
  shows "(case signed_text z of (neg, t) \<Rightarrow>
     let ds = takeWhile is_dec t; v = (if neg then - int (dec_value ds) else int (dec_value ds))
     in if ds \<noteq> [] \<and> - (2 ^ 31) \<le> v \<and> v < 2 ^ 31
        then sqlite3GetInt32 z = Some v \<and> sqlite3Atoi z = v
        else sqlite3GetInt32 z = None \<and> sqlite3Atoi z = 0)"
proof -
  have "sqlite3GetInt32 z = (case signed_text z of (neg, t) \<Rightarrow> getInt32_number neg t)"
    using assms by (cases z) (auto simp: sqlite3GetInt32_def signed_text_def)
  then show ?thesis
    by (cases "signed_text z") (simp add: getInt32_number_eq sqlite3Atoi_def Let_def)
qed

theorem sqlite3GetInt32_correct_witness:
  "sqlite3GetInt32 [0x2d, 50, 49, 52, 55, 52, 56, 51, 54, 52, 56] = Some (-2147483648)"
proof -
  let ?z = "[0x2d, 50, 49, 52, 55, 52, 56, 51, 54, 52, 56] :: u8 list"
  have h: "\<not> (chd ?z = 0x30 \<and> (chd (drop 1 ?z) = 0x78 \<or> chd (drop 1 ?z) = 0x58))" by simp
  from sqlite3GetInt32_correct [OF h] show ?thesis
    by (simp add: signed_text_def is_dec_def dec_value_Cons Let_def)
qed

end
