(* ===== verification/Utf.thy ===== *)
theory Utf
  imports Util_Text
begin

text \<open>
  Encodings of text (\<open>utf.c\<close>): reading and writing one character in UTF-8 and in both byte
  orders of UTF-16, the translation of a whole value between the three encodings with its
  buffer bound, and byte-order marks. A pointer into a buffer is the list of the remaining
  bytes, which ends where the code's \<open>zTerm\<close> points.
\<close>

unbundle bit_operations_syntax

subsection \<open>Definitions\<close>

definition sqlite3Utf8Trans1 :: "u8 list" where
  "sqlite3Utf8Trans1 = [
    0x00, 0x01, 0x02, 0x03, 0x04, 0x05, 0x06, 0x07,
    0x08, 0x09, 0x0a, 0x0b, 0x0c, 0x0d, 0x0e, 0x0f,
    0x10, 0x11, 0x12, 0x13, 0x14, 0x15, 0x16, 0x17,
    0x18, 0x19, 0x1a, 0x1b, 0x1c, 0x1d, 0x1e, 0x1f,
    0x00, 0x01, 0x02, 0x03, 0x04, 0x05, 0x06, 0x07,
    0x08, 0x09, 0x0a, 0x0b, 0x0c, 0x0d, 0x0e, 0x0f,
    0x00, 0x01, 0x02, 0x03, 0x04, 0x05, 0x06, 0x07,
    0x00, 0x01, 0x02, 0x03, 0x00, 0x01, 0x00, 0x00]"

text \<open>The bytes that \<open>sqlite3AppendOneUtf8Character\<close> (and \<open>WRITE_UTF8\<close>) stores.\<close>

definition sqlite3AppendOneUtf8Character :: "u32 \<Rightarrow> u8 list" where
  "sqlite3AppendOneUtf8Character v =
     (if v < 0x80 then [ucast (v AND 0xff)]
      else if v < 0x800 then
        [0xc0 + ucast (drop_bit 6 v AND 0x1f),
         0x80 + ucast (v AND 0x3f)]
      else if v < 0x10000 then
        [0xe0 + ucast (drop_bit 12 v AND 0x0f),
         0x80 + ucast (drop_bit 6 v AND 0x3f),
         0x80 + ucast (v AND 0x3f)]
      else
        [0xf0 + ucast (drop_bit 18 v AND 0x07),
         0x80 + ucast (drop_bit 12 v AND 0x3f),
         0x80 + ucast (drop_bit 6 v AND 0x3f),
         0x80 + ucast (v AND 0x3f)])"

fun utf8_continuation :: "u32 \<Rightarrow> u8 list \<Rightarrow> u32 \<times> u8 list" where
  "utf8_continuation c [] = (c, [])"
| "utf8_continuation c (b # z) =
     (if b AND 0xc0 = 0x80 then utf8_continuation (push_bit 6 c + ucast (0x3f AND b)) z
      else (c, b # z))"

text \<open>\<open>READ_UTF8\<close>; \<open>sqlite3Utf8Read\<close> is the same with the terminator in the place of \<open>zTerm\<close>.\<close>

definition READ_UTF8 :: "u8 list \<Rightarrow> u32 \<times> u8 list" where
  "READ_UTF8 z =
     (let c = chd z; z = tl z in
      if c \<ge> 0xc0 then
        let (c, z) = utf8_continuation (ucast (sqlite3Utf8Trans1 ! unat (c - 0xc0))) z
        in if c < 0x80 \<or> c AND 0xFFFFF800 = 0xD800 \<or> c AND 0xFFFFFFFE = 0xFFFE
           then (0xFFFD, z) else (c, z)
      else (ucast c, z))"

text \<open>\<open>sqlite3Utf8ReadLimited\<close>: \<open>k\<close> more bytes may be read.\<close>

fun utf8_limited :: "nat \<Rightarrow> u32 \<Rightarrow> nat \<Rightarrow> u8 list \<Rightarrow> u32 \<times> nat" where
  "utf8_limited 0 c i z = (c, i)"
| "utf8_limited (Suc k) c i z =
     (if z \<noteq> [] \<and> chd z AND 0xc0 = 0x80
      then utf8_limited k (push_bit 6 c + ucast (0x3f AND chd z)) (i + 1) (tl z)
      else (c, i))"

definition sqlite3Utf8ReadLimited :: "u8 list \<Rightarrow> u32 \<times> nat" where
  "sqlite3Utf8ReadLimited z =
     (let c = chd z in
      if c \<ge> 0xc0 then utf8_limited 3 (ucast (sqlite3Utf8Trans1 ! unat (c - 0xc0))) 1 (tl z)
      else (ucast c, 1))"

definition WRITE_UTF16LE :: "u32 \<Rightarrow> u8 list" where
  "WRITE_UTF16LE c =
     (if c \<le> 0xFFFF then [ucast (c AND 0x00FF), ucast (drop_bit 8 c AND 0x00FF)]
      else
        [ucast ((drop_bit 10 c AND 0x003F) + (drop_bit 10 (c - 0x10000) AND 0x00C0)),
         ucast (0x00D8 + (drop_bit 18 (c - 0x10000) AND 0x03)),
         ucast (c AND 0x00FF),
         ucast (0x00DC + (drop_bit 8 c AND 0x03))])"

definition WRITE_UTF16BE :: "u32 \<Rightarrow> u8 list" where
  "WRITE_UTF16BE c =
     (if c \<le> 0xFFFF then [ucast (drop_bit 8 c AND 0x00FF), ucast (c AND 0x00FF)]
      else
        [ucast (0x00D8 + (drop_bit 18 (c - 0x10000) AND 0x03)),
         ucast ((drop_bit 10 c AND 0x003F) + (drop_bit 10 (c - 0x10000) AND 0x00C0)),
         ucast (0x00DC + (drop_bit 8 c AND 0x03)),
         ucast (c AND 0x00FF)])"

text \<open>
  One turn of the loops that read UTF-16 (the branch without
  \<open>SQLITE_REPLACE_INVALID_UTF\<close>): two bytes, and two more when they are a surrogate and the
  end is not reached. The input has an even number of bytes.
\<close>

definition surrogate_pair :: "u32 \<Rightarrow> u32 \<Rightarrow> u32" where
  "surrogate_pair c c2 = (c2 AND 0x03FF) + push_bit 10 (c AND 0x003F) + push_bit 10 ((c AND 0x03C0) + 0x0040)"

fun read_utf16le :: "u8 list \<Rightarrow> u32 \<times> u8 list" where
  "read_utf16le (b0 # b1 # z) =
     (let c = ucast b0; c = c + push_bit 8 (ucast b1) in
      if c \<ge> 0xd800 \<and> c < 0xe000 then
        (case z of
           b2 # b3 # z' \<Rightarrow>
             let c2 = ucast b2; c2 = c2 + push_bit 8 (ucast b3) in (surrogate_pair c c2, z')
         | _ \<Rightarrow> (c, z))
      else (c, z))"
| "read_utf16le z = (0, [])"

fun read_utf16be :: "u8 list \<Rightarrow> u32 \<times> u8 list" where
  "read_utf16be (b0 # b1 # z) =
     (let c = push_bit 8 (ucast b0); c = c + ucast b1 in
      if c \<ge> 0xd800 \<and> c < 0xe000 then
        (case z of
           b2 # b3 # z' \<Rightarrow>
             let c2 = push_bit 8 (ucast b2); c2 = c2 + ucast b3 in (surrogate_pair c c2, z')
         | _ \<Rightarrow> (c, z))
      else (c, z))"
| "read_utf16be z = (0, [])"

lemma utf8_continuation_length: "length (snd (utf8_continuation c z)) \<le> length z"
  by (induction c z rule: utf8_continuation.induct) auto

lemma READ_UTF8_length: "z \<noteq> [] \<Longrightarrow> length (snd (READ_UTF8 z)) < length z"
proof -
  assume "z \<noteq> []"
  then obtain b z' where z: "z = b # z'" by (cases z) auto
  show ?thesis
    using utf8_continuation_length [of "ucast (sqlite3Utf8Trans1 ! unat (b - 0xc0))" z'] z
    by (auto simp: READ_UTF8_def Let_def split: prod.splits)
qed

lemma read_utf16le_length: "z \<noteq> [] \<Longrightarrow> length (snd (read_utf16le z)) < length z"
  by (induction z rule: read_utf16le.induct) (auto simp: Let_def split: list.splits)

lemma read_utf16be_length: "z \<noteq> [] \<Longrightarrow> length (snd (read_utf16be z)) < length z"
  by (induction z rule: read_utf16be.induct) (auto simp: Let_def split: list.splits)

text \<open>The four translation loops: read a character, write it, while \<open>zIn < zTerm\<close>.\<close>

function translate_loop :: "(u8 list \<Rightarrow> u32 \<times> u8 list) \<Rightarrow> (u32 \<Rightarrow> u8 list) \<Rightarrow> u8 list \<Rightarrow> u8 list" where
  "translate_loop rdc wrc z =
     (if z = [] then []
      else case rdc z of (c, z') \<Rightarrow>
        if length z' < length z then wrc c @ translate_loop rdc wrc z' else wrc c)"
  by pat_completeness auto
termination by (relation "measure (\<lambda>(rdc, wrc, z). length z)") auto

declare translate_loop.simps [simp del]

fun swap_bytes :: "u8 list \<Rightarrow> u8 list" where
  "swap_bytes (a # b # z) = b # a # swap_bytes z"
| "swap_bytes z = z"

text \<open>
  A \<open>Mem\<close> that holds a string: its encoding and its \<open>n\<close> bytes, and the terminator the
  translation stores after them. \<open>writeable\<close> and \<open>alloc\<close> say whether the value can be made
  writeable and whether the output buffer of the given size can be allocated.
\<close>

record mem =
  m_enc :: encoding
  m_z :: "u8 list"
  m_term :: "u8 list"

datatype translate_result = SQLITE_NOMEM | SQLITE_OK mem

definition even_bytes :: "u8 list \<Rightarrow> u8 list" where
  "even_bytes z = take (length z - length z mod 2) z"

definition translate_len :: "mem \<Rightarrow> encoding \<Rightarrow> nat" where
  "translate_len pMem desiredEnc =
     (if desiredEnc = SQLITE_UTF8 then 2 * length (even_bytes (m_z pMem)) + 1
      else 2 * length (m_z pMem) + 2)"

definition sqlite3VdbeMemTranslate :: "bool \<Rightarrow> (nat \<Rightarrow> bool) \<Rightarrow> mem \<Rightarrow> encoding \<Rightarrow> translate_result" where
  "sqlite3VdbeMemTranslate writeable alloc pMem desiredEnc =
     (if m_enc pMem \<noteq> SQLITE_UTF8 \<and> desiredEnc \<noteq> SQLITE_UTF8 then
        if \<not> writeable then SQLITE_NOMEM
        else SQLITE_OK (pMem\<lparr>m_z := swap_bytes (even_bytes (m_z pMem)) @ drop (length (even_bytes (m_z pMem))) (m_z pMem),
                             m_enc := desiredEnc\<rparr>)
      else if \<not> alloc (translate_len pMem desiredEnc) then SQLITE_NOMEM
      else if m_enc pMem = SQLITE_UTF8 then
        SQLITE_OK \<lparr>m_enc = desiredEnc,
          m_z = translate_loop READ_UTF8 (if desiredEnc = SQLITE_UTF16LE then WRITE_UTF16LE else WRITE_UTF16BE) (m_z pMem),
          m_term = [0, 0]\<rparr>
      else
        SQLITE_OK \<lparr>m_enc = desiredEnc,
          m_z = translate_loop (if m_enc pMem = SQLITE_UTF16LE then read_utf16le else read_utf16be)
                  sqlite3AppendOneUtf8Character (even_bytes (m_z pMem)),
          m_term = [0]\<rparr>)"

definition sqlite3VdbeMemHandleBom :: "bool \<Rightarrow> mem \<Rightarrow> translate_result" where
  "sqlite3VdbeMemHandleBom writeable pMem =
     (let bom =
        (case m_z pMem of
           b1 # b2 # _ \<Rightarrow>
             if b1 = 0xFE \<and> b2 = 0xFF then Some SQLITE_UTF16BE
             else if b1 = 0xFF \<and> b2 = 0xFE then Some SQLITE_UTF16LE else None
         | _ \<Rightarrow> None)
      in case bom of
           None \<Rightarrow> SQLITE_OK pMem
         | Some e \<Rightarrow>
             if \<not> writeable then SQLITE_NOMEM
             else SQLITE_OK \<lparr>m_enc = e, m_z = drop 2 (m_z pMem), m_term = [0, 0]\<rparr>)"

fun skip_continuation :: "u8 list \<Rightarrow> u8 list" where
  "skip_continuation [] = []"
| "skip_continuation (b # z) = (if b AND 0xc0 = 0x80 then skip_continuation z else b # z)"

definition SQLITE_SKIP_UTF8 :: "u8 list \<Rightarrow> u8 list" where
  "SQLITE_SKIP_UTF8 z = (if chd z \<ge> 0xc0 then skip_continuation (tl z) else tl z)"

lemma skip_continuation_length: "length (skip_continuation z) \<le> length z"
  by (induction z) auto

text \<open>\<open>sqlite3Utf8CharLen\<close> on a string of \<open>nByte\<close> bytes, or up to its terminator.\<close>

function sqlite3Utf8CharLen :: "u8 list \<Rightarrow> nat" where
  "sqlite3Utf8CharLen z = (if z \<noteq> [] \<and> chd z \<noteq> 0 then Suc (sqlite3Utf8CharLen (SQLITE_SKIP_UTF8 z)) else 0)"
  by pat_completeness auto
termination
proof (relation "measure length")
  fix z :: "u8 list" assume "z \<noteq> [] \<and> chd z \<noteq> 0"
  then show "(SQLITE_SKIP_UTF8 z, z) \<in> measure length"
    using skip_continuation_length [of "tl z"] by (cases z) (auto simp: SQLITE_SKIP_UTF8_def)
qed simp

declare sqlite3Utf8CharLen.simps [simp del]


subsection \<open>The code's masks as arithmetic\<close>

named_theorems val "unsigned values of the code's bit expressions"

lemma byte_cases:
  assumes "list_all P (map word_of_nat [0..<256])"
  shows "P (c :: u8)"
proof -
  have "unat c \<in> set [0..<256]" using unat_u8 [of c] by simp
  then have "P (word_of_nat (unat c))" using assms unfolding list_all_iff by (metis image_eqI set_map)
  then show ?thesis by simp
qed

lemma cont_iff: "(b :: u8) AND 0xc0 = 0x80 \<longleftrightarrow> unat b div 64 = 2"
  by (rule byte_cases [where P = "\<lambda>b. (b AND 0xc0 = 0x80) = (unat b div 64 = 2)"]) code_simp

lemma unat_mask_u32: "unat ((x :: u32) AND mask k) = unat x mod 2 ^ k"
  using take_bit_eq_mod [of k "unat x"] by (simp add: take_bit_eq_mask [symmetric] unsigned_take_bit_eq)

lemma unat_drop_u32: "unat (drop_bit k (x :: u32)) = unat x div 2 ^ k"
  using drop_bit_eq_div [of k "unat x"] by (simp add: unat_drop_bit_eq)

lemma mask_numerals:
  "0xff = (mask 8 :: u32)" "0x3ff = (mask 10 :: u32)" "0x3f = (mask 6 :: u32)" "0x1f = (mask 5 :: u32)"
  "0x0f = (mask 4 :: u32)" "0x07 = (mask 3 :: u32)" "0x03 = (mask 2 :: u32)"
  by (simp_all add: mask_eq_exp_minus_1)

lemma unat_and_numerals [val]:
  "unat ((x :: u32) AND 0xff) = unat x mod 256" "unat (x AND 0x3ff) = unat x mod 1024"
  "unat (x AND 0x3f) = unat x mod 64" "unat (x AND 0x1f) = unat x mod 32"
  "unat (x AND 0x0f) = unat x mod 16" "unat (x AND 0x07) = unat x mod 8" "unat (x AND 0x03) = unat x mod 4"
  unfolding mask_numerals unat_mask_u32 by simp_all

lemma unat_drop_numerals [val]:
  "unat (drop_bit 6 (x :: u32)) = unat x div 64" "unat (drop_bit 8 x) = unat x div 256"
  "unat (drop_bit 10 x) = unat x div 1024"
  "unat (drop_bit 12 x) = unat x div 4096" "unat (drop_bit 18 x) = unat x div 262144"
  by (simp_all add: unat_drop_u32)

lemma unat_ucast_u8 [val]: "unat (ucast (x :: u32) :: u8) = unat x mod 256"
  by (simp add: unsigned_ucast_eq take_bit_eq_mod)

lemma unat_add_u8: "unat a + unat b < 256 \<Longrightarrow> unat (a + b :: u8) = unat a + unat b"
  by (simp add: unat_word_ariths)

lemma unat_add_u32: "unat a + unat b < 4294967296 \<Longrightarrow> unat (a + b :: u32) = unat a + unat b"
  by (simp add: unat_word_ariths)

lemma unat_lead_byte [val]:
  "unat (0xc0 + ucast (drop_bit 6 v AND 0x1f) :: u8) = 192 + unat v div 64 mod 32"
  "unat (0xe0 + ucast (drop_bit 12 v AND 0x0f) :: u8) = 224 + unat v div 4096 mod 16"
  "unat (0xf0 + ucast (drop_bit 18 v AND 0x07) :: u8) = 240 + unat v div 262144 mod 8"
  "unat (0x80 + ucast (drop_bit 12 v AND 0x3f) :: u8) = 128 + unat v div 4096 mod 64"
  "unat (0x80 + ucast (drop_bit 6 v AND 0x3f) :: u8) = 128 + unat v div 64 mod 64"
  "unat (0x80 + ucast (v AND 0x3f) :: u8) = 128 + unat v mod 64" for v :: u32
  by (subst unat_add_u8; simp add: val; fail)+

lemma word_of_unat: "word_of_nat (unat (x :: u32)) = x"
  by simp

lemma sqlite3Utf8Trans1_nth:
  assumes "k < 64"
  shows "unat (sqlite3Utf8Trans1 ! k) = (if k < 32 then k else if k < 48 then k - 32
    else if k < 56 then k - 48 else if k < 60 then k - 56 else if k = 61 then 1 else 0)"
proof -
  have "list_all (\<lambda>k. unat (sqlite3Utf8Trans1 ! k) = (if k < 32 then k else if k < 48 then k - 32
    else if k < 56 then k - 48 else if k < 60 then k - 56 else if k = 61 then 1 else 0)) [0..<64]"
    by code_simp
  with assms show ?thesis by (simp add: list_all_iff)
qed

lemma ucast_u8_u32: "(ucast (c :: u8) :: u32) = word_of_nat (unat c)"
  by (simp add: word_of_nat_eq_iff unsigned_of_nat)

lemma trans1:
  assumes "unat (b :: u8) = 192 + k"
  shows "ucast (sqlite3Utf8Trans1 ! unat (b - 0xc0)) = (word_of_nat (if k < 32 then k else if k < 48 then k - 32
    else if k < 56 then k - 48 else if k < 60 then k - 56 else if k = 61 then 1 else 0) :: u32)"
proof -
  have k: "k < 64" using assms unat_u8 [of b] by simp
  have "0xc0 \<le> b" using assms by (simp add: word_le_nat_alt)
  then have "unat (b - 0xc0) = k" using assms by (simp add: unat_sub)
  then have "unat (sqlite3Utf8Trans1 ! unat (b - 0xc0)) = (if k < 32 then k else if k < 48 then k - 32
    else if k < 56 then k - 48 else if k < 60 then k - 56 else if k = 61 then 1 else 0)"
    using sqlite3Utf8Trans1_nth [OF k] by simp
  then show ?thesis by (simp only: ucast_u8_u32)
qed

lemma push6_add:
  "push_bit 6 (word_of_nat a) + ucast (0x3f AND b) = (word_of_nat (a * 64 + unat b mod 64) :: u32)" for b :: u8
proof -
  have "0x3f AND b = take_bit 6 b" by (simp add: take_bit_eq_mask mask_eq_exp_minus_1 and.commute)
  then have "unat (0x3f AND b) = unat b mod 64"
    using take_bit_eq_mod [of 6 "unat b"] by (simp add: unsigned_take_bit_eq)
  then show ?thesis by (simp add: push_bit_eq_mult ucast_u8_u32)
qed

lemma utf8_continuation_step:
  "unat b div 64 = 2 \<Longrightarrow>
   utf8_continuation (word_of_nat a) (b # z) = utf8_continuation (word_of_nat (a * 64 + unat b mod 64)) z"
  by (simp add: cont_iff push6_add del: of_nat_add of_nat_mult)

lemma utf8_continuation_stop: "unat (chd z) div 64 \<noteq> 2 \<Longrightarrow> utf8_continuation c z = (c, z)"
  by (cases z) (simp_all add: cont_iff)

lemma utf8_limited_step:
  "unat b div 64 = 2 \<Longrightarrow>
   utf8_limited (Suc k) (word_of_nat a) i (b # z) = utf8_limited k (word_of_nat (a * 64 + unat b mod 64)) (i + 1) z"
  by (simp add: cont_iff push6_add del: of_nat_add of_nat_mult)

lemma utf8_limited_stop: "unat (chd z) div 64 \<noteq> 2 \<Longrightarrow> utf8_limited k c i z = (c, i)"
  by (cases k) (simp_all add: cont_iff)

lemma cont_val: "(128 + k mod 64) div 64 = 2" "(128 + k mod 64) mod 64 = k mod 64" for k :: nat
proof -
  have a: "(128 + m) div 64 = 2 \<and> (128 + m) mod 64 = m" if "m < 64" for m :: nat
  proof -
    have "(128 + m) div 64 = 2" using that by (simp add: nat_div_eq_iff)
    moreover have "(128 + m) div 64 * 64 + (128 + m) mod 64 = 128 + m" by (rule div_mult_mod_eq)
    ultimately show ?thesis by simp
  qed
  have "k mod 64 < 64" by simp
  from a [OF this] show "(128 + k mod 64) div 64 = 2" "(128 + k mod 64) mod 64 = k mod 64" by blast+
qed

lemma div_digits:
  "n < 2048 \<Longrightarrow> n div 64 mod 32 = n div 64"
  "n < 65536 \<Longrightarrow> n div 4096 mod 16 = n div 4096"
  "n < 2097152 \<Longrightarrow> n div 262144 mod 8 = n div 262144" for n :: nat
  by (simp_all add: div_less_iff_less_mult less_mult_imp_div_less)

lemma digits64:
  "n div 64 * 64 + n mod 64 = n"
  "(n div 4096 * 64 + n div 64 mod 64) * 64 + n mod 64 = n"
  "((n div 262144 * 64 + n div 4096 mod 64) * 64 + n div 64 mod 64) * 64 + n mod 64 = n" for n :: nat
proof -
  have a: "n div 4096 = n div 64 div 64" "n div 262144 = n div 64 div 64 div 64"
    by (simp_all add: div_mult2_eq [symmetric])
  show "n div 64 * 64 + n mod 64 = n" by simp
  show "(n div 4096 * 64 + n div 64 mod 64) * 64 + n mod 64 = n" unfolding a by simp
  show "((n div 262144 * 64 + n div 4096 mod 64) * 64 + n div 64 mod 64) * 64 + n mod 64 = n"
    unfolding a by simp
qed

definition utf8_lead :: "u8 \<Rightarrow> u32" where
  "utf8_lead b = ucast (sqlite3Utf8Trans1 ! unat (b - 0xc0))"

text \<open>What follows the lead byte of a character of two to four bytes, for both readers.\<close>

lemma utf8_multibyte:
  assumes v: "0x80 \<le> unat v" "unat v < 0x110000" and r: "unat (chd r) div 64 \<noteq> 2"
  obtains b t where "sqlite3AppendOneUtf8Character v = b # t" and "192 \<le> unat b"
    and "utf8_continuation (utf8_lead b) (t @ r) = (v, r)"
    and "utf8_limited 3 (utf8_lead b) 1 (t @ r) = (v, Suc (length t))"
    and "length t \<le> 3"
proof -
  let ?n = "unat v"
  have lt: "v < 0x80 \<longleftrightarrow> ?n < 0x80" "v < 0x800 \<longleftrightarrow> ?n < 0x800" "v < 0x10000 \<longleftrightarrow> ?n < 0x10000"
    by (simp_all add: word_less_nat_alt)
  have lead: "utf8_lead b = word_of_nat (if k < 32 then k else if k < 48 then k - 32
    else if k < 56 then k - 48 else if k < 60 then k - 56 else if k = 61 then 1 else 0)"
    if "unat b = 192 + k" for b k
    using trans1 [OF that] by (simp only: utf8_lead_def)
  have num3: "(3::nat) = Suc (Suc (Suc 0))" by simp
  consider "?n < 0x800" | "0x800 \<le> ?n" "?n < 0x10000" | "0x10000 \<le> ?n" by linarith
  then show thesis
  proof cases
    case 1
    let ?b = "0xc0 + ucast (drop_bit 6 v AND 0x1f) :: u8" and ?b1 = "0x80 + ucast (v AND 0x3f) :: u8"
    have b: "unat ?b = 192 + ?n div 64" "unat ?b1 = 128 + ?n mod 64" using 1 by (simp_all only: val div_digits)
    have k: "?n div 64 < 32" using 1 by (simp add: less_mult_imp_div_less)
    have L: "utf8_lead ?b = word_of_nat (?n div 64)" using lead [OF b(1)] k by simp
    have c1: "unat ?b1 div 64 = 2" "unat ?b1 mod 64 = ?n mod 64" unfolding b cont_val by (rule refl)+
    have e: "word_of_nat (?n div 64 * 64 + ?n mod 64) = v" by (simp only: digits64 word_of_unat)
    show thesis
    proof (rule that)
      show "sqlite3AppendOneUtf8Character v = ?b # [?b1]" using 1 v lt by (simp add: sqlite3AppendOneUtf8Character_def)
      show "192 \<le> unat ?b" unfolding b by simp
      show "utf8_continuation (utf8_lead ?b) ([?b1] @ r) = (v, r)"
        unfolding L append.simps utf8_continuation_step [OF c1(1)] c1(2) e by (rule utf8_continuation_stop [OF r])
      show "utf8_limited 3 (utf8_lead ?b) 1 ([?b1] @ r) = (v, Suc (length [?b1]))"
        unfolding L append.simps num3 utf8_limited_step [OF c1(1)] c1(2) e utf8_limited_stop [OF r] by simp
    qed simp
  next
    case 2
    let ?b = "0xe0 + ucast (drop_bit 12 v AND 0x0f) :: u8" and ?b1 = "0x80 + ucast (drop_bit 6 v AND 0x3f) :: u8"
    let ?b2 = "0x80 + ucast (v AND 0x3f) :: u8"
    have b: "unat ?b = 224 + ?n div 4096" "unat ?b1 = 128 + ?n div 64 mod 64" "unat ?b2 = 128 + ?n mod 64"
      using 2 by (simp_all only: val div_digits)
    have k: "?n div 4096 < 16" using 2 by (simp add: less_mult_imp_div_less)
    have b': "unat ?b = 192 + (32 + ?n div 4096)" using b(1) by simp
    have L: "utf8_lead ?b = word_of_nat (?n div 4096)" using lead [OF b'] k by simp
    have c1: "unat ?b1 div 64 = 2" "unat ?b1 mod 64 = ?n div 64 mod 64" unfolding b cont_val by (rule refl)+
    have c2: "unat ?b2 div 64 = 2" "unat ?b2 mod 64 = ?n mod 64" unfolding b cont_val by (rule refl)+
    have e: "word_of_nat ((?n div 4096 * 64 + ?n div 64 mod 64) * 64 + ?n mod 64) = v"
      by (simp only: digits64 word_of_unat)
    show thesis
    proof (rule that)
      show "sqlite3AppendOneUtf8Character v = ?b # [?b1, ?b2]" using 2 lt by (simp add: sqlite3AppendOneUtf8Character_def)
      show "192 \<le> unat ?b" unfolding b by simp
      show "utf8_continuation (utf8_lead ?b) ([?b1, ?b2] @ r) = (v, r)"
        unfolding L append.simps utf8_continuation_step [OF c1(1)] c1(2) utf8_continuation_step [OF c2(1)] c2(2) e
        by (rule utf8_continuation_stop [OF r])
      show "utf8_limited 3 (utf8_lead ?b) 1 ([?b1, ?b2] @ r) = (v, Suc (length [?b1, ?b2]))"
        unfolding L append.simps num3 utf8_limited_step [OF c1(1)] c1(2) utf8_limited_step [OF c2(1)] c2(2) e
          utf8_limited_stop [OF r] by simp
    qed simp
  next
    case 3
    let ?b = "0xf0 + ucast (drop_bit 18 v AND 0x07) :: u8" and ?b1 = "0x80 + ucast (drop_bit 12 v AND 0x3f) :: u8"
    let ?b2 = "0x80 + ucast (drop_bit 6 v AND 0x3f) :: u8" and ?b3 = "0x80 + ucast (v AND 0x3f) :: u8"
    have "?n < 2097152" using v by simp
    then have b: "unat ?b = 240 + ?n div 262144" "unat ?b1 = 128 + ?n div 4096 mod 64"
      "unat ?b2 = 128 + ?n div 64 mod 64" "unat ?b3 = 128 + ?n mod 64"
      by (simp_all only: val div_digits)
    have k: "?n div 262144 < 8" using v by (simp add: less_mult_imp_div_less)
    have b': "unat ?b = 192 + (48 + ?n div 262144)" using b(1) by simp
    have L: "utf8_lead ?b = word_of_nat (?n div 262144)" using lead [OF b'] k by simp
    have c1: "unat ?b1 div 64 = 2" "unat ?b1 mod 64 = ?n div 4096 mod 64" unfolding b cont_val by (rule refl)+
    have c2: "unat ?b2 div 64 = 2" "unat ?b2 mod 64 = ?n div 64 mod 64" unfolding b cont_val by (rule refl)+
    have c3: "unat ?b3 div 64 = 2" "unat ?b3 mod 64 = ?n mod 64" unfolding b cont_val by (rule refl)+
    have e: "word_of_nat (((?n div 262144 * 64 + ?n div 4096 mod 64) * 64 + ?n div 64 mod 64) * 64 + ?n mod 64) = v"
      by (simp only: digits64 word_of_unat)
    show thesis
    proof (rule that)
      show "sqlite3AppendOneUtf8Character v = ?b # [?b1, ?b2, ?b3]" using 3 lt by (simp add: sqlite3AppendOneUtf8Character_def)
      show "192 \<le> unat ?b" unfolding b by simp
      show "utf8_continuation (utf8_lead ?b) ([?b1, ?b2, ?b3] @ r) = (v, r)"
        unfolding L append.simps utf8_continuation_step [OF c1(1)] c1(2) utf8_continuation_step [OF c2(1)] c2(2)
          utf8_continuation_step [OF c3(1)] c3(2) e
        by (rule utf8_continuation_stop [OF r])
      show "utf8_limited 3 (utf8_lead ?b) 1 ([?b1, ?b2, ?b3] @ r) = (v, Suc (length [?b1, ?b2, ?b3]))"
        unfolding L append.simps num3 utf8_limited_step [OF c1(1)] c1(2) utf8_limited_step [OF c2(1)] c2(2)
          utf8_limited_step [OF c3(1)] c3(2) e utf8_limited.simps(1) by simp
    qed simp
  qed
qed

subsection \<open>Characters survive UTF-8\<close>

lemma surrogate_mask: "c AND 0xFFFFF800 = 0xD800 \<longleftrightarrow> unat c div 2048 = 27" for c :: u32
proof -
  have a: "c AND 0xFFFFF800 = push_bit 11 (drop_bit 11 c)" by (rule u32_eqI, simp add: bit_simps)
  have b: "drop_bit 11 (push_bit 11 (drop_bit 11 c)) = drop_bit 11 c" by (rule u32_eqI, simp add: bit_simps)
  have u: "unat (drop_bit 11 c) = unat c div 2048" using unat_drop_u32 [of 11 c] by simp
  have "push_bit 11 (drop_bit 11 c) = 0xD800 \<longleftrightarrow> drop_bit 11 c = 27"
  proof
    assume "push_bit 11 (drop_bit 11 c) = 0xD800"
    then have "drop_bit 11 (push_bit 11 (drop_bit 11 c)) = drop_bit 11 0xD800" by simp
    then show "drop_bit 11 c = 27" unfolding b by simp
  qed simp
  moreover have "drop_bit 11 c = 27 \<longleftrightarrow> unat (drop_bit 11 c) = unat (27 :: u32)" by (simp only: word_unat_eq_iff)
  ultimately show ?thesis by (simp add: a u)
qed

lemma fffe_mask: "c AND 0xFFFFFFFE = 0xFFFE \<longleftrightarrow> c = 0xFFFE \<or> c = 0xFFFF" for c :: u32
proof -
  have c: "c = (c AND 0xFFFFFFFE) OR (if bit c 0 then 1 else 0)"
    by (rule u32_eqI, simp add: bit_simps)
  show ?thesis
  proof
    assume "c AND 0xFFFFFFFE = 0xFFFE"
    with c have "c = 0xFFFE OR (if bit c 0 then 1 else 0)" by metis
    then show "c = 0xFFFE \<or> c = 0xFFFF" by (cases "bit c 0") simp_all
  qed auto
qed

text \<open>The characters the reader replaces by U+FFFD when they are written in several bytes.\<close>

definition replaced :: "u32 \<Rightarrow> bool" where
  "replaced v \<longleftrightarrow> 0xD800 \<le> v \<and> v < 0xE000 \<or> v = 0xFFFE \<or> v = 0xFFFF"

lemma replaced_masks: "v AND 0xFFFFF800 = 0xD800 \<or> v AND 0xFFFFFFFE = 0xFFFE \<longleftrightarrow> replaced v"
proof -
  have "n div 2048 = 27 \<longleftrightarrow> 0xD800 \<le> n \<and> n < 0xE000" for n :: nat
    by (simp add: nat_div_eq_iff)
  then show ?thesis by (simp add: surrogate_mask fffe_mask replaced_def word_le_nat_alt word_less_nat_alt)
qed

lemma append_ascii:
  assumes "unat v < 0x80"
  shows "sqlite3AppendOneUtf8Character v = [ucast v]" and "unat (ucast v :: u8) = unat v"
    and "(ucast (ucast v :: u8) :: u32) = v"
proof -
  have "unat (v AND 0xff) = unat v" using assms by (simp add: val)
  then have "v AND 0xff = v" by (simp add: word_unat_eq_iff)
  moreover have "v < 0x80" using assms by (simp add: word_less_nat_alt)
  ultimately show "sqlite3AppendOneUtf8Character v = [ucast v]" by (simp add: sqlite3AppendOneUtf8Character_def)
  show u: "unat (ucast v :: u8) = unat v" using assms by (simp add: val)
  show "(ucast (ucast v :: u8) :: u32) = v" by (simp only: ucast_u8_u32 u word_of_unat)
qed

lemma ge_c0: "(0xc0 :: u8) \<le> b \<longleftrightarrow> 192 \<le> unat b"
  by (simp add: word_le_nat_alt)

lemma utf8_read:
  assumes "unat v < 0x110000" and "unat (chd rest) div 64 \<noteq> 2"
  shows "READ_UTF8 (sqlite3AppendOneUtf8Character v @ rest) = (if replaced v then 0xFFFD else v, rest)"
proof (cases "unat v < 0x80")
  case True
  note a = append_ascii [OF True]
  have "\<not> replaced v" using True by (auto simp: replaced_def word_le_nat_alt)
  moreover have "\<not> (0xc0 :: u8) \<le> ucast v" using True by (simp add: ge_c0 a)
  ultimately show ?thesis by (simp add: READ_UTF8_def a)
next
  case False
  then have v: "0x80 \<le> unat v" by simp
  obtain b t where bt: "sqlite3AppendOneUtf8Character v = b # t" "192 \<le> unat b"
    "utf8_continuation (utf8_lead b) (t @ rest) = (v, rest)"
    using v assms by (rule utf8_multibyte)
  have "\<not> v < 0x80" using False by (simp add: word_less_nat_alt)
  then show ?thesis
    using bt by (simp add: READ_UTF8_def ge_c0 utf8_lead_def replaced_masks Let_def)
qed

text \<open>
  C13. For every code point below \<open>0x110000\<close>, followed by anything that does not start with
  a continuation byte, the bytes \<open>sqlite3AppendOneUtf8Character\<close> writes are at most four and
  the reader consumes exactly them. \<open>READ_UTF8\<close> returns the code point, except that a
  surrogate, U+FFFE and U+FFFF read back as U+FFFD; \<open>sqlite3Utf8ReadLimited\<close> returns it
  always. This is the property that \<open>sqlite3UtfSelfTest\<close> of the code checks.
\<close>

theorem utf8_selftest:
  assumes "unat v < 0x110000" and "unat (chd rest) div 64 \<noteq> 2"
  shows "READ_UTF8 (sqlite3AppendOneUtf8Character v @ rest) = (if replaced v then 0xFFFD else v, rest)
    \<and> sqlite3Utf8ReadLimited (sqlite3AppendOneUtf8Character v @ rest)
        = (v, length (sqlite3AppendOneUtf8Character v))
    \<and> length (sqlite3AppendOneUtf8Character v) \<in> {1, 2, 3, 4}"
proof (cases "unat v < 0x80")
  case True
  note a = append_ascii [OF True]
  have "\<not> (0xc0 :: u8) \<le> ucast v" using True by (simp add: ge_c0 a)
  then show ?thesis using utf8_read [OF assms] by (simp add: sqlite3Utf8ReadLimited_def a)
next
  case False
  then have v: "0x80 \<le> unat v" by simp
  obtain b t where bt: "sqlite3AppendOneUtf8Character v = b # t" "192 \<le> unat b"
    "utf8_limited 3 (utf8_lead b) 1 (t @ rest) = (v, Suc (length t))" "length t \<le> 3"
    using v assms by (rule utf8_multibyte)
  have "sqlite3Utf8ReadLimited (b # t @ rest) = (v, Suc (length t))"
    using bt(2,3) by (simp add: sqlite3Utf8ReadLimited_def ge_c0 utf8_lead_def Let_def)
  moreover have "Suc k \<in> {1, 2, 3, 4}" if "k \<le> 3" for k using that by (simp, arith)
  from this [OF bt(4)] have "Suc (length t) \<in> {1, 2, 3, 4}" .
  ultimately show ?thesis using utf8_read [OF assms] unfolding bt(1) by simp
qed

theorem utf8_selftest_witness:
  "READ_UTF8 (sqlite3AppendOneUtf8Character 0x1F600 @ [0x41]) = (0x1F600, [0x41])"
proof -
  have h: "unat (0x1F600 :: u32) < 0x110000" "unat (chd [0x41]) div 64 \<noteq> 2" by simp_all
  from utf8_selftest [OF h] show ?thesis by (simp add: replaced_def)
qed

subsection \<open>Characters survive UTF-16\<close>

lemma unat_push6: "unat x < 4096 \<Longrightarrow> unat (push_bit 6 (x :: u32)) = unat x * 64"
  by (simp add: push_bit_eq_mult unat_word_ariths)

lemma unat_and_mid [val]:
  "unat ((x :: u32) AND 0xC0) = unat x div 64 mod 4 * 64"
  "unat (x AND 0x3C0) = unat x div 64 mod 16 * 64"
proof -
  have a: "x AND 0xC0 = push_bit 6 (drop_bit 6 x AND 0x03)" "x AND 0x3C0 = push_bit 6 (drop_bit 6 x AND 0x0f)"
    by (rule u32_eqI, simp add: bit_simps)+
  have b: "unat (drop_bit 6 x AND 0x03) < 4096" "unat (drop_bit 6 x AND 0x0f) < 4096"
    by (simp_all add: val order_less_trans [OF mod_less_divisor])
  show "unat (x AND 0xC0) = unat x div 64 mod 4 * 64" unfolding a unat_push6 [OF b(1)] by (simp only: val)
  show "unat (x AND 0x3C0) = unat x div 64 mod 16 * 64" unfolding a unat_push6 [OF b(2)] by (simp only: val)
qed

definition u16_of :: "u8 \<Rightarrow> u8 \<Rightarrow> u32" where
  "u16_of lo hi = word_of_nat (unat lo + 256 * unat hi)"

lemma word16:
  "ucast b0 + push_bit 8 (ucast b1) = u16_of b0 b1"
  "push_bit 8 (ucast b1) + ucast b0 = u16_of b0 b1"
  unfolding ucast_u8_u32 push_bit_eq_mult u16_of_def by (simp_all add: mult.commute)

lemma unat_of_small: "n < 4294967296 \<Longrightarrow> unat (word_of_nat n :: u32) = n"
  by (simp add: unat_of_nat)

lemma unat_u16_of: "unat (u16_of b0 b1) = unat b0 + 256 * unat b1"
  unfolding u16_of_def using unat_u8 [of b0] unat_u8 [of b1] by (intro unat_of_small) simp

lemma surrogate_pair_val:
  "surrogate_pair c c2 = word_of_nat (unat c2 mod 1024 + (unat c mod 64) * 1024 + (unat c div 64 mod 16 * 64 + 64) * 1024)"
proof -
  have "(c2 AND 0x03FF) = word_of_nat (unat c2 mod 1024)" "(c AND 0x003F) = word_of_nat (unat c mod 64)"
    "(c AND 0x03C0) = word_of_nat (unat c div 64 mod 16 * 64)"
    by (metis val word_of_unat)+
  then show ?thesis by (simp add: surrogate_pair_def push_bit_eq_mult)
qed

text \<open>A code point above U+FFFF in the digits its surrogates carry.\<close>

lemma astral_digits:
  assumes "0x10000 \<le> n" "n < 0x110000"
  obtains a b c :: nat where "n = 65536 * (a + 1) + 1024 * b + c" "a < 16" "b < 64" "c < 1024"
proof
  let ?a = "(n - 65536) div 65536" and ?b = "n div 1024 mod 64" and ?c = "n mod 1024"
  have "n - 65536 = 65536 * ?a + (n - 65536) mod 65536" by simp
  moreover have "n div 65536 = ?a + 1" using assms(1) by (simp add: le_div_geq)
  moreover have "n = 65536 * (n div 65536) + 1024 * ?b + ?c"
  proof -
    have "n div 65536 = n div 1024 div 64" by (simp add: div_mult2_eq [symmetric])
    then have "n div 1024 = 64 * (n div 65536) + ?b" by simp
    moreover have "n = 1024 * (n div 1024) + ?c" by simp
    ultimately show ?thesis by linarith
  qed
  ultimately show "n = 65536 * (?a + 1) + 1024 * ?b + ?c" by metis
  show "?a < 16" using assms(2) by (simp add: less_mult_imp_div_less)
qed simp_all

lemma astral_parts:
  fixes n a b c :: nat
  assumes n: "n = 65536 * (a + 1) + 1024 * b + c" "a < 16" "b < 64" "c < 1024"
  shows "n div 1024 mod 64 = b" "(n - 65536) div 1024 div 64 mod 4 = a mod 4"
    "(n - 65536) div 262144 mod 4 = a div 4" "n mod 256 = c mod 256" "n div 256 mod 4 = c div 256"
proof -
  have m: "n - 65536 = 65536 * a + 1024 * b + c" using n(1) by simp
  have d: "n div 1024 = 64 * (a + 1) + b" using n by (simp add: nat_div_eq_iff)
  show "n div 1024 mod 64 = b" 
    using mod_mult_self4 [of 64 "a + 1" b] n(3) unfolding d by (simp only: mod_less)
  have "(n - 65536) div 1024 = 64 * a + b" unfolding m using n(4) by (simp add: nat_div_eq_iff)
  then show "(n - 65536) div 1024 div 64 mod 4 = a mod 4" using n(3) by simp
  have q: "(65536 * a + 1024 * b + c) div 262144 = q" if "4 * q + r = a" "r < 4" for q r
    using that n(3,4) by (simp add: nat_div_eq_iff)
  have "(n - 65536) div 262144 = a div 4" unfolding m by (rule q [of _ "a mod 4"]) simp_all
  moreover have "a div 4 < 4" using n(2) by simp
  ultimately show "(n - 65536) div 262144 mod 4 = a div 4" by simp
  have "n = c + 256 * (256 * (a + 1) + 4 * b)" using n(1) by simp
  then show "n mod 256 = c mod 256" by (metis mod_mult_self2)
  have "n div 256 = 256 * (a + 1) + 4 * b + c div 256" unfolding n(1) by simp
  then have "n div 256 = 4 * (64 * (a + 1) + b) + c div 256" by simp
  then have "n div 256 mod 4 = c div 256 mod 4" by (simp only: mod_mult_self4)
  moreover have "c div 256 < 4" using n(4) by simp
  ultimately show "n div 256 mod 4 = c div 256" by simp
qed

text \<open>The four bytes of a surrogate pair, and the value the reader assembles from them.\<close>

lemma astral_bytes:
  assumes "0x10000 \<le> unat v" "unat v < 0x110000"
  defines "lo \<equiv> ucast ((drop_bit 10 v AND 0x003F) + (drop_bit 10 (v - 0x10000) AND 0x00C0)) :: u8"
    and "hi \<equiv> ucast (0x00D8 + (drop_bit 18 (v - 0x10000) AND 0x03)) :: u8"
    and "lo2 \<equiv> ucast (v AND 0x00FF) :: u8"
    and "hi2 \<equiv> ucast (0x00DC + (drop_bit 8 v AND 0x03)) :: u8"
  shows "0xD800 \<le> u16_of lo hi" and "u16_of lo hi < 0xE000"
    and "surrogate_pair (u16_of lo hi) (u16_of lo2 hi2) = v"
proof -
  obtain a b c where n: "unat v = 65536 * (a + 1) + 1024 * b + c" "a < 16" "b < 64" "c < 1024"
    using astral_digits assms(1,2) by blast
  note p = astral_parts [OF n]
  have s: "unat (v - 0x10000) = unat v - 65536" using assms(1) by (simp add: unat_sub word_le_nat_alt)
  have a4: "a mod 4 < 4" "a div 4 < 4" "c div 256 < 4" using n by auto
  have "unat ((drop_bit 10 v AND 0x003F) + (drop_bit 10 (v - 0x10000) AND 0x00C0)) = b + a mod 4 * 64"
    using n(3) a4 by (subst unat_add_u32) (simp_all add: val s p)
  then have lo: "unat lo = b + a mod 4 * 64" using n(3) a4 by (simp add: lo_def val)
  have "unat (0x00D8 + (drop_bit 18 (v - 0x10000) AND 0x03)) = 216 + a div 4"
    using a4 by (subst unat_add_u32) (simp_all add: val s p)
  then have hi: "unat hi = 216 + a div 4" using a4 by (simp add: hi_def val)
  have lo2: "unat lo2 = c mod 256" by (simp add: lo2_def val p)
  have "unat (0x00DC + (drop_bit 8 v AND 0x03)) = 220 + c div 256"
    using a4 by (subst unat_add_u32) (simp_all add: val p)
  then have hi2: "unat hi2 = 220 + c div 256" using a4 by (simp add: hi2_def val)
  have w: "b + r * 64 + 256 * (216 + q) = 64 * (864 + a) + b" if "4 * q + r = a" for q r using that by simp
  have w1: "unat lo + 256 * unat hi = 64 * (864 + a) + b" unfolding lo hi by (rule w) simp
  show "0xD800 \<le> u16_of lo hi" "u16_of lo hi < 0xE000"
    unfolding word_le_nat_alt word_less_nat_alt unat_u16_of w1 using n by simp_all
  have w': "r + 256 * (220 + q) = 1024 * 55 + c" if "256 * q + r = c" for q r using that by simp
  have w2: "unat lo2 + 256 * unat hi2 = 1024 * 55 + c" unfolding lo2 hi2 by (rule w') simp
  have u1: "unat (word_of_nat (64 * (864 + a) + b) :: u32) = 64 * (864 + a) + b" using n by (intro unat_of_small) simp
  have u2: "unat (word_of_nat (1024 * 55 + c) :: u32) = 1024 * 55 + c" using n by (intro unat_of_small) simp
  have d: "(64 * (864 + a) + b) mod 64 = b" "(64 * (864 + a) + b) div 64 = 864 + a" "(864 + a) mod 16 = a"
    "(1024 * 55 + c) mod 1024 = c"
    using mod_mult_self4 [of 64 "864 + a" b] div_mult_self4 [of 64 "864 + a" b]
      mod_mult_self4 [of 16 54 a] mod_mult_self4 [of 1024 55 c] n
    by (simp_all only: mod_less div_less) simp_all
  have "surrogate_pair (u16_of lo hi) (u16_of lo2 hi2)
      = word_of_nat (c + b * 1024 + (a * 64 + 64) * 1024)"
    unfolding u16_of_def surrogate_pair_val w1 w2 u1 u2 d by (rule refl)
  also have "c + b * 1024 + (a * 64 + 64) * 1024 = unat v" using n(1) by simp
  finally show "surrogate_pair (u16_of lo hi) (u16_of lo2 hi2) = v"
    by (simp only: word_of_unat)
qed

lemma bmp_bytes:
  assumes "v \<le> 0xFFFF"
  shows "u16_of (ucast (v AND 0x00FF)) (ucast (drop_bit 8 v AND 0x00FF)) = v"
proof -
  have "unat v div 256 < 256" using assms by (simp add: word_le_nat_alt)
  then have "unat (ucast (drop_bit 8 v AND 0x00FF) :: u8) = unat v div 256" by (simp add: val)
  moreover have "unat (ucast (v AND 0x00FF) :: u8) = unat v mod 256" by (simp add: val)
  ultimately show ?thesis unfolding u16_of_def by (simp only: mod_mult_div_eq word_of_unat)
qed

definition utf16_char :: "u32 \<Rightarrow> bool" where
  "utf16_char v \<longleftrightarrow> v < 0x110000 \<and> \<not> (0xD800 \<le> v \<and> v < 0xE000)"

lemma utf16_char_astral: "utf16_char v \<Longrightarrow> \<not> v \<le> 0xFFFF \<Longrightarrow> 0x10000 \<le> unat v \<and> unat v < 0x110000"
  by (simp add: word_le_nat_alt word_less_nat_alt utf16_char_def)

lemma utf16le_roundtrip:
  assumes "utf16_char v"
  shows "read_utf16le (WRITE_UTF16LE v @ r) = (v, r)"
proof (cases "v \<le> 0xFFFF")
  case True
  then show ?thesis using assms by (auto simp: WRITE_UTF16LE_def word16 bmp_bytes utf16_char_def Let_def)
next
  case False
  with astral_bytes [of v] utf16_char_astral [OF assms False] show ?thesis
    by (simp add: WRITE_UTF16LE_def word16 Let_def)
qed

lemma utf16be_roundtrip:
  assumes "utf16_char v"
  shows "read_utf16be (WRITE_UTF16BE v @ r) = (v, r)"
proof (cases "v \<le> 0xFFFF")
  case True
  then show ?thesis using assms by (auto simp: WRITE_UTF16BE_def word16 bmp_bytes utf16_char_def Let_def)
next
  case False
  with astral_bytes [of v] utf16_char_astral [OF assms False] show ?thesis
    by (simp add: WRITE_UTF16BE_def word16 Let_def)
qed

text \<open>Both byte orders are self-delimiting encodings of the characters.\<close>

definition utf16_dec :: "(u8 list \<Rightarrow> u32 \<times> u8 list) \<Rightarrow> u8 list \<Rightarrow> (nat \<times> u32) option" where
  "utf16_dec rdc bs = (case rdc bs of (c, z) \<Rightarrow> Some (length bs - length z, c))"

lemma utf16_nonempty [simp]: "WRITE_UTF16LE v \<noteq> []" "WRITE_UTF16BE v \<noteq> []"
  by (simp_all add: WRITE_UTF16LE_def WRITE_UTF16BE_def)

interpretation utf16le: byte_codec WRITE_UTF16LE "utf16_dec read_utf16le" utf16_char
  by unfold_locales (simp_all add: utf16_dec_def utf16le_roundtrip)

interpretation utf16be: byte_codec WRITE_UTF16BE "utf16_dec read_utf16be" utf16_char
  by unfold_locales (simp_all add: utf16_dec_def utf16be_roundtrip)

subsection \<open>Translating whole values\<close>

lemma translate_loop_Nil [simp]: "translate_loop rdc wrc [] = []"
  by (subst translate_loop.simps) simp

lemma translate_loop_step:
  assumes "z \<noteq> []" and "\<And>z. z \<noteq> [] \<Longrightarrow> length (snd (rdc z)) < length z"
  shows "translate_loop rdc wrc z = wrc (fst (rdc z)) @ translate_loop rdc wrc (snd (rdc z))"
  using assms(1) assms(2) [OF assms(1)]
  by (subst translate_loop.simps) (simp add: case_prod_beta)

lemmas translate_steps =
  translate_loop_step [of _ READ_UTF8, OF _ READ_UTF8_length]
  translate_loop_step [of _ read_utf16le, OF _ read_utf16le_length]
  translate_loop_step [of _ read_utf16be, OF _ read_utf16be_length]

definition utf8_char :: "u32 \<Rightarrow> bool" where
  "utf8_char v \<longleftrightarrow> v < 0x110000 \<and> \<not> replaced v"

lemma utf8_char_utf16: "utf8_char v \<Longrightarrow> utf16_char v"
  by (auto simp: utf8_char_def utf16_char_def replaced_def)

definition utf8_text :: "u32 list \<Rightarrow> u8 list" where
  "utf8_text vs = concat (map sqlite3AppendOneUtf8Character vs)"

lemma append_first:
  obtains b t where "sqlite3AppendOneUtf8Character v = b # t" "unat b div 64 \<noteq> 2"
proof (cases "unat v < 0x80")
  case True
  then have "unat v div 64 < 2" by (simp add: less_mult_imp_div_less)
  then show ?thesis using that [of "ucast v" "[]"] append_ascii [OF True] by simp
next
  case False
  then have "\<exists>b t. sqlite3AppendOneUtf8Character v = b # t \<and> 192 \<le> unat b"
    by (simp add: sqlite3AppendOneUtf8Character_def word_less_nat_alt val)
  then obtain b t where bt: "sqlite3AppendOneUtf8Character v = b # t" "192 \<le> unat b" by blast
  then have "3 \<le> unat b div 64" using div_le_mono [OF bt(2), of 64] by simp
  then show ?thesis using that bt(1) by simp
qed

lemma utf8_text_first: "unat (chd (utf8_text vs)) div 64 \<noteq> 2"
proof (cases vs)
  case (Cons v ws)
  obtain b t where "sqlite3AppendOneUtf8Character v = b # t" "unat b div 64 \<noteq> 2" by (rule append_first)
  with Cons show ?thesis by (simp add: utf8_text_def)
qed (simp add: utf8_text_def)

lemma READ_UTF8_text:
  assumes "utf8_char v"
  shows "READ_UTF8 (utf8_text (v # vs)) = (v, utf8_text vs)"
  using assms utf8_read [of v "utf8_text vs"] utf8_text_first [of vs]
  by (simp add: utf8_text_def utf8_char_def word_less_nat_alt)

lemma utf8_text_Cons_ne: "utf8_text (v # vs) \<noteq> []"
  by (rule append_first [of v]) (simp add: utf8_text_def)

lemma from_utf8:
  "list_all utf8_char vs \<Longrightarrow> translate_loop READ_UTF8 wrc (utf8_text vs) = concat (map wrc vs)"
proof (induction vs)
  case Nil
  then show ?case by (simp add: utf8_text_def)
next
  case (Cons v vs)
  then show ?case
    by (simp add: translate_steps(1) [OF utf8_text_Cons_ne] READ_UTF8_text)
qed

lemma to_utf8:
  assumes rt: "\<And>v r. utf16_char v \<Longrightarrow> rdc (wr16 v @ r) = (v, r)"
    and len: "\<And>z. z \<noteq> [] \<Longrightarrow> length (snd (rdc z)) < length z" and ne: "\<And>v. wr16 v \<noteq> []"
  shows "list_all utf8_char vs \<Longrightarrow>
    translate_loop rdc sqlite3AppendOneUtf8Character (concat (map wr16 vs)) = utf8_text vs"
proof (induction vs)
  case Nil
  then show ?case by (simp add: utf8_text_def)
next
  case (Cons v vs)
  have "wr16 v @ concat (map wr16 vs) \<noteq> []" by (simp add: ne)
  from translate_loop_step [OF this, of rdc, OF len] Cons show ?case
    by (simp add: rt utf8_char_utf16 utf8_text_def)
qed

definition text_in :: "encoding \<Rightarrow> u32 list \<Rightarrow> u8 list" where
  "text_in enc vs =
     (case enc of SQLITE_UTF8 \<Rightarrow> utf8_text vs
      | SQLITE_UTF16LE \<Rightarrow> concat (map WRITE_UTF16LE vs)
      | SQLITE_UTF16BE \<Rightarrow> concat (map WRITE_UTF16BE vs))"

lemma even_text:
  "even_bytes (concat (map WRITE_UTF16LE vs)) = concat (map WRITE_UTF16LE vs)"
  "even_bytes (concat (map WRITE_UTF16BE vs)) = concat (map WRITE_UTF16BE vs)"
proof -
  have "even (length (concat (map WRITE_UTF16LE vs)))" "even (length (concat (map WRITE_UTF16BE vs)))"
    by (induction vs) (auto simp: WRITE_UTF16LE_def WRITE_UTF16BE_def)
  then have "length (concat (map WRITE_UTF16LE vs)) mod 2 = 0" "length (concat (map WRITE_UTF16BE vs)) mod 2 = 0"
    by (simp_all only: even_iff_mod_2_eq_zero)
  then show "even_bytes (concat (map WRITE_UTF16LE vs)) = concat (map WRITE_UTF16LE vs)"
    and "even_bytes (concat (map WRITE_UTF16BE vs)) = concat (map WRITE_UTF16BE vs)"
    by (simp_all add: even_bytes_def)
qed

lemma swap_text:
  "swap_bytes (concat (map WRITE_UTF16LE vs)) = concat (map WRITE_UTF16BE vs)"
  "swap_bytes (concat (map WRITE_UTF16BE vs)) = concat (map WRITE_UTF16LE vs)"
  by (induction vs) (auto simp: WRITE_UTF16LE_def WRITE_UTF16BE_def)

text \<open>
  C14. A text of storable code points (everything below \<open>0x110000\<close> but surrogates, U+FFFE
  and U+FFFF) in any of the three encodings is translated by \<open>sqlite3VdbeMemTranslate\<close>,
  when memory suffices, to the same text in any other encoding; so a translation forth and
  back restores the value.
\<close>

theorem translate_text:
  assumes "list_all utf8_char vs" and "enc \<noteq> desired"
    and "m_enc pMem = enc" and "m_z pMem = text_in enc vs"
    and "alloc (translate_len pMem desired)"
  shows "\<exists>pMem'. sqlite3VdbeMemTranslate True alloc pMem desired = SQLITE_OK pMem'
     \<and> m_enc pMem' = desired \<and> m_z pMem' = text_in desired vs"
  using assms
  by (cases enc; cases desired)
     (simp_all add: sqlite3VdbeMemTranslate_def text_in_def from_utf8 even_text swap_text
        to_utf8 [OF utf16le_roundtrip read_utf16le_length utf16_nonempty(1)]
        to_utf8 [OF utf16be_roundtrip read_utf16be_length utf16_nonempty(2)])

theorem translate_text_witness:
  "\<exists>pMem'. sqlite3VdbeMemTranslate True (\<lambda>n. n \<le> 100)
       \<lparr>m_enc = SQLITE_UTF8, m_z = text_in SQLITE_UTF8 [0x41, 0x20AC, 0x1F600], m_term = []\<rparr> SQLITE_UTF16LE = SQLITE_OK pMem'
     \<and> m_enc pMem' = SQLITE_UTF16LE \<and> m_z pMem' = text_in SQLITE_UTF16LE [0x41, 0x20AC, 0x1F600]"
proof (rule translate_text)
  show "list_all utf8_char [0x41, 0x20AC, 0x1F600]" by (simp add: utf8_char_def replaced_def)
  show "(\<lambda>n. n \<le> 100) (translate_len \<lparr>m_enc = SQLITE_UTF8,
      m_z = text_in SQLITE_UTF8 [0x41, 0x20AC, 0x1F600], m_term = []\<rparr> SQLITE_UTF16LE)"
    by (simp add: translate_len_def text_in_def utf8_text_def sqlite3AppendOneUtf8Character_def)
qed simp_all

subsection \<open>The output buffer is large enough\<close>

lemma length_writers:
  "length (WRITE_UTF16LE c) = (if c \<le> 0xFFFF then 2 else 4)"
  "length (WRITE_UTF16BE c) = (if c \<le> 0xFFFF then 2 else 4)"
  "length (sqlite3AppendOneUtf8Character c) \<le> 4"
  "c \<le> 0xFFFF \<Longrightarrow> length (sqlite3AppendOneUtf8Character c) \<le> 3"
  by (auto simp: WRITE_UTF16LE_def WRITE_UTF16BE_def sqlite3AppendOneUtf8Character_def word_le_nat_alt word_less_nat_alt)

lemma translate_loop_bound:
  assumes len: "\<And>z. z \<noteq> [] \<Longrightarrow> length (snd (rdc z)) < length z"
    and step: "\<And>z. P z \<Longrightarrow> z \<noteq> [] \<Longrightarrow> P (snd (rdc z)) \<and>
      length (wrc (fst (rdc z))) \<le> 2 * (length z - length (snd (rdc z)))"
  shows "P z \<Longrightarrow> length (translate_loop rdc wrc z) \<le> 2 * length z"
proof (induction z rule: length_induct)
  case (1 z)
  show ?case
  proof (cases "z = []")
    case False
    have l: "length (snd (rdc z)) < length z" by (rule len [OF False])
    moreover have "P (snd (rdc z))" "length (wrc (fst (rdc z))) \<le> 2 * (length z - length (snd (rdc z)))"
      using step [OF "1.prems" False] by blast+
    ultimately show ?thesis
      using "1.IH" translate_loop_step [OF False, of rdc, OF len] by fastforce
  qed simp
qed

lemma utf8_continuation_same: "length (snd (utf8_continuation c z)) = length z \<Longrightarrow> fst (utf8_continuation c z) = c"
proof (cases z)
  case (Cons b z')
  assume "length (snd (utf8_continuation c z)) = length z"
  then show ?thesis
    using utf8_continuation_length [of "push_bit 6 c + ucast (0x3f AND b)" z'] Cons by (auto split: if_splits)
qed simp

lemma utf8_lead_small: "192 \<le> unat b \<Longrightarrow> utf8_lead b < 0x80"
proof -
  assume b: "192 \<le> unat b"
  define k where "k = unat b - 192"
  have k: "unat b = 192 + k" using b by (simp add: k_def)
  define m where "m = (if k < 32 then k else if k < 48 then k - 32
    else if k < 56 then k - 48 else if k < 60 then k - 56 else if k = 61 then 1 else 0)"
  have "m < 32" by (auto simp: m_def)
  moreover have "utf8_lead b = word_of_nat m" unfolding m_def utf8_lead_def by (rule trans1 [OF k])
  ultimately show ?thesis by (simp add: word_less_nat_alt unat_of_small)
qed

lemma READ_UTF8_one_byte:
  assumes "z \<noteq> []" and "length z - length (snd (READ_UTF8 z)) = 1"
  shows "fst (READ_UTF8 z) \<le> 0xFFFF"
proof -
  obtain b t where z: "z = b # t" using assms(1) by (cases z) auto
  show ?thesis
  proof (cases "0xc0 \<le> b")
    case False
    then have R: "READ_UTF8 z = (ucast b, t)" by (simp add: z READ_UTF8_def)
    have "unat (word_of_nat (unat b) :: u32) = unat b" using unat_u8 [of b] by (intro unat_of_small) linarith
    then have "unat (ucast b :: u32) \<le> unat (0xFFFF :: u32)"
      unfolding ucast_u8_u32 using unat_u8 [of b] by simp
    then show ?thesis by (simp only: R fst_conv word_le_nat_alt)
  next
    case True
    then have small: "utf8_lead b < 0x80" by (simp add: utf8_lead_small ge_c0)
    obtain c r where cr: "utf8_continuation (utf8_lead b) t = (c, r)" by fastforce
    then have R: "READ_UTF8 z = (if c < 0x80 \<or> replaced c then 0xFFFD else c, r)"
      using True by (simp add: z READ_UTF8_def replaced_masks Let_def flip: utf8_lead_def)
    have "length r \<le> length t" using utf8_continuation_length [of "utf8_lead b" t] cr by simp
    then have "length r = length t" using assms(2) R z by simp
    then have "c = utf8_lead b" using utf8_continuation_same [of "utf8_lead b" t] cr by simp
    with small R show ?thesis by simp
  qed
qed

lemma u16_of_le: "u16_of b0 b1 \<le> 0xFFFF"
  unfolding word_le_nat_alt unat_u16_of using unat_u8 [of b0] unat_u8 [of b1] by simp

lemma read_utf16_bytes:
  assumes "even (length z)" and "z \<noteq> []"
  shows "even (length (snd (read_utf16le z))) \<and> (length z - length (snd (read_utf16le z)) = 2 \<and> fst (read_utf16le z) \<le> 0xFFFF
      \<or> length z - length (snd (read_utf16le z)) = 4)"
    and "even (length (snd (read_utf16be z))) \<and> (length z - length (snd (read_utf16be z)) = 2 \<and> fst (read_utf16be z) \<le> 0xFFFF
      \<or> length z - length (snd (read_utf16be z)) = 4)"
proof -
  obtain b0 b1 t where z: "z = b0 # b1 # t" using assms by (cases z rule: read_utf16le.cases) auto
  show "even (length (snd (read_utf16le z))) \<and> (length z - length (snd (read_utf16le z)) = 2 \<and> fst (read_utf16le z) \<le> 0xFFFF
      \<or> length z - length (snd (read_utf16le z)) = 4)"
    using assms(1) by (auto simp: z word16 Let_def u16_of_le split: list.splits)
  show "even (length (snd (read_utf16be z))) \<and> (length z - length (snd (read_utf16be z)) = 2 \<and> fst (read_utf16be z) \<le> 0xFFFF
      \<or> length z - length (snd (read_utf16be z)) = 4)"
    using assms(1) by (auto simp: z word16 Let_def u16_of_le split: list.splits)
qed

lemma utf8_char_le4: "n = 2 \<and> c \<le> 0xFFFF \<or> n = 4 \<Longrightarrow> length (sqlite3AppendOneUtf8Character c) \<le> 2 * n"
  using length_writers(3) [of c] length_writers(4) [of c] by auto

lemma translate_loop_bounds:
  "length (translate_loop READ_UTF8 WRITE_UTF16LE z) \<le> 2 * length z"
  "length (translate_loop READ_UTF8 WRITE_UTF16BE z) \<le> 2 * length z"
  "even (length z) \<Longrightarrow> length (translate_loop read_utf16le sqlite3AppendOneUtf8Character z) \<le> 2 * length z"
  "even (length z) \<Longrightarrow> length (translate_loop read_utf16be sqlite3AppendOneUtf8Character z) \<le> 2 * length z"
proof -
  have r: "length (WRITE_UTF16LE (fst (READ_UTF8 z))) \<le> 2 * (length z - length (snd (READ_UTF8 z)))
      \<and> length (WRITE_UTF16BE (fst (READ_UTF8 z))) \<le> 2 * (length z - length (snd (READ_UTF8 z)))" if "z \<noteq> []" for z
  proof -
    define d where "d = length z - length (snd (READ_UTF8 z))"
    have "d \<noteq> 0" using READ_UTF8_length [OF that] by (simp add: d_def)
    moreover have "d = 1 \<Longrightarrow> fst (READ_UTF8 z) \<le> 0xFFFF" using READ_UTF8_one_byte [OF that] by (simp add: d_def)
    ultimately consider "fst (READ_UTF8 z) \<le> 0xFFFF" "1 \<le> d" | "2 \<le> d" by linarith
    then show ?thesis by cases (auto simp: length_writers simp flip: d_def)
  qed
  show "length (translate_loop READ_UTF8 WRITE_UTF16LE z) \<le> 2 * length z"
    by (rule translate_loop_bound [where P = "\<lambda>_. True"]) (simp_all add: READ_UTF8_length r)
  show "length (translate_loop READ_UTF8 WRITE_UTF16BE z) \<le> 2 * length z"
    by (rule translate_loop_bound [where P = "\<lambda>_. True"]) (simp_all add: READ_UTF8_length r)
  show "length (translate_loop read_utf16le sqlite3AppendOneUtf8Character z) \<le> 2 * length z" if "even (length z)"
  proof (rule translate_loop_bound [where P = "\<lambda>z. even (length z)"])
    show "even (length (snd (read_utf16le z))) \<and> length (sqlite3AppendOneUtf8Character (fst (read_utf16le z)))
        \<le> 2 * (length z - length (snd (read_utf16le z)))" if "even (length z)" "z \<noteq> []" for z
      using read_utf16_bytes(1) [OF that] utf8_char_le4 by blast
  qed (simp_all add: read_utf16le_length that)
  show "length (translate_loop read_utf16be sqlite3AppendOneUtf8Character z) \<le> 2 * length z" if "even (length z)"
  proof (rule translate_loop_bound [where P = "\<lambda>z. even (length z)"])
    show "even (length (snd (read_utf16be z))) \<and> length (sqlite3AppendOneUtf8Character (fst (read_utf16be z)))
        \<le> 2 * (length z - length (snd (read_utf16be z)))" if "even (length z)" "z \<noteq> []" for z
      using read_utf16_bytes(2) [OF that] utf8_char_le4 by blast
  qed (simp_all add: read_utf16be_length that)
qed

lemma even_bytes_even: "even (length (even_bytes z))"
  by (simp add: even_bytes_def)

text \<open>
  C15. For every input, well-formed or not, the bytes that \<open>sqlite3VdbeMemTranslate\<close> stores when it changes between UTF-8 and UTF-16, terminator included, fit in the buffer of
  \<open>len\<close> bytes that it allocated: the assertion at the end of the function.
\<close>

theorem translate_fits:
  assumes "sqlite3VdbeMemTranslate writeable alloc pMem desired = SQLITE_OK pMem'"
    and "(m_enc pMem = SQLITE_UTF8) \<noteq> (desired = SQLITE_UTF8)"
  shows "length (m_z pMem') + length (m_term pMem') \<le> translate_len pMem desired"
  using assms translate_loop_bounds(1,2) [of "m_z pMem"]
    translate_loop_bounds(3,4) [OF even_bytes_even [of "m_z pMem"]]
  by (cases "m_enc pMem") (auto simp: sqlite3VdbeMemTranslate_def translate_len_def split: if_splits)

theorem translate_fits_witness:
  "\<exists>pMem'. sqlite3VdbeMemTranslate True (\<lambda>n. True)
       \<lparr>m_enc = SQLITE_UTF8, m_z = [0xDF, 0xBF, 0xBF], m_term = []\<rparr> SQLITE_UTF16BE = SQLITE_OK pMem'
     \<and> length (m_z pMem') + length (m_term pMem') \<le> 8"
proof -
  let ?m = "\<lparr>m_enc = SQLITE_UTF8, m_z = [0xDF, 0xBF, 0xBF], m_term = []\<rparr>"
  obtain p where p: "sqlite3VdbeMemTranslate True (\<lambda>n. True) ?m SQLITE_UTF16BE = SQLITE_OK p"
    by (simp add: sqlite3VdbeMemTranslate_def)
  moreover have "(m_enc ?m = SQLITE_UTF8) \<noteq> (SQLITE_UTF16BE = SQLITE_UTF8)" by simp
  ultimately have "length (m_z p) + length (m_term p) \<le> translate_len ?m SQLITE_UTF16BE"
    by (rule translate_fits)
  with p show ?thesis by (auto simp: translate_len_def)
qed

subsection \<open>Counting characters\<close>

lemma skip_continuation_text: "skip_continuation (utf8_text vs) = utf8_text vs"
  using utf8_text_first [of vs] by (cases "utf8_text vs") (simp_all add: cont_iff)

lemma SKIP_text:
  assumes "unat v < 0x110000"
  shows "SQLITE_SKIP_UTF8 (utf8_text (v # vs)) = utf8_text vs"
proof (cases "unat v < 0x80")
  case True
  note a = append_ascii [OF True]
  have "\<not> (0xc0 :: u8) \<le> ucast v" using True by (simp add: ge_c0 a)
  then show ?thesis by (simp add: SQLITE_SKIP_UTF8_def utf8_text_def a)
next
  case False
  then have v: "0x80 \<le> unat v" by simp
  obtain b t where bt: "sqlite3AppendOneUtf8Character v = b # t" "192 \<le> unat b"
    "utf8_continuation (utf8_lead b) (t @ utf8_text vs) = (v, utf8_text vs)"
    using v assms utf8_text_first by (rule utf8_multibyte)
  have "snd (utf8_continuation c z) = skip_continuation z" for c z
    by (induction c z rule: utf8_continuation.induct) simp_all
  then have "skip_continuation (t @ utf8_text vs) = utf8_text vs" using bt(3) by (metis snd_conv)
  then show ?thesis using bt(1,2) by (simp add: SQLITE_SKIP_UTF8_def utf8_text_def ge_c0)
qed

lemma chd_append_0: "v \<noteq> 0 \<Longrightarrow> chd (utf8_text (v # vs)) \<noteq> 0"
proof (cases "unat v < 0x80")
  case True
  assume "v \<noteq> 0"
  then have "unat v \<noteq> 0" by (simp add: unat_eq_0)
  then have "unat (ucast v :: u8) \<noteq> 0" using append_ascii(2) [OF True] by metis
  then have "(ucast v :: u8) \<noteq> 0" by (simp add: unat_eq_0)
  then show ?thesis by (simp add: utf8_text_def append_ascii [OF True])
next
  case False
  then have "\<exists>b t. sqlite3AppendOneUtf8Character v = b # t \<and> 192 \<le> unat b"
    by (simp add: sqlite3AppendOneUtf8Character_def word_less_nat_alt val)
  then obtain b t where bt: "sqlite3AppendOneUtf8Character v = b # t" "192 \<le> unat b" by blast
  then have "b \<noteq> 0" by auto
  with bt show ?thesis by (simp add: utf8_text_def)
qed

text \<open>
  \<open>sqlite3Utf8CharLen\<close> of a well-formed UTF-8 text without a zero character is its
  number of characters.
\<close>

theorem sqlite3Utf8CharLen_text:
  assumes "\<forall>v \<in> set vs. 0 < unat v \<and> unat v < 0x110000"
  shows "sqlite3Utf8CharLen (utf8_text vs) = length vs"
  using assms
proof (induction vs)
  case Nil
  then show ?case by (simp add: utf8_text_def sqlite3Utf8CharLen.simps)
next
  case (Cons v vs)
  then have "v \<noteq> 0" by auto
  with Cons show ?case
    by (subst sqlite3Utf8CharLen.simps) (simp add: utf8_text_Cons_ne chd_append_0 SKIP_text)
qed

theorem sqlite3Utf8CharLen_text_witness:
  "sqlite3Utf8CharLen (utf8_text [0x41, 0x20AC, 0x1F600]) = 3"
proof -
  have h: "\<forall>v \<in> set [0x41, 0x20AC, 0x1F600 :: u32]. 0 < unat v \<and> unat v < 0x110000" by simp
  from sqlite3Utf8CharLen_text [OF h] show ?thesis by simp
qed

end
