(* ===== verification/Hash.thy ===== *)
theory Hash
  imports Util_Text "HOL-Library.Multiset"
begin

text \<open>
  The generic hash table (\<open>hash.c\<close>) that holds schema symbols, functions and collations.
  All elements are on one doubly linked list, kept here as the list of the elements in order,
  each with its address; a bucket counts its elements and points to the first of them, and the
  elements of a bucket are contiguous on the list. The table behaves as a finite map whose keys
  are compared without regard to case (locale \<open>lookup_table\<close>).
\<close>

unbundle bit_operations_syntax

subsection \<open>The table and its operations\<close>

record 'd hash_elem =
  e_addr :: nat
  e_data :: 'd
  e_key :: "u8 list"
  e_h :: u32

record bucket =
  b_count :: nat
  b_chain :: nat

record 'd hash =
  h_count :: nat
  h_first :: "'d hash_elem list"
  h_ht :: "bucket list option"

definition sqlite3HashInit :: "'d hash" where
  "sqlite3HashInit = \<lparr>h_count = 0, h_first = [], h_ht = None\<rparr>"

definition sqlite3HashClear :: "'d hash \<Rightarrow> 'd hash" where
  "sqlite3HashClear pH = pH\<lparr>h_first := [], h_ht := None, h_count := 0\<rparr>"

definition h_htsize :: "'d hash \<Rightarrow> nat" where
  "h_htsize pH = (case h_ht pH of None \<Rightarrow> 0 | Some ht \<Rightarrow> length ht)"

fun strHash_loop :: "u32 \<Rightarrow> u8 list \<Rightarrow> u32" where
  "strHash_loop h [] = h"
| "strHash_loop h (c # z) =
     (if c = 0 then h else strHash_loop ((h + ucast (0xdf AND c)) * 0x9e3779b1) z)"

definition strHash :: "u8 list \<Rightarrow> u32" where
  "strHash z = strHash_loop 0 z"

text \<open>Linking an element in front of the one at a given address.\<close>

fun link_before :: "nat \<Rightarrow> 'd hash_elem \<Rightarrow> 'd hash_elem list \<Rightarrow> 'd hash_elem list" where
  "link_before a new [] = [new]"
| "link_before a new (x # xs) = (if e_addr x = a then new # x # xs else x # link_before a new xs)"

definition insertElement :: "'d hash \<Rightarrow> nat option \<Rightarrow> 'd hash_elem \<Rightarrow> 'd hash" where
  "insertElement pH pEntry pNew =
     (case (pEntry, h_ht pH) of
        (Some k, Some ht) \<Rightarrow>
          (let e = ht ! k;
               pH' = pH\<lparr>h_ht := Some (ht[k := \<lparr>b_count = b_count e + 1, b_chain = e_addr pNew\<rparr>])\<rparr>
           in if b_count e \<noteq> 0 then pH'\<lparr>h_first := link_before (b_chain e) pNew (h_first pH)\<rparr>
              else pH'\<lparr>h_first := pNew # h_first pH\<rparr>)
      | _ \<Rightarrow> pH\<lparr>h_first := pNew # h_first pH\<rparr>)"

definition SQLITE_MALLOC_SOFT_LIMIT :: nat where
  "SQLITE_MALLOC_SOFT_LIMIT = 1024"

definition sizeof_ht :: nat where
  "sizeof_ht = 16"

text \<open>
  \<open>malloc_ht n\<close> is the number of buckets in the block that the allocator returns for \<open>n\<close>
  buckets (it may be larger than asked), or \<open>None\<close> when it fails.
\<close>

definition rehash :: "(nat \<Rightarrow> nat option) \<Rightarrow> 'd hash \<Rightarrow> nat \<Rightarrow> 'd hash" where
  "rehash malloc_ht pH new_size =
     (let new_size = (if new_size * sizeof_ht > SQLITE_MALLOC_SOFT_LIMIT
                      then SQLITE_MALLOC_SOFT_LIMIT div sizeof_ht else new_size)
      in if new_size = h_htsize pH then pH
         else case malloc_ht new_size of
                None \<Rightarrow> pH
              | Some n \<Rightarrow>
                  foldl (\<lambda>pH elem. insertElement pH (Some (unat (e_h elem) mod n)) elem)
                    (pH\<lparr>h_first := [], h_ht := Some (replicate n \<lparr>b_count = 0, b_chain = 0\<rparr>)\<rparr>)
                    (h_first pH))"

text \<open>The search loop visits at most \<open>count\<close> elements from the given one on.\<close>

fun find_loop :: "nat \<Rightarrow> u32 \<Rightarrow> u8 list \<Rightarrow> 'd hash_elem list \<Rightarrow> 'd hash_elem option" where
  "find_loop 0 h pKey elems = None"
| "find_loop (Suc n) h pKey [] = None"
| "find_loop (Suc n) h pKey (elem # elems) =
     (if h = e_h elem \<and> sqlite3StrICmp (e_key elem) pKey = 0 then Some elem
      else find_loop n h pKey elems)"

definition findElementWithHash :: "'d hash \<Rightarrow> u8 list \<Rightarrow> 'd hash_elem option \<times> u32" where
  "findElementWithHash pH pKey =
     (let h = strHash pKey;
          (elem, count) =
            (case h_ht pH of
               Some ht \<Rightarrow>
                 let e = ht ! (unat h mod h_htsize pH)
                 in (dropWhile (\<lambda>x. e_addr x \<noteq> b_chain e) (h_first pH), b_count e)
             | None \<Rightarrow> (h_first pH, h_count pH))
      in (find_loop count h pKey elem, h))"

definition removeElement :: "'d hash \<Rightarrow> 'd hash_elem \<Rightarrow> 'd hash" where
  "removeElement pH elem =
     (let rest = tl (dropWhile (\<lambda>x. e_addr x \<noteq> e_addr elem) (h_first pH));
          next_addr = (case rest of [] \<Rightarrow> 0 | x # _ \<Rightarrow> e_addr x);
          pH' = pH\<lparr>h_first := takeWhile (\<lambda>x. e_addr x \<noteq> e_addr elem) (h_first pH) @ rest\<rparr>;
          pH' = (case h_ht pH' of
                   None \<Rightarrow> pH'
                 | Some ht \<Rightarrow>
                     let k = unat (e_h elem) mod h_htsize pH'; e = ht ! k
                     in pH'\<lparr>h_ht := Some (ht[k :=
                          \<lparr>b_count = b_count e - 1,
                           b_chain = (if b_chain e = e_addr elem then next_addr else b_chain e)\<rparr>])\<rparr>);
          pH' = pH'\<lparr>h_count := h_count pH' - 1\<rparr>
      in if h_count pH' = 0 then sqlite3HashClear pH' else pH')"

definition sqlite3HashFind :: "'d hash \<Rightarrow> u8 list \<Rightarrow> 'd option" where
  "sqlite3HashFind pH pKey = map_option e_data (fst (findElementWithHash pH pKey))"

text \<open>
  \<open>sqlite3HashInsert\<close>: \<open>malloc_elem\<close> is the address of the new element or \<open>None\<close> when the
  allocation fails. The result is the returned pointer and the new table.
\<close>

definition sqlite3HashInsert ::
  "nat option \<Rightarrow> (nat \<Rightarrow> nat option) \<Rightarrow> 'd hash \<Rightarrow> u8 list \<Rightarrow> 'd option \<Rightarrow> 'd option \<times> 'd hash" where
  "sqlite3HashInsert malloc_elem malloc_ht pH pKey data =
     (case findElementWithHash pH pKey of
        (Some elem, h) \<Rightarrow>
          (case data of
             None \<Rightarrow> (Some (e_data elem), removeElement pH elem)
           | Some d \<Rightarrow>
               (Some (e_data elem),
                pH\<lparr>h_first := map (\<lambda>x. if e_addr x = e_addr elem then x\<lparr>e_data := d, e_key := pKey\<rparr> else x) (h_first pH)\<rparr>))
      | (None, h) \<Rightarrow>
          (case data of
             None \<Rightarrow> (None, pH)
           | Some d \<Rightarrow>
               (case malloc_elem of
                  None \<Rightarrow> (Some d, pH)
                | Some a \<Rightarrow>
                    let new_elem = \<lparr>e_addr = a, e_data = d, e_key = pKey, e_h = h\<rparr>;
                        pH = pH\<lparr>h_count := h_count pH + 1\<rparr>;
                        pH = (if h_count pH \<ge> 5 \<and> h_count pH > 2 * h_htsize pH
                              then rehash malloc_ht pH (h_count pH * 3) else pH)
                    in (None, insertElement pH
                          (if h_ht pH \<noteq> None then Some (unat (e_h new_elem) mod h_htsize pH) else None) new_elem))))"

text \<open>The allocator never returns an empty block.\<close>

definition malloc_ht_ok :: "(nat \<Rightarrow> nat option) \<Rightarrow> bool" where
  "malloc_ht_ok malloc_ht \<longleftrightarrow> (\<forall>n m. 0 < n \<longrightarrow> malloc_ht n = Some m \<longrightarrow> 0 < m)"

subsection \<open>Equal keys have equal hashes\<close>

lemma masked_letter: "UpperToLower c = UpperToLower x \<Longrightarrow> 0xdf AND c = 0xdf AND x"
proof -
  have m: "0xdf AND (c + 32) = 0xdf AND c" if "65 \<le> c" "c \<le> 90" for c :: u8
  proof -
    have "65 \<le> unat c \<and> unat c < 91" using that by (simp add: word_le_nat_alt)
    then have "unat c \<in> set [65..<91]" by (simp only: set_upt atLeastLessThan_iff)
    moreover have "list_all (\<lambda>n. 0xdf AND (word_of_nat n + 32 :: u8) = 0xdf AND word_of_nat n) [65..<91]"
      by code_simp
    ultimately have "0xdf AND (word_of_nat (unat c) + 32 :: u8) = 0xdf AND word_of_nat (unat c)"
      by (simp only: list_all_iff)
    then show ?thesis by simp
  qed
  assume "UpperToLower c = UpperToLower x"
  then show ?thesis using m [of c] m [of x] by (auto simp: UpperToLower_eq split: if_splits)
qed

lemma strHash_loop_cong:
  "map UpperToLower a = map UpperToLower b \<Longrightarrow> 0 \<notin> set a \<Longrightarrow> 0 \<notin> set b \<Longrightarrow> strHash_loop h a = strHash_loop h b"
proof (induction a arbitrary: b h)
  case Nil
  then show ?case by simp
next
  case (Cons c a)
  then obtain x b' where b: "b = x # b'" "UpperToLower c = UpperToLower x" by (cases b) auto
  with Cons masked_letter [OF b(2)] show ?case by auto
qed

abbreviation folded :: "u8 list \<Rightarrow> u8 list" where
  "folded k \<equiv> map UpperToLower k"

lemma strHash_folded:
  "folded a = folded b \<Longrightarrow> 0 \<notin> set a \<Longrightarrow> 0 \<notin> set b \<Longrightarrow> strHash a = strHash b"
  unfolding strHash_def by (rule strHash_loop_cong)

lemma sqlite3StrICmp_folded:
  assumes "0 \<notin> set a" and "0 \<notin> set b"
  shows "sqlite3StrICmp a b = 0 \<longleftrightarrow> folded a = folded b"
proof -
  have "inj (uint :: u8 \<Rightarrow> int)" by (simp add: inj_on_def word_uint_eq_iff)
  then have "fold_case a = fold_case b \<longleftrightarrow> folded a = folded b"
    using inj_map_eq_map [of uint "folded a" "folded b"] by (simp add: comp_def)
  with sqlite3StrICmp_order [OF assms] show ?thesis by simp
qed

subsection \<open>Buckets are contiguous\<close>

definition in_bucket :: "nat \<Rightarrow> nat \<Rightarrow> 'd hash_elem \<Rightarrow> bool" where
  "in_bucket n k e \<longleftrightarrow> unat (e_h e) mod n = k"

definition bucket_ok :: "nat \<Rightarrow> 'd hash_elem list \<Rightarrow> nat \<Rightarrow> bucket \<Rightarrow> bool" where
  "bucket_ok n es k b \<longleftrightarrow>
     (let S = filter (in_bucket n k) es in
        (\<exists>p q. es = p @ S @ q) \<and> b_count b = length S \<and> (S \<noteq> [] \<longrightarrow> b_chain b = e_addr (hd S)))"

definition ht_ok :: "bucket list \<Rightarrow> 'd hash_elem list \<Rightarrow> bool" where
  "ht_ok ht es \<longleftrightarrow> ht \<noteq> [] \<and> (\<forall>k < length ht. bucket_ok (length ht) es k (ht ! k))"

lemma bucket_okE:
  assumes "bucket_ok n es k b"
  obtains p q where "es = p @ filter (in_bucket n k) es @ q"
    and "b_count b = length (filter (in_bucket n k) es)"
    and "filter (in_bucket n k) es \<noteq> [] \<longrightarrow> b_chain b = e_addr (hd (filter (in_bucket n k) es))"
  using assms unfolding bucket_ok_def Let_def by blast

lemma bucket_okI:
  "es = p @ S @ q \<Longrightarrow> filter (in_bucket n k) es = S \<Longrightarrow> b_count b = length S \<Longrightarrow>
   S \<noteq> [] \<longrightarrow> b_chain b = e_addr (hd S) \<Longrightarrow> bucket_ok n es k b"
  unfolding bucket_ok_def Let_def by (metis (no_types))

text \<open>An element outside a contiguous segment lies before or after it.\<close>

lemma segment_split:
  assumes "p @ S @ q = pre @ x # post" and "x \<notin> set S"
  obtains p2 where "p = pre @ x # p2" "post = p2 @ S @ q"
  | q1 where "pre = p @ S @ q1" "q = q1 @ x # post"
  using assms by (auto simp: append_eq_append_conv2 append_eq_Cons_conv Cons_eq_append_conv)

lemma segment_inside:
  assumes "p @ S @ q = pre @ x # post" and "x \<notin> set p" "x \<notin> set q"
  obtains S1 S2 where "S = S1 @ x # S2" "pre = p @ S1" "post = S2 @ q"
  using assms by (auto simp: append_eq_append_conv2 append_eq_Cons_conv Cons_eq_append_conv)

lemma bucket_ok_other_insert:
  assumes "bucket_ok n (pre @ x # post) k b" and "\<not> in_bucket n k x" and "\<not> in_bucket n k new"
  shows "bucket_ok n (pre @ new # x # post) k b"
proof -
  let ?S = "filter (in_bucket n k) (pre @ x # post)"
  obtain p q where pq: "pre @ x # post = p @ ?S @ q" using assms(1) by (rule bucket_okE)
  have "x \<notin> set ?S" using assms(2) by auto
  have "\<exists>p q. pre @ new # x # post = p @ ?S @ q"
    using pq [symmetric] \<open>x \<notin> set ?S\<close>
  proof (rule segment_split)
    fix p2 assume "p = pre @ x # p2" "post = p2 @ ?S @ q"
    then have "pre @ new # x # post = (pre @ new # x # p2) @ ?S @ q" by (metis append.assoc append_Cons)
    then show ?thesis by blast
  next
    fix q1 assume "pre = p @ ?S @ q1" "q = q1 @ x # post"
    then have "pre @ new # x # post = p @ ?S @ (q1 @ new # x # post)" by (metis append.assoc)
    then show ?thesis by blast
  qed
  with assms show ?thesis by (simp add: bucket_ok_def Let_def)
qed

lemma bucket_ok_other_front:
  assumes "bucket_ok n es k b" and "\<not> in_bucket n k new"
  shows "bucket_ok n (new # es) k b"
proof -
  obtain p q where "es = p @ filter (in_bucket n k) es @ q" using assms(1) by (auto simp: bucket_ok_def Let_def)
  then have "new # es = (new # p) @ filter (in_bucket n k) es @ q" by simp
  with assms show ?thesis unfolding bucket_ok_def Let_def by (metis filter.simps(2))
qed

lemma bucket_ok_other_remove:
  assumes "bucket_ok n (pre @ x # post) k b" and "\<not> in_bucket n k x"
  shows "bucket_ok n (pre @ post) k b"
proof -
  let ?S = "filter (in_bucket n k) (pre @ x # post)"
  obtain p q where pq: "pre @ x # post = p @ ?S @ q" using assms(1) by (rule bucket_okE)
  have "x \<notin> set ?S" using assms(2) by auto
  have "\<exists>p q. pre @ post = p @ ?S @ q"
    using pq [symmetric] \<open>x \<notin> set ?S\<close>
  proof (rule segment_split)
    fix p2 assume "p = pre @ x # p2" "post = p2 @ ?S @ q"
    then have "pre @ post = (pre @ p2) @ ?S @ q" by (metis append.assoc)
    then show ?thesis by blast
  next
    fix q1 assume "pre = p @ ?S @ q1" "q = q1 @ x # post"
    then have "pre @ post = p @ ?S @ (q1 @ post)" by (metis append.assoc)
    then show ?thesis by blast
  qed
  with assms show ?thesis by (simp add: bucket_ok_def Let_def)
qed

lemma filter_segment:
  assumes "es = p @ filter P es @ q"
  shows "filter P p = []" and "filter P q = []"
proof -
  have "length (filter P es) = length (filter P p) + length (filter P (filter P es)) + length (filter P q)"
    using arg_cong [OF assms, of "\<lambda>xs. length (filter P xs)"] by (simp del: filter_filter)
  then have "length (filter P p) = 0 \<and> length (filter P q) = 0" by simp
  then show "filter P p = []" "filter P q = []" by simp_all
qed

lemma link_before_eq:
  "a \<notin> e_addr ` set pre \<Longrightarrow> e_addr x = a \<Longrightarrow> link_before a new (pre @ x # post) = pre @ new # x # post"
  by (induction pre) auto

text \<open>\<open>insertElement\<close> with its bucket keeps every bucket contiguous.\<close>

lemma insertElement_ok:
  fixes pH :: "'d hash"
  assumes ht: "h_ht pH = Some ht" and ok: "ht_ok ht (h_first pH)"
    and d: "distinct (map e_addr (h_first pH))" and new: "e_addr new \<notin> e_addr ` set (h_first pH)"
    and k: "k = unat (e_h new) mod length ht"
  obtains ht' where "h_ht (insertElement pH (Some k) new) = Some ht'" and "length ht' = length ht"
    and "ht_ok ht' (h_first (insertElement pH (Some k) new))"
    and "mset (h_first (insertElement pH (Some k) new)) = add_mset new (mset (h_first pH))"
    and "h_count (insertElement pH (Some k) new) = h_count pH"
proof -
  let ?es = "h_first pH" and ?n = "length ht"
  have kn: "k < ?n" using ok k by (simp add: ht_ok_def)
  have kin: "in_bucket ?n k new" by (simp add: in_bucket_def k)
  have other: "\<not> in_bucket ?n j x" if "j \<noteq> k" "in_bucket ?n k x" for j and x :: "'d hash_elem" using that by (simp add: in_bucket_def)
  let ?S = "filter (in_bucket ?n k) ?es" and ?b = "\<lparr>b_count = b_count (ht ! k) + 1, b_chain = e_addr new\<rparr>"
  have bk: "bucket_ok ?n ?es k (ht ! k)" using ok kn by (simp add: ht_ok_def)
  then obtain p q where es: "?es = p @ ?S @ q" and cnt: "b_count (ht ! k) = length ?S"
    and head: "?S \<noteq> [] \<longrightarrow> b_chain (ht ! k) = e_addr (hd ?S)"
    by (rule bucket_okE)
  note pq = filter_segment [OF es]
  show thesis
  proof (cases ?S)
    case Nil
    then have r: "insertElement pH (Some k) new = pH\<lparr>h_ht := Some (ht[k := ?b]), h_first := new # ?es\<rparr>"
      using ht cnt by (simp add: insertElement_def Let_def)
    have "bucket_ok ?n (new # ?es) k ?b"
      using Nil kin cnt unfolding bucket_ok_def Let_def by (auto intro: exI [of _ "[]"])
    moreover have "bucket_ok ?n (new # ?es) j (ht ! j)" if "j < ?n" "j \<noteq> k" for j
      using bucket_ok_other_front [of ?n ?es j "ht ! j" new] ok that other [OF that(2) kin] by (simp add: ht_ok_def)
    ultimately have "ht_ok (ht[k := ?b]) (new # ?es)" using ok kn by (auto simp: ht_ok_def nth_list_update)
    then show thesis using that [of "ht[k := ?b]"] r by simp
  next
    case (Cons x S')
    then have xin: "in_bucket ?n k x" by (metis filter_eq_Cons_iff)
    have chain: "b_chain (ht ! k) = e_addr x" using head Cons by simp
    have es': "?es = p @ x # (S' @ q)" using es Cons by simp
    have "e_addr x \<notin> e_addr ` set p" using d unfolding es' by auto
    then have lb: "link_before (b_chain (ht ! k)) new ?es = p @ new # x # (S' @ q)"
      using chain link_before_eq [of "e_addr x" p x new "S' @ q"] es' by simp
    have r: "insertElement pH (Some k) new = pH\<lparr>h_ht := Some (ht[k := ?b]), h_first := p @ new # x # (S' @ q)\<rparr>"
      using ht cnt Cons lb by (simp add: insertElement_def Let_def)
    have fl: "filter (in_bucket ?n k) (p @ new # x # (S' @ q)) = new # ?S"
    proof -
      have "filter (in_bucket ?n k) (x # (S' @ q)) = ?S" using pq(1) arg_cong [OF es', of "filter (in_bucket ?n k)"] by simp
      then show ?thesis using pq(1) kin by simp
    qed
    have "p @ new # x # (S' @ q) = p @ (new # ?S) @ q" using Cons by simp
    then have "bucket_ok ?n (p @ new # x # (S' @ q)) k ?b"
      by (rule bucket_okI [OF _ fl]) (simp_all add: cnt)
    moreover have "bucket_ok ?n (p @ new # x # (S' @ q)) j (ht ! j)" if "j < ?n" "j \<noteq> k" for j
      using bucket_ok_other_insert [of ?n p x "S' @ q" j "ht ! j" new] ok that es'
        other [OF that(2) kin] other [OF that(2) xin] by (simp add: ht_ok_def)
    ultimately have "ht_ok (ht[k := ?b]) (p @ new # x # (S' @ q))" using ok kn by (auto simp: ht_ok_def nth_list_update)
    then show thesis using that [of "ht[k := ?b]"] r es' by simp
  qed
qed

lemma removeElement_ok:
  fixes x :: "'d hash_elem"
  assumes ok: "ht_ok ht (pre @ x # post)" and d: "distinct (map e_addr (pre @ x # post))"
  shows "ht_ok (ht[unat (e_h x) mod length ht :=
      \<lparr>b_count = b_count (ht ! (unat (e_h x) mod length ht)) - 1,
       b_chain = (if b_chain (ht ! (unat (e_h x) mod length ht)) = e_addr x
                  then (case post of [] \<Rightarrow> 0 | y # _ \<Rightarrow> e_addr y)
                  else b_chain (ht ! (unat (e_h x) mod length ht)))\<rparr>]) (pre @ post)"
proof -
  let ?n = "length ht" and ?es = "pre @ x # post"
  define k where "k = unat (e_h x) mod ?n"
  have kn: "k < ?n" using ok by (simp add: k_def ht_ok_def)
  have kin: "in_bucket ?n k x" by (simp add: in_bucket_def k_def)
  let ?S = "filter (in_bucket ?n k) ?es"
  let ?b = "\<lparr>b_count = b_count (ht ! k) - 1, b_chain = (if b_chain (ht ! k) = e_addr x
      then (case post of [] \<Rightarrow> 0 | y # _ \<Rightarrow> e_addr y) else b_chain (ht ! k))\<rparr>"
  have bk: "bucket_ok ?n ?es k (ht ! k)" using ok kn by (simp add: ht_ok_def)
  then obtain p q where es: "?es = p @ ?S @ q" and cnt: "b_count (ht ! k) = length ?S"
    and head: "?S \<noteq> [] \<longrightarrow> b_chain (ht ! k) = e_addr (hd ?S)"
    by (rule bucket_okE)
  note pq = filter_segment [OF es]
  have "x \<notin> set p" "x \<notin> set q" using pq kin by (auto simp: filter_empty_conv)
  with es [symmetric] obtain S1 S2 where S: "?S = S1 @ x # S2" "pre = p @ S1" "post = S2 @ q"
    by (rule segment_inside)
  have S': "filter (in_bucket ?n k) (pre @ post) = S1 @ S2"
  proof -
    have "\<forall>e \<in> set (S1 @ x # S2). in_bucket ?n k e" unfolding S(1) [symmetric] by auto
    then have "filter (in_bucket ?n k) S1 = S1" "filter (in_bucket ?n k) S2 = S2"
      by (simp_all add: filter_id_conv)
    then show ?thesis using pq S(2,3) by simp
  qed
  have cnt': "b_count (ht ! k) = length S1 + 1 + length S2" using cnt unfolding S(1) by simp
  have head': "b_chain (ht ! k) = e_addr (hd (S1 @ x # S2))" using head unfolding S(1) by simp
  have chain: "b_chain ?b = e_addr (hd (S1 @ S2))" if "S1 @ S2 \<noteq> []"
  proof (cases S1)
    case Nil
    then show ?thesis using that head' S(3) by (cases S2) simp_all
  next
    case (Cons y S1')
    then have "e_addr y \<noteq> e_addr x" using d S(2) by auto
    then show ?thesis using Cons head' by simp
  qed
  have "pre @ post = p @ (S1 @ S2) @ q" using S by simp
  then have "bucket_ok ?n (pre @ post) k ?b"
    by (rule bucket_okI [OF _ S']) (use chain in \<open>simp_all add: cnt'\<close>)
  moreover have "bucket_ok ?n (pre @ post) j (ht ! j)" if "j < ?n" "j \<noteq> k" for j
    using bucket_ok_other_remove [of ?n pre x post j "ht ! j"] ok that kin by (simp add: ht_ok_def in_bucket_def)
  ultimately show ?thesis using ok kn unfolding k_def [symmetric] by (auto simp: ht_ok_def nth_list_update)
qed

subsection \<open>Searching\<close>

lemma find_loop_segment:
  "find_loop (length S) h key (S @ q) = List.find (\<lambda>e. h = e_h e \<and> sqlite3StrICmp (e_key e) key = 0) S"
  by (induction S) auto

lemma find_filter:
  "(\<And>e. e \<in> set es \<Longrightarrow> Q e \<Longrightarrow> P e) \<Longrightarrow> List.find Q (filter P es) = List.find Q es"
  by (induction es) auto

lemma dropWhile_chain:
  assumes "distinct (map e_addr (p @ x # xs))"
  shows "dropWhile (\<lambda>e. e_addr e \<noteq> e_addr x) (p @ x # xs) = x # xs"
  using assms by (induction p) auto

definition hash_inv :: "'d hash \<Rightarrow> bool" where
  "hash_inv pH \<longleftrightarrow>
     distinct (map e_addr (h_first pH)) \<and> h_count pH = length (h_first pH)
   \<and> (\<forall>e \<in> set (h_first pH). 0 \<notin> set (e_key e) \<and> e_h e = strHash (e_key e))
   \<and> distinct (map (\<lambda>e. folded (e_key e)) (h_first pH))
   \<and> (case h_ht pH of None \<Rightarrow> True | Some ht \<Rightarrow> ht_ok ht (h_first pH))"

lemma hash_invI:
  "distinct (map e_addr (h_first pH)) \<Longrightarrow> h_count pH = length (h_first pH) \<Longrightarrow>
   (\<And>e. e \<in> set (h_first pH) \<Longrightarrow> 0 \<notin> set (e_key e) \<and> e_h e = strHash (e_key e)) \<Longrightarrow>
   distinct (map (\<lambda>e. folded (e_key e)) (h_first pH)) \<Longrightarrow>
   (\<And>ht. h_ht pH = Some ht \<Longrightarrow> ht_ok ht (h_first pH)) \<Longrightarrow> hash_inv pH"
  unfolding hash_inv_def by (auto split: option.split)

lemma hash_inv_ht: "hash_inv pH \<Longrightarrow> h_ht pH = Some ht \<Longrightarrow> ht_ok ht (h_first pH)"
  by (simp add: hash_inv_def)

lemma find_match:
  assumes "hash_inv pH" and "0 \<notin> set key" and "e \<in> set (h_first pH)"
  shows "(strHash key = e_h e \<and> sqlite3StrICmp (e_key e) key = 0) = (folded (e_key e) = folded key)"
  using assms strHash_folded [of "e_key e" key]
  by (auto simp: hash_inv_def sqlite3StrICmp_folded)

lemma findElementWithHash_eq:
  assumes inv: "hash_inv pH" and key: "0 \<notin> set key"
  shows "findElementWithHash pH key = (List.find (\<lambda>e. folded (e_key e) = folded key) (h_first pH), strHash key)"
proof -
  let ?h = "strHash key" and ?es = "h_first pH"
  let ?P = "\<lambda>e. ?h = e_h e \<and> sqlite3StrICmp (e_key e) key = 0"
  have eq: "List.find ?P ?es = List.find (\<lambda>e. folded (e_key e) = folded key) ?es"
    by (rule find_cong) (simp_all add: find_match [OF inv key])
  show ?thesis
  proof (cases "h_ht pH")
    case None
    have "find_loop (h_count pH) ?h key ?es = List.find ?P ?es"
      using inv find_loop_segment [of ?es ?h key "[]"] by (simp add: hash_inv_def)
    with None eq show ?thesis by (simp add: findElementWithHash_def Let_def)
  next
    case (Some ht)
    define k where "k = unat ?h mod length ht"
    let ?S = "filter (in_bucket (length ht) k) ?es"
    have "ht_ok ht ?es" using inv Some by (simp add: hash_inv_def)
    then have bk: "bucket_ok (length ht) ?es k (ht ! k)" by (simp add: ht_ok_def k_def)
    then obtain p q where es: "?es = p @ ?S @ q" and cnt: "b_count (ht ! k) = length ?S"
      and head: "?S \<noteq> [] \<longrightarrow> b_chain (ht ! k) = e_addr (hd ?S)"
      by (rule bucket_okE)
    have fS: "List.find ?P ?S = List.find ?P ?es" by (rule find_filter) (auto simp: in_bucket_def k_def)
    have "find_loop (b_count (ht ! k)) ?h key (dropWhile (\<lambda>x. e_addr x \<noteq> b_chain (ht ! k)) ?es) = List.find ?P ?S"
    proof (cases ?S)
      case Nil
      then show ?thesis using cnt by simp
    next
      case (Cons x S')
      then have "b_chain (ht ! k) = e_addr x" using head by simp
      moreover have "?es = p @ x # (S' @ q)" using es Cons by simp
      moreover have "distinct (map e_addr ?es)" using inv by (simp add: hash_inv_def)
      ultimately have "dropWhile (\<lambda>e. e_addr e \<noteq> b_chain (ht ! k)) ?es = ?S @ q"
        using dropWhile_chain [of p x "S' @ q"] Cons by simp
      then show ?thesis using find_loop_segment [of ?S ?h key q] cnt by simp
    qed
    then show ?thesis using Some eq fS
      by (simp add: findElementWithHash_def Let_def h_htsize_def flip: k_def)
  qed
qed

subsection \<open>The table as a map\<close>

definition habs :: "'d hash_elem list \<Rightarrow> u8 list \<rightharpoonup> 'd" where
  "habs es = map_of (map (\<lambda>e. (folded (e_key e), e_data e)) es)"

lemma habs_iff:
  "distinct (map (\<lambda>e. folded (e_key e)) es) \<Longrightarrow>
   habs es c = Some d \<longleftrightarrow> (\<exists>e \<in> set es. folded (e_key e) = c \<and> e_data e = d)"
  unfolding habs_def by (subst map_of_eq_Some_iff) (auto simp: comp_def)

lemma habs_find: "map_option e_data (List.find (\<lambda>e. folded (e_key e) = c) es) = habs es c"
  by (induction es) (auto simp: habs_def)

lemma habs_perm:
  assumes "distinct (map (\<lambda>e. folded (e_key e)) es)" and "mset es' = mset es"
  shows "habs es' = habs es"
proof -
  have "distinct (map (\<lambda>e. folded (e_key e)) es')"
    using assms by (metis mset_map mset_eq_imp_distinct_iff)
  moreover have "set es' = set es" using assms(2) by (rule mset_eq_setD)
  ultimately have "habs es' c = Some d \<longleftrightarrow> habs es c = Some d" for c d
    using habs_iff [of es' c d] habs_iff [OF assms(1), of c d] by simp
  then show ?thesis by (metis not_None_eq ext)
qed

lemma hash_inv_perm:
  assumes "mset es' = mset (h_first pH)" and "hash_inv pH"
  shows "distinct (map e_addr es')" and "length es' = h_count pH"
    and "\<forall>e \<in> set es'. 0 \<notin> set (e_key e) \<and> e_h e = strHash (e_key e)"
    and "distinct (map (\<lambda>e. folded (e_key e)) es')"
proof -
  show "distinct (map e_addr es')" "distinct (map (\<lambda>e. folded (e_key e)) es')"
    using assms by (metis mset_map mset_eq_imp_distinct_iff hash_inv_def)+
  show "length es' = h_count pH" using assms by (metis mset_eq_length hash_inv_def)
  show "\<forall>e \<in> set es'. 0 \<notin> set (e_key e) \<and> e_h e = strHash (e_key e)"
    using assms mset_eq_setD [OF assms(1)] by (simp add: hash_inv_def)
qed

text \<open>\<open>rehash\<close> redistributes the elements and changes nothing else.\<close>

lemma rehash_loop:
  assumes "h_ht pH = Some ht" and "ht_ok ht (h_first pH)"
    and "distinct (map e_addr (h_first pH @ es))"
  shows "\<exists>ht'. h_ht (foldl (\<lambda>pH e. insertElement pH (Some (unat (e_h e) mod length ht)) e) pH es) = Some ht'
     \<and> ht_ok ht' (h_first (foldl (\<lambda>pH e. insertElement pH (Some (unat (e_h e) mod length ht)) e) pH es))
     \<and> mset (h_first (foldl (\<lambda>pH e. insertElement pH (Some (unat (e_h e) mod length ht)) e) pH es))
         = mset (h_first pH) + mset es
     \<and> h_count (foldl (\<lambda>pH e. insertElement pH (Some (unat (e_h e) mod length ht)) e) pH es) = h_count pH"
  using assms
proof (induction es arbitrary: pH ht)
  case Nil
  then show ?case by simp
next
  case (Cons e es)
  let ?pH = "insertElement pH (Some (unat (e_h e) mod length ht)) e"
  have d: "distinct (map e_addr (h_first pH))" "e_addr e \<notin> e_addr ` set (h_first pH)"
    using Cons.prems(3) by auto
  obtain ht' where ht': "h_ht ?pH = Some ht'" "length ht' = length ht" "ht_ok ht' (h_first ?pH)"
    "mset (h_first ?pH) = add_mset e (mset (h_first pH))" "h_count ?pH = h_count pH"
    using insertElement_ok [OF Cons.prems(1,2) d refl] by blast
  have "mset (map e_addr (h_first ?pH @ es)) = mset (map e_addr (h_first pH @ e # es))"
    using ht'(4) by simp
  then have "distinct (map e_addr (h_first ?pH @ es))"
    using Cons.prems(3) mset_eq_imp_distinct_iff by blast
  from Cons.IH [OF ht'(1,3) this] ht'(2,4,5) show ?case by simp
qed

lemma rehash_ok:
  assumes dist: "distinct (map e_addr (h_first pH))"
    and old: "case h_ht pH of None \<Rightarrow> True | Some ht \<Rightarrow> ht_ok ht (h_first pH)"
    and alloc: "malloc_ht_ok malloc_ht" and "0 < n"
  shows "mset (h_first (rehash malloc_ht pH n)) = mset (h_first pH)"
    and "h_count (rehash malloc_ht pH n) = h_count pH"
    and "case h_ht (rehash malloc_ht pH n) of None \<Rightarrow> True | Some ht \<Rightarrow> ht_ok ht (h_first (rehash malloc_ht pH n))"
proof -
  define n' where "n' = (if n * sizeof_ht > SQLITE_MALLOC_SOFT_LIMIT then SQLITE_MALLOC_SOFT_LIMIT div sizeof_ht else n)"
  have n': "0 < n'" using assms(4) by (simp add: n'_def SQLITE_MALLOC_SOFT_LIMIT_def sizeof_ht_def)
  have unf: "rehash malloc_ht pH n = (if n' = h_htsize pH then pH
         else case malloc_ht n' of
                None \<Rightarrow> pH
              | Some m \<Rightarrow>
                  foldl (\<lambda>pH elem. insertElement pH (Some (unat (e_h elem) mod m)) elem)
                    (pH\<lparr>h_first := [], h_ht := Some (replicate m \<lparr>b_count = 0, b_chain = 0\<rparr>)\<rparr>)
                    (h_first pH))"
    by (simp add: rehash_def Let_def flip: n'_def)
  have "mset (h_first (rehash malloc_ht pH n)) = mset (h_first pH)
    \<and> h_count (rehash malloc_ht pH n) = h_count pH
    \<and> (case h_ht (rehash malloc_ht pH n) of None \<Rightarrow> True | Some ht \<Rightarrow> ht_ok ht (h_first (rehash malloc_ht pH n)))"
  proof (cases "n' = h_htsize pH \<or> malloc_ht n' = None")
    case True
    then have r: "rehash malloc_ht pH n = pH" unfolding unf by (cases "n' = h_htsize pH") simp_all
    show ?thesis unfolding r using old by simp
  next
    case False
    then obtain m where m: "malloc_ht n' = Some m" by auto
    have "0 < m" using alloc n' m by (auto simp: malloc_ht_ok_def)
    let ?ht = "replicate m \<lparr>b_count = 0, b_chain = 0\<rparr>"
    let ?pH = "pH\<lparr>h_first := [], h_ht := Some ?ht\<rparr>"
    have "ht_ok ?ht (h_first ?pH)" using \<open>0 < m\<close> by (simp add: ht_ok_def bucket_ok_def)
    moreover have "distinct (map e_addr (h_first ?pH @ h_first pH))" using dist by simp
    ultimately show ?thesis
      using rehash_loop [of ?pH ?ht "h_first pH"] False m unfolding unf by auto
  qed
  then show "mset (h_first (rehash malloc_ht pH n)) = mset (h_first pH)"
    and "h_count (rehash malloc_ht pH n) = h_count pH"
    and "case h_ht (rehash malloc_ht pH n) of None \<Rightarrow> True | Some ht \<Rightarrow> ht_ok ht (h_first (rehash malloc_ht pH n))"
    by blast+
qed

subsection \<open>Every operation keeps the invariant and acts on the map\<close>

lemma hash_inv_init: "hash_inv sqlite3HashInit"
  by (simp add: hash_inv_def sqlite3HashInit_def)

lemma hash_inv_clear: "hash_inv (sqlite3HashClear pH)"
  by (simp add: hash_inv_def sqlite3HashClear_def)

lemma sqlite3HashFind_eq:
  assumes "hash_inv pH" and "0 \<notin> set key"
  shows "sqlite3HashFind pH key = habs (h_first pH) (folded key)"
  using assms habs_find [of "folded key" "h_first pH"]
  by (simp add: sqlite3HashFind_def findElementWithHash_eq)

lemma insert_new:
  fixes pH :: "'d hash"
  assumes inv: "hash_inv pH" and key: "0 \<notin> set key" and none: "habs (h_first pH) (folded key) = None"
    and a: "a \<notin> e_addr ` set (h_first pH)"
    and alloc: "malloc_ht_ok malloc_ht"
  shows "hash_inv (snd (sqlite3HashInsert (Some a) malloc_ht pH key (Some d)))
    \<and> fst (sqlite3HashInsert (Some a) malloc_ht pH key (Some d)) = None
    \<and> habs (h_first (snd (sqlite3HashInsert (Some a) malloc_ht pH key (Some d)))) = (habs (h_first pH))(folded key \<mapsto> d)"
proof -
  let ?new = "\<lparr>e_addr = a, e_data = d, e_key = key, e_h = strHash key\<rparr>"
  define pH1 where "pH1 = pH\<lparr>h_count := h_count pH + 1\<rparr>"
  define pH2 where "pH2 = (if h_count pH1 \<ge> 5 \<and> h_count pH1 > 2 * h_htsize pH1 then rehash malloc_ht pH1 (h_count pH1 * 3) else pH1)"
  define pH3 where "pH3 = insertElement pH2 (if h_ht pH2 \<noteq> None then Some (unat (e_h ?new) mod h_htsize pH2) else None) ?new"
  have "List.find (\<lambda>e. folded (e_key e) = folded key) (h_first pH) = None"
    using none habs_find [of "folded key" "h_first pH"] by simp
  then have r: "sqlite3HashInsert (Some a) malloc_ht pH key (Some d) = (None, pH3)"
    using inv key by (auto simp: sqlite3HashInsert_def findElementWithHash_eq Let_def pH3_def pH2_def pH1_def)
  have pH1: "h_first pH1 = h_first pH" "h_ht pH1 = h_ht pH" "h_count pH1 = h_count pH + 1"
    by (simp_all add: pH1_def)
  have d1: "distinct (map e_addr (h_first pH1))"
    and o1: "case h_ht pH1 of None \<Rightarrow> True | Some ht \<Rightarrow> ht_ok ht (h_first pH1)"
    using inv unfolding hash_inv_def pH1 by blast+
  have n1: "0 < h_count pH1 * 3" by (simp add: pH1)
  note rh = rehash_ok [of pH1 malloc_ht "h_count pH1 * 3", OF d1 o1 alloc n1]
  have pH2': "mset (h_first pH2) = mset (h_first pH1) \<and> h_count pH2 = h_count pH1
    \<and> (case h_ht pH2 of None \<Rightarrow> True | Some ht \<Rightarrow> ht_ok ht (h_first pH2))"
  proof (cases "h_count pH1 \<ge> 5 \<and> h_count pH1 > 2 * h_htsize pH1")
    case True
    then have r: "pH2 = rehash malloc_ht pH1 (h_count pH1 * 3)" by (simp add: pH2_def)
    show ?thesis unfolding r using rh by blast
  next
    case False
    then have r: "pH2 = pH1" by (auto simp: pH2_def)
    show ?thesis unfolding r using o1 by blast
  qed
  then have pH2: "mset (h_first pH2) = mset (h_first pH)" "h_count pH2 = h_count pH + 1"
    "case h_ht pH2 of None \<Rightarrow> True | Some ht \<Rightarrow> ht_ok ht (h_first pH2)"
    by (simp_all add: pH1)
  note p = hash_inv_perm [OF pH2(1) inv]
  have anew: "e_addr ?new \<notin> e_addr ` set (h_first pH2)" using a mset_eq_setD [OF pH2(1)] by simp
  have pH3: "mset (h_first pH3) = add_mset ?new (mset (h_first pH))" "h_count pH3 = h_count pH + 1"
    "case h_ht pH3 of None \<Rightarrow> True | Some ht \<Rightarrow> ht_ok ht (h_first pH3)"
  proof -
    have "mset (h_first pH3) = add_mset ?new (mset (h_first pH2)) \<and> h_count pH3 = h_count pH2
      \<and> (case h_ht pH3 of None \<Rightarrow> True | Some ht \<Rightarrow> ht_ok ht (h_first pH3))"
    proof (cases "h_ht pH2")
      case None
      then show ?thesis by (simp add: pH3_def insertElement_def)
    next
      case (Some ht)
      then have ok: "ht_ok ht (h_first pH2)" using pH2(3) by simp
      show ?thesis
        using insertElement_ok [OF Some ok p(1) anew refl] Some by (fastforce simp: pH3_def h_htsize_def)
    qed
    then show "mset (h_first pH3) = add_mset ?new (mset (h_first pH))" "h_count pH3 = h_count pH + 1"
      "case h_ht pH3 of None \<Rightarrow> True | Some ht \<Rightarrow> ht_ok ht (h_first pH3)" using pH2 by simp_all
  qed
  have perm: "mset (h_first pH3) = mset (?new # h_first pH)" using pH3(1) by simp
  have nokey: "folded key \<notin> (\<lambda>e. folded (e_key e)) ` set (h_first pH)"
    using none by (auto simp: habs_def map_of_eq_None_iff image_image)
  have "hash_inv \<lparr>h_count = h_count pH + 1, h_first = ?new # h_first pH, h_ht = None\<rparr>"
  proof (rule hash_invI)
    show "distinct (map e_addr (h_first \<lparr>h_count = h_count pH + 1, h_first = ?new # h_first pH, h_ht = None\<rparr>))"
      using inv a by (simp add: hash_inv_def)
    show "distinct (map (\<lambda>e. folded (e_key e))
        (h_first \<lparr>h_count = h_count pH + 1, h_first = ?new # h_first pH, h_ht = None\<rparr>))"
      using inv nokey by (simp add: hash_inv_def)
  qed (use inv key in \<open>auto simp: hash_inv_def\<close>)
  note q = hash_inv_perm [of "h_first pH3", OF _ this]
  have inv3: "hash_inv pH3"
    using q pH3(2,3) perm by (simp add: hash_inv_def)
  have "habs (h_first pH3) = habs (?new # h_first pH)"
    using perm nokey inv by (intro habs_perm) (auto simp: hash_inv_def)
  then show ?thesis using r inv3 by (simp add: habs_def)
qed

lemma habs_memE:
  assumes "hash_inv pH" and "habs (h_first pH) c = Some d"
  obtains e where "List.find (\<lambda>e. folded (e_key e) = c) (h_first pH) = Some e" "e_data e = d"
    "e \<in> set (h_first pH)" "folded (e_key e) = c"
proof -
  obtain e where e: "List.find (\<lambda>e. folded (e_key e) = c) (h_first pH) = Some e" "e_data e = d"
    using assms(2) habs_find [of c "h_first pH"] by (cases "List.find (\<lambda>e. folded (e_key e) = c) (h_first pH)") auto
  then have "e \<in> set (h_first pH)" "folded (e_key e) = c" by (auto simp: find_Some_iff)
  with that e show thesis by blast
qed

lemma insert_replace:
  fixes pH :: "'d hash"
  assumes inv: "hash_inv pH" and key: "0 \<notin> set key" and old: "habs (h_first pH) (folded key) = Some d0"
  shows "hash_inv (snd (sqlite3HashInsert m malloc_ht pH key (Some d)))
    \<and> fst (sqlite3HashInsert m malloc_ht pH key (Some d)) = Some d0
    \<and> habs (h_first (snd (sqlite3HashInsert m malloc_ht pH key (Some d)))) = (habs (h_first pH))(folded key \<mapsto> d)"
proof -
  let ?es = "h_first pH"
  obtain e where e: "List.find (\<lambda>e. folded (e_key e) = folded key) ?es = Some e" "e_data e = d0"
    "e \<in> set ?es" "folded (e_key e) = folded key"
    using inv old by (rule habs_memE)
  define f where "f = (\<lambda>x :: 'd hash_elem. if e_addr x = e_addr e then x\<lparr>e_data := d, e_key := key\<rparr> else x)"
  have r: "sqlite3HashInsert m malloc_ht pH key (Some d) = (Some d0, pH\<lparr>h_first := map f ?es\<rparr>)"
    using e by (simp add: sqlite3HashInsert_def findElementWithHash_eq [OF inv key] f_def)
  have da: "distinct (map e_addr ?es)" and all: "\<forall>e \<in> set ?es. 0 \<notin> set (e_key e) \<and> e_h e = strHash (e_key e)"
    and dk: "distinct (map (\<lambda>e. folded (e_key e)) ?es)"
    using inv by (simp_all add: hash_inv_def)
  have same: "x = e" if "x \<in> set ?es" "e_addr x = e_addr e" for x
    using da that e(3) by (meson inj_on_eq_iff distinct_map)
  have addr: "e_addr (f x) = e_addr x" and h: "e_h (f x) = e_h x" for x by (simp_all add: f_def)
  have k: "folded (e_key (f x)) = folded (e_key x)" if "x \<in> set ?es" for x
    using same [OF that] e(4) by (cases "e_addr x = e_addr e") (simp_all add: f_def)
  have hash: "strHash key = e_h e" using e(3,4) all key strHash_folded [of key "e_key e"] by simp
  have flt: "filter (in_bucket n j) (map f es) = map f (filter (in_bucket n j) es)" for n j es
    by (induction es) (simp_all add: in_bucket_def h)
  have ht: "ht_ok ht (map f ?es)" if "ht_ok ht ?es" for ht
    unfolding ht_ok_def
  proof (intro conjI allI impI)
    show "ht \<noteq> []" using that by (simp add: ht_ok_def)
    fix j assume "j < length ht"
    then have "bucket_ok (length ht) ?es j (ht ! j)" using that by (simp add: ht_ok_def)
    then obtain p q where pq: "?es = p @ filter (in_bucket (length ht) j) ?es @ q"
      "b_count (ht ! j) = length (filter (in_bucket (length ht) j) ?es)"
      "filter (in_bucket (length ht) j) ?es \<noteq> [] \<longrightarrow> b_chain (ht ! j) = e_addr (hd (filter (in_bucket (length ht) j) ?es))"
      by (rule bucket_okE)
    have "map f ?es = map f p @ map f (filter (in_bucket (length ht) j) ?es) @ map f q"
      using arg_cong [OF pq(1), of "map f"] by simp
    then show "bucket_ok (length ht) (map f ?es) j (ht ! j)"
      by (rule bucket_okI [OF _ flt]) (use pq(2,3) in \<open>simp_all add: hd_map addr\<close>)
  qed
  have kk: "map (\<lambda>x. folded (e_key x)) (map f ?es) = map (\<lambda>x. folded (e_key x)) ?es" using k by simp
  have "0 \<notin> set (e_key (f x)) \<and> e_h (f x) = strHash (e_key (f x))" if "x \<in> set ?es" for x
    using all that same [OF that] key hash by (auto simp: f_def)
  then have inv': "hash_inv (pH\<lparr>h_first := map f ?es\<rparr>)"
  proof (intro hash_invI)
    show "distinct (map e_addr (h_first (pH\<lparr>h_first := map f ?es\<rparr>)))"
      using da by (simp add: comp_def addr)
    show "h_count (pH\<lparr>h_first := map f ?es\<rparr>) = length (h_first (pH\<lparr>h_first := map f ?es\<rparr>))"
      using inv by (simp add: hash_inv_def)
    show "distinct (map (\<lambda>x. folded (e_key x)) (h_first (pH\<lparr>h_first := map f ?es\<rparr>)))"
      using dk k by (simp add: comp_def cong: map_cong)
  qed (use ht hash_inv_ht [OF inv] in auto)
  have "habs (map f ?es) c = ((habs ?es)(folded key \<mapsto> d)) c" for c
  proof -
    have dk': "distinct (map (\<lambda>x. folded (e_key x)) (map f ?es))" using dk kk by metis
    have "habs (map f ?es) c = Some v \<longleftrightarrow> ((habs ?es)(folded key \<mapsto> d)) c = Some v" for v
    proof -
      have "habs (map f ?es) c = Some v \<longleftrightarrow> (\<exists>x \<in> set ?es. folded (e_key x) = c \<and> e_data (f x) = v)"
        unfolding habs_iff [OF dk'] using k by (simp add: bex_simps)
      also have "\<dots> \<longleftrightarrow> ((habs ?es)(folded key \<mapsto> d)) c = Some v"
      proof (cases "c = folded key")
        case True
        have u: "x = e" if "x \<in> set ?es" "folded (e_key x) = folded key" for x
          using dk that e(3,4) by (metis (no_types, lifting) inj_on_eq_iff distinct_map)
        have "e_data (f e) = d" by (simp add: f_def)
        then have "(\<exists>x \<in> set ?es. folded (e_key x) = c \<and> e_data (f x) = v) \<longleftrightarrow> d = v"
          using u e(3,4) unfolding True by blast
        then show ?thesis by (simp add: True)
      next
        case False
        then have "e_data (f x) = e_data x" if "x \<in> set ?es" "folded (e_key x) = c" for x
          using same [OF that(1)] that(2) e(4) by (auto simp: f_def)
        then show ?thesis using False habs_iff [OF dk, of c v] by auto
      qed
      finally show ?thesis .
    qed
    then show ?thesis by (metis not_None_eq)
  qed
  then have "habs (map f ?es) = (habs ?es)(folded key \<mapsto> d)" by (rule ext)
  with r inv' show ?thesis by simp
qed

lemma insert_remove:
  assumes inv: "hash_inv pH" and key: "0 \<notin> set key" and old: "habs (h_first pH) (folded key) = Some d0"
  shows "hash_inv (snd (sqlite3HashInsert m malloc_ht pH key None))
    \<and> fst (sqlite3HashInsert m malloc_ht pH key None) = Some d0
    \<and> habs (h_first (snd (sqlite3HashInsert m malloc_ht pH key None))) = (habs (h_first pH))(folded key := None)"
proof -
  let ?es = "h_first pH"
  obtain e where e: "List.find (\<lambda>e. folded (e_key e) = folded key) ?es = Some e" "e_data e = d0"
    "e \<in> set ?es" "folded (e_key e) = folded key"
    using inv old by (rule habs_memE)
  obtain pre post where es: "?es = pre @ e # post" using e(3) by (meson split_list)
  have da: "distinct (map e_addr (pre @ e # post))" and dk: "distinct (map (\<lambda>e. folded (e_key e)) (pre @ e # post))"
    using inv unfolding hash_inv_def es by blast+
  have tw: "takeWhile (\<lambda>x. e_addr x \<noteq> e_addr e) (pre @ e # post) = pre"
    "dropWhile (\<lambda>x. e_addr x \<noteq> e_addr e) (pre @ e # post) = e # post"
    using da by (induction pre) auto
  define ht' where "ht' = map_option (\<lambda>ht. let k = unat (e_h e) mod length ht; b = ht ! k
      in ht[k := \<lparr>b_count = b_count b - 1,
           b_chain = (if b_chain b = e_addr e then (case post of [] \<Rightarrow> 0 | x # _ \<Rightarrow> e_addr x) else b_chain b)\<rparr>]) (h_ht pH)"
  have cnt: "h_count pH = Suc (length (pre @ post))" using inv es by (simp add: hash_inv_def)
  have rm: "removeElement pH e = (if pre @ post = [] then sqlite3HashClear pH
      else pH\<lparr>h_first := pre @ post, h_ht := ht', h_count := length (pre @ post)\<rparr>)"
    by (cases "h_ht pH") (auto simp: removeElement_def Let_def es tw cnt ht'_def h_htsize_def sqlite3HashClear_def)
  have r: "sqlite3HashInsert m malloc_ht pH key None = (Some d0, removeElement pH e)"
    using e by (simp add: sqlite3HashInsert_def findElementWithHash_eq [OF inv key])
  have ok': "case ht' of None \<Rightarrow> True | Some ht \<Rightarrow> ht_ok ht (pre @ post)"
  proof (cases "h_ht pH")
    case (Some ht)
    then have "ht_ok ht (pre @ e # post)" using inv es by (simp add: hash_inv_def)
    from removeElement_ok [OF this da] Some show ?thesis by (simp add: ht'_def Let_def)
  qed (simp add: ht'_def)
  have inv': "hash_inv (removeElement pH e)"
  proof (cases "pre @ post = []")
    case True
    then show ?thesis by (simp add: rm hash_inv_clear)
  next
    case False
    have "\<forall>x \<in> set (pre @ post). 0 \<notin> set (e_key x) \<and> e_h x = strHash (e_key x)"
      using inv es by (simp add: hash_inv_def)
    then show ?thesis unfolding rm if_not_P [OF False]
      using da dk ok' by (intro hash_invI) auto
  qed
  have first: "h_first (removeElement pH e) = pre @ post" by (auto simp: rm sqlite3HashClear_def)
  have "habs (pre @ post) = (habs (pre @ e # post))(folded key := None)"
  proof (rule ext)
    fix c
    have dk': "distinct (map (\<lambda>e. folded (e_key e)) (pre @ post))" using dk by simp
    have ne: "folded (e_key x) \<noteq> folded key" if "x \<in> set (pre @ post)" for x
      using dk that e(4) by (auto simp: image_iff)
    have "habs (pre @ post) c = Some v \<longleftrightarrow> ((habs (pre @ e # post))(folded key := None)) c = Some v" for v
      using ne e(4) unfolding fun_upd_apply habs_iff [OF dk']
      by (cases "c = folded key") (auto simp: habs_iff [OF dk])
    then show "habs (pre @ post) c = ((habs (pre @ e # post))(folded key := None)) c" by (metis not_None_eq)
  qed
  with r inv' first es show ?thesis by simp
qed

subsection \<open>Properties\<close>

lemma sqlite3HashInsert_cases:
  assumes inv: "hash_inv pH" and key: "0 \<notin> set key" and ht: "malloc_ht_ok malloc_ht"
    and fresh: "\<forall>a. malloc_elem = Some a \<longrightarrow> a \<notin> e_addr ` set (h_first pH)"
  shows "hash_inv (snd (sqlite3HashInsert malloc_elem malloc_ht pH key data))
    \<and> (if habs (h_first pH) (folded key) = None \<and> malloc_elem = None
       then sqlite3HashInsert malloc_elem malloc_ht pH key data = (data, pH)
       else fst (sqlite3HashInsert malloc_elem malloc_ht pH key data) = habs (h_first pH) (folded key)
          \<and> habs (h_first (snd (sqlite3HashInsert malloc_elem malloc_ht pH key data)))
              = (habs (h_first pH))(folded key := data))"
proof (cases "habs (h_first pH) (folded key)")
  case None
  have find: "List.find (\<lambda>e. folded (e_key e) = folded key) (h_first pH) = None"
    using None habs_find [of "folded key" "h_first pH"] by simp
  show ?thesis
  proof (cases data)
    case d: None
    then have "sqlite3HashInsert malloc_elem malloc_ht pH key data = (None, pH)"
      using find by (simp add: sqlite3HashInsert_def findElementWithHash_eq [OF inv key])
    moreover have "(habs (h_first pH))(folded key := None) = habs (h_first pH)" using None by (simp add: fun_upd_idem)
    ultimately show ?thesis using inv d None by (cases malloc_elem) simp_all
  next
    case (Some d)
    show ?thesis
    proof (cases malloc_elem)
      case m: None
      then have "sqlite3HashInsert malloc_elem malloc_ht pH key data = (data, pH)"
        using find Some by (simp add: sqlite3HashInsert_def findElementWithHash_eq [OF inv key])
      then show ?thesis using inv m None by simp
    next
      case m: (Some a)
      then have "a \<notin> e_addr ` set (h_first pH)" using fresh by simp
      from insert_new [OF inv key None this ht, of d] m Some None show ?thesis by simp
    qed
  qed
next
  case (Some d0)
  then show ?thesis
    using insert_replace [OF inv key Some, of malloc_elem malloc_ht] insert_remove [OF inv key Some, of malloc_elem malloc_ht]
    by (cases data) auto
qed

text \<open>
  C16. \<open>sqlite3HashInsert\<close> on a well-formed table keeps it well-formed (counts, contiguous
  buckets, chain pointers, stored hashes, one element per key) and returns the data stored
  before under the key. Afterwards every key that equals the given one without regard to case
  is bound to the new data, or to nothing when the data is NULL, and every other key to what
  it had. When a new element cannot be allocated the table is unchanged and the data itself is
  returned; a failing or over-generous allocation of the bucket array changes nothing.
\<close>

theorem sqlite3HashInsert_map:
  assumes "hash_inv pH" and "0 \<notin> set key" and "malloc_ht_ok malloc_ht"
    and "\<forall>a. malloc_elem = Some a \<longrightarrow> a \<notin> e_addr ` set (h_first pH)"
  shows "case sqlite3HashInsert malloc_elem malloc_ht pH key data of (old, pH') \<Rightarrow>
     hash_inv pH'
   \<and> (if sqlite3HashFind pH key = None \<and> malloc_elem = None then old = data \<and> pH' = pH
      else old = sqlite3HashFind pH key
         \<and> (\<forall>k. 0 \<notin> set k \<longrightarrow>
              sqlite3HashFind pH' k = (if folded k = folded key then data else sqlite3HashFind pH k)))"
proof -
  obtain old pH' where r: "sqlite3HashInsert malloc_elem malloc_ht pH key data = (old, pH')" by fastforce
  with sqlite3HashInsert_cases [OF assms, of data] sqlite3HashFind_eq [OF assms(1)] sqlite3HashFind_eq [of pH'] assms(2)
  show ?thesis by (auto split: if_splits)
qed

text \<open>An allocator that always succeeds, with an unused address and exactly the buckets asked for.\<close>

definition fresh_addr :: "'d hash \<Rightarrow> nat" where
  "fresh_addr pH = Suc (Max (insert 0 (set (map e_addr (h_first pH)))))"

definition hash_store :: "'d hash \<Rightarrow> u8 list \<Rightarrow> 'd option \<Rightarrow> 'd hash" where
  "hash_store pH key data = snd (sqlite3HashInsert (Some (fresh_addr pH)) Some pH key data)"

lemma fresh_addr: "fresh_addr pH \<notin> e_addr ` set (h_first pH)"
proof
  assume "fresh_addr pH \<in> e_addr ` set (h_first pH)"
  then have "fresh_addr pH \<le> Max (insert 0 (set (map e_addr (h_first pH))))" by (intro Max_ge) auto
  then show False by (simp add: fresh_addr_def)
qed

lemma hash_store_spec:
  assumes "hash_inv pH" and "0 \<notin> set key"
  shows "hash_inv (hash_store pH key data)"
    and "0 \<notin> set k \<Longrightarrow> sqlite3HashFind (hash_store pH key data) k
      = (if folded key = folded k then data else sqlite3HashFind pH k)"
  using sqlite3HashInsert_cases [OF assms, of Some "Some (fresh_addr pH)" data] fresh_addr [of pH]
    sqlite3HashFind_eq [OF assms(1), of k] sqlite3HashFind_eq [of "hash_store pH key data" k]
  by (auto simp: hash_store_def malloc_ht_ok_def)

interpretation hash_table: lookup_table hash_inv sqlite3HashFind hash_store
  "\<lambda>k. 0 \<notin> set k" "\<lambda>k k'. folded k = folded k'"
  by unfold_locales (simp_all add: hash_store_spec)

text \<open>
  C17. After any sequence of insertions and removals, starting from an initialised table, the
  data found under a key is that of the last operation on a key equal to it without regard to
  case, and nothing when there was none.
\<close>

theorem hash_last_write_wins:
  fixes us :: "(u8 list \<times> 'd option) list"
  assumes "list_all (\<lambda>(k, d). 0 \<notin> set k) us" and "0 \<notin> set key"
  shows "sqlite3HashFind (foldl (\<lambda>s (k, d). hash_store s k d) sqlite3HashInit us) key
     = (case List.find (\<lambda>(k, d). folded k = folded key) (rev us) of Some (k, d) \<Rightarrow> d | None \<Rightarrow> None)"
proof -
  have "sqlite3HashFind (sqlite3HashInit :: 'd hash) key = None"
    using assms(2) sqlite3HashFind_eq [OF hash_inv_init] by (simp add: habs_def sqlite3HashInit_def)
  with hash_table.lookup_updates [OF hash_inv_init assms] show ?thesis by (simp split: option.split)
qed

theorem sqlite3HashInsert_map_witness:
  "case sqlite3HashInsert (Some 7) Some sqlite3HashInit [0x61] (Some True) of (old, pH') \<Rightarrow>
     hash_inv pH' \<and> old = None \<and> sqlite3HashFind pH' [0x41] = Some True"
proof -
  let ?r = "sqlite3HashInsert (Some 7) Some (sqlite3HashInit :: bool hash) [0x61] (Some True)"
  have h: "hash_inv (sqlite3HashInit :: bool hash)" "0 \<notin> set [0x61 :: u8]" "malloc_ht_ok Some"
    "\<forall>a. Some 7 = Some a \<longrightarrow> a \<notin> e_addr ` set (h_first (sqlite3HashInit :: bool hash))"
    by (simp_all add: hash_inv_init malloc_ht_ok_def) (simp add: sqlite3HashInit_def)
  have f: "sqlite3HashFind (sqlite3HashInit :: bool hash) [0x61] = None"
    using sqlite3HashFind_eq [OF h(1,2)] by (simp add: habs_def sqlite3HashInit_def)
  have "0 \<notin> set [0x41 :: u8]" "folded [0x41] = folded [0x61]" by (simp_all add: UpperToLower_eq)
  with sqlite3HashInsert_map [OF h, of "Some True"] f show ?thesis by (auto split: prod.splits)
qed

theorem hash_last_write_wins_witness:
  "sqlite3HashFind (foldl (\<lambda>s (k, d). hash_store s k d) sqlite3HashInit
     [([0x61], Some True), ([0x62], Some True), ([0x41], Some False)]) [0x61] = Some False"
proof -
  have h: "list_all (\<lambda>(k, d). 0 \<notin> set k) [([0x61 :: u8], Some True), ([0x62], Some True), ([0x41], Some False)]"
    "0 \<notin> set [0x61 :: u8]" by simp_all
  from hash_last_write_wins [OF h] show ?thesis by (simp add: UpperToLower_eq)
qed

end
