(* ===== verification/Bitvec.thy ===== *)
theory Bitvec
  imports Prelude
begin

text \<open>
  Bitmaps of page numbers (\<open>bitvec.c\<close>). The union in the C structure is a datatype with
  one constructor per view: a plain bitmap, a hash table with linear probing, or an array of
  sub-bitmaps. Bit numbers are 1-based at the interface and 0-based inside, as in the code.
  The outcome of the next memory allocations is a list of booleans (all succeed when it is
  empty). A probe loop that would not end, and a descent deeper than the fuel, is \<open>None\<close>; the
  invariant excludes both.
\<close>

unbundle bit_operations_syntax

subsection \<open>Sizes on a 64-bit build\<close>

definition BITVEC_SZ :: nat where "BITVEC_SZ = 512"
definition BITVEC_USIZE :: nat where "BITVEC_USIZE = ((BITVEC_SZ - 3 * 4) div 8) * 8"
definition BITVEC_NELEM :: nat where "BITVEC_NELEM = BITVEC_USIZE div 1"
definition BITVEC_NBIT :: nat where "BITVEC_NBIT = BITVEC_NELEM * 8"
definition BITVEC_NINT :: nat where "BITVEC_NINT = BITVEC_USIZE div 4"
definition BITVEC_MXHASH :: nat where "BITVEC_MXHASH = BITVEC_NINT div 2"
definition BITVEC_NPTR :: nat where "BITVEC_NPTR = BITVEC_USIZE div 8"

definition BITVEC_HASH :: "nat \<Rightarrow> nat" where
  "BITVEC_HASH x = (x * 1) mod BITVEC_NINT"

lemmas bitvec_sizes = BITVEC_NBIT_def BITVEC_NELEM_def BITVEC_NINT_def BITVEC_MXHASH_def
  BITVEC_NPTR_def BITVEC_USIZE_def BITVEC_SZ_def

subsection \<open>The structure and its operations\<close>

datatype bitvec =
  BBitmap (iSize: nat) (aBitmap: "u8 list")
| BHash (iSize: nat) (nSet: nat) (aHash: "nat list")
| BSub (iSize: nat) (iDivisor: nat) (apSub: "bitvec option list")

fun malloc :: "bool list \<Rightarrow> bool \<times> bool list" where
  "malloc [] = (True, [])"
| "malloc (b # fs) = (b, fs)"

definition bv_new :: "nat \<Rightarrow> bitvec" where
  "bv_new n = (if n \<le> BITVEC_NBIT then BBitmap n (replicate BITVEC_NELEM 0)
               else BHash n 0 (replicate BITVEC_NINT 0))"

definition sqlite3BitvecCreate :: "bool list \<Rightarrow> nat \<Rightarrow> bitvec option \<times> bool list" where
  "sqlite3BitvecCreate fs n = (case malloc fs of (ok, fs) \<Rightarrow> (if ok then Some (bv_new n) else None, fs))"

fun bv_lookup :: "nat \<Rightarrow> nat list \<Rightarrow> nat \<Rightarrow> nat \<Rightarrow> bool option" where
  "bv_lookup 0 a h i = None"
| "bv_lookup (Suc k) a h i =
     (if a ! h = 0 then Some False
      else if a ! h = i then Some True
      else bv_lookup k a ((h + 1) mod BITVEC_NINT) i)"

fun bv_test :: "nat \<Rightarrow> bitvec \<Rightarrow> nat \<Rightarrow> bool option" where
  "bv_test 0 p i = None"
| "bv_test (Suc n) (BSub s d subs) i =
     (case subs ! (i div d) of None \<Rightarrow> Some False | Some q \<Rightarrow> bv_test n q (i mod d))"
| "bv_test (Suc n) (BBitmap s bm) i = Some (bm ! (i div 8) AND push_bit (i mod 8) 1 \<noteq> 0)"
| "bv_test (Suc n) (BHash s c a) i = bv_lookup BITVEC_NINT a (BITVEC_HASH i) (i + 1)"

text \<open>The collision loop of \<open>sqlite3BitvecSet\<close>: the value is found, or a free slot.\<close>

fun bv_probe :: "nat \<Rightarrow> nat list \<Rightarrow> nat \<Rightarrow> nat \<Rightarrow> nat option option" where
  "bv_probe 0 a h i = None"
| "bv_probe (Suc k) a h i =
     (if a ! h = i then Some None
      else
        let h = h + 1; h = (if h \<ge> BITVEC_NINT then 0 else h)
        in if a ! h \<noteq> 0 then bv_probe k a h i else Some (Some h))"

definition bv_divisor :: "nat \<Rightarrow> nat" where
  "bv_divisor s =
     (let d = s div BITVEC_NPTR;
          d = (if s mod BITVEC_NPTR \<noteq> 0 then d + 1 else d)
      in if d < BITVEC_NBIT then BITVEC_NBIT else d)"

text \<open>Setting every non-zero value of the old table, as the rehashing loop does; \<open>rc |= ...\<close>.\<close>

fun bv_set_all ::
  "(bitvec \<Rightarrow> nat \<Rightarrow> bool list \<Rightarrow> (bool \<times> bitvec \<times> bool list) option) \<Rightarrow> nat list \<Rightarrow>
   bool \<times> bitvec \<times> bool list \<Rightarrow> (bool \<times> bitvec \<times> bool list) option" where
  "bv_set_all f [] acc = Some acc"
| "bv_set_all f (v # vs) (rc, p, fs) =
     (if v = 0 then bv_set_all f vs (rc, p, fs)
      else do { (rc', p', fs') \<leftarrow> f p (v - 1) fs; bv_set_all f vs (rc \<and> rc', p', fs') })"

definition bv_rehash ::
  "(bitvec \<Rightarrow> nat \<Rightarrow> bool list \<Rightarrow> (bool \<times> bitvec \<times> bool list) option) \<Rightarrow>
   nat \<Rightarrow> nat \<Rightarrow> nat list \<Rightarrow> nat \<Rightarrow> bool list \<Rightarrow> (bool \<times> bitvec \<times> bool list) option" where
  "bv_rehash f s c a i fs =
     (case malloc fs of (ok, fs) \<Rightarrow>
        if \<not> ok then Some (False, BHash s c a, fs)
        else do {
          (rc, p, fs) \<leftarrow> f (BSub s (bv_divisor s) (replicate BITVEC_NPTR None)) i fs;
          bv_set_all f a (rc, p, fs) })"

fun bv_set :: "nat \<Rightarrow> bitvec \<Rightarrow> nat \<Rightarrow> bool list \<Rightarrow> (bool \<times> bitvec \<times> bool list) option" where
  "bv_set 0 p i fs = None"
| "bv_set (Suc n) (BSub s d subs) i fs =
     (let bin = i div d; i = i mod d in
      case subs ! bin of
        None \<Rightarrow>
          (case sqlite3BitvecCreate fs d of
             (None, fs) \<Rightarrow> Some (False, BSub s d subs, fs)
           | (Some q, fs) \<Rightarrow> do {
               (rc, q, fs) \<leftarrow> bv_set n q i fs;
               Some (rc, BSub s d (subs[bin := Some q]), fs) })
      | Some q \<Rightarrow> do {
          (rc, q, fs) \<leftarrow> bv_set n q i fs;
          Some (rc, BSub s d (subs[bin := Some q]), fs) })"
| "bv_set (Suc n) (BBitmap s bm) i fs =
     Some (True, BBitmap s (bm[i div 8 := bm ! (i div 8) OR push_bit (i mod 8) 1]), fs)"
| "bv_set (Suc n) (BHash s c a) i fs =
     (let h = BITVEC_HASH i in
      if a ! h = 0 then
        if c < BITVEC_NINT - 1 then Some (True, BHash s (c + 1) (a[h := i + 1]), fs)
        else bv_rehash (bv_set n) s c a i fs
      else do {
        r \<leftarrow> bv_probe BITVEC_NINT a h (i + 1);
        case r of
          None \<Rightarrow> Some (True, BHash s c a, fs)
        | Some h \<Rightarrow>
            if c \<ge> BITVEC_MXHASH then bv_rehash (bv_set n) s c a i fs
            else Some (True, BHash s (c + 1) (a[h := i + 1]), fs) })"

fun bv_free :: "nat \<Rightarrow> nat list \<Rightarrow> nat \<Rightarrow> nat option" where
  "bv_free 0 a h = None"
| "bv_free (Suc k) a h =
     (if a ! h \<noteq> 0 then let h = h + 1; h = (if h \<ge> BITVEC_NINT then 0 else h) in bv_free k a h else Some h)"

text \<open>The loop of \<open>sqlite3BitvecClear\<close> that rebuilds the table without one value.\<close>

fun bv_rebuild :: "nat \<Rightarrow> nat list \<Rightarrow> nat \<times> nat list \<Rightarrow> (nat \<times> nat list) option" where
  "bv_rebuild i [] (c, a) = Some (c, a)"
| "bv_rebuild i (v # vs) (c, a) =
     (if v \<noteq> 0 \<and> v \<noteq> i + 1 then do {
        h \<leftarrow> bv_free BITVEC_NINT a (BITVEC_HASH (v - 1));
        bv_rebuild i vs (c + 1, a[h := v]) }
      else bv_rebuild i vs (c, a))"

fun bv_clear :: "nat \<Rightarrow> bitvec \<Rightarrow> nat \<Rightarrow> bitvec option" where
  "bv_clear 0 p i = None"
| "bv_clear (Suc n) (BSub s d subs) i =
     (let bin = i div d; i = i mod d in
      case subs ! bin of
        None \<Rightarrow> Some (BSub s d subs)
      | Some q \<Rightarrow> do { q \<leftarrow> bv_clear n q i; Some (BSub s d (subs[bin := Some q])) })"
| "bv_clear (Suc n) (BBitmap s bm) i =
     Some (BBitmap s (bm[i div 8 := bm ! (i div 8) AND NOT (push_bit (i mod 8) 1)]))"
| "bv_clear (Suc n) (BHash s c a) i = do {
     (c, a) \<leftarrow> bv_rebuild i a (0, replicate BITVEC_NINT 0);
     Some (BHash s c a) }"

text \<open>
  The interface functions, with 1-based bits. Nine levels of descent suffice for every \<open>u32\<close>
  size; the fuel is ten. \<open>i--\<close> wraps around for 0.
\<close>

definition bv_depth :: nat where "bv_depth = 10"

definition sqlite3BitvecTest :: "bitvec option \<Rightarrow> nat \<Rightarrow> bool option" where
  "sqlite3BitvecTest p i =
     (case p of
        None \<Rightarrow> Some False
      | Some p \<Rightarrow>
          let i = (if i = 0 then 2 ^ 32 - 1 else i - 1)
          in if i \<ge> iSize p then Some False else bv_test bv_depth p i)"

definition sqlite3BitvecSet :: "bitvec option \<Rightarrow> nat \<Rightarrow> bool list \<Rightarrow> (bool \<times> bitvec option \<times> bool list) option" where
  "sqlite3BitvecSet p i fs =
     (case p of
        None \<Rightarrow> Some (True, None, fs)
      | Some p \<Rightarrow> do { (rc, p, fs) \<leftarrow> bv_set bv_depth p (i - 1) fs; Some (rc, Some p, fs) })"

definition sqlite3BitvecClear :: "bitvec option \<Rightarrow> nat \<Rightarrow> bitvec option option" where
  "sqlite3BitvecClear p i =
     (case p of
        None \<Rightarrow> Some None
      | Some p \<Rightarrow> do { p \<leftarrow> bv_clear bv_depth p (i - 1); Some (Some p) })"

definition sqlite3BitvecSize :: "bitvec \<Rightarrow> nat" where
  "sqlite3BitvecSize p = iSize p"

subsection \<open>Linear probing\<close>

definition slot :: "nat \<Rightarrow> nat \<Rightarrow> nat" where
  "slot h k = (h + k) mod BITVEC_NINT"

lemma NINT_pos [simp]: "0 < BITVEC_NINT"
  by (simp add: bitvec_sizes)

lemma slot_less [simp]: "slot h k < BITVEC_NINT"
  by (simp add: slot_def)

lemma slot_0 [simp]: "h < BITVEC_NINT \<Longrightarrow> slot h 0 = h"
  by (simp add: slot_def)

definition nxt :: "nat \<Rightarrow> nat" where
  "nxt h = (h + 1) mod BITVEC_NINT"

lemma nxt_less [simp]: "nxt h < BITVEC_NINT"
  by (simp add: nxt_def)

lemma slot_nxt [simp]: "slot (nxt h) k = slot h (Suc k)"
  by (simp add: slot_def nxt_def mod_simps)

lemma wrap_nxt: "h < BITVEC_NINT \<Longrightarrow> (if h + 1 \<ge> BITVEC_NINT then 0 else h + 1) = nxt h"
  unfolding nxt_def by (cases "h + 1 = BITVEC_NINT") auto

lemma bv_lookup_Suc:
  "bv_lookup (Suc k) a h i = (if a ! h = 0 then Some False else if a ! h = i then Some True else bv_lookup k a (nxt h) i)"
  by (simp add: nxt_def)

lemma bv_probe_Suc:
  "h < BITVEC_NINT \<Longrightarrow> bv_probe (Suc k) a h i =
     (if a ! h = i then Some None else if a ! nxt h \<noteq> 0 then bv_probe k a (nxt h) i else Some (Some (nxt h)))"
  unfolding bv_probe.simps Let_def wrap_nxt by simp

lemma bv_free_Suc:
  "h < BITVEC_NINT \<Longrightarrow> bv_free (Suc k) a h = (if a ! h \<noteq> 0 then bv_free k a (nxt h) else Some h)"
  unfolding bv_free.simps Let_def wrap_nxt by simp

lemma slot_inj:
  assumes "k < BITVEC_NINT" and "k' < k" shows "slot h k \<noteq> slot h k'"
proof
  assume "slot h k = slot h k'"
  then have "(h + k) mod BITVEC_NINT = (h + k') mod BITVEC_NINT" by (simp add: slot_def)
  then have "BITVEC_NINT dvd (h + k) - (h + k')" using assms(2) by (intro mod_eq_dvd_iff_nat [THEN iffD1]) simp_all
  then have "BITVEC_NINT \<le> k - k'" using assms(2) by (intro dvd_imp_le) simp_all
  with assms(1) show False by simp
qed

lemma slot_onto:
  assumes "h < BITVEC_NINT" and "j < BITVEC_NINT"
  obtains k where "k < BITVEC_NINT" "slot h k = j"
proof (cases "h \<le> j")
  case True
  with that [of "j - h"] assms show ?thesis by (simp add: slot_def)
next
  case False
  then have "(h + (BITVEC_NINT - h + j)) mod BITVEC_NINT = j" using assms by simp
  with that [of "BITVEC_NINT - h + j"] assms False show ?thesis by (simp add: slot_def)
qed

text \<open>The probe sequence from \<open>h\<close> meets nothing but other values up to step \<open>k\<close>.\<close>

definition passes :: "nat list \<Rightarrow> nat \<Rightarrow> nat \<Rightarrow> nat \<Rightarrow> bool" where
  "passes a h i k \<longleftrightarrow> (\<forall>k' < k. a ! slot h k' \<noteq> 0 \<and> a ! slot h k' \<noteq> i)"

lemma passes_Suc:
  assumes "h < BITVEC_NINT"
  shows "passes a h i (Suc k) \<longleftrightarrow> a ! h \<noteq> 0 \<and> a ! h \<noteq> i \<and> passes a (nxt h) i k"
  unfolding passes_def All_less_Suc2 slot_nxt slot_0 [OF assms] by blast

lemma bv_lookup_at:
  "h < BITVEC_NINT \<Longrightarrow> passes a h i k \<Longrightarrow> k < n \<Longrightarrow> i \<noteq> 0 \<Longrightarrow> a ! slot h k = 0 \<or> a ! slot h k = i \<Longrightarrow>
   bv_lookup n a h i = Some (a ! slot h k = i)"
proof (induction k arbitrary: h n)
  case 0
  then show ?case by (cases n) (auto simp: bv_lookup_Suc simp del: bv_lookup.simps)
next
  case (Suc k)
  then obtain m where n: "n = Suc m" by (cases n) auto
  have "bv_lookup m a (nxt h) i = Some (a ! slot h (Suc k) = i)"
    using Suc.IH [of "nxt h" m] Suc.prems n by (simp add: passes_Suc)
  with Suc.prems n show ?case by (simp add: passes_Suc bv_lookup_Suc del: bv_lookup.simps)
qed

lemma bv_probe_at:
  "h < BITVEC_NINT \<Longrightarrow> passes a h i k \<Longrightarrow> k < n \<Longrightarrow> i \<noteq> 0 \<Longrightarrow> a ! h \<noteq> 0 \<Longrightarrow>
   a ! slot h k = 0 \<or> a ! slot h k = i \<Longrightarrow>
   bv_probe n a h i = Some (if a ! slot h k = i then None else Some (slot h k))"
proof (induction k arbitrary: h n)
  case 0
  then show ?case by (cases n) (auto simp: bv_probe_Suc simp del: bv_probe.simps)
next
  case (Suc k)
  then obtain m where n: "n = Suc m" by (cases n) auto
  have step: "bv_probe n a h i = (if a ! nxt h \<noteq> 0 then bv_probe m a (nxt h) i else Some (Some (nxt h)))"
    using Suc.prems n by (simp add: passes_Suc bv_probe_Suc del: bv_probe.simps)
  show ?case
  proof (cases "a ! nxt h = 0")
    case True
    then have k: "k = 0" using Suc.prems by (cases k) (auto simp: passes_Suc)
    have "slot h (Suc 0) = nxt h" by (simp add: slot_def nxt_def)
    with True step k Suc.prems(4) show ?thesis by simp
  next
    case False
    have "bv_probe m a (nxt h) i = Some (if a ! slot h (Suc k) = i then None else Some (slot h (Suc k)))"
      using Suc.IH [of "nxt h" m] Suc.prems n False by (simp add: passes_Suc)
    with False step show ?thesis by simp
  qed
qed

lemma bv_free_at:
  "h < BITVEC_NINT \<Longrightarrow> (\<forall>k' < k. a ! slot h k' \<noteq> 0) \<Longrightarrow> k < n \<Longrightarrow> a ! slot h k = 0 \<Longrightarrow>
   bv_free n a h = Some (slot h k)"
proof (induction k arbitrary: h n)
  case 0
  then show ?case by (cases n) (auto simp: bv_free_Suc simp del: bv_free.simps)
next
  case (Suc k)
  then obtain m where n: "n = Suc m" by (cases n) auto
  have "a ! h \<noteq> 0" "\<forall>k' < k. a ! slot (nxt h) k' \<noteq> 0"
    using Suc.prems(1,2) unfolding All_less_Suc2 slot_nxt by auto
  then show ?case
    using Suc.IH [of "nxt h" m] Suc.prems n by (simp add: bv_free_Suc del: bv_free.simps)
qed

subsection \<open>The hash table holds a set\<close>

definition probed :: "nat list \<Rightarrow> nat \<Rightarrow> bool" where
  "probed a j \<longleftrightarrow> (\<exists>k < BITVEC_NINT. slot (BITVEC_HASH (a ! j - 1)) k = j
     \<and> (\<forall>k' < k. a ! slot (BITVEC_HASH (a ! j - 1)) k' \<noteq> 0))"

definition hash_ok :: "nat list \<Rightarrow> bool" where
  "hash_ok a \<longleftrightarrow> length a = BITVEC_NINT
     \<and> (\<forall>j < BITVEC_NINT. a ! j \<noteq> 0 \<longrightarrow> probed a j)
     \<and> (\<forall>j < BITVEC_NINT. \<forall>j' < BITVEC_NINT. a ! j = a ! j' \<and> a ! j \<noteq> 0 \<longrightarrow> j = j')"

abbreviation nonzero :: "nat list \<Rightarrow> nat list" where
  "nonzero a \<equiv> filter (\<lambda>v. v \<noteq> 0) a"

lemma HASH_less [simp]: "BITVEC_HASH x < BITVEC_NINT"
  by (simp add: BITVEC_HASH_def)

lemma zero_slot:
  assumes "length a = BITVEC_NINT" and "length (nonzero a) < BITVEC_NINT" and "h < BITVEC_NINT"
  obtains k where "k < BITVEC_NINT" "a ! slot h k = 0" "\<forall>k' < k. a ! slot h k' \<noteq> 0"
proof -
  have "\<exists>v \<in> set a. v = 0"
  proof (rule ccontr)
    assume "\<not> (\<exists>v \<in> set a. v = 0)"
    then have "nonzero a = a" by (auto simp: filter_id_conv intro: Suc_leI gr0I)
    with assms show False by simp
  qed
  then obtain j where j: "j < BITVEC_NINT" "a ! j = 0" using assms(1) by (metis in_set_conv_nth)
  obtain k0 where k0: "k0 < BITVEC_NINT" "slot h k0 = j" using assms(3) j(1) by (rule slot_onto)
  have ex: "a ! slot h k0 = 0" using k0 j by simp
  define k where "k = (LEAST k. a ! slot h k = 0)"
  have "a ! slot h k = 0" unfolding k_def by (rule LeastI [of "\<lambda>k. a ! slot h k = 0", OF ex])
  moreover have "k \<le> k0" unfolding k_def by (rule Least_le [of "\<lambda>k. a ! slot h k = 0", OF ex])
  moreover have "\<forall>k' < k. a ! slot h k' \<noteq> 0" unfolding k_def by (blast dest: not_less_Least)
  ultimately show ?thesis using that [of k] k0(1) by (meson le_less_trans)
qed

text \<open>Where the probe sequence of a value stops.\<close>

lemma probe_stop:
  assumes ok: "hash_ok a" and free: "length (nonzero a) < BITVEC_NINT"
  obtains k where "k < BITVEC_NINT" "passes a (BITVEC_HASH i) (i + 1) k"
    "a ! slot (BITVEC_HASH i) k = (if i + 1 \<in> set a then i + 1 else 0)"
proof (cases "i + 1 \<in> set a")
  case True
  then obtain j where j: "j < BITVEC_NINT" "a ! j = i + 1" using ok by (auto simp: in_set_conv_nth hash_ok_def)
  then have "probed a j" using ok by (simp add: hash_ok_def)
  then obtain k where k: "k < BITVEC_NINT" "slot (BITVEC_HASH i) k = j" "\<forall>k' < k. a ! slot (BITVEC_HASH i) k' \<noteq> 0"
    using j by (auto simp: probed_def)
  have "a ! slot (BITVEC_HASH i) k' \<noteq> i + 1" if "k' < k" for k'
  proof
    assume e: "a ! slot (BITVEC_HASH i) k' = i + 1"
    have "slot (BITVEC_HASH i) k' = j"
      using ok j e unfolding hash_ok_def by (metis Suc_eq_plus1 nat.distinct(1) slot_less)
    then show False using k(2) slot_inj [OF k(1) that, of "BITVEC_HASH i"] by simp
  qed
  with k j True that [of k] show ?thesis by (simp add: passes_def)
next
  case False
  have "length a = BITVEC_NINT" using ok by (simp add: hash_ok_def)
  then obtain k where k: "k < BITVEC_NINT" "a ! slot (BITVEC_HASH i) k = 0" "\<forall>k' < k. a ! slot (BITVEC_HASH i) k' \<noteq> 0"
    using free HASH_less by (rule zero_slot)
  have "a ! slot (BITVEC_HASH i) k' \<noteq> i + 1" for k'
    using False ok by (metis hash_ok_def nth_mem slot_less)
  with k False that [of k] show ?thesis by (simp add: passes_def)
qed

lemma lookup_correct:
  assumes "hash_ok a" and "length (nonzero a) < BITVEC_NINT"
  shows "bv_lookup BITVEC_NINT a (BITVEC_HASH i) (i + 1) = Some (i + 1 \<in> set a)"
proof -
  obtain k where k: "k < BITVEC_NINT" "passes a (BITVEC_HASH i) (i + 1) k"
    "a ! slot (BITVEC_HASH i) k = (if i + 1 \<in> set a then i + 1 else 0)"
    using assms by (rule probe_stop)
  then show ?thesis using bv_lookup_at [OF _ k(2,1)] by (simp split: if_splits)
qed

lemma length_nonzero_update:
  "j < length a \<Longrightarrow> a ! j = 0 \<Longrightarrow> v \<noteq> 0 \<Longrightarrow> length (nonzero (a[j := v])) = Suc (length (nonzero a))"
proof (induction a arbitrary: j)
  case (Cons x a)
  then show ?case by (cases j) auto
qed simp

lemma set_update_zero:
  "j < length a \<Longrightarrow> a ! j = 0 \<Longrightarrow> v \<noteq> 0 \<Longrightarrow> set (a[j := v]) - {0} = insert v (set a - {0})"
proof (induction a arbitrary: j)
  case (Cons x a)
  then show ?case by (cases j) auto
qed simp

lemma hash_ok_insert:
  assumes ok: "hash_ok a" and v: "v \<noteq> 0" "v \<notin> set a"
    and k: "k < BITVEC_NINT" "a ! slot (BITVEC_HASH (v - 1)) k = 0"
      "\<forall>k' < k. a ! slot (BITVEC_HASH (v - 1)) k' \<noteq> 0"
  shows "hash_ok (a[slot (BITVEC_HASH (v - 1)) k := v])"
proof -
  let ?j = "slot (BITVEC_HASH (v - 1)) k" and ?a = "a[slot (BITVEC_HASH (v - 1)) k := v]"
  have len: "length a = BITVEC_NINT" using ok by (simp add: hash_ok_def)
  have mono: "?a ! m \<noteq> 0" if "a ! m \<noteq> 0" "m < BITVEC_NINT" for m
    using that v len by (simp add: nth_list_update)
  have "probed ?a j" if j: "j < BITVEC_NINT" "?a ! j \<noteq> 0" for j
  proof (cases "j = ?j")
    case True
    have "?a ! slot (BITVEC_HASH (v - 1)) k' \<noteq> 0" if "k' < k" for k'
      using mono k(3) that by simp
    then show ?thesis unfolding probed_def using True k(1) len by (auto intro!: exI [of _ k])
  next
    case False
    then have "a ! j \<noteq> 0" "?a ! j = a ! j" using j len by (simp_all add: nth_list_update)
    then have "probed a j" using ok j by (simp add: hash_ok_def)
    then show ?thesis unfolding probed_def \<open>?a ! j = a ! j\<close> using mono by (meson slot_less)
  qed
  moreover have "j = j'" if "j < BITVEC_NINT" "j' < BITVEC_NINT" "?a ! j = ?a ! j'" "?a ! j \<noteq> 0" for j j'
  proof -
    have "a ! m \<noteq> v" if "m < BITVEC_NINT" for m using v(2) len that by (metis nth_mem)
    then show ?thesis using that ok len by (auto simp: nth_list_update hash_ok_def split: if_splits)
  qed
  ultimately show ?thesis using len by (auto simp: hash_ok_def)
qed

lemma hash_ok_empty: "hash_ok (replicate BITVEC_NINT 0)"
  by (simp add: hash_ok_def)

lemma hash_ok_distinct: "hash_ok a \<Longrightarrow> distinct (nonzero a)"
proof -
  have "(\<forall>j < length b. \<forall>j' < length b. b ! j = b ! j' \<and> b ! j \<noteq> 0 \<longrightarrow> j = j') \<Longrightarrow> distinct (nonzero b)" for b :: "nat list"
  proof (induction b)
    case (Cons x b)
    have "\<forall>j < length b. \<forall>j' < length b. b ! j = b ! j' \<and> b ! j \<noteq> 0 \<longrightarrow> j = j'"
    proof (intro allI impI)
      fix j j' assume "j < length b" "j' < length b" "b ! j = b ! j' \<and> b ! j \<noteq> 0"
      then show "j = j'" using Cons.prems [rule_format, of "Suc j" "Suc j'"] by simp
    qed
    moreover have "x \<noteq> 0 \<Longrightarrow> x \<notin> set b"
    proof
      assume "x \<noteq> 0" "x \<in> set b"
      then obtain j where "j < length b" "b ! j = x" by (auto simp: in_set_conv_nth)
      then show False using Cons.prems [rule_format, of 0 "Suc j"] \<open>x \<noteq> 0\<close> by simp
    qed
    ultimately show ?case using Cons.IH by simp
  qed simp
  then show "hash_ok a \<Longrightarrow> distinct (nonzero a)" by (simp add: hash_ok_def)
qed

lemma rebuild_correct:
  assumes "hash_ok a" and "c = length (nonzero a)" and "distinct (nonzero vs)"
    and "set a \<inter> set (nonzero vs) = {}" and "length (nonzero a) + length (nonzero vs) < BITVEC_NINT"
  shows "\<exists>c' a'. bv_rebuild i vs (c, a) = Some (c', a') \<and> hash_ok a' \<and> c' = length (nonzero a')
     \<and> c' \<le> length (nonzero a) + length (nonzero vs)
     \<and> set a' - {0} = (set a - {0}) \<union> (set vs - {0, i + 1})"
  using assms
proof (induction vs arbitrary: a c)
  case Nil
  then show ?case by simp
next
  case (Cons v vs)
  show ?case
  proof (cases "v \<noteq> 0 \<and> v \<noteq> i + 1")
    case False
    then have step: "bv_rebuild i (v # vs) (c, a) = bv_rebuild i vs (c, a)" by auto
    obtain c' a' where r: "bv_rebuild i vs (c, a) = Some (c', a')" "hash_ok a'" "c' = length (nonzero a')"
      "c' \<le> length (nonzero a) + length (nonzero vs)"
      "set a' - {0} = (set a - {0}) \<union> (set vs - {0, i + 1})"
      using Cons.IH [of a c] Cons.prems by (auto split: if_splits)
    have "set (v # vs) - {0, i + 1} = set vs - {0, i + 1}" using False by auto
    moreover have "length (nonzero vs) \<le> length (nonzero (v # vs))" by simp
    ultimately have "c' \<le> length (nonzero a) + length (nonzero (v # vs))"
      "set a' - {0} = (set a - {0}) \<union> (set (v # vs) - {0, i + 1})" using r(4,5) by simp_all
    then show ?thesis unfolding step using r(1-3) by blast
  next
    case True
    have len: "length a = BITVEC_NINT" using Cons.prems(1) by (simp add: hash_ok_def)
    have free: "length (nonzero a) < BITVEC_NINT" using Cons.prems(5) by simp
    obtain k where k: "k < BITVEC_NINT" "a ! slot (BITVEC_HASH (v - 1)) k = 0"
      "\<forall>k' < k. a ! slot (BITVEC_HASH (v - 1)) k' \<noteq> 0"
      using len free HASH_less by (rule zero_slot)
    let ?a = "a[slot (BITVEC_HASH (v - 1)) k := v]"
    have v: "v \<noteq> 0" "v \<notin> set a" using True Cons.prems(4) by auto
    have step: "bv_rebuild i (v # vs) (c, a) = bv_rebuild i vs (c + 1, ?a)"
      using True bv_free_at [OF HASH_less k(3,1,2)] by simp
    have cnt: "length (nonzero ?a) = Suc (length (nonzero a))"
      using k len v by (intro length_nonzero_update) simp_all
    have set': "set ?a - {0} = insert v (set a - {0})" using k len v by (intro set_update_zero) simp_all
    have "\<exists>c' a'. bv_rebuild i vs (c + 1, ?a) = Some (c', a') \<and> hash_ok a' \<and> c' = length (nonzero a')
     \<and> c' \<le> length (nonzero ?a) + length (nonzero vs)
     \<and> set a' - {0} = (set ?a - {0}) \<union> (set vs - {0, i + 1})"
    proof (rule Cons.IH)
      show "hash_ok ?a" using Cons.prems(1) v k by (rule hash_ok_insert)
      show "c + 1 = length (nonzero ?a)" using cnt Cons.prems(2) by simp
      show "distinct (nonzero vs)" using Cons.prems(3) True by simp
      have "v \<notin> set (nonzero vs)" using Cons.prems(3) True by simp
      then show "set ?a \<inter> set (nonzero vs) = {}" using Cons.prems(4) True set' by auto
      show "length (nonzero ?a) + length (nonzero vs) < BITVEC_NINT" using cnt Cons.prems(5) True by simp
    qed
    then obtain c' a' where r: "bv_rebuild i vs (c + 1, ?a) = Some (c', a')" "hash_ok a'" "c' = length (nonzero a')"
      "c' \<le> length (nonzero ?a) + length (nonzero vs)"
      "set a' - {0} = (set ?a - {0}) \<union> (set vs - {0, i + 1})" by blast
    have "set a' - {0} = (set a - {0}) \<union> (set (v # vs) - {0, i + 1})" using r(5) set' True by auto
    moreover have "c' \<le> length (nonzero a) + length (nonzero (v # vs))" using r(4) cnt True by simp
    ultimately show ?thesis unfolding step using r(1,2,3) by blast
  qed
qed

subsection \<open>The invariant and the set a structure represents\<close>

fun fits :: "nat \<Rightarrow> nat \<Rightarrow> bool" where
  "fits 0 s = False"
| "fits (Suc 0) s = (s \<le> BITVEC_NBIT)"
| "fits (Suc (Suc n)) s = (s \<le> BITVEC_NBIT \<or> fits n (bv_divisor s))"

fun bv_ok :: "nat \<Rightarrow> bitvec \<Rightarrow> bool" where
  "bv_ok 0 p = False"
| "bv_ok (Suc n) (BBitmap s bm) \<longleftrightarrow> s \<le> BITVEC_NBIT \<and> length bm = BITVEC_NELEM"
| "bv_ok (Suc n) (BHash s c a) \<longleftrightarrow> s > BITVEC_NBIT \<and> hash_ok a \<and> c = length (nonzero a) \<and> c < BITVEC_NINT
     \<and> (\<forall>v \<in> set a. v \<le> s) \<and> fits (Suc n) s"
| "bv_ok (Suc n) (BSub s d subs) \<longleftrightarrow> s > BITVEC_NBIT \<and> d = bv_divisor s \<and> length subs = BITVEC_NPTR
     \<and> fits n d \<and> (\<forall>q. Some q \<in> set subs \<longrightarrow> iSize q = d \<and> bv_ok n q)"

fun content :: "nat \<Rightarrow> bitvec \<Rightarrow> nat set" where
  "content 0 p = {}"
| "content (Suc n) (BBitmap s bm) = {i. i < BITVEC_NBIT \<and> bit (bm ! (i div 8)) (i mod 8)}"
| "content (Suc n) (BHash s c a) = {i. i + 1 \<in> set a}"
| "content (Suc n) (BSub s d subs) =
     {i. i div d < length subs \<and> (case subs ! (i div d) of None \<Rightarrow> False | Some q \<Rightarrow> i mod d \<in> content n q)}"

lemma NBIT_val: "BITVEC_NBIT = 3968" "BITVEC_NELEM = 496" "BITVEC_NPTR = 62" "BITVEC_NINT = 124"
  by (simp_all add: bitvec_sizes)

lemma bv_divisor_bounds:
  "BITVEC_NBIT \<le> bv_divisor s" "s \<le> bv_divisor s * BITVEC_NPTR" "BITVEC_NBIT < s \<Longrightarrow> bv_divisor s < s"
proof -
  show "BITVEC_NBIT \<le> bv_divisor s" by (simp add: bv_divisor_def Let_def)
  have s: "s = s div 62 * 62 + s mod 62" by simp
  have "s mod 62 < 62" by simp
  then show "s \<le> bv_divisor s * BITVEC_NPTR"
    using s by (auto simp: bv_divisor_def NBIT_val Let_def)
  show "BITVEC_NBIT < s \<Longrightarrow> bv_divisor s < s"
    by (auto simp: bv_divisor_def NBIT_val Let_def)
qed

lemma bv_ok_SubD:
  "bv_ok (Suc n) (BSub s d subs) \<Longrightarrow> d = bv_divisor s \<and> length subs = BITVEC_NPTR \<and> fits n d"
  unfolding bv_ok.simps by blast

lemma bv_ok_child:
  assumes "bv_ok (Suc n) (BSub s d subs)" and "bin < length subs" and "subs ! bin = Some q"
  shows "bv_ok n q \<and> iSize q = d"
proof -
  have "Some q \<in> set subs" using assms(2,3) by (metis nth_mem)
  then show ?thesis using assms(1) unfolding bv_ok.simps by blast
qed

lemma bin_less: "i < s \<Longrightarrow> i div bv_divisor s < BITVEC_NPTR"
  using bv_divisor_bounds(2) [of s] by (simp add: less_mult_imp_div_less mult.commute)

lemma divisor_pos [simp]: "0 < bv_divisor s"
  using bv_divisor_bounds(1) [of s] by (simp add: NBIT_val)

lemma bitmap_byte: "i < BITVEC_NBIT \<Longrightarrow> i div 8 < BITVEC_NELEM"
  by (simp add: NBIT_val)

lemma bv_test_correct:
  "bv_ok n p \<Longrightarrow> i < iSize p \<Longrightarrow> bv_test n p i = Some (i \<in> content n p)"
proof (induction n arbitrary: p i)
  case 0
  then show ?case by simp
next
  case (Suc n)
  show ?case
  proof (cases p)
    case (BBitmap s bm)
    with Suc.prems show ?thesis by (simp add: and_exp_eq_0_iff_not_bit)
  next
    case (BHash s c a)
    with Suc.prems lookup_correct [of a i] show ?thesis by simp
  next
    case (BSub s d subs)
    then have ok: "length subs = BITVEC_NPTR" "d = bv_divisor s"
      "\<And>q. Some q \<in> set subs \<Longrightarrow> iSize q = d \<and> bv_ok n q" using Suc.prems by simp_all
    have bin: "i div d < length subs" using Suc.prems BSub ok bin_less [of i s] by simp
    show ?thesis
    proof (cases "subs ! (i div d)")
      case None
      with BSub show ?thesis by simp
    next
      case (Some q)
      then have "iSize q = d \<and> bv_ok n q" using ok(3) bin by (metis nth_mem)
      then have "bv_test n q (i mod d) = Some (i mod d \<in> content n q)" using ok(2) by (intro Suc.IH) simp_all
      with BSub Some bin show ?thesis by simp
    qed
  qed
qed

lemma bv_ok_mono: "bv_ok n p \<Longrightarrow> bv_ok (Suc n) p \<and> content (Suc n) p = content n p"
proof (induction n arbitrary: p)
  case 0
  then show ?case by simp
next
  case (Suc n)
  have fits_mono: "fits m s \<Longrightarrow> fits (Suc m) s" for m s
    by (induction m s rule: fits.induct) auto
  show ?case
  proof (cases p)
    case (BSub s d subs)
    then have q: "\<And>q. Some q \<in> set subs \<Longrightarrow> bv_ok (Suc n) q \<and> content (Suc n) q = content n q"
      using Suc by simp
    have "i div d < length subs \<Longrightarrow> subs ! (i div d) = Some q \<Longrightarrow> content (Suc n) q = content n q" for i q
      using q [of q] by (metis nth_mem)
    then have "content (Suc (Suc n)) p = content (Suc n) p"
      unfolding BSub content.simps(4) by (auto split: option.splits)
    then show ?thesis using Suc.prems BSub q fits_mono by auto
  next
    case (BHash s c a)
    then show ?thesis using Suc.prems fits_mono [of "Suc n" s] by auto
  qed (use Suc.prems in auto)
qed

lemma bv_new_ok: "fits n s \<Longrightarrow> bv_ok n (bv_new s) \<and> content n (bv_new s) = {} \<and> iSize (bv_new s) = s"
proof -
  assume f: "fits n s"
  then obtain m where n: "n = Suc m" by (cases n) auto
  have "\<not> bit (replicate BITVEC_NELEM (0 :: u8) ! (i div 8)) (i mod 8)" if "i < BITVEC_NBIT" for i
    using bitmap_byte [OF that] by simp
  then show ?thesis using f n
    by (auto simp: bv_new_def hash_ok_empty dest: in_set_replicate [THEN iffD1])
qed

lemma bv_ok_sub_empty:
  assumes "BITVEC_NBIT < s" and "fits n (bv_divisor s)"
  shows "bv_ok (Suc n) (BSub s (bv_divisor s) (replicate BITVEC_NPTR None))"
    and "content (Suc n) (BSub s (bv_divisor s) (replicate BITVEC_NPTR None)) = {}"
  using assms by auto

text \<open>What a call of \<open>bv_set\<close> on a well-formed structure does, success or failure.\<close>

definition set_post :: "nat \<Rightarrow> bitvec \<Rightarrow> nat set \<Rightarrow> bool list \<Rightarrow> (bool \<times> bitvec \<times> bool list) option \<Rightarrow> bool" where
  "set_post n p I fs r \<longleftrightarrow> (\<exists>rc p' fs'. r = Some (rc, p', fs') \<and> bv_ok n p' \<and> iSize p' = iSize p
     \<and> content n p' \<subseteq> I \<union> content n p \<and> (rc \<longrightarrow> content n p' = I \<union> content n p)
     \<and> (fs = [] \<longrightarrow> rc \<and> fs' = []))"

lemma set_post_doneI:
  "bv_ok n p' \<Longrightarrow> iSize p' = iSize p \<Longrightarrow> content n p' = I \<union> content n p \<Longrightarrow>
   set_post n p I fs (Some (True, p', fs))"
  unfolding set_post_def by blast

lemma set_post_failI: "bv_ok n p \<Longrightarrow> fs \<noteq> [] \<Longrightarrow> set_post n p I fs (Some (False, p, fs'))"
  unfolding set_post_def by blast

lemma bv_set_all_post:
  assumes f: "\<And>p i fs. bv_ok n p \<Longrightarrow> i < iSize p \<Longrightarrow> set_post n p {i} fs (f p i fs)"
  shows "bv_ok n p \<Longrightarrow> \<forall>v \<in> set vs. v \<le> iSize p \<Longrightarrow>
    \<exists>rc' p' fs'. bv_set_all f vs (rc, p, fs) = Some (rc', p', fs') \<and> bv_ok n p' \<and> iSize p' = iSize p
     \<and> content n p' \<subseteq> {i. i + 1 \<in> set vs} \<union> content n p
     \<and> (rc' \<longrightarrow> rc \<and> content n p' = {i. i + 1 \<in> set vs} \<union> content n p)
     \<and> (fs = [] \<and> rc \<longrightarrow> rc' \<and> fs' = [])"
proof (induction vs arbitrary: rc p fs)
  case Nil
  then show ?case by simp
next
  case (Cons v vs)
  show ?case
  proof (cases "v = 0")
    case True
    then show ?thesis using Cons.IH [of p rc fs] Cons.prems by simp
  next
    case False
    then have "v - 1 < iSize p" using Cons.prems(2) by auto
    with f [OF Cons.prems(1) this, of fs] obtain rc1 p1 fs1 where
      r: "f p (v - 1) fs = Some (rc1, p1, fs1)" "bv_ok n p1" "iSize p1 = iSize p"
      "content n p1 \<subseteq> {v - 1} \<union> content n p" "rc1 \<longrightarrow> content n p1 = {v - 1} \<union> content n p"
      "fs = [] \<longrightarrow> rc1 \<and> fs1 = []"
      unfolding set_post_def by blast
    have step: "bv_set_all f (v # vs) (rc, p, fs) = bv_set_all f vs (rc \<and> rc1, p1, fs1)"
      using False r(1) by simp
    have "\<forall>v \<in> set vs. v \<le> iSize p1" using Cons.prems(2) r(3) by simp
    from Cons.IH [OF r(2) this, of "rc \<and> rc1" fs1] obtain rc2 p2 fs2 where
      s: "bv_set_all f vs (rc \<and> rc1, p1, fs1) = Some (rc2, p2, fs2)" "bv_ok n p2" "iSize p2 = iSize p1"
      "content n p2 \<subseteq> {i. i + 1 \<in> set vs} \<union> content n p1"
      "rc2 \<longrightarrow> (rc \<and> rc1) \<and> content n p2 = {i. i + 1 \<in> set vs} \<union> content n p1"
      "fs1 = [] \<and> rc \<and> rc1 \<longrightarrow> rc2 \<and> fs2 = []" by blast
    have "{i. i + 1 \<in> set (v # vs)} = {v - 1} \<union> {i. i + 1 \<in> set vs}" using False by auto
    then have sub: "content n p2 \<subseteq> {i. i + 1 \<in> set (v # vs)} \<union> content n p"
      and "rc2 \<longrightarrow> rc \<and> content n p2 = {i. i + 1 \<in> set (v # vs)} \<union> content n p"
      using r(4,5) s(4,5) by auto
    with sub have "content n p2 \<subseteq> {i. i + 1 \<in> set (v # vs)} \<union> content n p
      \<and> (rc2 \<longrightarrow> rc \<and> content n p2 = {i. i + 1 \<in> set (v # vs)} \<union> content n p)" by blast
    moreover have "iSize p2 = iSize p" using r(3) s(3) by simp
    moreover have "fs = [] \<and> rc \<longrightarrow> rc2 \<and> fs2 = []" using r(6) s(6) by blast
    ultimately show ?thesis unfolding step using s(1,2) by blast
  qed
qed

lemma bv_rehash_post:
  assumes f: "\<And>p i fs. bv_ok n p \<Longrightarrow> i < iSize p \<Longrightarrow> set_post n p {i} fs (f p i fs)"
    and ok: "bv_ok (Suc n) (BHash s c a)" and i: "i < s"
  shows "set_post (Suc n) (BHash s c a) {i} fs (bv_rehash f s c a i fs)"
proof -
  obtain fs0 b where m: "malloc fs = (b, fs0)" by fastforce
  show ?thesis
  proof (cases b)
    case False
    then have "fs \<noteq> []" using m by auto
    with False m ok show ?thesis by (auto simp: set_post_def bv_rehash_def)
  next
    case True
    have s: "BITVEC_NBIT < s" "\<forall>v \<in> set a. v \<le> s" "fits (Suc n) s" using ok by simp_all
    then obtain k where k: "n = Suc k" "fits k (bv_divisor s)" by (cases n) auto
    let ?p = "BSub s (bv_divisor s) (replicate BITVEC_NPTR None)"
    have p: "bv_ok n ?p" "content n ?p = {}" unfolding k(1) using bv_ok_sub_empty [OF s(1) k(2)] by blast+
    from f [OF p(1), of i fs0] i obtain rc1 p1 fs1 where
      r: "f ?p i fs0 = Some (rc1, p1, fs1)" "bv_ok n p1" "iSize p1 = s"
      "content n p1 \<subseteq> {i}" "rc1 \<longrightarrow> content n p1 = {i}" "fs0 = [] \<longrightarrow> rc1 \<and> fs1 = []"
      unfolding set_post_def p(2) by auto
    have "\<forall>v \<in> set a. v \<le> iSize p1" using s(2) r(3) by simp
    from bv_set_all_post [of n f, OF f r(2) this, of rc1 fs1] obtain rc2 p2 fs2 where
      q: "bv_set_all f a (rc1, p1, fs1) = Some (rc2, p2, fs2)" "bv_ok n p2" "iSize p2 = iSize p1"
      "content n p2 \<subseteq> {i. i + 1 \<in> set a} \<union> content n p1"
      "rc2 \<longrightarrow> rc1 \<and> content n p2 = {i. i + 1 \<in> set a} \<union> content n p1"
      "fs1 = [] \<and> rc1 \<longrightarrow> rc2 \<and> fs2 = []" by blast
    have up: "bv_ok (Suc n) p2" "content (Suc n) p2 = content n p2" using bv_ok_mono [OF q(2)] by blast+
    have "fs = [] \<longrightarrow> fs0 = []" using m by (cases fs) auto
    then have 1: "fs = [] \<longrightarrow> rc2 \<and> fs2 = []" using r(6) q(6) by blast
    have 2: "bv_rehash f s c a i fs = Some (rc2, p2, fs2)"
      using m True r(1) q(1) by (simp add: bv_rehash_def)
    have c0: "content (Suc n) (BHash s c a) = {i. i + 1 \<in> set a}" by simp
    have 3: "content n p2 \<subseteq> {i} \<union> {i. i + 1 \<in> set a}" using q(4) r(4) by blast
    have 4: "rc2 \<longrightarrow> content n p2 = {i} \<union> {i. i + 1 \<in> set a}" using q(5) r(5) by blast
    have 5: "iSize p2 = iSize (BHash s c a)" using q(3) r(3) by simp
    show ?thesis unfolding set_post_def c0 using 1 2 3 4 5 up by metis
  qed
qed

lemma bitmap_set_content:
  assumes "length bm = BITVEC_NELEM" and "i < BITVEC_NBIT"
  shows "content (Suc n) (BBitmap s (bm[i div 8 := bm ! (i div 8) OR push_bit (i mod 8) 1]))
     = {i} \<union> content (Suc n) (BBitmap s bm)"
    and "content (Suc n) (BBitmap s (bm[i div 8 := bm ! (i div 8) AND NOT (push_bit (i mod 8) 1)]))
     = content (Suc n) (BBitmap s bm) - {i}"
proof -
  have same: "j = i \<longleftrightarrow> j div 8 = i div 8 \<and> j mod 8 = i mod 8" for j :: nat
    by (metis div_mod_decomp)
  have b: "bit ((2 :: u8) ^ (i mod 8)) k \<longleftrightarrow> k = i mod 8" for k
    by (auto simp: bit_exp_iff)
  have l: "j mod 8 < LENGTH(8)" for j :: nat by simp
  have "bit (bm[i div 8 := bm ! (i div 8) OR push_bit (i mod 8) 1] ! (j div 8)) (j mod 8)
      \<longleftrightarrow> j = i \<or> bit (bm ! (j div 8)) (j mod 8)" if "j < BITVEC_NBIT" for j
    using assms bitmap_byte that by (auto simp: nth_list_update same bit_or_iff b)
  then show "content (Suc n) (BBitmap s (bm[i div 8 := bm ! (i div 8) OR push_bit (i mod 8) 1]))
     = {i} \<union> content (Suc n) (BBitmap s bm)" using assms(2) by auto
  have "bit (bm[i div 8 := bm ! (i div 8) AND NOT (push_bit (i mod 8) 1)] ! (j div 8)) (j mod 8)
      \<longleftrightarrow> j \<noteq> i \<and> bit (bm ! (j div 8)) (j mod 8)" if "j < BITVEC_NBIT" for j
    using assms bitmap_byte that l by (auto simp: nth_list_update same bit_and_iff bit_not_iff b)
  then show "content (Suc n) (BBitmap s (bm[i div 8 := bm ! (i div 8) AND NOT (push_bit (i mod 8) 1)]))
     = content (Suc n) (BBitmap s bm) - {i}" by auto
qed

lemma hash_insert_post:
  assumes ok: "bv_ok (Suc n) (BHash s c a)" and i: "i < s" "i + 1 \<notin> set a"
    and k: "k < BITVEC_NINT" "passes a (BITVEC_HASH i) (i + 1) k" "a ! slot (BITVEC_HASH i) k = 0"
    and c: "c + 1 < BITVEC_NINT"
  shows "set_post (Suc n) (BHash s c a) {i} fs (Some (True, BHash s (c + 1) (a[slot (BITVEC_HASH i) k := i + 1]), fs))"
proof -
  let ?a = "a[slot (BITVEC_HASH i) k := i + 1]"
  have a: "hash_ok a" "length a = BITVEC_NINT" using ok by (simp_all add: hash_ok_def)
  have "hash_ok (a[slot (BITVEC_HASH (i + 1 - 1)) k := i + 1])"
    using a(1) i(2) k by (intro hash_ok_insert) (simp_all add: passes_def)
  then have h: "hash_ok ?a" by simp
  have cnt: "length (nonzero ?a) = Suc (length (nonzero a))"
    using k(3) a(2) by (intro length_nonzero_update) simp_all
  have sv: "set ?a - {0} = insert (i + 1) (set a - {0})" using k(3) a(2) by (intro set_update_zero) simp_all
  have "v \<le> s" if "v \<in> set ?a" for v
  proof -
    have "v = 0 \<or> v \<in> insert (i + 1) (set a - {0})" using that sv by blast
    then show ?thesis using ok i(1) by auto
  qed
  then have "bv_ok (Suc n) (BHash s (c + 1) ?a)" using ok h cnt c by simp
  moreover have "j + 1 \<in> set ?a \<longleftrightarrow> j = i \<or> j + 1 \<in> set a" for j
  proof -
    have "j + 1 \<in> set ?a \<longleftrightarrow> j + 1 \<in> set ?a - {0}" by simp
    then show ?thesis unfolding sv by auto
  qed
  then have "content (Suc n) (BHash s (c + 1) ?a) = {i} \<union> content (Suc n) (BHash s c a)" by auto
  ultimately show ?thesis by (intro set_post_doneI) simp_all
qed

lemma same_bin: "j = i \<longleftrightarrow> j div d = i div d \<and> j mod d = i mod d" for j i d :: nat
  by (metis div_mod_decomp)

lemma sub_update_content:
  assumes "i div d < length subs" and "0 < d"
  shows "content (Suc n) (BSub s d (subs[i div d := Some q]))
     = {j. j div d \<noteq> i div d \<and> j \<in> content (Suc n) (BSub s d subs)} \<union> {j. j div d = i div d \<and> j mod d \<in> content n q}"
  using assms by (auto simp: nth_list_update split: option.splits)

lemma sub_update_ok:
  assumes ok: "bv_ok (Suc n) (BSub s d subs)" and q: "bv_ok n q" "iSize q = d"
  shows "bv_ok (Suc n) (BSub s d (subs[bin := Some q]))"
proof -
  have "iSize r = d \<and> bv_ok n r" if "Some r \<in> set (subs[bin := Some q])" for r
    using ok q set_update_subset_insert [of subs bin "Some q"] that by auto
  then show ?thesis using ok by auto
qed

lemma sub_post:
  assumes ok: "bv_ok (Suc n) (BSub s d subs)" and i: "i < s"
    and q0: "bv_ok n q0" "iSize q0 = d"
    and child: "subs ! (i div d) = Some q0 \<or> subs ! (i div d) = None \<and> content n q0 = {}"
    and post: "set_post n q0 {i mod d} fs r" and fs: "fs' = [] \<longrightarrow> fs = []"
  shows "set_post (Suc n) (BSub s d subs) {i} fs'
    (do { (rc, q, fs) \<leftarrow> r; Some (rc, BSub s d (subs[i div d := Some q]), fs) })"
proof -
  obtain rc q fs1 where r: "r = Some (rc, q, fs1)" "bv_ok n q" "iSize q = d"
    "content n q \<subseteq> {i mod d} \<union> content n q0" "rc \<longrightarrow> content n q = {i mod d} \<union> content n q0"
    "fs = [] \<longrightarrow> rc \<and> fs1 = []"
    using post q0(2) unfolding set_post_def by blast
  let ?p = "BSub s d (subs[i div d := Some q])"
  have d: "d = bv_divisor s" "length subs = BITVEC_NPTR" using ok by simp_all
  then have dl: "0 < d" "i div d < length subs" using bin_less [OF i] by simp_all
  have upd: "content (Suc n) ?p
     = {j. j div d \<noteq> i div d \<and> j \<in> content (Suc n) (BSub s d subs)} \<union> {j. j div d = i div d \<and> j mod d \<in> content n q}"
    using dl by (intro sub_update_content)
  have old: "j \<in> content (Suc n) (BSub s d subs) \<longleftrightarrow> j mod d \<in> content n q0" if "j div d = i div d" for j
    using child dl that by auto
  have "content (Suc n) ?p \<subseteq> {i} \<union> content (Suc n) (BSub s d subs)"
    unfolding upd using old r(4) same_bin [of _ i d] by blast
  moreover have "rc \<longrightarrow> content (Suc n) ?p = {i} \<union> content (Suc n) (BSub s d subs)"
    unfolding upd using old r(5) same_bin [of _ i d] by blast
  moreover have "bv_ok (Suc n) ?p" using ok r(2,3) by (rule sub_update_ok)
  moreover have "fs' = [] \<longrightarrow> rc \<and> fs1 = []" using fs r(6) by blast
  moreover have "iSize ?p = iSize (BSub s d subs)" by simp
  ultimately show ?thesis unfolding set_post_def r(1) by (simp del: bv_ok.simps content.simps)
qed

lemma bv_set_post: "bv_ok n p \<Longrightarrow> i < iSize p \<Longrightarrow> set_post n p {i} fs (bv_set n p i fs)"
proof (induction n arbitrary: p i fs)
  case 0
  then show ?case by simp
next
  case (Suc n)
  show ?case
  proof (cases p)
    case (BBitmap s bm)
    then have "length bm = BITVEC_NELEM" "i < BITVEC_NBIT" using Suc.prems by simp_all
    then show ?thesis using BBitmap Suc.prems bitmap_set_content(1) [of bm i n s]
      by (auto intro!: set_post_doneI simp del: content.simps)
  next
    case (BSub s d subs)
    have ok: "bv_ok (Suc n) (BSub s d subs)" and i: "i < s" using Suc.prems BSub by (simp_all del: bv_ok.simps)
    have d: "d = bv_divisor s" "length subs = BITVEC_NPTR" "fits n d" using bv_ok_SubD [OF ok] by blast+
    then have m: "i mod d < d" "i div d < length subs" using bin_less [OF i] by simp_all
    show ?thesis
    proof (cases "subs ! (i div d)")
      case None
      obtain b fs0 where mal: "malloc fs = (b, fs0)" by fastforce
      show ?thesis
      proof (cases b)
        case False
        then have "fs \<noteq> []" using mal by auto
        with ok have "set_post (Suc n) (BSub s d subs) {i} fs (Some (False, BSub s d subs, fs0))"
          by (rule set_post_failI)
        with False None mal BSub show ?thesis by (simp add: sqlite3BitvecCreate_def Let_def)
      next
        case True
        have new: "bv_ok n (bv_new d)" "iSize (bv_new d) = d" "content n (bv_new d) = {}"
          using bv_new_ok [OF d(3)] by blast+
        have "fs = [] \<longrightarrow> fs0 = []" using mal by (cases fs) auto
        moreover have "set_post n (bv_new d) {i mod d} fs0 (bv_set n (bv_new d) (i mod d) fs0)"
          using new m by (intro Suc.IH) simp_all
        ultimately have "set_post (Suc n) (BSub s d subs) {i} fs (do { (rc, q, fs) \<leftarrow> bv_set n (bv_new d) (i mod d) fs0;
            Some (rc, BSub s d (subs[i div d := Some q]), fs) })"
          using None new by (intro sub_post [OF ok i new(1,2)]) blast+
        with True None mal BSub show ?thesis by (simp add: sqlite3BitvecCreate_def Let_def)
      qed
    next
      case (Some q)
      then have q: "bv_ok n q" "iSize q = d" using bv_ok_child [OF ok m(2)] by blast+
      have "set_post n q {i mod d} fs (bv_set n q (i mod d) fs)" using q m by (intro Suc.IH) simp_all
      then have "set_post (Suc n) (BSub s d subs) {i} fs (do { (rc, q, fs) \<leftarrow> bv_set n q (i mod d) fs;
          Some (rc, BSub s d (subs[i div d := Some q]), fs) })"
        using Some by (intro sub_post [OF ok i q]) blast+
      with Some BSub show ?thesis by (simp add: Let_def)
    qed
  next
    case (BHash s c a)
    have ok: "bv_ok (Suc n) (BHash s c a)" and i: "i < s" using Suc.prems BHash by simp_all
    have a: "hash_ok a" "length (nonzero a) < BITVEC_NINT" "c = length (nonzero a)" using ok by simp_all
    have re: "set_post (Suc n) (BHash s c a) {i} fs (bv_rehash (bv_set n) s c a i fs)"
      using Suc.IH ok i by (rule bv_rehash_post)
    obtain k where k: "k < BITVEC_NINT" "passes a (BITVEC_HASH i) (i + 1) k"
      "a ! slot (BITVEC_HASH i) k = (if i + 1 \<in> set a then i + 1 else 0)"
      using a(1,2) by (rule probe_stop)
    show ?thesis
    proof (cases "a ! BITVEC_HASH i = 0")
      case True
      have "k = 0"
      proof (rule ccontr)
        assume "k \<noteq> 0"
        then show False using k(2) True by (auto simp: passes_def)
      qed
      then have mem: "i + 1 \<notin> set a" and s0: "slot (BITVEC_HASH i) k = BITVEC_HASH i"
        using k(3) True by (auto split: if_splits)
      have ins: "set_post (Suc n) (BHash s c a) {i} fs (Some (True, BHash s (c + 1) (a[BITVEC_HASH i := i + 1]), fs))"
        if "c < BITVEC_NINT - 1"
        using hash_insert_post [OF ok i mem k(1,2)] k(3) mem that s0 by simp
      have "bv_set (Suc n) (BHash s c a) i fs = (if c < BITVEC_NINT - 1
          then Some (True, BHash s (c + 1) (a[BITVEC_HASH i := i + 1]), fs) else bv_rehash (bv_set n) s c a i fs)"
        using True by (simp add: Let_def)
      then show ?thesis unfolding BHash using re ins by presburger
    next
      case False
      have pr: "bv_probe BITVEC_NINT a (BITVEC_HASH i) (i + 1)
          = Some (if i + 1 \<in> set a then None else Some (slot (BITVEC_HASH i) k))"
        using bv_probe_at [OF HASH_less k(2,1) _ False] k(3) by (simp split: if_splits)
      show ?thesis
      proof (cases "i + 1 \<in> set a")
        case True
        then have "{i} \<union> content (Suc n) (BHash s c a) = content (Suc n) (BHash s c a)" by auto
        then have "set_post (Suc n) (BHash s c a) {i} fs (Some (True, BHash s c a, fs))"
          using ok by (intro set_post_doneI) simp_all
        with True pr False show ?thesis unfolding BHash by (simp add: Let_def)
      next
        case mem: False
        have ins: "set_post (Suc n) (BHash s c a) {i} fs
            (Some (True, BHash s (c + 1) (a[slot (BITVEC_HASH i) k := i + 1]), fs))" if "\<not> c \<ge> BITVEC_MXHASH"
          using hash_insert_post [OF ok i mem k(1,2)] k(3) mem that by (simp add: BITVEC_MXHASH_def)
        have "bv_set (Suc n) (BHash s c a) i fs = (if c \<ge> BITVEC_MXHASH then bv_rehash (bv_set n) s c a i fs
            else Some (True, BHash s (c + 1) (a[slot (BITVEC_HASH i) k := i + 1]), fs))"
          using False mem pr by (simp add: Let_def)
        then show ?thesis unfolding BHash using re ins by presburger
      qed
    qed
  qed
qed

lemma bv_clear_post:
  "bv_ok n p \<Longrightarrow> i < iSize p \<Longrightarrow>
   \<exists>p'. bv_clear n p i = Some p' \<and> bv_ok n p' \<and> iSize p' = iSize p \<and> content n p' = content n p - {i}"
proof (induction n arbitrary: p i)
  case 0
  then show ?case by simp
next
  case (Suc n)
  show ?case
  proof (cases p)
    case (BBitmap s bm)
    then have "length bm = BITVEC_NELEM" "i < BITVEC_NBIT" using Suc.prems by simp_all
    then show ?thesis using BBitmap Suc.prems bitmap_set_content(2) [of bm i n s]
      by (simp del: content.simps)
  next
    case (BHash s c a)
    have ok: "bv_ok (Suc n) (BHash s c a)" and i: "i < s" using Suc.prems BHash by simp_all
    have a: "hash_ok a" "length (nonzero a) < BITVEC_NINT" using ok by simp_all
    have z: "nonzero (replicate BITVEC_NINT (0 :: nat)) = []" by simp
    have "\<exists>c' a'. bv_rebuild i a (0, replicate BITVEC_NINT 0) = Some (c', a') \<and> hash_ok a' \<and> c' = length (nonzero a')
       \<and> c' \<le> length (nonzero (replicate BITVEC_NINT (0 :: nat))) + length (nonzero a)
       \<and> set a' - {0} = (set (replicate BITVEC_NINT (0 :: nat)) - {0}) \<union> (set a - {0, i + 1})"
      using hash_ok_empty hash_ok_distinct [OF a(1)] a(2)
      by (intro rebuild_correct) (auto simp: z dest: in_set_replicate [THEN iffD1])
    then obtain c' a' where r: "bv_rebuild i a (0, replicate BITVEC_NINT 0) = Some (c', a')" "hash_ok a'"
      "c' = length (nonzero a')" "c' \<le> length (nonzero a)" "set a' - {0} = set a - {0, i + 1}"
      unfolding z by (auto dest: in_set_replicate [THEN iffD1])
    have "v \<le> s" if "v \<in> set a'" for v
    proof -
      have "v = 0 \<or> v \<in> set a" using that r(5) by blast
      then show ?thesis using ok by auto
    qed
    then have "bv_ok (Suc n) (BHash s c' a')" using ok r a(2) by auto
    moreover have "j + 1 \<in> set a' \<longleftrightarrow> j + 1 \<in> set a \<and> j \<noteq> i" for j
    proof -
      have "j + 1 \<in> set a' \<longleftrightarrow> j + 1 \<in> set a' - {0}" by simp
      then show ?thesis unfolding r(5) by auto
    qed
    then have "content (Suc n) (BHash s c' a') = content (Suc n) (BHash s c a) - {i}" by auto
    ultimately show ?thesis unfolding BHash using r(1) by (simp del: bv_ok.simps content.simps)
  next
    case (BSub s d subs)
    have ok: "bv_ok (Suc n) (BSub s d subs)" and i: "i < s" using Suc.prems BSub by (simp_all del: bv_ok.simps)
    have d: "d = bv_divisor s" "length subs = BITVEC_NPTR" using ok by simp_all
    then have m: "i mod d < d" "i div d < length subs" using bin_less [OF i] by simp_all
    show ?thesis
    proof (cases "subs ! (i div d)")
      case None
      then have "i \<notin> content (Suc n) (BSub s d subs)" by simp
      with None ok BSub show ?thesis by (simp add: Let_def del: bv_ok.simps content.simps)
    next
      case (Some q)
      then have q: "bv_ok n q" "iSize q = d" using bv_ok_child [OF ok m(2)] by blast+
      have "\<exists>q'. bv_clear n q (i mod d) = Some q' \<and> bv_ok n q' \<and> iSize q' = iSize q \<and> content n q' = content n q - {i mod d}"
        using q m by (intro Suc.IH) simp_all
      then obtain q' where q': "bv_clear n q (i mod d) = Some q'" "bv_ok n q'" "iSize q' = d"
        "content n q' = content n q - {i mod d}" using q(2) by auto
      let ?p = "BSub s d (subs[i div d := Some q'])"
      have upd: "content (Suc n) ?p = {j. j div d \<noteq> i div d \<and> j \<in> content (Suc n) (BSub s d subs)}
          \<union> {j. j div d = i div d \<and> j mod d \<in> content n q'}"
        using m d by (intro sub_update_content) simp_all
      have old: "j \<in> content (Suc n) (BSub s d subs) \<longleftrightarrow> j mod d \<in> content n q" if "j div d = i div d" for j
        using Some m that by auto
      have "content (Suc n) ?p = content (Suc n) (BSub s d subs) - {i}"
        unfolding upd q'(4) using old same_bin [of _ i d] by blast
      moreover have "bv_ok (Suc n) ?p" using ok q'(2,3) by (rule sub_update_ok)
      ultimately show ?thesis using Some q' BSub by (simp add: Let_def del: bv_ok.simps content.simps)
    qed
  qed
qed

subsection \<open>Properties\<close>

text \<open>The fuel suffices for every size a \<open>u32\<close> can hold.\<close>

lemma bv_divisor_mono: "s \<le> t \<Longrightarrow> bv_divisor s \<le> bv_divisor t"
proof -
  have up: "(s + 61) div 62 = (if s mod 62 \<noteq> 0 then s div 62 + 1 else s div 62)" for s :: nat
  proof -
    define q where "q = s div 62"
    define r where "r = s mod 62"
    have "s = 62 * q + r" "r < 62" by (simp_all add: q_def r_def)
    then show ?thesis unfolding q_def [symmetric] r_def [symmetric]
      by (subst nat_div_eq_iff) (auto simp: algebra_simps)
  qed
  have ceil: "bv_divisor s = max BITVEC_NBIT ((s + 61) div 62)" for s
    by (simp add: bv_divisor_def NBIT_val Let_def up)
  assume "s \<le> t"
  then have "(s + 61) div 62 \<le> (t + 61) div 62" by (intro div_le_mono) simp
  then show ?thesis unfolding ceil by simp
qed

lemma fits_antimono: "fits n t \<Longrightarrow> s \<le> t \<Longrightarrow> fits n s"
  by (induction n t arbitrary: s rule: fits.induct) (auto dest: bv_divisor_mono)

lemma fits_u32: "s < 2 ^ 32 \<Longrightarrow> fits bv_depth s"
proof -
  have step: "fits n (bv_divisor s) \<Longrightarrow> fits (n + 2) s" for n s by (simp add: numeral_2_eq_2)
  have "fits (0 + 2) 3968" by (simp add: numeral_2_eq_2 NBIT_val)
  then have "fits (0 + 2 + 2) 18022" by - (rule step, simp add: bv_divisor_def NBIT_val)
  then have "fits (0 + 2 + 2 + 2) 1117318" by - (rule step, simp add: bv_divisor_def NBIT_val)
  then have "fits (0 + 2 + 2 + 2 + 2) 69273667" by - (rule step, simp add: bv_divisor_def NBIT_val)
  then have "fits (0 + 2 + 2 + 2 + 2 + 2) (2 ^ 32)" by - (rule step, simp add: bv_divisor_def NBIT_val)
  moreover have "(0 + 2 + 2 + 2 + 2 + 2 :: nat) = bv_depth" by (simp add: bv_depth_def)
  ultimately have "fits bv_depth (2 ^ 32)" by (simp only:)
  then show "s < 2 ^ 32 \<Longrightarrow> fits bv_depth s" by (rule fits_antimono) simp
qed

definition bitvec_ok :: "bitvec \<Rightarrow> bool" where
  "bitvec_ok p \<longleftrightarrow> bv_ok bv_depth p \<and> iSize p < 2 ^ 32"

lemma sqlite3BitvecTest_content:
  assumes "bitvec_ok p" and "i \<le> 2 ^ 32 - 1"
  shows "sqlite3BitvecTest (Some p) i = Some (0 < i \<and> i \<le> iSize p \<and> i - 1 \<in> content bv_depth p)"
  using assms bv_test_correct [of bv_depth p "i - 1"]
  by (auto simp: sqlite3BitvecTest_def bitvec_ok_def Let_def)

text \<open>
  A new bit vector of any 32-bit size is empty; \<open>sqlite3BitvecTest\<close> is false outside
  the range 1 to \<open>iSize\<close>, for 0 and for a NULL vector.
\<close>

theorem sqlite3BitvecCreate_empty:
  assumes "n < 2 ^ 32" and "i < 2 ^ 32"
  shows "(case sqlite3BitvecCreate fs n of
       (Some p, fs') \<Rightarrow> bitvec_ok p \<and> sqlite3BitvecSize p = n \<and> sqlite3BitvecTest (Some p) i = Some False
     | (None, fs') \<Rightarrow> fs \<noteq> [])
   \<and> sqlite3BitvecTest None i = Some False"
proof -
  obtain b fs' where m: "malloc fs = (b, fs')" by fastforce
  have new: "bv_ok bv_depth (bv_new n)" "content bv_depth (bv_new n) = {}" "iSize (bv_new n) = n"
    using bv_new_ok [OF fits_u32 [OF assms(1)]] by blast+
  then have ok: "bitvec_ok (bv_new n)" using assms(1) by (simp add: bitvec_ok_def)
  have "sqlite3BitvecTest (Some (bv_new n)) i = Some False"
    using sqlite3BitvecTest_content [OF ok, of i] assms(2) new(2) by simp
  moreover have "fs \<noteq> []" if "\<not> b" using m that by auto
  ultimately show ?thesis using m ok new(3)
    by (auto simp: sqlite3BitvecCreate_def sqlite3BitvecSize_def sqlite3BitvecTest_def)
qed

theorem sqlite3BitvecCreate_empty_witness:
  "\<exists>p. sqlite3BitvecCreate [] 5000 = (Some p, []) \<and> bitvec_ok p \<and> sqlite3BitvecTest (Some p) 17 = Some False"
proof -
  have h: "(5000 :: nat) < 2 ^ 32" "(17 :: nat) < 2 ^ 32" by simp_all
  from sqlite3BitvecCreate_empty [OF h, of "[]"] show ?thesis by (simp add: sqlite3BitvecCreate_def)
qed

text \<open>
  C18. \<open>sqlite3BitvecSet\<close> of a bit in range always returns, keeps the vector well-formed and
  its size, and never sets another bit. When it succeeds (it always does when memory
  suffices), exactly that bit is added, whichever representation is used and whatever
  rehashing or subdivision happens on the way. When an allocation fails in the middle of a
  subdivision, bits may be lost, but none is invented.
\<close>

theorem sqlite3BitvecSet_correct:
  assumes "bitvec_ok p" and "0 < i" and "i \<le> iSize p"
  shows "\<exists>rc p' fs'. sqlite3BitvecSet (Some p) i fs = Some (rc, Some p', fs')
     \<and> bitvec_ok p' \<and> sqlite3BitvecSize p' = sqlite3BitvecSize p \<and> (fs = [] \<longrightarrow> rc)
     \<and> (\<forall>j < 2 ^ 32. sqlite3BitvecTest (Some p') j = Some True \<longrightarrow>
          j = i \<or> sqlite3BitvecTest (Some p) j = Some True)
     \<and> (rc \<longrightarrow> (\<forall>j < 2 ^ 32. sqlite3BitvecTest (Some p') j =
          (if j = i then Some True else sqlite3BitvecTest (Some p) j)))"
proof -
  have ok: "bv_ok bv_depth p" "iSize p < 2 ^ 32" using assms(1) by (simp_all add: bitvec_ok_def)
  have i: "i - 1 < iSize p" using assms(2,3) by simp
  obtain rc p' fs' where r: "bv_set bv_depth p (i - 1) fs = Some (rc, p', fs')" "bv_ok bv_depth p'"
    "iSize p' = iSize p" "content bv_depth p' \<subseteq> {i - 1} \<union> content bv_depth p"
    "rc \<longrightarrow> content bv_depth p' = {i - 1} \<union> content bv_depth p" "fs = [] \<longrightarrow> rc"
    using bv_set_post [OF ok(1) i, of fs] unfolding set_post_def by blast
  have ok': "bitvec_ok p'" using r(2,3) ok(2) by (simp add: bitvec_ok_def)
  have t: "sqlite3BitvecTest (Some p) j = Some (0 < j \<and> j \<le> iSize p \<and> j - 1 \<in> content bv_depth p)"
    "sqlite3BitvecTest (Some p') j = Some (0 < j \<and> j \<le> iSize p \<and> j - 1 \<in> content bv_depth p')"
    if "j < 2 ^ 32" for j
    using sqlite3BitvecTest_content [OF assms(1), of j] sqlite3BitvecTest_content [OF ok', of j] that r(3) by simp_all
  have "sqlite3BitvecTest (Some p') j = Some True \<longrightarrow> j = i \<or> sqlite3BitvecTest (Some p) j = Some True"
    if "j < 2 ^ 32" for j using t [OF that] r(4) assms(2) by auto
  moreover have "sqlite3BitvecTest (Some p') j = (if j = i then Some True else sqlite3BitvecTest (Some p) j)"
    if "rc" "j < 2 ^ 32" for j using t [OF that(2)] r(5) that(1) assms(2,3) by auto
  ultimately show ?thesis using r(1,3,6) ok' by (simp add: sqlite3BitvecSet_def sqlite3BitvecSize_def)
qed

theorem sqlite3BitvecSet_correct_witness:
  "\<exists>rc p' fs'. sqlite3BitvecSet (Some (bv_new 100000)) 4242 [] = Some (rc, Some p', fs') \<and> rc
     \<and> sqlite3BitvecTest (Some p') 4242 = Some True"
proof -
  have ok: "bitvec_ok (bv_new 100000)"
    using bv_new_ok [OF fits_u32, of 100000] by (simp add: bitvec_ok_def)
  have sz: "4242 \<le> iSize (bv_new 100000)" by (simp add: bv_new_def NBIT_val)
  from sqlite3BitvecSet_correct [OF ok _ sz, of "[]"] obtain rc p' fs' where
    "sqlite3BitvecSet (Some (bv_new 100000)) 4242 [] = Some (rc, Some p', fs')" "rc"
    "\<forall>j < 2 ^ 32. sqlite3BitvecTest (Some p') j = (if j = 4242 then Some True else sqlite3BitvecTest (Some (bv_new 100000)) j)"
    by auto
  then show ?thesis by (intro exI [of _ rc] exI [of _ p'] exI [of _ fs']) simp
qed

lemma sqlite3BitvecClear_correct_parts:
  assumes "bitvec_ok p" and "0 < i" and "i \<le> iSize p"
  shows "\<exists>p'. sqlite3BitvecClear (Some p) i = Some (Some p')
     \<and> bitvec_ok p' \<and> sqlite3BitvecSize p' = sqlite3BitvecSize p
     \<and> (\<forall>j < 2 ^ 32. sqlite3BitvecTest (Some p') j =
          (if j = i then Some False else sqlite3BitvecTest (Some p) j))"
    and "sqlite3BitvecClear None i = Some None"
proof -
  have ok: "bv_ok bv_depth p" "iSize p < 2 ^ 32" using assms(1) by (simp_all add: bitvec_ok_def)
  have i: "i - 1 < iSize p" using assms(2,3) by simp
  obtain p' where r: "bv_clear bv_depth p (i - 1) = Some p'" "bv_ok bv_depth p'"
    "iSize p' = iSize p" "content bv_depth p' = content bv_depth p - {i - 1}"
    using bv_clear_post [OF ok(1) i] by blast
  have ok': "bitvec_ok p'" using r(2,3) ok(2) by (simp add: bitvec_ok_def)
  have t: "sqlite3BitvecTest (Some p) j = Some (0 < j \<and> j \<le> iSize p \<and> j - 1 \<in> content bv_depth p)"
    "sqlite3BitvecTest (Some p') j = Some (0 < j \<and> j \<le> iSize p \<and> j - 1 \<in> content bv_depth p \<and> j - 1 \<noteq> i - 1)"
    if "j < 2 ^ 32" for j
    using sqlite3BitvecTest_content [OF assms(1), of j] sqlite3BitvecTest_content [OF ok', of j] that r(3,4) by simp_all
  have ne: "0 < j \<Longrightarrow> j - 1 \<noteq> i - 1 \<longleftrightarrow> j \<noteq> i" for j using assms(2) by linarith
  have "sqlite3BitvecTest (Some p') j = (if j = i then Some False else sqlite3BitvecTest (Some p) j)"
    if "j < 2 ^ 32" for j unfolding t [OF that] using ne [of j] by (cases "j = i") auto
  then show "\<exists>p'. sqlite3BitvecClear (Some p) i = Some (Some p')
     \<and> bitvec_ok p' \<and> sqlite3BitvecSize p' = sqlite3BitvecSize p
     \<and> (\<forall>j < 2 ^ 32. sqlite3BitvecTest (Some p') j =
          (if j = i then Some False else sqlite3BitvecTest (Some p) j))"
    using r(1,3) ok' by (simp add: sqlite3BitvecClear_def sqlite3BitvecSize_def)
  show "sqlite3BitvecClear None i = Some None" by (simp add: sqlite3BitvecClear_def)
qed

text \<open>
  C19. \<open>sqlite3BitvecClear\<close> of a bit in range always returns, removes exactly that bit and
  keeps the vector well-formed and its size, although the hash representation is rebuilt
  from scratch; on a NULL vector it does nothing.
\<close>

theorem sqlite3BitvecClear_correct:
  assumes "bitvec_ok p" and "0 < i" and "i \<le> iSize p"
  shows "(\<exists>p'. sqlite3BitvecClear (Some p) i = Some (Some p')
     \<and> bitvec_ok p' \<and> sqlite3BitvecSize p' = sqlite3BitvecSize p
     \<and> (\<forall>j < 2 ^ 32. sqlite3BitvecTest (Some p') j =
          (if j = i then Some False else sqlite3BitvecTest (Some p) j)))
    \<and> (sqlite3BitvecClear None i = Some None)"
  using sqlite3BitvecClear_correct_parts [OF assms] by blast

theorem sqlite3BitvecClear_correct_witness:
  "\<exists>p'. sqlite3BitvecClear (Some (bv_new 77)) 5 = Some (Some p') \<and> sqlite3BitvecTest (Some p') 5 = Some False"
proof -
  have ok: "bitvec_ok (bv_new 77)"
    using bv_new_ok [OF fits_u32, of 77] by (simp add: bitvec_ok_def)
  have sz: "5 \<le> iSize (bv_new 77)" by (simp add: bv_new_def NBIT_val)
  from conjunct1 [OF sqlite3BitvecClear_correct [OF ok _ sz]] show ?thesis by fastforce
qed

end
