(* ===== verification/Merge_Sort.thy ===== *)
theory Merge_Sort
  imports Prelude
begin

text \<open>
  The bottom-up merge sort that several parts of the program share: an array of buckets, of
  which the \<open>i\<close>-th is empty or holds a sorted list of \<open>2^i\<close> inputs; adding an element
  carries like a binary counter, and a last pass merges the buckets. A merge routine is
  given by what it does with an abstract value of its lists (their set or their multiset)
  and by the ordering it preserves (locale \<open>list_merge\<close>); each client interprets the locale
  for its own routine. An empty list is a NULL pointer.
\<close>

text \<open>\<open>for(i=0; aBucket[i]; i++)\<close>: \<open>None\<close> when the loop would leave the array.\<close>

fun bucket_add :: "('a list \<Rightarrow> 'a list \<Rightarrow> 'a list) \<Rightarrow> 'a list list \<Rightarrow> 'a list \<Rightarrow> 'a list list option" where
  "bucket_add merge [] x = None"
| "bucket_add merge (b # bs) x =
     (if b = [] then Some (x # bs)
      else do { bs \<leftarrow> bucket_add merge bs (merge b x); Some ([] # bs) })"

fun bucket_collect :: "('a list \<Rightarrow> 'a list \<Rightarrow> 'a list) \<Rightarrow> 'a list \<Rightarrow> 'a list list \<Rightarrow> 'a list" where
  "bucket_collect merge p [] = p"
| "bucket_collect merge p (b # bs) =
     (if b = [] then bucket_collect merge p bs
      else bucket_collect merge (if p \<noteq> [] then merge p b else b) bs)"

fun bucket_sort :: "('a list \<Rightarrow> 'a list \<Rightarrow> 'a list) \<Rightarrow> 'a list \<Rightarrow> 'a list list \<Rightarrow> 'a list option" where
  "bucket_sort merge [] bs = Some (bucket_collect merge (hd bs) (tl bs))"
| "bucket_sort merge (x # xs) bs = do { bs \<leftarrow> bucket_add merge bs [x]; bucket_sort merge xs bs }"

text \<open>The value of the binary counter: how many elements were added.\<close>

fun weight :: "'a list list \<Rightarrow> nat" where
  "weight [] = 0"
| "weight (b # bs) = (if b = [] then 0 else 1) + 2 * weight bs"

lemma weight_less: "weight bs < 2 ^ length bs"
  by (induction bs) auto

lemma weight_replicate [simp]: "weight (replicate n []) = 0"
  by (induction n) auto

locale list_merge =
  fixes merge :: "'a list \<Rightarrow> 'a list \<Rightarrow> 'a list"
    and value_of :: "'a list \<Rightarrow> 'v"
    and join :: "'v \<Rightarrow> 'v \<Rightarrow> 'v"
    and ordered :: "'a list \<Rightarrow> bool"
  assumes join_assoc: "join (join u v) w = join u (join v w)"
    and join_commute: "join u v = join v u"
    and join_unit: "join (value_of []) v = v"
    and value_Cons: "value_of (x # xs) = join (value_of [x]) (value_of xs)"
    and merge_value: "p \<noteq> [] \<Longrightarrow> q \<noteq> [] \<Longrightarrow> ordered p \<Longrightarrow> ordered q \<Longrightarrow>
      value_of (merge p q) = join (value_of p) (value_of q)"
    and merge_ordered: "p \<noteq> [] \<Longrightarrow> q \<noteq> [] \<Longrightarrow> ordered p \<Longrightarrow> ordered q \<Longrightarrow> ordered (merge p q)"
    and merge_nonempty: "p \<noteq> [] \<Longrightarrow> q \<noteq> [] \<Longrightarrow> merge p q \<noteq> []"
    and ordered_Nil: "ordered []"
    and ordered_single: "ordered [x]"
begin

fun total :: "'a list list \<Rightarrow> 'v" where
  "total [] = value_of []"
| "total (b # bs) = join (value_of b) (total bs)"

lemma join_left_commute: "join u (join v w) = join v (join u w)"
  using join_assoc join_commute by metis

lemmas join_ac = join_assoc join_commute join_left_commute

lemma join_unit_right [simp]: "join v (value_of []) = v"
  using join_unit join_commute by metis

lemma total_replicate [simp]: "total (replicate n []) = value_of []"
  by (induction n) (simp_all add: join_unit)

lemma bucket_add_correct:
  assumes "x \<noteq> []" and "ordered x" and "list_all ordered bs" and "Suc (weight bs) < 2 ^ length bs"
  shows "\<exists>bs'. bucket_add merge bs x = Some bs' \<and> length bs' = length bs \<and> list_all ordered bs'
     \<and> weight bs' = Suc (weight bs) \<and> total bs' = join (value_of x) (total bs)"
  using assms
proof (induction bs arbitrary: x)
  case Nil
  then show ?case by simp
next
  case (Cons b bs)
  show ?case
  proof (cases "b = []")
    case True
    with Cons.prems show ?thesis by (simp add: join_unit)
  next
    case False
    have m: "merge b x \<noteq> []" "ordered (merge b x)" "value_of (merge b x) = join (value_of b) (value_of x)"
      using False Cons.prems by (simp_all add: merge_nonempty merge_ordered merge_value)
    have "Suc (weight bs) < 2 ^ length bs" using Cons.prems(4) False by simp
    with Cons.IH [OF m(1,2)] Cons.prems(3) obtain bs' where
      "bucket_add merge bs (merge b x) = Some bs'" "length bs' = length bs" "list_all ordered bs'"
      "weight bs' = Suc (weight bs)" "total bs' = join (value_of (merge b x)) (total bs)" by auto
    with False m(3) show ?thesis by (simp add: ordered_Nil join_unit join_ac)
  qed
qed

lemma bucket_collect_correct:
  "ordered p \<Longrightarrow> list_all ordered bs \<Longrightarrow>
   ordered (bucket_collect merge p bs) \<and> value_of (bucket_collect merge p bs) = join (value_of p) (total bs)"
proof (induction bs arbitrary: p)
  case (Cons b bs)
  show ?case
  proof (cases "b = [] \<or> p = []")
    case True
    with Cons show ?thesis by (cases "b = []") (auto simp: join_unit)
  next
    case False
    with Cons.prems have "ordered (merge p b)" "value_of (merge p b) = join (value_of p) (value_of b)"
      by (simp_all add: merge_ordered merge_value)
    with False Cons.IH [of "merge p b"] Cons.prems(2) show ?thesis by (simp add: join_assoc)
  qed
qed simp

lemma bucket_sort_correct:
  "bs \<noteq> [] \<Longrightarrow> list_all ordered bs \<Longrightarrow> weight bs + length xs < 2 ^ length bs \<Longrightarrow>
   \<exists>ys. bucket_sort merge xs bs = Some ys \<and> ordered ys \<and> value_of ys = join (value_of xs) (total bs)"
proof (induction xs arbitrary: bs)
  case Nil
  then show ?case using bucket_collect_correct [of "hd bs" "tl bs"] by (cases bs) (auto simp: join_unit)
next
  case (Cons x xs)
  have "Suc (weight bs) < 2 ^ length bs" using Cons.prems(3) by simp
  with bucket_add_correct [of "[x]" bs] Cons.prems(2) obtain bs' where
    b: "bucket_add merge bs [x] = Some bs'" "length bs' = length bs" "list_all ordered bs'"
      "weight bs' = Suc (weight bs)" "total bs' = join (value_of [x]) (total bs)"
    by (auto simp: ordered_single)
  have "bs' \<noteq> []" using b(2) Cons.prems(1) by auto
  with Cons.IH [of bs'] b Cons.prems(3) obtain ys where
    "bucket_sort merge xs bs' = Some ys" "ordered ys" "value_of ys = join (value_of xs) (total bs')" by auto
  with b(1,5) show ?case using value_Cons [of x xs] by (simp add: join_ac)
qed

lemma bucket_sort_empty:
  assumes "0 < n" and "length xs < 2 ^ n"
  shows "\<exists>ys. bucket_sort merge xs (replicate n []) = Some ys \<and> ordered ys \<and> value_of ys = value_of xs"
  using bucket_sort_correct [of "replicate n []" xs] assms by (simp add: list_all_iff ordered_Nil)

end

end
