(* ===== verification/Rowset.thy ===== *)
theory Rowset
  imports Merge_Sort
begin

text \<open>
  Row sets (\<open>rowset.c\<close>): sets of 64-bit rowids that are either drained in sorted order or
  tested for membership batch by batch. The entries, linked by \<open>pRight\<close>, are a list; the
  same entries rebuilt into a search tree are a tree; a tree node's \<open>v\<close> and links are its
  fields. \<open>pLast\<close> is the last element of the list. Each function that may allocate takes
  the outcomes of the next allocations (all succeed when the list is empty).
\<close>

subsection \<open>State\<close>

definition ROWSET_ENTRY_PER_CHUNK :: nat where
  "ROWSET_ENTRY_PER_CHUNK = (1024 - 8) div 24"

datatype rowset_tree = Leaf | Node (pLeft: rowset_tree) (v: int) (pRight: rowset_tree)

record rowset =
  pChunk :: nat
  pEntry :: "int list"
  pForest :: "rowset_tree list"
  nFresh :: nat
  sorted_flag :: bool
  next_flag :: bool
  iBatch :: int

text \<open>\<open>nFresh0\<close>: the entries that fit behind the object in its own allocation.\<close>

definition sqlite3RowSetInit :: "nat \<Rightarrow> rowset" where
  "sqlite3RowSetInit nFresh0 =
     \<lparr>pChunk = 0, pEntry = [], pForest = [], nFresh = nFresh0,
      sorted_flag = True, next_flag = False, iBatch = 0\<rparr>"

definition sqlite3RowSetClear :: "rowset \<Rightarrow> rowset" where
  "sqlite3RowSetClear p =
     p \<lparr>pChunk := 0, nFresh := 0, pEntry := [], pForest := [], sorted_flag := True, next_flag := False\<rparr>"

fun alloc :: "bool list \<Rightarrow> bool \<times> bool list" where
  "alloc [] = (True, [])"
| "alloc (b # fs) = (b, fs)"

definition rowSetEntryAlloc :: "rowset \<Rightarrow> bool list \<Rightarrow> bool \<times> rowset \<times> bool list" where
  "rowSetEntryAlloc p fs =
     (if nFresh p = 0 then
        (case alloc fs of
           (False, fs) \<Rightarrow> (False, p, fs)
         | (True, fs) \<Rightarrow> (True, p \<lparr>pChunk := pChunk p + 1, nFresh := ROWSET_ENTRY_PER_CHUNK - 1\<rparr>, fs))
      else (True, p \<lparr>nFresh := nFresh p - 1\<rparr>, fs))"

definition sqlite3RowSetInsert :: "rowset \<Rightarrow> int \<Rightarrow> bool list \<Rightarrow> rowset \<times> bool list" where
  "sqlite3RowSetInsert p rowid fs =
     (case rowSetEntryAlloc p fs of
        (False, p, fs) \<Rightarrow> (p, fs)
      | (True, p, fs) \<Rightarrow>
          let p = (if pEntry p \<noteq> [] \<and> rowid \<le> last (pEntry p) then p \<lparr>sorted_flag := False\<rparr> else p)
          in (p \<lparr>pEntry := pEntry p @ [rowid]\<rparr>, fs))"

subsection \<open>Sorting\<close>

fun rowSetEntryMerge :: "int list \<Rightarrow> int list \<Rightarrow> int list" where
  "rowSetEntryMerge [] q = q"
| "rowSetEntryMerge p [] = p"
| "rowSetEntryMerge (a # p) (b # q) =
     (if a \<le> b then
        if a < b then a # rowSetEntryMerge p (b # q) else rowSetEntryMerge p (b # q)
      else b # rowSetEntryMerge (a # p) q)"

definition rowSetEntrySort :: "int list \<Rightarrow> int list option" where
  "rowSetEntrySort pIn = bucket_sort rowSetEntryMerge pIn (replicate 40 [])"

subsection \<open>Trees\<close>

fun rowSetTreeToList :: "rowset_tree \<Rightarrow> int list" where
  "rowSetTreeToList Leaf = []"
| "rowSetTreeToList (Node l x r) = rowSetTreeToList l @ x # rowSetTreeToList r"

fun rowSetNDeepTree :: "int list \<Rightarrow> nat \<Rightarrow> rowset_tree \<times> int list" where
  "rowSetNDeepTree ppList 0 = (Leaf, ppList)"
| "rowSetNDeepTree ppList (Suc d) =
     (if ppList = [] then (Leaf, [])
      else if d > 0 then
        (case rowSetNDeepTree ppList d of
           (l, []) \<Rightarrow> (l, [])
         | (l, x # rest) \<Rightarrow> (case rowSetNDeepTree rest d of (r, rest) \<Rightarrow> (Node l x r, rest)))
      else (Node Leaf (hd ppList) Leaf, tl ppList))"

lemma NDeepTree_length: "length (snd (rowSetNDeepTree xs d)) \<le> length xs"
proof (induction xs d rule: rowSetNDeepTree.induct)
  case (2 xs d)
  then show ?case by (fastforce split: list.splits prod.splits)
qed simp

text \<open>The loop of \<open>rowSetListToTree\<close>, which deepens the tree until the list is used up.\<close>

function list_to_tree :: "nat \<Rightarrow> rowset_tree \<Rightarrow> int list \<Rightarrow> rowset_tree" where
  "list_to_tree iDepth p [] = p"
| "list_to_tree iDepth p (x # pList) =
     (case rowSetNDeepTree pList iDepth of (r, pList) \<Rightarrow> list_to_tree (iDepth + 1) (Node p x r) pList)"
  by pat_completeness auto
termination
proof (relation "measure (\<lambda>(d, p, xs). length xs)")
  fix d :: nat and p :: rowset_tree and x :: int and xs t r ys
  assume "(r, ys) = rowSetNDeepTree xs d"
  then have "length ys \<le> length xs" using NDeepTree_length [of xs d] by (metis snd_conv)
  then show "((d + 1, Node p x r, ys), d, p, x # xs) \<in> measure (\<lambda>(d, p, xs). length xs)" by simp
qed simp

definition rowSetListToTree :: "int list \<Rightarrow> rowset_tree" where
  "rowSetListToTree pList = list_to_tree 1 (Node Leaf (hd pList) Leaf) (tl pList)"

subsection \<open>Draining and testing\<close>

definition sqlite3RowSetNext :: "rowset \<Rightarrow> (int option \<times> rowset) option" where
  "sqlite3RowSetNext p = do {
     p \<leftarrow> (if \<not> next_flag p then do {
             e \<leftarrow> (if \<not> sorted_flag p then rowSetEntrySort (pEntry p) else Some (pEntry p));
             Some (p \<lparr>pEntry := e, sorted_flag := True, next_flag := True\<rparr>) }
           else Some p);
     (case pEntry p of
        [] \<Rightarrow> Some (None, p)
      | x # xs \<Rightarrow>
          let p = p \<lparr>pEntry := xs\<rparr>
          in Some (Some x, if xs = [] then sqlite3RowSetClear p else p)) }"

text \<open>
  The loop over the forest that merges a sorted list into the first empty slot, collecting
  the trees before it: the new forest, or the merged list when there is no empty slot.
\<close>

fun forest_insert :: "rowset_tree list \<Rightarrow> int list \<Rightarrow> rowset_tree list \<times> int list option" where
  "forest_insert [] p = ([], Some p)"
| "forest_insert (t # ts) p =
     (if t = Leaf then (rowSetListToTree p # ts, None)
      else
        case forest_insert ts (rowSetEntryMerge (rowSetTreeToList t) p) of (ts, r) \<Rightarrow> (Leaf # ts, r))"

fun tree_search :: "rowset_tree \<Rightarrow> int \<Rightarrow> bool" where
  "tree_search Leaf iRowid = False"
| "tree_search (Node l x r) iRowid =
     (if x < iRowid then tree_search r iRowid
      else if x > iRowid then tree_search l iRowid
      else True)"

definition sqlite3RowSetTest :: "rowset \<Rightarrow> int \<Rightarrow> int \<Rightarrow> bool list \<Rightarrow> (bool \<times> rowset \<times> bool list) option" where
  "sqlite3RowSetTest p b iRowid fs = do {
     (p, fs) \<leftarrow>
       (if b \<noteq> iBatch p then do {
          (p, fs) \<leftarrow>
            (if pEntry p \<noteq> [] then do {
               e \<leftarrow> (if \<not> sorted_flag p then rowSetEntrySort (pEntry p) else Some (pEntry p));
               (case forest_insert (pForest p) e of
                  (ts, None) \<Rightarrow> Some (p \<lparr>pForest := ts, pEntry := [], sorted_flag := True\<rparr>, fs)
                | (ts, Some e) \<Rightarrow>
                    (case rowSetEntryAlloc (p \<lparr>pForest := ts\<rparr>) fs of
                       (ok, p, fs) \<Rightarrow>
                         let p = (if ok then p \<lparr>pForest := pForest p @ [rowSetListToTree e]\<rparr> else p)
                         in Some (p \<lparr>pEntry := [], sorted_flag := True\<rparr>, fs))) }
             else Some (p, fs));
          Some (p \<lparr>iBatch := b\<rparr>, fs) }
        else Some (p, fs));
     Some (list_ex (\<lambda>t. tree_search t iRowid) (pForest p), p, fs) }"

subsection \<open>Sorting is correct\<close>

lemma merge_set: "set (rowSetEntryMerge p q) = set p \<union> set q"
  by (induction p q rule: rowSetEntryMerge.induct) auto

lemma merge_sorted:
  "sorted_wrt (<) p \<Longrightarrow> sorted_wrt (<) q \<Longrightarrow> sorted_wrt (<) (rowSetEntryMerge p q)"
  by (induction p q rule: rowSetEntryMerge.induct) (auto simp: merge_set)

interpretation rs: list_merge rowSetEntryMerge "set" "(\<union>)" "sorted_wrt (<)"
proof unfold_locales
  fix p q :: "int list"
  assume "p \<noteq> []" "q \<noteq> []"
  then show "rowSetEntryMerge p q \<noteq> []" using merge_set [of p q] by (metis Un_empty set_empty)
qed (auto simp: merge_set merge_sorted)

lemma rowSetEntrySort_correct:
  assumes "length xs < 2 ^ 40"
  shows "\<exists>ys. rowSetEntrySort xs = Some ys \<and> sorted_wrt (<) ys \<and> set ys = set xs"
  using rs.bucket_sort_empty [of 40 xs] assms by (simp only: rowSetEntrySort_def)

subsection \<open>Trees hold their lists\<close>

lemma NDeepTree_inorder: "rowSetTreeToList (fst (rowSetNDeepTree xs d)) @ snd (rowSetNDeepTree xs d) = xs"
proof (induction xs d rule: rowSetNDeepTree.induct)
  case (2 xs d)
  then show ?case by (auto split: list.splits prod.splits)
qed simp

lemma list_to_tree_inorder: "rowSetTreeToList (list_to_tree d p xs) = rowSetTreeToList p @ xs"
proof (induction d p xs rule: list_to_tree.induct)
  case (2 d p x xs)
  then show ?case using NDeepTree_inorder [of xs d] by (auto split: prod.split)
qed simp

lemma rowSetListToTree_inorder: "xs \<noteq> [] \<Longrightarrow> rowSetTreeToList (rowSetListToTree xs) = xs"
  by (simp add: rowSetListToTree_def list_to_tree_inorder)

definition search_tree :: "rowset_tree \<Rightarrow> bool" where
  "search_tree t \<longleftrightarrow> sorted_wrt (<) (rowSetTreeToList t)"

lemma tree_search_correct: "search_tree t \<Longrightarrow> tree_search t x \<longleftrightarrow> x \<in> set (rowSetTreeToList t)"
  by (induction t) (auto simp: search_tree_def sorted_wrt_append)

definition forest_set :: "rowset_tree list \<Rightarrow> int set" where
  "forest_set ts = (\<Union>t \<in> set ts. set (rowSetTreeToList t))"

lemma forest_set_simps [simp]:
  "forest_set [] = {}" "forest_set (t # ts) = set (rowSetTreeToList t) \<union> forest_set ts"
  "forest_set (ts @ us) = forest_set ts \<union> forest_set us"
  by (auto simp: forest_set_def)

lemma forest_search:
  "list_all search_tree ts \<Longrightarrow> list_ex (\<lambda>t. tree_search t x) ts \<longleftrightarrow> x \<in> forest_set ts"
  by (induction ts) (auto simp: tree_search_correct)

lemma forest_insert_correct:
  assumes "list_all search_tree ts" and "p \<noteq> []" and "sorted_wrt (<) p"
  shows "list_all search_tree (fst (forest_insert ts p))
     \<and> (case snd (forest_insert ts p) of
          None \<Rightarrow> forest_set (fst (forest_insert ts p)) = forest_set ts \<union> set p
        | Some q \<Rightarrow> q \<noteq> [] \<and> sorted_wrt (<) q
            \<and> forest_set (fst (forest_insert ts p)) \<union> set q = forest_set ts \<union> set p
            \<and> forest_set (fst (forest_insert ts p)) = {})"
  using assms
proof (induction ts arbitrary: p)
  case (Cons t ts)
  show ?case
  proof (cases "t = Leaf")
    case True
    with Cons.prems show ?thesis by (simp add: search_tree_def rowSetListToTree_inorder Un_commute)
  next
    case False
    let ?q = "rowSetEntryMerge (rowSetTreeToList t) p"
    have q: "set ?q = set (rowSetTreeToList t) \<union> set p" by (rule merge_set)
    then have "?q \<noteq> []" using Cons.prems(2) by auto
    moreover have "sorted_wrt (<) ?q" using Cons.prems by (simp add: merge_sorted search_tree_def)
    moreover have "search_tree Leaf" by (simp add: search_tree_def)
    ultimately show ?thesis using Cons.IH [of ?q] Cons.prems(1) False q
      by (auto split: option.splits prod.splits)
  qed
qed simp

subsection \<open>The invariant and single operations\<close>

definition rowset_inv :: "rowset \<Rightarrow> bool" where
  "rowset_inv p \<longleftrightarrow> (sorted_flag p \<longrightarrow> sorted_wrt (<) (pEntry p)) \<and> list_all search_tree (pForest p)
     \<and> \<not> next_flag p"

lemma rowSetEntryAlloc_cases:
  assumes "rowSetEntryAlloc p fs = (ok, p', fs')"
  shows "pEntry p' = pEntry p \<and> pForest p' = pForest p \<and> sorted_flag p' = sorted_flag p
     \<and> next_flag p' = next_flag p \<and> iBatch p' = iBatch p \<and> (fs = [] \<longrightarrow> ok \<and> fs' = [])"
  using assms by (cases fs) (auto simp: rowSetEntryAlloc_def split: if_splits bool.splits)

lemma sorted_snoc: "sorted_wrt (<) xs \<Longrightarrow> xs = [] \<or> last xs < x \<Longrightarrow> sorted_wrt (<) (xs @ [x])" for x :: int
proof (cases "xs = []")
  case False
  assume s: "sorted_wrt (<) xs" and "xs = [] \<or> last xs < x"
  then have l: "last xs < x" using False by simp
  have "y \<le> last xs" if "y \<in> set xs" for y
  proof -
    have "xs = butlast xs @ [last xs]" using False by simp
    then have "sorted_wrt (<) (butlast xs @ [last xs])" using s by simp
    moreover have "y \<in> set (butlast xs) \<or> y = last xs" using that False
      by (metis \<open>xs = butlast xs @ [last xs]\<close> rotate1.simps(2) set_ConsD set_rotate1)
    ultimately show ?thesis by (auto simp: sorted_wrt_append)
  qed
  then show ?thesis using s l by (fastforce simp: sorted_wrt_append)
qed simp

lemma Insert_correct:
  assumes "rowset_inv p" and "sqlite3RowSetInsert p x fs = (p', fs')"
  shows "rowset_inv p' \<and> pForest p' = pForest p \<and> iBatch p' = iBatch p
     \<and> (pEntry p' = pEntry p \<or> pEntry p' = pEntry p @ [x]) \<and> (fs = [] \<longrightarrow> pEntry p' = pEntry p @ [x] \<and> fs' = [])"
proof -
  obtain ok q gs where a: "rowSetEntryAlloc p fs = (ok, q, gs)" by (metis prod_cases3)
  note c = rowSetEntryAlloc_cases [OF a]
  show ?thesis
  proof (cases ok)
    case False
    with a assms c show ?thesis by (auto simp: sqlite3RowSetInsert_def rowset_inv_def)
  next
    case True
    have "sorted_flag q \<Longrightarrow> pEntry q = [] \<or> \<not> x \<le> last (pEntry q) \<Longrightarrow> sorted_wrt (<) (pEntry q @ [x])"
      using assms(1) c by (intro sorted_snoc) (auto simp: rowset_inv_def)
    with a assms c True show ?thesis
      by (auto simp: sqlite3RowSetInsert_def rowset_inv_def Let_def split: if_splits)
  qed
qed

text \<open>What a change of batch does to the visible and the pending rowids.\<close>

lemma Test_correct:
  assumes "rowset_inv p" and "length (pEntry p) < 2 ^ 40"
  shows "\<exists>r p' fs'. sqlite3RowSetTest p b x fs = Some (r, p', fs') \<and> rowset_inv p' \<and> iBatch p' = b
     \<and> r = (x \<in> forest_set (pForest p'))
     \<and> (if b = iBatch p then pForest p' = pForest p \<and> pEntry p' = pEntry p \<and> fs' = fs
        else pEntry p' = [] \<and> forest_set (pForest p') \<subseteq> forest_set (pForest p) \<union> set (pEntry p)
          \<and> (fs = [] \<longrightarrow> fs' = [] \<and> forest_set (pForest p') = forest_set (pForest p) \<union> set (pEntry p)))"
proof (cases "b = iBatch p")
  case True
  with assms(1) show ?thesis by (simp add: sqlite3RowSetTest_def forest_search rowset_inv_def)
next
  case False
  show ?thesis
  proof (cases "pEntry p = []")
    case True
    with False assms(1) show ?thesis by (simp add: sqlite3RowSetTest_def forest_search rowset_inv_def)
  next
    case ne: False
    obtain e where e: "(if \<not> sorted_flag p then rowSetEntrySort (pEntry p) else Some (pEntry p)) = Some e"
      "sorted_wrt (<) e" "set e = set (pEntry p)"
      using rowSetEntrySort_correct [OF assms(2)] assms(1) by (cases "sorted_flag p") (auto simp: rowset_inv_def)
    then have "e \<noteq> []" using ne by auto
    obtain ts r where fi: "forest_insert (pForest p) e = (ts, r)" by fastforce
    have f: "list_all search_tree ts" "case r of None \<Rightarrow> forest_set ts = forest_set (pForest p) \<union> set (pEntry p)
        | Some q \<Rightarrow> q \<noteq> [] \<and> sorted_wrt (<) q \<and> forest_set ts \<union> set q = forest_set (pForest p) \<union> set (pEntry p)
            \<and> forest_set ts = {}"
      using forest_insert_correct [OF _ \<open>e \<noteq> []\<close> e(2), of "pForest p"] assms(1)
      unfolding fi fst_conv snd_conv e(3) rowset_inv_def by blast+
    show ?thesis
    proof (cases r)
      case None
      with False ne e(1) fi f assms(1) show ?thesis
        by (simp add: sqlite3RowSetTest_def forest_search rowset_inv_def)
    next
      case (Some q)
      obtain ok p1 gs where a: "rowSetEntryAlloc (p \<lparr>pForest := ts\<rparr>) fs = (ok, p1, gs)" by (metis prod_cases3)
      note c = rowSetEntryAlloc_cases [OF a]
      have q: "search_tree (rowSetListToTree q)" "set (rowSetTreeToList (rowSetListToTree q)) = set q"
        using f(2) Some by (simp_all add: search_tree_def rowSetListToTree_inorder)
      show ?thesis
      proof (cases ok)
        case True
        have sq: "set q = forest_set (pForest p) \<union> set (pEntry p)" "forest_set ts = {}"
          using f(2) Some by auto
        with True False ne e(1) fi f(1) assms(1) Some a c q show ?thesis
          by (simp add: sqlite3RowSetTest_def forest_search rowset_inv_def Let_def tree_search_correct)
      next
        case fail: False
        with False ne e(1) fi f assms(1) Some a c show ?thesis
          by (auto simp: sqlite3RowSetTest_def forest_search rowset_inv_def Let_def)
      qed
    qed
  qed
qed

subsection \<open>Whole runs\<close>

fun insert_all :: "rowset \<Rightarrow> int list \<Rightarrow> bool list \<Rightarrow> rowset" where
  "insert_all p [] fs = p"
| "insert_all p (x # xs) fs = (case sqlite3RowSetInsert p x fs of (p, fs) \<Rightarrow> insert_all p xs fs)"

text \<open>Calling \<open>sqlite3RowSetNext\<close> until it returns 0.\<close>

fun drain :: "nat \<Rightarrow> rowset \<Rightarrow> int list option" where
  "drain 0 p = None"
| "drain (Suc k) p = do {
     (r, p) \<leftarrow> sqlite3RowSetNext p;
     (case r of
        None \<Rightarrow> Some []
      | Some x \<Rightarrow> do { xs \<leftarrow> drain k p; Some (x # xs) }) }"

lemma insert_all_correct:
  "rowset_inv p \<Longrightarrow> rowset_inv (insert_all p xs fs)
     \<and> set (pEntry (insert_all p xs fs)) \<subseteq> set (pEntry p) \<union> set xs
     \<and> length (pEntry (insert_all p xs fs)) \<le> length (pEntry p) + length xs
     \<and> (fs = [] \<longrightarrow> pEntry (insert_all p xs fs) = pEntry p @ xs)"
proof (induction xs arbitrary: p fs)
  case (Cons x xs)
  obtain p' fs' where i: "sqlite3RowSetInsert p x fs = (p', fs')" by fastforce
  note c = Insert_correct [OF Cons.prems i]
  then have "rowset_inv p'" by blast
  from Cons.IH [OF this, of fs'] c i show ?case by (auto 0 3)
qed simp

lemma drain_rest:
  "next_flag p \<Longrightarrow> drain (Suc (length (pEntry p))) p = Some (pEntry p)"
proof (induction "pEntry p" arbitrary: p)
  case Nil
  then show ?case by (simp add: sqlite3RowSetNext_def)
next
  case (Cons x xs)
  have e: "pEntry p = x # xs" using Cons.hyps(2) by simp
  show ?case
  proof (cases xs)
    case Nil
    with e Cons.prems show ?thesis
      by (simp add: sqlite3RowSetNext_def sqlite3RowSetClear_def)
  next
    case (Cons y ys)
    let ?q = "p \<lparr>pEntry := xs\<rparr>"
    have "drain (Suc (length (pEntry ?q))) ?q = Some (pEntry ?q)"
      using Cons.prems by (intro Cons.hyps(1)) simp_all
    moreover have "sqlite3RowSetNext p = Some (Some x, ?q)"
      using e Cons Cons.prems by (simp add: sqlite3RowSetNext_def)
    ultimately have "drain (Suc (Suc (length xs))) p = Some (x # xs)"
      by (subst drain.simps) (simp del: drain.simps)
    with e show ?thesis by simp
  qed
qed

lemma drain_correct:
  assumes "rowset_inv p" and "length (pEntry p) < 2 ^ 40"
  shows "\<exists>k ys. drain k p = Some ys \<and> k \<le> length (pEntry p) + 1 \<and> sorted_wrt (<) ys \<and> set ys = set (pEntry p)"
proof -
  obtain e where e: "(if \<not> sorted_flag p then rowSetEntrySort (pEntry p) else Some (pEntry p)) = Some e"
    "sorted_wrt (<) e" "set e = set (pEntry p)"
    using rowSetEntrySort_correct [OF assms(2)] assms(1) by (cases "sorted_flag p") (auto simp: rowset_inv_def)
  let ?q = "p \<lparr>pEntry := e, sorted_flag := True, next_flag := True\<rparr>"
  have "sqlite3RowSetNext p = sqlite3RowSetNext ?q"
    using e(1) assms(1) by (simp add: sqlite3RowSetNext_def rowset_inv_def)
  then have "drain (Suc (length e)) p = drain (Suc (length e)) ?q" by simp
  also have "\<dots> = Some e" using drain_rest [of ?q] by simp
  finally have d: "drain (Suc (length e)) p = Some e" .
  have "length e = card (set e)" using e(2) by (simp add: strict_sorted_iff distinct_card)
  also have "\<dots> \<le> length (pEntry p)" unfolding e(3) by (rule card_length)
  finally show ?thesis using d e(2,3) by (intro exI [of _ "Suc (length e)"] exI [of _ e]) simp
qed

text \<open>
  The client's view: a set that tests see, the rowids inserted since the last change of
  batch, and the batch.
\<close>

datatype rs_op = RInsert int | RTest int int

fun spec_run :: "int set \<Rightarrow> int set \<Rightarrow> int \<Rightarrow> rs_op list \<Rightarrow> bool list" where
  "spec_run vis pend b [] = []"
| "spec_run vis pend b (RInsert x # ops) = spec_run vis (insert x pend) b ops"
| "spec_run vis pend b (RTest b' x # ops) =
     (let vis' = (if b' \<noteq> b then vis \<union> pend else vis); pend' = (if b' \<noteq> b then {} else pend)
      in (x \<in> vis') # spec_run vis' pend' b' ops)"

fun run :: "rowset \<Rightarrow> bool list \<Rightarrow> rs_op list \<Rightarrow> bool list option" where
  "run p fs [] = Some []"
| "run p fs (RInsert x # ops) = (case sqlite3RowSetInsert p x fs of (p, fs) \<Rightarrow> run p fs ops)"
| "run p fs (RTest b x # ops) = do {
     (r, p, fs) \<leftarrow> sqlite3RowSetTest p b x fs;
     rs \<leftarrow> run p fs ops;
     Some (r # rs) }"

lemma run_correct:
  assumes "rowset_inv p" and "length (pEntry p) + length ops < 2 ^ 40" and "iBatch p = b"
    and "forest_set (pForest p) \<subseteq> vis" and "set (pEntry p) \<subseteq> pend"
    and "fs = [] \<and> ex \<longrightarrow> forest_set (pForest p) = vis \<and> set (pEntry p) = pend"
  shows "\<exists>rs. run p fs ops = Some rs \<and> list_all2 (\<longrightarrow>) rs (spec_run vis pend b ops)
     \<and> (fs = [] \<and> ex \<longrightarrow> rs = spec_run vis pend b ops)"
  using assms
proof (induction ops arbitrary: p fs vis pend b ex)
  case Nil
  then show ?case by simp
next
  case (Cons op ops)
  show ?case
  proof (cases op)
    case (RInsert x)
    obtain p' fs' where i: "sqlite3RowSetInsert p x fs = (p', fs')" by fastforce
    note c = Insert_correct [OF Cons.prems(1) i]
    have "\<exists>rs. run p' fs' ops = Some rs \<and> list_all2 (\<longrightarrow>) rs (spec_run vis (insert x pend) b ops)
     \<and> (fs' = [] \<and> (ex \<and> fs = []) \<longrightarrow> rs = spec_run vis (insert x pend) b ops)"
      using c Cons.prems by (intro Cons.IH) auto
    then show ?thesis using c i RInsert by auto
  next
    case (RTest b' x)
    have "length (pEntry p) < 2 ^ 40" using Cons.prems(2) by simp
    from Test_correct [OF Cons.prems(1) this, of b' x fs] Cons.prems(3) obtain r p' fs' where
      t: "sqlite3RowSetTest p b' x fs = Some (r, p', fs')" "rowset_inv p'" "iBatch p' = b'"
        "r = (x \<in> forest_set (pForest p'))"
        "if b' = b then pForest p' = pForest p \<and> pEntry p' = pEntry p \<and> fs' = fs
        else pEntry p' = [] \<and> forest_set (pForest p') \<subseteq> forest_set (pForest p) \<union> set (pEntry p)
          \<and> (fs = [] \<longrightarrow> fs' = [] \<and> forest_set (pForest p') = forest_set (pForest p) \<union> set (pEntry p))"
      by blast
    let ?v = "if b' \<noteq> b then vis \<union> pend else vis" and ?q = "if b' \<noteq> b then {} else pend"
    have v: "forest_set (pForest p') \<subseteq> ?v" "set (pEntry p') \<subseteq> ?q" "length (pEntry p') \<le> length (pEntry p)"
      "fs = [] \<and> ex \<longrightarrow> forest_set (pForest p') = ?v \<and> set (pEntry p') = ?q \<and> fs' = []"
      using t(5) Cons.prems(4-6) by (auto split: if_splits)
    have "\<exists>rs. run p' fs' ops = Some rs \<and> list_all2 (\<longrightarrow>) rs (spec_run ?v ?q b' ops)
     \<and> (fs' = [] \<and> (ex \<and> fs = []) \<longrightarrow> rs = spec_run ?v ?q b' ops)"
      using t(2,3) v Cons.prems(2) by (intro Cons.IH) auto
    then obtain rs where rs: "run p' fs' ops = Some rs" "list_all2 (\<longrightarrow>) rs (spec_run ?v ?q b' ops)"
      "fs' = [] \<and> (ex \<and> fs = []) \<longrightarrow> rs = spec_run ?v ?q b' ops" by blast
    have s: "spec_run vis pend b (RTest b' x # ops) = (x \<in> ?v) # spec_run ?v ?q b' ops" by (simp add: Let_def)
    have r: "run p fs (RTest b' x # ops) = Some (r # rs)" using t(1) rs(1) by simp
    have "list_all2 (\<longrightarrow>) (r # rs) ((x \<in> ?v) # spec_run ?v ?q b' ops)" using rs(2) t(4) v(1) by auto
    moreover have "fs = [] \<and> ex \<longrightarrow> r # rs = (x \<in> ?v) # spec_run ?v ?q b' ops" using rs(3) t(4) v(4) by auto
    ultimately show ?thesis unfolding RTest s r by blast
  qed
qed

lemma init_inv: "rowset_inv (sqlite3RowSetInit k)"
  by (simp add: rowset_inv_def sqlite3RowSetInit_def)

subsection \<open>Properties\<close>

text \<open>
  C21. Draining a row set: after any insertions, of which some may fail for lack of memory,
  \<open>sqlite3RowSetNext\<close> returns the inserted rowids in strictly increasing order, each once,
  and then 0 (after at most one call more than there were insertions).
\<close>

theorem rowset_drain_sorted:
  assumes "length xs < 2 ^ 40"
  shows "\<exists>k ys. drain k (insert_all (sqlite3RowSetInit m) xs fs) = Some ys \<and> k \<le> length xs + 1
     \<and> sorted_wrt (<) ys \<and> set ys \<subseteq> set xs \<and> (fs = [] \<longrightarrow> set ys = set xs)"
proof -
  let ?p = "insert_all (sqlite3RowSetInit m) xs fs"
  have e0: "pEntry (sqlite3RowSetInit m) = []" by (simp add: sqlite3RowSetInit_def)
  note c = insert_all_correct [OF init_inv, of m xs fs, unfolded e0]
  have len: "length (pEntry ?p) \<le> length xs" using c by simp
  with assms have "length (pEntry ?p) < 2 ^ 40" by linarith
  from drain_correct [OF _ this] c obtain k ys where
    "drain k ?p = Some ys" "k \<le> length (pEntry ?p) + 1" "sorted_wrt (<) ys" "set ys = set (pEntry ?p)" by blast
  with c len show ?thesis by (intro exI [of _ k] exI [of _ ys]) auto
qed

theorem rowset_drain_sorted_witness:
  "\<exists>k ys. drain k (insert_all (sqlite3RowSetInit 0) [5, 3, 5, -1] []) = Some ys \<and> sorted_wrt (<) ys
     \<and> set ys = {-1, 3, 5}"
proof -
  have h: "length [5, 3, 5, -1 :: int] < 2 ^ 40" by simp
  from rowset_drain_sorted [OF h, of 0 "[]"] show ?thesis by auto
qed

text \<open>
  C20. Testing a row set: for every sequence of insertions and tests, each test returns, and
  returns true only if the rowid was inserted before the last change of the batch number;
  when no allocation fails, exactly then. Sorting, merging of trees and rebalancing in the
  forest are invisible.
\<close>

theorem rowset_test_refines:
  assumes "length ops < 2 ^ 40"
  shows "\<exists>rs. run (sqlite3RowSetInit m) fs ops = Some rs
     \<and> list_all2 (\<longrightarrow>) rs (spec_run {} {} 0 ops) \<and> (fs = [] \<longrightarrow> rs = spec_run {} {} 0 ops)"
  using run_correct [OF init_inv, of m ops 0 "{}" "{}" fs True] assms
  by (simp add: sqlite3RowSetInit_def)

theorem rowset_test_refines_witness:
  "run (sqlite3RowSetInit 0) [] [RInsert 7, RInsert 7, RTest 1 7, RInsert 8, RTest 1 8, RTest 2 8]
     = Some [True, False, True]"
proof -
  let ?ops = "[RInsert 7, RInsert 7, RTest 1 7, RInsert 8, RTest 1 8, RTest 2 8]"
  have h: "length ?ops < 2 ^ 40" by simp
  from rowset_test_refines [OF h, of 0 "[]"] show ?thesis by simp
qed

end
