(* ===== verification/Pcache.thy ===== *)
theory Pcache
  imports Merge_Sort "HOL-Library.Multiset"
begin

text \<open>
  The page cache's bookkeeping (\<open>pcache.c\<close>): reference counts, the dirty/clean state of
  pages and the doubly linked list of dirty pages in LRU order. Page headers live in a store
  addressed by numbers, and the links are those of the C structures, so that the list
  surgery is modelled pointer by pointer. The pluggable cache below (\<open>pcache2\<close>) is called
  through function pointers: its answers are parameters, and the calls that change its state
  are recorded in order. An address without a page yet reads as a clean, unreferenced page.
  The loops that follow links take fuel and are \<open>None\<close> without enough of it.
\<close>

unbundle bit_operations_syntax

subsection \<open>State\<close>

definition PGHDR_CLEAN :: u16 where "PGHDR_CLEAN = 0x001"
definition PGHDR_DIRTY :: u16 where "PGHDR_DIRTY = 0x002"
definition PGHDR_WRITEABLE :: u16 where "PGHDR_WRITEABLE = 0x004"
definition PGHDR_NEED_SYNC :: u16 where "PGHDR_NEED_SYNC = 0x008"
definition PGHDR_DONT_WRITE :: u16 where "PGHDR_DONT_WRITE = 0x010"

lemmas pghdr_flags = PGHDR_CLEAN_def PGHDR_DIRTY_def PGHDR_WRITEABLE_def PGHDR_NEED_SYNC_def PGHDR_DONT_WRITE_def

text \<open>\<open>pPager\<close> is whether the pointer to the pager is set.\<close>

record pghdr =
  pPager :: bool
  pgno :: nat
  flags :: u16
  nRef :: int
  pDirtyNext :: "nat option"
  pDirtyPrev :: "nat option"

datatype backend_call =
  XUnpin nat bool | XTruncate nat | XRekey nat nat nat | XCachesize int | ZeroPage1

record pcache =
  pDirty :: "nat option"
  pDirtyTail :: "nat option"
  pSynced :: "nat option"
  nRefSum :: int
  szCache :: int
  szSpill :: int
  szPage :: int
  szExtra :: int
  bPurgeable :: bool
  eCreate :: nat
  hdr :: "nat \<Rightarrow> pghdr"
  calls :: "backend_call list"

definition has :: "pghdr \<Rightarrow> u16 \<Rightarrow> bool" where
  "has h f \<longleftrightarrow> flags h AND f \<noteq> 0"

definition upd :: "nat \<Rightarrow> (pghdr \<Rightarrow> pghdr) \<Rightarrow> pcache \<Rightarrow> pcache" where
  "upd x f p = p \<lparr>hdr := (hdr p)(x := f (hdr p x))\<rparr>"

definition call :: "backend_call \<Rightarrow> pcache \<Rightarrow> pcache" where
  "call c p = p \<lparr>calls := calls p @ [c]\<rparr>"

subsection \<open>The dirty list\<close>

definition PCACHE_DIRTYLIST_REMOVE :: u8 where "PCACHE_DIRTYLIST_REMOVE = 1"
definition PCACHE_DIRTYLIST_ADD :: u8 where "PCACHE_DIRTYLIST_ADD = 2"
definition PCACHE_DIRTYLIST_FRONT :: u8 where "PCACHE_DIRTYLIST_FRONT = 3"

text \<open>The three steps of the removal, and of the addition at the front.\<close>

definition remove_synced :: "nat \<Rightarrow> pcache \<Rightarrow> pcache" where
  "remove_synced pPage p =
     (if pSynced p = Some pPage then p \<lparr>pSynced := pDirtyPrev (hdr p pPage)\<rparr> else p)"

definition remove_next :: "nat \<Rightarrow> pcache \<Rightarrow> pcache" where
  "remove_next pPage p =
     (case pDirtyNext (hdr p pPage) of
        Some y \<Rightarrow> upd y (\<lambda>h. h \<lparr>pDirtyPrev := pDirtyPrev (hdr p pPage)\<rparr>) p
      | None \<Rightarrow> p \<lparr>pDirtyTail := pDirtyPrev (hdr p pPage)\<rparr>)"

definition remove_prev :: "nat \<Rightarrow> pcache \<Rightarrow> pcache" where
  "remove_prev pPage p =
     (case pDirtyPrev (hdr p pPage) of
        Some y \<Rightarrow> upd y (\<lambda>h. h \<lparr>pDirtyNext := pDirtyNext (hdr p pPage)\<rparr>) p
      | None \<Rightarrow>
          let p = p \<lparr>pDirty := pDirtyNext (hdr p pPage)\<rparr>
          in if pDirty p = None then p \<lparr>eCreate := 2\<rparr> else p)"

definition dirtylist_remove :: "nat \<Rightarrow> pcache \<Rightarrow> pcache" where
  "dirtylist_remove pPage p = remove_prev pPage (remove_next pPage (remove_synced pPage p))"

definition add_link :: "nat \<Rightarrow> pcache \<Rightarrow> pcache" where
  "add_link pPage p = upd pPage (\<lambda>h. h \<lparr>pDirtyPrev := None, pDirtyNext := pDirty p\<rparr>) p"

definition add_next :: "nat \<Rightarrow> pcache \<Rightarrow> pcache" where
  "add_next pPage p =
     (case pDirtyNext (hdr p pPage) of
        Some y \<Rightarrow> upd y (\<lambda>h. h \<lparr>pDirtyPrev := Some pPage\<rparr>) p
      | None \<Rightarrow>
          let p = p \<lparr>pDirtyTail := Some pPage\<rparr>
          in if bPurgeable p then p \<lparr>eCreate := 1\<rparr> else p)"

definition add_synced :: "nat \<Rightarrow> pcache \<Rightarrow> pcache" where
  "add_synced pPage p =
     (let p = p \<lparr>pDirty := Some pPage\<rparr>
      in if pSynced p = None \<and> \<not> has (hdr p pPage) PGHDR_NEED_SYNC
         then p \<lparr>pSynced := Some pPage\<rparr> else p)"

definition dirtylist_add :: "nat \<Rightarrow> pcache \<Rightarrow> pcache" where
  "dirtylist_add pPage p = add_synced pPage (add_next pPage (add_link pPage p))"

definition pcacheManageDirtyList :: "nat \<Rightarrow> u8 \<Rightarrow> pcache \<Rightarrow> pcache" where
  "pcacheManageDirtyList pPage addRemove p =
     (let p = (if addRemove AND PCACHE_DIRTYLIST_REMOVE \<noteq> 0 then dirtylist_remove pPage p else p)
      in if addRemove AND PCACHE_DIRTYLIST_ADD \<noteq> 0 then dirtylist_add pPage p else p)"

definition pcacheUnpin :: "nat \<Rightarrow> pcache \<Rightarrow> pcache" where
  "pcacheUnpin x p = (if bPurgeable p then call (XUnpin x False) p else p)"

subsection \<open>References and states\<close>

text \<open>C integer division truncates; both operands are positive when it is used.\<close>

definition numberOfCachePages :: "pcache \<Rightarrow> int" where
  "numberOfCachePages p =
     (if szCache p \<ge> 0 then szCache p
      else
        let n = (-1024 * szCache p) div (szPage p + szExtra p)
        in if n > 1000000000 then 1000000000 else n)"

definition sqlite3PcacheFetch_eCreate :: "nat \<Rightarrow> pcache \<Rightarrow> nat" where
  "sqlite3PcacheFetch_eCreate createFlag p = and createFlag (eCreate p)"

definition pcacheFetchFinishWithInit :: "nat \<Rightarrow> nat \<Rightarrow> pcache \<Rightarrow> pcache" where
  "pcacheFetchFinishWithInit x n p =
     (let p = p \<lparr>hdr := (hdr p)(x := \<lparr>pPager = False, pgno = n, flags = PGHDR_CLEAN, nRef = 0, pDirtyNext = None, pDirtyPrev = None\<rparr>)\<rparr>
      in upd x (\<lambda>h. h \<lparr>nRef := nRef h + 1\<rparr>) (p \<lparr>nRefSum := nRefSum p + 1\<rparr>))"

text \<open>\<open>initialized\<close>: whether the header's \<open>pPage\<close> field is set.\<close>

definition sqlite3PcacheFetchFinish :: "bool \<Rightarrow> nat \<Rightarrow> nat \<Rightarrow> pcache \<Rightarrow> pcache" where
  "sqlite3PcacheFetchFinish initialized x n p =
     (if \<not> initialized then pcacheFetchFinishWithInit x n p
      else upd x (\<lambda>h. h \<lparr>nRef := nRef h + 1\<rparr>) (p \<lparr>nRefSum := nRefSum p + 1\<rparr>))"

definition sqlite3PcacheRelease :: "nat \<Rightarrow> pcache \<Rightarrow> pcache" where
  "sqlite3PcacheRelease x p =
     (let p = p \<lparr>nRefSum := nRefSum p - 1\<rparr>;
          p = upd x (\<lambda>h. h \<lparr>nRef := nRef h - 1\<rparr>) p
      in if nRef (hdr p x) = 0 then
           if has (hdr p x) PGHDR_CLEAN then pcacheUnpin x p
           else pcacheManageDirtyList x PCACHE_DIRTYLIST_FRONT p
         else p)"

definition sqlite3PcacheRef :: "nat \<Rightarrow> pcache \<Rightarrow> pcache" where
  "sqlite3PcacheRef x p =
     (let p = upd x (\<lambda>h. h \<lparr>nRef := nRef h + 1\<rparr>) p in p \<lparr>nRefSum := nRefSum p + 1\<rparr>)"

text \<open>After the drop the address holds no page, which reads as a clean, unreferenced one.\<close>

definition sqlite3PcacheDrop :: "nat \<Rightarrow> pcache \<Rightarrow> pcache" where
  "sqlite3PcacheDrop x p =
     (let p = (if has (hdr p x) PGHDR_DIRTY then pcacheManageDirtyList x PCACHE_DIRTYLIST_REMOVE p else p);
          p = p \<lparr>nRefSum := nRefSum p - 1\<rparr>;
          p = call (XUnpin x True) p
      in upd x (\<lambda>h. h \<lparr>flags := PGHDR_CLEAN, nRef := 0\<rparr>) p)"

definition sqlite3PcacheMakeDirty :: "nat \<Rightarrow> pcache \<Rightarrow> pcache" where
  "sqlite3PcacheMakeDirty x p =
     (if has (hdr p x) (PGHDR_CLEAN OR PGHDR_DONT_WRITE) then
        let p = upd x (\<lambda>h. h \<lparr>flags := flags h AND NOT PGHDR_DONT_WRITE\<rparr>) p
        in if has (hdr p x) PGHDR_CLEAN then
             let p = upd x (\<lambda>h. h \<lparr>flags := flags h XOR (PGHDR_DIRTY OR PGHDR_CLEAN)\<rparr>) p
             in pcacheManageDirtyList x PCACHE_DIRTYLIST_ADD p
           else p
      else p)"

definition sqlite3PcacheMakeClean :: "nat \<Rightarrow> pcache \<Rightarrow> pcache" where
  "sqlite3PcacheMakeClean x p =
     (let p = pcacheManageDirtyList x PCACHE_DIRTYLIST_REMOVE p;
          p = upd x (\<lambda>h. h \<lparr>flags := flags h AND NOT (PGHDR_DIRTY OR PGHDR_NEED_SYNC OR PGHDR_WRITEABLE)\<rparr>) p;
          p = upd x (\<lambda>h. h \<lparr>flags := flags h OR PGHDR_CLEAN\<rparr>) p
      in if nRef (hdr p x) = 0 then pcacheUnpin x p else p)"

text \<open>Opening, when the pluggable cache can be created.\<close>

definition sqlite3PcacheSetPageSize :: "bool \<Rightarrow> int \<Rightarrow> pcache \<Rightarrow> bool \<times> pcache" where
  "sqlite3PcacheSetPageSize xCreate_ok sz p =
     (if szPage p \<noteq> 0 then
        if \<not> xCreate_ok then (False, p)
        else (True, (call (XCachesize (numberOfCachePages p)) p) \<lparr>szPage := sz\<rparr>)
      else (True, p))"

definition sqlite3PcacheOpen :: "bool \<Rightarrow> int \<Rightarrow> int \<Rightarrow> bool \<Rightarrow> bool \<times> pcache" where
  "sqlite3PcacheOpen xCreate_ok sz ext purgeable =
     sqlite3PcacheSetPageSize xCreate_ok sz
       \<lparr>pDirty = None, pDirtyTail = None, pSynced = None, nRefSum = 0, szCache = 100, szSpill = 1,
        szPage = 1, szExtra = ext, bPurgeable = purgeable, eCreate = 2,
        hdr = (\<lambda>_. \<lparr>pPager = False, pgno = 0, flags = PGHDR_CLEAN, nRef = 0, pDirtyNext = None, pDirtyPrev = None\<rparr>),
        calls = []\<rparr>"

subsection \<open>Loops over the dirty list\<close>

fun sqlite3PcacheCleanAll :: "nat \<Rightarrow> pcache \<Rightarrow> pcache option" where
  "sqlite3PcacheCleanAll 0 p = None"
| "sqlite3PcacheCleanAll (Suc k) p =
     (case pDirty p of
        None \<Rightarrow> Some p
      | Some x \<Rightarrow> sqlite3PcacheCleanAll k (sqlite3PcacheMakeClean x p))"

fun clear_flags_loop :: "nat \<Rightarrow> u16 \<Rightarrow> nat option \<Rightarrow> pcache \<Rightarrow> pcache option" where
  "clear_flags_loop 0 f x p = None"
| "clear_flags_loop (Suc k) f None p = Some p"
| "clear_flags_loop (Suc k) f (Some x) p =
     (let p = upd x (\<lambda>h. h \<lparr>flags := flags h AND NOT f\<rparr>) p
      in clear_flags_loop k f (pDirtyNext (hdr p x)) p)"

definition sqlite3PcacheClearWritable :: "nat \<Rightarrow> pcache \<Rightarrow> pcache option" where
  "sqlite3PcacheClearWritable k p = do {
     p \<leftarrow> clear_flags_loop k (PGHDR_NEED_SYNC OR PGHDR_WRITEABLE) (pDirty p) p;
     Some (p \<lparr>pSynced := pDirtyTail p\<rparr>) }"

definition sqlite3PcacheClearSyncFlags :: "nat \<Rightarrow> pcache \<Rightarrow> pcache option" where
  "sqlite3PcacheClearSyncFlags k p = do {
     p \<leftarrow> clear_flags_loop k PGHDR_NEED_SYNC (pDirty p) p;
     Some (p \<lparr>pSynced := pDirtyTail p\<rparr>) }"

text \<open>\<open>pOther\<close>: the page that the pluggable cache holds under the new number, if any.\<close>

definition sqlite3PcacheMove :: "nat \<Rightarrow> nat \<Rightarrow> nat option \<Rightarrow> pcache \<Rightarrow> pcache" where
  "sqlite3PcacheMove x newPgno pOther p =
     (let p = (case pOther of
                 Some y \<Rightarrow>
                   sqlite3PcacheDrop y
                     ((upd y (\<lambda>h. h \<lparr>nRef := nRef h + 1\<rparr>) p) \<lparr>nRefSum := nRefSum p + 1\<rparr>)
               | None \<Rightarrow> p);
          p = call (XRekey x (pgno (hdr p x)) newPgno) p;
          p = upd x (\<lambda>h. h \<lparr>pgno := newPgno\<rparr>) p
      in if has (hdr p x) PGHDR_DIRTY \<and> has (hdr p x) PGHDR_NEED_SYNC
         then pcacheManageDirtyList x PCACHE_DIRTYLIST_FRONT p else p)"

fun truncate_loop :: "nat \<Rightarrow> nat \<Rightarrow> nat option \<Rightarrow> pcache \<Rightarrow> pcache option" where
  "truncate_loop 0 n x p = None"
| "truncate_loop (Suc k) n None p = Some p"
| "truncate_loop (Suc k) n (Some x) p =
     (let pNext = pDirtyNext (hdr p x);
          p = (if pgno (hdr p x) > n then sqlite3PcacheMakeClean x p else p)
      in truncate_loop k n pNext p)"

definition sqlite3PcacheTruncate :: "nat \<Rightarrow> nat \<Rightarrow> pcache \<Rightarrow> pcache option" where
  "sqlite3PcacheTruncate k n p = do {
     p \<leftarrow> truncate_loop k n (pDirty p) p;
     Some (if n = 0 \<and> nRefSum p \<noteq> 0 then call (XTruncate (1 + 1)) (call ZeroPage1 p)
           else call (XTruncate (n + 1)) p) }"

definition sqlite3PcacheClear :: "nat \<Rightarrow> pcache \<Rightarrow> pcache option" where
  "sqlite3PcacheClear k p = sqlite3PcacheTruncate k 0 p"

subsection \<open>Spilling\<close>


fun search_back :: "nat \<Rightarrow> (nat \<Rightarrow> pghdr) \<Rightarrow> (pghdr \<Rightarrow> bool) \<Rightarrow> nat option \<Rightarrow> nat option option" where
  "search_back 0 h skip x = None"
| "search_back (Suc k) h skip None = Some None"
| "search_back (Suc k) h skip (Some x) =
     (if skip (h x) then search_back k h skip (pDirtyPrev (h x)) else Some (Some x))"

text \<open>The choice of the page to write out: the new value of \<open>pSynced\<close> and the page.\<close>

definition spill_victim :: "nat \<Rightarrow> pcache \<Rightarrow> (pcache \<times> nat option) option" where
  "spill_victim k p = do {
     x \<leftarrow> search_back k (hdr p) (\<lambda>h. nRef h \<noteq> 0 \<or> has h PGHDR_NEED_SYNC) (pSynced p);
     let p = p \<lparr>pSynced := x\<rparr>;
     x \<leftarrow> (case x of
             None \<Rightarrow> search_back k (hdr p) (\<lambda>h. nRef h \<noteq> 0) (pDirtyTail p)
           | Some x \<Rightarrow> Some (Some x));
     Some (p, x) }"

definition sqlite3PcacheFetchStress ::
  "nat \<Rightarrow> (pcache \<Rightarrow> int) \<Rightarrow> (nat \<Rightarrow> pcache \<Rightarrow> nat \<times> pcache) \<Rightarrow> (nat \<Rightarrow> pcache \<Rightarrow> nat option) \<Rightarrow>
   nat \<Rightarrow> pcache \<Rightarrow> (nat \<times> nat option \<times> pcache) option" where
  "sqlite3PcacheFetchStress k xPagecount xStress xFetch n p =
     (if eCreate p = 2 then Some (SQLITE_OK, None, p)
      else do {
        (rc, p) \<leftarrow>
          (if xPagecount p > szSpill p then do {
             (p, x) \<leftarrow> spill_victim k p;
             (case x of
                None \<Rightarrow> Some (SQLITE_OK, p)
              | Some x \<Rightarrow> Some (xStress x p)) }
           else Some (SQLITE_OK, p));
        if rc \<noteq> SQLITE_OK \<and> rc \<noteq> SQLITE_BUSY then Some (rc, None, p)
        else
          let page = xFetch n p
          in Some (if page = None then SQLITE_NOMEM else SQLITE_OK, page, p) })"

subsection \<open>The sorted list of dirty pages\<close>

fun pcacheMergeDirtyList :: "(nat \<Rightarrow> nat) \<Rightarrow> nat list \<Rightarrow> nat list \<Rightarrow> nat list" where
  "pcacheMergeDirtyList pg [] q = q"
| "pcacheMergeDirtyList pg p [] = p"
| "pcacheMergeDirtyList pg (a # p) (b # q) =
     (if pg a < pg b then a # pcacheMergeDirtyList pg p (b # q)
      else b # pcacheMergeDirtyList pg (a # p) q)"

definition N_SORT_BUCKET :: nat where "N_SORT_BUCKET = 32"

text \<open>The last bucket collects the overflow; merging into it while it is empty would
  dereference a null pointer.\<close>

fun pcache_bucket_add :: "(nat list \<Rightarrow> nat list \<Rightarrow> nat list) \<Rightarrow> nat list list \<Rightarrow> nat list \<Rightarrow> nat list list option" where
  "pcache_bucket_add merge [] p = None"
| "pcache_bucket_add merge [b] p = (if b = [] then None else Some [merge b p])"
| "pcache_bucket_add merge (b # c # bs) p =
     (if b = [] then Some (p # c # bs)
      else do { bs \<leftarrow> pcache_bucket_add merge (c # bs) (merge b p); Some ([] # bs) })"

fun pcache_sort_loop :: "(nat list \<Rightarrow> nat list \<Rightarrow> nat list) \<Rightarrow> nat list \<Rightarrow> nat list list \<Rightarrow> nat list option" where
  "pcache_sort_loop merge [] bs = Some (bucket_collect merge (hd bs) (tl bs))"
| "pcache_sort_loop merge (x # xs) bs = do {
     bs \<leftarrow> pcache_bucket_add merge bs [x];
     pcache_sort_loop merge xs bs }"

definition pcacheSortDirtyList :: "(nat \<Rightarrow> nat) \<Rightarrow> nat list \<Rightarrow> nat list option" where
  "pcacheSortDirtyList pg pIn = pcache_sort_loop (pcacheMergeDirtyList pg) pIn (replicate N_SORT_BUCKET [])"

fun dirty_walk :: "nat \<Rightarrow> (nat \<Rightarrow> pghdr) \<Rightarrow> nat option \<Rightarrow> nat list option" where
  "dirty_walk 0 h x = None"
| "dirty_walk (Suc k) h None = Some []"
| "dirty_walk (Suc k) h (Some x) = do { xs \<leftarrow> dirty_walk k h (pDirtyNext (h x)); Some (x # xs) }"

definition sqlite3PcacheDirtyList :: "nat \<Rightarrow> pcache \<Rightarrow> nat list option" where
  "sqlite3PcacheDirtyList k p = do {
     xs \<leftarrow> dirty_walk k (hdr p) (pDirty p);
     pcacheSortDirtyList (\<lambda>x. pgno (hdr p x)) xs }"

subsection \<open>The sanity check of the debug build\<close>

text \<open>
  All its assertions but those that \<open>pPg\<close> and \<open>pPg->pCache\<close> are not null: headers are given by their addresses, and
  there is one cache, to which all of them belong.
\<close>

definition pageOnDirtyList :: "nat \<Rightarrow> pcache \<Rightarrow> nat \<Rightarrow> bool option" where
  "pageOnDirtyList k p x = map_option (\<lambda>L. x \<in> set L) (dirty_walk k (hdr p) (pDirty p))"

definition pageNotOnDirtyList :: "nat \<Rightarrow> pcache \<Rightarrow> nat \<Rightarrow> bool option" where
  "pageNotOnDirtyList k p x = map_option (\<lambda>L. x \<notin> set L) (dirty_walk k (hdr p) (pDirty p))"

definition sqlite3PcachePageSanity :: "nat \<Rightarrow> pcache \<Rightarrow> nat \<Rightarrow> bool" where
  "sqlite3PcachePageSanity k p x \<longleftrightarrow>
     (pgno (hdr p x) > 0 \<or> \<not> pPager (hdr p x))
     \<and> (if has (hdr p x) PGHDR_CLEAN then
        \<not> has (hdr p x) PGHDR_DIRTY \<and> pageNotOnDirtyList k p x = Some True
      else has (hdr p x) PGHDR_DIRTY
        \<and> (case pDirtyNext (hdr p x) of None \<Rightarrow> True | Some y \<Rightarrow> pDirtyPrev (hdr p y) = Some x)
        \<and> (case pDirtyPrev (hdr p x) of None \<Rightarrow> True | Some y \<Rightarrow> pDirtyNext (hdr p y) = Some x)
        \<and> (pDirtyPrev (hdr p x) \<noteq> None \<or> pDirty p = Some x)
        \<and> pageOnDirtyList k p x = Some True)
     \<and> (has (hdr p x) PGHDR_WRITEABLE \<longrightarrow> has (hdr p x) PGHDR_DIRTY)"

subsection \<open>Sizes\<close>

definition sqlite3PcacheRefCount :: "pcache \<Rightarrow> int" where
  "sqlite3PcacheRefCount p = nRefSum p"

definition sqlite3PcachePageRefcount :: "nat \<Rightarrow> pcache \<Rightarrow> int" where
  "sqlite3PcachePageRefcount x p = nRef (hdr p x)"

definition sqlite3PcacheSetCachesize :: "int \<Rightarrow> pcache \<Rightarrow> pcache" where
  "sqlite3PcacheSetCachesize mxPage p =
     (let p = p \<lparr>szCache := mxPage\<rparr> in call (XCachesize (numberOfCachePages p)) p)"

text \<open>The conversion of a 64-bit value to \<open>int\<close>.\<close>

definition int_cast :: "int \<Rightarrow> int" where
  "int_cast i = (i + 2 ^ 31) mod 2 ^ 32 - 2 ^ 31"

definition sqlite3PcacheSetSpillsize :: "int \<Rightarrow> pcache \<Rightarrow> int \<times> pcache" where
  "sqlite3PcacheSetSpillsize mxPage p =
     (let p = (if mxPage \<noteq> 0 then
                 p \<lparr>szSpill := (if mxPage < 0 then int_cast ((-1024 * mxPage) div (szPage p + szExtra p)) else mxPage)\<rparr>
               else p);
          res = numberOfCachePages p
      in (if res < szSpill p then szSpill p else res, p))"

definition sqlite3PCachePercentDirty :: "nat \<Rightarrow> pcache \<Rightarrow> int option" where
  "sqlite3PCachePercentDirty k p = do {
     xs \<leftarrow> dirty_walk k (hdr p) (pDirty p);
     let nCache = numberOfCachePages p;
     Some (if nCache \<noteq> 0 then (int (length xs) * 100) div nCache else 0) }"

subsection \<open>Flags as bits\<close>

lemma flag_bits:
  "bit PGHDR_CLEAN k \<longleftrightarrow> k = 0" "bit PGHDR_DIRTY k \<longleftrightarrow> k = 1" "bit PGHDR_WRITEABLE k \<longleftrightarrow> k = 2"
  "bit PGHDR_NEED_SYNC k \<longleftrightarrow> k = 3" "bit PGHDR_DONT_WRITE k \<longleftrightarrow> k = 4"
proof -
  have e: "bit (2 ^ m :: u16) k \<longleftrightarrow> k = m" if "m < 16" for m
    using that by (auto simp only: bit_exp_iff possible_bit_word) simp
  have c: "PGHDR_CLEAN = 2 ^ 0" "PGHDR_DIRTY = 2 ^ 1" "PGHDR_WRITEABLE = 2 ^ 2" "PGHDR_NEED_SYNC = 2 ^ 3"
    "PGHDR_DONT_WRITE = 2 ^ 4" by (simp_all add: pghdr_flags)
  show "bit PGHDR_CLEAN k \<longleftrightarrow> k = 0" "bit PGHDR_DIRTY k \<longleftrightarrow> k = 1" "bit PGHDR_WRITEABLE k \<longleftrightarrow> k = 2"
    "bit PGHDR_NEED_SYNC k \<longleftrightarrow> k = 3" "bit PGHDR_DONT_WRITE k \<longleftrightarrow> k = 4"
    unfolding c by (rule e, simp)+
qed

lemma has_bits:
  "has h PGHDR_CLEAN \<longleftrightarrow> bit (flags h) 0" "has h PGHDR_DIRTY \<longleftrightarrow> bit (flags h) 1"
  "has h PGHDR_WRITEABLE \<longleftrightarrow> bit (flags h) 2" "has h PGHDR_NEED_SYNC \<longleftrightarrow> bit (flags h) 3"
  "has h PGHDR_DONT_WRITE \<longleftrightarrow> bit (flags h) 4"
  "has h (PGHDR_CLEAN OR PGHDR_DONT_WRITE) \<longleftrightarrow> bit (flags h) 0 \<or> bit (flags h) 4"
proof -
  have b: "v AND 2 ^ k \<noteq> 0 \<longleftrightarrow> bit v k" for v :: u16 and k
    using and_exp_eq_0_iff_not_bit [of v k] by simp
  show c: "has h PGHDR_CLEAN \<longleftrightarrow> bit (flags h) 0" "has h PGHDR_DIRTY \<longleftrightarrow> bit (flags h) 1"
    "has h PGHDR_WRITEABLE \<longleftrightarrow> bit (flags h) 2" "has h PGHDR_NEED_SYNC \<longleftrightarrow> bit (flags h) 3"
    "has h PGHDR_DONT_WRITE \<longleftrightarrow> bit (flags h) 4"
    using b [of "flags h" 0] b [of "flags h" 1] b [of "flags h" 2] b [of "flags h" 3] b [of "flags h" 4]
    by (simp_all add: has_def pghdr_flags)
  show "has h (PGHDR_CLEAN OR PGHDR_DONT_WRITE) \<longleftrightarrow> bit (flags h) 0 \<or> bit (flags h) 4"
    using c(1,5) by (simp add: has_def bit.conj_disj_distrib or_eq_0_iff)
qed

subsection \<open>Doubly linked segments\<close>

fun dseg :: "(nat \<Rightarrow> pghdr) \<Rightarrow> nat option \<Rightarrow> nat list \<Rightarrow> nat option \<Rightarrow> bool" where
  "dseg h pr [] nx \<longleftrightarrow> True"
| "dseg h pr (x # xs) nx \<longleftrightarrow> pDirtyPrev (h x) = pr
     \<and> pDirtyNext (h x) = (if xs = [] then nx else Some (hd xs)) \<and> dseg h (Some x) xs nx"

lemma dseg_append:
  "dseg h pr (xs @ ys) nx \<longleftrightarrow> dseg h pr xs (if ys = [] then nx else Some (hd ys))
     \<and> dseg h (if xs = [] then pr else Some (last xs)) ys nx"
  by (induction xs arbitrary: pr) (auto simp: hd_append)

lemma dseg_cong:
  "(\<And>x. x \<in> set xs \<Longrightarrow> pDirtyPrev (h' x) = pDirtyPrev (h x) \<and> pDirtyNext (h' x) = pDirtyNext (h x)) \<Longrightarrow>
   dseg h' pr xs nx \<longleftrightarrow> dseg h pr xs nx"
  by (induction xs arbitrary: pr) auto

definition first_of :: "nat list \<Rightarrow> nat option" where
  "first_of xs = (if xs = [] then None else Some (hd xs))"

definition last_of :: "nat list \<Rightarrow> nat option" where
  "last_of xs = (if xs = [] then None else Some (last xs))"

definition link_inv :: "pcache \<Rightarrow> nat list \<Rightarrow> bool" where
  "link_inv p L \<longleftrightarrow> distinct L \<and> dseg (hdr p) None L None \<and> pDirty p = first_of L \<and> pDirtyTail p = last_of L
     \<and> (\<forall>x. pSynced p = Some x \<longrightarrow> x \<in> set L) \<and> eCreate p = (if bPurgeable p \<and> L \<noteq> [] then 1 else 2)"

text \<open>What the list surgery leaves alone.\<close>

definition same_pages :: "pcache \<Rightarrow> pcache \<Rightarrow> bool" where
  "same_pages p q \<longleftrightarrow> (\<forall>x. flags (hdr p x) = flags (hdr q x) \<and> nRef (hdr p x) = nRef (hdr q x)
     \<and> pgno (hdr p x) = pgno (hdr q x)) \<and> nRefSum p = nRefSum q \<and> bPurgeable p = bPurgeable q"

lemma same_pages_refl [simp]: "same_pages p p"
  by (simp add: same_pages_def)

lemma same_pages_trans: "same_pages p q \<Longrightarrow> same_pages q r \<Longrightarrow> same_pages p r"
  by (simp add: same_pages_def)

text \<open>The surgery in closed form.\<close>

lemma remove_form:
  assumes "pDirtyNext (hdr p x) = n" and "pDirtyPrev (hdr p x) = m" and "n \<noteq> Some x" and "m \<noteq> Some x"
  defines "q \<equiv> dirtylist_remove x p"
  shows "pDirtyPrev (hdr q y) = (if n = Some y then m else pDirtyPrev (hdr p y))"
    and "pDirtyNext (hdr q y) = (if m = Some y then n else pDirtyNext (hdr p y))"
    and "pDirty q = (if m = None then n else pDirty p)"
    and "pDirtyTail q = (if n = None then m else pDirtyTail p)"
    and "pSynced q = (if pSynced p = Some x then m else pSynced p)"
    and "eCreate q = (if m = None \<and> n = None then 2 else eCreate p)"
    and "same_pages p q"
proof -
  have s: "hdr (remove_synced x p) = hdr p" by (simp add: remove_synced_def)
  have n: "pDirtyNext (hdr (remove_next x (remove_synced x p)) x) = n"
    "pDirtyPrev (hdr (remove_next x (remove_synced x p)) x) = m"
    using assms(1-3) by (cases n; simp add: remove_next_def s upd_def)+
  show "pDirtyPrev (hdr q y) = (if n = Some y then m else pDirtyPrev (hdr p y))"
    "pDirtyNext (hdr q y) = (if m = Some y then n else pDirtyNext (hdr p y))"
    "pDirty q = (if m = None then n else pDirty p)"
    "pDirtyTail q = (if n = None then m else pDirtyTail p)"
    "pSynced q = (if pSynced p = Some x then m else pSynced p)"
    "eCreate q = (if m = None \<and> n = None then 2 else eCreate p)"
    "same_pages p q"
    unfolding q_def dirtylist_remove_def remove_prev_def n unfolding remove_next_def s assms(1,2)
    by (cases m; cases n; simp add: upd_def Let_def same_pages_def s; simp add: remove_synced_def assms(2))+
qed

lemma remove_same_pages:
  "pDirtyNext (hdr p x) \<noteq> Some x \<Longrightarrow> pDirtyPrev (hdr p x) \<noteq> Some x \<Longrightarrow> same_pages p (dirtylist_remove x p)"
  using remove_form(7) by blast

lemma add_form:
  assumes "pDirty p = n" and "n \<noteq> Some x"
  defines "q \<equiv> dirtylist_add x p"
  shows "pDirtyPrev (hdr q y) = (if y = x then None else if n = Some y then Some x else pDirtyPrev (hdr p y))"
    and "pDirtyNext (hdr q y) = (if y = x then n else pDirtyNext (hdr p y))"
    and "pDirty q = Some x"
    and "pDirtyTail q = (if n = None then Some x else pDirtyTail p)"
    and "pSynced q = (if pSynced p = None \<and> \<not> has (hdr p x) PGHDR_NEED_SYNC then Some x else pSynced p)"
    and "eCreate q = (if n = None \<and> bPurgeable p then 1 else eCreate p)"
    and "same_pages p q"
proof -
  have l: "pDirtyNext (hdr (add_link x p) x) = n" "pSynced (add_link x p) = pSynced p"
    "bPurgeable (add_link x p) = bPurgeable p"
    using assms(1) by (simp_all add: add_link_def upd_def)
  have s: "pSynced (add_next x (add_link x p)) = pSynced p"
    "has (hdr (add_next x (add_link x p)) x) PGHDR_NEED_SYNC = has (hdr p x) PGHDR_NEED_SYNC"
    unfolding add_next_def l using assms(2) by (cases n; simp add: upd_def Let_def has_def add_link_def)+
  have q: "q = (let p' = (add_next x (add_link x p)) \<lparr>pDirty := Some x\<rparr>
      in if pSynced p = None \<and> \<not> has (hdr p x) PGHDR_NEED_SYNC then p' \<lparr>pSynced := Some x\<rparr> else p')"
    using s by (simp add: q_def dirtylist_add_def add_synced_def Let_def)
  show "pDirtyPrev (hdr q y) = (if y = x then None else if n = Some y then Some x else pDirtyPrev (hdr p y))"
    "pDirtyNext (hdr q y) = (if y = x then n else pDirtyNext (hdr p y))"
    "pDirty q = Some x"
    "pDirtyTail q = (if n = None then Some x else pDirtyTail p)"
    "pSynced q = (if pSynced p = None \<and> \<not> has (hdr p x) PGHDR_NEED_SYNC then Some x else pSynced p)"
    "eCreate q = (if n = None \<and> bPurgeable p then 1 else eCreate p)"
    "same_pages p q"
    unfolding q Let_def add_next_def l using assms(2)
    by (cases n; simp add: upd_def add_link_def same_pages_def assms(1))+
qed

lemma remove_link_inv:
  assumes "link_inv p L" and "x \<in> set L"
  shows "link_inv (dirtylist_remove x p) (remove1 x L)"
proof -
  obtain A B where L: "L = A @ x # B" "x \<notin> set A" "x \<notin> set B" "set A \<inter> set B = {}" "distinct A" "distinct B"
    using split_list [OF assms(2)] assms(1) by (auto simp: link_inv_def)
  then have r: "remove1 x L = A @ B" by (simp add: remove1_append)
  have seg: "dseg (hdr p) None (A @ x # B) None" using assms(1) L(1) by (simp add: link_inv_def)
  then have x: "pDirtyPrev (hdr p x) = last_of A" "pDirtyNext (hdr p x) = first_of B"
    by (simp_all add: dseg_append last_of_def first_of_def)
  have AB: "dseg (hdr p) None A (Some x)" "dseg (hdr p) (Some x) B None"
    using seg by (simp_all add: dseg_append)
  let ?q = "dirtylist_remove x p"
  have ne: "first_of B \<noteq> Some x" "last_of A \<noteq> Some x" using L(2,3) by (auto simp: first_of_def last_of_def)
  note f = remove_form [OF x(2,1) ne]
  have prev: "pDirtyPrev (hdr ?q y) = (if first_of B = Some y then last_of A else pDirtyPrev (hdr p y))"
    and nxt: "pDirtyNext (hdr ?q y) = (if last_of A = Some y then first_of B else pDirtyNext (hdr p y))" for y
    using f(1,2) by simp_all
  have segA: "dseg (hdr ?q) None A (first_of B)"
  proof (cases A rule: rev_cases)
    case (snoc A' a)
    have "dseg (hdr p) None A' (Some a)" using AB(1) snoc by (simp add: dseg_append)
    moreover have "pDirtyPrev (hdr ?q y) = pDirtyPrev (hdr p y) \<and> pDirtyNext (hdr ?q y) = pDirtyNext (hdr p y)"
      if "y \<in> set A'" for y
      using that L(4,5) snoc by (auto simp: prev nxt first_of_def last_of_def)
    ultimately have "dseg (hdr ?q) None A' (Some a)" using dseg_cong [of A' "hdr ?q" "hdr p"] by blast
    moreover have "pDirtyPrev (hdr ?q a) = pDirtyPrev (hdr p a)"
      using L(4) snoc by (auto simp: prev first_of_def)
    moreover have "pDirtyNext (hdr ?q a) = first_of B" using snoc by (simp add: nxt last_of_def)
    moreover have "pDirtyPrev (hdr p a) = (if A' = [] then None else Some (last A'))"
      using AB(1) snoc by (simp add: dseg_append)
    ultimately show ?thesis using snoc by (simp add: dseg_append)
  qed simp
  have la: "last_of A \<noteq> Some y" if "y \<in> set B" for y
  proof
    assume "last_of A = Some y"
    then have "y \<in> set A" by (auto simp: last_of_def split: if_splits)
    with that L(4) show False by blast
  qed
  have "dseg (hdr ?q) (last_of A) B None"
  proof (cases B)
    case (Cons b B')
    have "dseg (hdr p) (Some b) B' None" using AB(2) Cons by simp
    moreover have "pDirtyPrev (hdr ?q y) = pDirtyPrev (hdr p y) \<and> pDirtyNext (hdr ?q y) = pDirtyNext (hdr p y)"
      if "y \<in> set B'" for y
      using that L(6) Cons la [of y] by (auto simp: prev nxt first_of_def)
    ultimately have "dseg (hdr ?q) (Some b) B' None" using dseg_cong [of B' "hdr ?q" "hdr p"] by blast
    moreover have "pDirtyPrev (hdr ?q b) = last_of A" using Cons by (simp add: prev first_of_def)
    moreover have "pDirtyNext (hdr ?q b) = pDirtyNext (hdr p b)"
      using Cons la [of b] by (simp add: nxt)
    ultimately show ?thesis using AB(2) Cons by simp
  qed simp
  with segA have "dseg (hdr ?q) None (A @ B) None"
    by (auto simp: dseg_append first_of_def last_of_def split: if_splits)
  moreover have "pDirty ?q = first_of (A @ B)"
    unfolding f(3) using L assms(1) by (auto simp: first_of_def last_of_def link_inv_def)
  moreover have "bPurgeable ?q = bPurgeable p" using f(7) by (simp add: same_pages_def)
  then have "eCreate ?q = (if bPurgeable ?q \<and> A @ B \<noteq> [] then 1 else 2)"
    unfolding f(6) using L assms(1) by (auto simp: first_of_def last_of_def link_inv_def)
  moreover have "pDirtyTail ?q = last_of (A @ B)"
    unfolding f(4) using L assms(1) by (auto simp: first_of_def last_of_def link_inv_def)
  moreover have "y \<in> set (A @ B)" if y: "pSynced ?q = Some y" for y
  proof (cases "pSynced p = Some x")
    case True
    then have "last_of A = Some y" using y by (simp add: f(5))
    then show ?thesis by (auto simp: last_of_def split: if_splits)
  next
    case False
    then have "pSynced p = Some y" "y \<noteq> x" using y by (auto simp: f(5))
    then show ?thesis using assms(1) L(1) by (auto simp: link_inv_def)
  qed
  ultimately show ?thesis using L r by (auto simp: link_inv_def)
qed

lemma add_link_inv:
  assumes "link_inv p L" and "x \<notin> set L"
  shows "link_inv (dirtylist_add x p) (x # L)"
proof -
  let ?q = "dirtylist_add x p"
  have d: "pDirty p = first_of L" using assms(1) by (simp add: link_inv_def)
  have ne: "first_of L \<noteq> Some x" using assms(2) by (auto simp: first_of_def)
  note f = add_form [OF d ne]
  have "dseg (hdr ?q) (Some x) L None"
  proof (cases L)
    case (Cons b B')
    have seg: "dseg (hdr p) None (b # B') None" "b \<notin> set B'" using assms(1) Cons by (simp_all add: link_inv_def)
    have "pDirtyPrev (hdr ?q y) = pDirtyPrev (hdr p y) \<and> pDirtyNext (hdr ?q y) = pDirtyNext (hdr p y)"
      if "y \<in> set B'" for y
      using that assms(2) seg(2) Cons by (auto simp: f(1,2) first_of_def)
    then have "dseg (hdr ?q) (Some b) B' None" using seg(1) dseg_cong [of B' "hdr ?q" "hdr p"] by simp
    then show ?thesis using seg(1) Cons assms(2) by (auto simp: f(1,2) first_of_def)
  qed simp
  then have "dseg (hdr ?q) None (x # L) None" by (simp add: f(1,2) first_of_def)
  moreover have "bPurgeable ?q = bPurgeable p" using f(7) by (simp add: same_pages_def)
  then have "eCreate ?q = (if bPurgeable ?q then 1 else 2)"
    unfolding f(6) using assms(1) by (auto simp: first_of_def link_inv_def)
  moreover have "pDirtyTail ?q = last_of (x # L)"
    unfolding f(4) using assms(1) by (auto simp: first_of_def last_of_def link_inv_def)
  moreover have "\<forall>y. pSynced ?q = Some y \<longrightarrow> y \<in> set (x # L)"
    unfolding f(5) using assms(1) by (auto simp: link_inv_def)
  ultimately show ?thesis using assms f(3) by (simp add: link_inv_def first_of_def)
qed

lemma link_pages:
  assumes "link_inv p L"
  shows "x \<in> set L \<Longrightarrow> same_pages p (dirtylist_remove x p)" "x \<notin> set L \<Longrightarrow> same_pages p (dirtylist_add x p)"
proof -
  assume "x \<in> set L"
  then obtain A B where L: "L = A @ x # B" "x \<notin> set A" "x \<notin> set B"
    using split_list [of x L] assms by (auto simp: link_inv_def)
  have "dseg (hdr p) None (A @ x # B) None" using assms L(1) by (simp add: link_inv_def)
  then have "pDirtyPrev (hdr p x) = last_of A" "pDirtyNext (hdr p x) = first_of B"
    by (simp_all add: dseg_append last_of_def first_of_def)
  moreover have "first_of B \<noteq> Some x" "last_of A \<noteq> Some x" using L(2,3) by (auto simp: first_of_def last_of_def)
  ultimately show "same_pages p (dirtylist_remove x p)" by (intro remove_same_pages) simp_all
next
  assume "x \<notin> set L"
  then have "pDirty p \<noteq> Some x" using assms by (auto simp: link_inv_def first_of_def)
  then show "same_pages p (dirtylist_add x p)" using add_form(7) by blast
qed

subsection \<open>The invariant\<close>

definition flag_inv :: "pcache \<Rightarrow> nat list \<Rightarrow> bool" where
  "flag_inv p L \<longleftrightarrow> (\<forall>y. (bit (flags (hdr p y)) 1 \<longleftrightarrow> y \<in> set L) \<and> (bit (flags (hdr p y)) 0 \<longleftrightarrow> y \<notin> set L)
     \<and> (bit (flags (hdr p y)) 2 \<longrightarrow> y \<in> set L))"

definition ref_inv :: "pcache \<Rightarrow> bool" where
  "ref_inv p \<longleftrightarrow> (\<exists>S. finite S \<and> (\<forall>y. y \<notin> S \<longrightarrow> nRef (hdr p y) = 0) \<and> nRefSum p = (\<Sum>y \<in> S. nRef (hdr p y)))
     \<and> (\<forall>y. 0 \<le> nRef (hdr p y))"

definition pcache_inv :: "pcache \<Rightarrow> nat list \<Rightarrow> bool" where
  "pcache_inv p L \<longleftrightarrow> link_inv p L \<and> flag_inv p L \<and> ref_inv p"

lemma flag_inv_same: "same_pages p q \<Longrightarrow> flag_inv q L = flag_inv p L"
  by (simp add: same_pages_def flag_inv_def)

lemma ref_inv_same: "same_pages p q \<Longrightarrow> ref_inv q = ref_inv p"
  by (simp add: same_pages_def ref_inv_def)

lemma link_inv_upd:
  assumes "\<And>h. pDirtyPrev (f h) = pDirtyPrev h \<and> pDirtyNext (f h) = pDirtyNext h"
  shows "link_inv (upd x f p) L = link_inv p L"
proof -
  have "dseg (hdr (upd x f p)) None L None = dseg (hdr p) None L None"
    using assms by (intro dseg_cong) (simp add: upd_def)
  then show ?thesis by (simp add: link_inv_def upd_def)
qed

lemma link_inv_misc [simp]:
  "link_inv (p \<lparr>nRefSum := n\<rparr>) L = link_inv p L" "link_inv (call c p) L = link_inv p L"
  "link_inv (p \<lparr>szPage := i\<rparr>) L = link_inv p L" "link_inv (p \<lparr>szCache := i\<rparr>) L = link_inv p L"
  "link_inv (p \<lparr>szSpill := i\<rparr>) L = link_inv p L"
  by (simp_all add: link_inv_def call_def)

lemma flag_inv_misc [simp]:
  "flag_inv (p \<lparr>nRefSum := n\<rparr>) L = flag_inv p L" "flag_inv (call c p) L = flag_inv p L"
  "flag_inv (p \<lparr>szPage := i\<rparr>) L = flag_inv p L" "flag_inv (p \<lparr>szCache := i\<rparr>) L = flag_inv p L"
  "flag_inv (p \<lparr>szSpill := i\<rparr>) L = flag_inv p L" "flag_inv (p \<lparr>pSynced := y\<rparr>) L = flag_inv p L"
  by (simp_all add: flag_inv_def call_def)

lemma ref_inv_misc [simp]:
  "ref_inv (call c p) = ref_inv p" "ref_inv (p \<lparr>szPage := i\<rparr>) = ref_inv p"
  "ref_inv (p \<lparr>szCache := i\<rparr>) = ref_inv p" "ref_inv (p \<lparr>szSpill := i\<rparr>) = ref_inv p"
  "ref_inv (p \<lparr>pSynced := y\<rparr>) = ref_inv p"
  by (simp_all add: ref_inv_def call_def)

lemma upd_fields [simp]:
  "flags (hdr (upd x (\<lambda>h. h \<lparr>nRef := f h\<rparr>) p) y) = flags (hdr p y)" "pgno (hdr (upd x (\<lambda>h. h \<lparr>nRef := f h\<rparr>) p) y) = pgno (hdr p y)"
  "flags (hdr (upd x (\<lambda>h. h \<lparr>pgno := g h\<rparr>) p) y) = flags (hdr p y)" "nRef (hdr (upd x (\<lambda>h. h \<lparr>pgno := g h\<rparr>) p) y) = nRef (hdr p y)"
  "nRef (hdr (upd x (\<lambda>h. h \<lparr>flags := g' h\<rparr>) p) y) = nRef (hdr p y)" "pgno (hdr (upd x (\<lambda>h. h \<lparr>flags := g' h\<rparr>) p) y) = pgno (hdr p y)"
  "nRefSum (upd x F p) = nRefSum p" "bPurgeable (upd x F p) = bPurgeable p"
  by (simp_all add: upd_def)

lemma flag_inv_upd_ref [simp]:
  "flag_inv (upd x (\<lambda>h. h \<lparr>nRef := f h\<rparr>) p) L = flag_inv p L" "flag_inv (upd x (\<lambda>h. h \<lparr>pgno := g h\<rparr>) p) L = flag_inv p L"
  by (simp_all add: flag_inv_def)

lemma link_inv_upds [simp]:
  "link_inv (upd x (\<lambda>h. h \<lparr>nRef := f h\<rparr>) p) L = link_inv p L" "link_inv (upd x (\<lambda>h. h \<lparr>pgno := g h\<rparr>) p) L = link_inv p L"
  "link_inv (upd x (\<lambda>h. h \<lparr>flags := g' h\<rparr>) p) L = link_inv p L"
  by (rule link_inv_upd, simp)+

lemma ref_inv_upds [simp]:
  "ref_inv (upd x (\<lambda>h. h \<lparr>flags := f h\<rparr>) p) = ref_inv p" "ref_inv (upd x (\<lambda>h. h \<lparr>pgno := g h\<rparr>) p) = ref_inv p"
  by (simp_all add: ref_inv_def)

lemma ref_inv_change:
  assumes "ref_inv p" and "0 \<le> nRef (hdr p x) + d"
  shows "ref_inv ((upd x (\<lambda>h. h \<lparr>nRef := nRef h + d\<rparr>) p) \<lparr>nRefSum := nRefSum p + d\<rparr>)"
proof -
  obtain S where S: "finite S" "\<forall>y. y \<notin> S \<longrightarrow> nRef (hdr p y) = 0" "nRefSum p = (\<Sum>y \<in> S. nRef (hdr p y))"
    using assms(1) by (auto simp: ref_inv_def)
  let ?S = "insert x S" and ?f = "\<lambda>y. nRef (hdr p y)"
  have "nRefSum p = sum ?f ?S" using S by (cases "x \<in> S") (simp_all add: insert_absorb)
  then have "nRefSum p + d = ?f x + d + sum ?f (?S - {x})" using S(1) by (simp add: sum.insert_remove)
  also have "\<dots> = (\<Sum>y \<in> ?S. nRef (((hdr p)(x := (hdr p x) \<lparr>nRef := ?f x + d\<rparr>)) y))"
    using S(1) by (simp add: sum.insert_remove)
  finally show ?thesis using S(1,2) assms
    by (auto simp: ref_inv_def upd_def intro!: exI [of _ ?S])
qed

lemma ref_inv_plus:
  "ref_inv p \<Longrightarrow> ref_inv ((upd x (\<lambda>h. h \<lparr>nRef := nRef h + 1\<rparr>) p) \<lparr>nRefSum := nRefSum p + 1\<rparr>)"
proof (rule ref_inv_change)
  assume r: "ref_inv p"
  then have "0 \<le> nRef (hdr p x)" by (simp add: ref_inv_def)
  then show "0 \<le> nRef (hdr p x) + 1" by simp
qed

lemma ref_inv_minus:
  "ref_inv p \<Longrightarrow> 0 < nRef (hdr p x) \<Longrightarrow>
   ref_inv ((upd x (\<lambda>h. h \<lparr>nRef := nRef h - 1\<rparr>) p) \<lparr>nRefSum := nRefSum p - 1\<rparr>)"
  using ref_inv_change [of p x "-1"] by simp

subsection \<open>Every operation keeps the invariant\<close>

lemmas dirtylist_consts = PCACHE_DIRTYLIST_REMOVE_def PCACHE_DIRTYLIST_ADD_def PCACHE_DIRTYLIST_FRONT_def

lemma manage_remove: "pcacheManageDirtyList x PCACHE_DIRTYLIST_REMOVE p = dirtylist_remove x p"
  by (simp add: pcacheManageDirtyList_def dirtylist_consts)

lemma manage_add: "pcacheManageDirtyList x PCACHE_DIRTYLIST_ADD p = dirtylist_add x p"
  by (simp add: pcacheManageDirtyList_def dirtylist_consts)

lemma manage_front: "pcacheManageDirtyList x PCACHE_DIRTYLIST_FRONT p = dirtylist_add x (dirtylist_remove x p)"
  by (simp add: pcacheManageDirtyList_def dirtylist_consts)

lemmas manage = manage_remove manage_add manage_front

lemma front_inv:
  assumes "pcache_inv p L" and "x \<in> set L"
  shows "pcache_inv (dirtylist_add x (dirtylist_remove x p)) (x # remove1 x L)"
proof -
  have l: "link_inv p L" "distinct L" using assms(1) by (simp_all add: pcache_inv_def link_inv_def)
  let ?q = "dirtylist_remove x p"
  have q: "link_inv ?q (remove1 x L)" "same_pages p ?q"
    using remove_link_inv [OF l(1) assms(2)] link_pages(1) [OF l(1) assms(2)] by blast+
  have x: "x \<notin> set (remove1 x L)" using l(2) by simp
  have r: "link_inv (dirtylist_add x ?q) (x # remove1 x L)" "same_pages p (dirtylist_add x ?q)"
    using add_link_inv [OF q(1) x] link_pages(2) [OF q(1) x] q(2) same_pages_trans by blast+
  have "flag_inv (dirtylist_add x ?q) L" "ref_inv (dirtylist_add x ?q)"
    using assms(1) flag_inv_same [OF r(2)] ref_inv_same [OF r(2)] by (simp_all add: pcache_inv_def)
  moreover have "set (x # remove1 x L) = set L" using assms(2) l(2) by auto
  then have "flag_inv q (x # remove1 x L) = flag_inv q L" for q by (simp only: flag_inv_def)
  ultimately show ?thesis using r(1) unfolding pcache_inv_def by blast
qed

lemma unpin_inv [simp]: "pcache_inv (pcacheUnpin x p) L = pcache_inv p L"
  by (simp add: pcacheUnpin_def pcache_inv_def)

lemma MakeDirty_inv:
  assumes "pcache_inv p L"
  shows "pcache_inv (sqlite3PcacheMakeDirty x p) (if x \<in> set L then L else x # L)"
proof -
  have f: "flag_inv p L" "link_inv p L" "ref_inv p" using assms by (simp_all add: pcache_inv_def)
  let ?p1 = "upd x (\<lambda>h. h \<lparr>flags := flags h AND NOT PGHDR_DONT_WRITE\<rparr>) p"
  have b1: "bit (flags (hdr ?p1 y)) k = (bit (flags (hdr p y)) k \<and> (y = x \<longrightarrow> k \<noteq> 4))" if "k < 16" for y k
    using that by (auto simp: upd_def bit_and_iff bit_not_iff flag_bits)
  have p1: "pcache_inv ?p1 L" using f b1 by (simp add: pcache_inv_def flag_inv_def)
  show ?thesis
  proof (cases "x \<in> set L")
    case True
    then have "\<not> has (hdr ?p1 x) PGHDR_CLEAN" "\<not> has (hdr p x) PGHDR_CLEAN"
      using p1 f(1) by (auto simp: has_bits pcache_inv_def flag_inv_def)
    then show ?thesis using True p1 assms by (simp add: sqlite3PcacheMakeDirty_def Let_def)
  next
    case False
    then have c: "has (hdr ?p1 x) PGHDR_CLEAN" "has (hdr p x) (PGHDR_CLEAN OR PGHDR_DONT_WRITE)"
      using p1 f(1) by (auto simp: has_bits pcache_inv_def flag_inv_def)
    let ?p2 = "upd x (\<lambda>h. h \<lparr>flags := flags h XOR (PGHDR_DIRTY OR PGHDR_CLEAN)\<rparr>) ?p1"
    have b2: "bit (flags (hdr ?p2 y)) k = (bit (flags (hdr ?p1 y)) k \<noteq> (y = x \<and> (k = 0 \<or> k = 1)))" if "k < 16" for y k
    proof -
      have "bit (PGHDR_DIRTY OR PGHDR_CLEAN) k \<longleftrightarrow> k = 0 \<or> k = 1"
        by (auto simp: bit_or_iff flag_bits)
      then show ?thesis by (auto simp: upd_def bit_xor_iff)
    qed
    have l2: "link_inv ?p2 L" using p1 by (simp add: pcache_inv_def)
    have fl: "flag_inv ?p2 (x # L)" using p1 False by (auto simp: pcache_inv_def flag_inv_def b2)
    have rf: "ref_inv ?p2" using p1 by (simp add: pcache_inv_def)
    have a: "link_inv (dirtylist_add x ?p2) (x # L)" "same_pages ?p2 (dirtylist_add x ?p2)"
      using add_link_inv [OF l2 False] link_pages(2) [OF l2 False] by blast+
    then have "pcache_inv (dirtylist_add x ?p2) (x # L)"
      using fl rf flag_inv_same ref_inv_same by (simp add: pcache_inv_def)
    then show ?thesis using False c by (simp add: sqlite3PcacheMakeDirty_def Let_def manage)
  qed
qed

lemma MakeClean_inv:
  assumes "pcache_inv p L" and "x \<in> set L"
  shows "pcache_inv (sqlite3PcacheMakeClean x p) (remove1 x L)"
proof -
  have f: "flag_inv p L" "link_inv p L" "ref_inv p" "distinct L" using assms by (simp_all add: pcache_inv_def link_inv_def)
  let ?p1 = "dirtylist_remove x p"
  have r: "link_inv ?p1 (remove1 x L)" "same_pages p ?p1"
    using remove_link_inv [OF f(2) assms(2)] link_pages(1) [OF f(2) assms(2)] by blast+
  have f1: "flag_inv ?p1 L" "ref_inv ?p1" using f flag_inv_same [OF r(2)] ref_inv_same [OF r(2)] by simp_all
  let ?p2 = "upd x (\<lambda>h. h \<lparr>flags := flags h AND NOT (PGHDR_DIRTY OR PGHDR_NEED_SYNC OR PGHDR_WRITEABLE)\<rparr>) ?p1"
  let ?p3 = "upd x (\<lambda>h. h \<lparr>flags := flags h OR PGHDR_CLEAN\<rparr>) ?p2"
  have b: "bit (flags (hdr ?p3 y)) 0 = (y = x \<or> bit (flags (hdr ?p1 y)) 0)"
    "bit (flags (hdr ?p3 y)) 1 = (y \<noteq> x \<and> bit (flags (hdr ?p1 y)) 1)"
    "bit (flags (hdr ?p3 y)) 2 = (y \<noteq> x \<and> bit (flags (hdr ?p1 y)) 2)" for y
    by (cases "y = x"; simp add: upd_def bit_and_iff bit_or_iff bit_not_iff flag_bits)+
  have "y \<in> set (remove1 x L) \<longleftrightarrow> y \<in> set L \<and> y \<noteq> x" for y using f(4) by auto
  then have "flag_inv ?p3 (remove1 x L)" using f1(1) unfolding flag_inv_def b by blast
  then have "pcache_inv ?p3 (remove1 x L)" using r(1) f1(2) by (simp add: pcache_inv_def)
  then show ?thesis by (simp add: sqlite3PcacheMakeClean_def Let_def manage)
qed

lemma sum_first: "(upd x F p) \<lparr>nRefSum := n\<rparr> = upd x F (p \<lparr>nRefSum := n\<rparr>)"
  by (simp add: upd_def)

lemma FetchFinish_inv:
  assumes "pcache_inv p L" and "initialized \<or> x \<notin> set L \<and> nRef (hdr p x) = 0"
  shows "pcache_inv (sqlite3PcacheFetchFinish initialized x n p) L"
proof (cases initialized)
  case True
  with assms(1) ref_inv_plus [of p x] show ?thesis
    by (simp add: sqlite3PcacheFetchFinish_def pcache_inv_def sum_first)
next
  case False
  let ?h = "\<lparr>pPager = False, pgno = n, flags = PGHDR_CLEAN, nRef = 0, pDirtyNext = None, pDirtyPrev = None\<rparr>"
  let ?q = "p \<lparr>hdr := (hdr p)(x := ?h)\<rparr>"
  have f: "flag_inv p L" "link_inv p L" "ref_inv p" "x \<notin> set L" "nRef (hdr p x) = 0"
    using assms False by (simp_all add: pcache_inv_def)
  have "dseg (hdr ?q) None L None = dseg (hdr p) None L None" using f(4) by (intro dseg_cong) auto
  then have l: "link_inv ?q L" using f(2) by (simp add: link_inv_def)
  have fl: "flag_inv ?q L" using f(1,4) by (auto simp: flag_inv_def flag_bits)
  have "nRef (hdr ?q y) = nRef (hdr p y)" for y using f(5) by simp
  then have r: "ref_inv ?q" using f(3) by (simp add: ref_inv_def)
  have "pcache_inv ((upd x (\<lambda>h. h \<lparr>nRef := nRef h + 1\<rparr>) ?q) \<lparr>nRefSum := nRefSum ?q + 1\<rparr>) L"
    using l fl ref_inv_plus [OF r, of x] by (simp add: pcache_inv_def)
  then show ?thesis using False
    by (simp add: sqlite3PcacheFetchFinish_def pcacheFetchFinishWithInit_def Let_def sum_first)
qed

lemma Ref_inv: "pcache_inv p L \<Longrightarrow> pcache_inv (sqlite3PcacheRef x p) L"
  using ref_inv_plus [of p x] by (simp add: sqlite3PcacheRef_def pcache_inv_def Let_def)

lemma Release_inv:
  assumes "pcache_inv p L" and "0 < nRef (hdr p x)"
  shows "\<exists>L'. pcache_inv (sqlite3PcacheRelease x p) L' \<and> set L' = set L"
proof -
  let ?q = "upd x (\<lambda>h. h \<lparr>nRef := nRef h - 1\<rparr>) (p \<lparr>nRefSum := nRefSum p - 1\<rparr>)"
  have q: "pcache_inv ?q L"
    using assms ref_inv_minus [of p x] by (simp add: pcache_inv_def sum_first)
  have d: "distinct L" using assms(1) by (simp add: pcache_inv_def link_inv_def)
  have e: "sqlite3PcacheRelease x p = (if nRef (hdr ?q x) = 0 then
      if has (hdr ?q x) PGHDR_CLEAN then pcacheUnpin x ?q else dirtylist_add x (dirtylist_remove x ?q) else ?q)"
    by (simp add: sqlite3PcacheRelease_def Let_def manage)
  show ?thesis
  proof (cases "nRef (hdr ?q x) = 0 \<and> \<not> has (hdr ?q x) PGHDR_CLEAN")
    case True
    then have x: "x \<in> set L" using q by (auto simp: has_bits pcache_inv_def flag_inv_def)
    from front_inv [OF q x] True show ?thesis unfolding e using x d
      by (intro exI [of _ "x # remove1 x L"]) auto
  next
    case False
    then show ?thesis unfolding e using q by (intro exI [of _ L]) auto
  qed
qed

lemma Drop_inv:
  assumes "pcache_inv p L" and "nRef (hdr p x) = 1"
  shows "pcache_inv (sqlite3PcacheDrop x p) (remove1 x L)"
proof -
  have d: "distinct L" "flag_inv p L" "link_inv p L" "ref_inv p"
    using assms(1) by (simp_all add: pcache_inv_def link_inv_def)
  let ?p1 = "if has (hdr p x) PGHDR_DIRTY then dirtylist_remove x p else p"
  have m: "has (hdr p x) PGHDR_DIRTY \<longleftrightarrow> x \<in> set L" using d(2) by (simp add: has_bits flag_inv_def)
  have p1: "link_inv ?p1 (remove1 x L)" "same_pages p ?p1"
    using remove_link_inv [OF d(3)] link_pages(1) [OF d(3)] d(3) m by (auto simp: remove1_idem)
  let ?p2 = "upd x (\<lambda>h. h \<lparr>nRef := nRef h - 1\<rparr>) (?p1 \<lparr>nRefSum := nRefSum ?p1 - 1\<rparr>)"
  have n1: "nRef (hdr ?p1 x) = 1" using p1(2) assms(2) by (simp add: same_pages_def)
  have r2: "ref_inv ?p2" using ref_inv_same [OF p1(2)] d(4) ref_inv_minus [of ?p1 x] n1 by (simp add: sum_first)
  let ?p3 = "upd x (\<lambda>h. h \<lparr>flags := PGHDR_CLEAN\<rparr>) (call (XUnpin x True) ?p2)"
  have e: "sqlite3PcacheDrop x p = ?p3"
  proof -
    have swap: "h \<lparr>flags := a, nRef := b\<rparr> = h \<lparr>nRef := b, flags := a\<rparr>" for h :: pghdr and a b by simp
    have "upd x (\<lambda>h. h \<lparr>flags := PGHDR_CLEAN, nRef := 0\<rparr>) (call c (q \<lparr>nRefSum := k\<rparr>))
      = upd x (\<lambda>h. h \<lparr>flags := PGHDR_CLEAN\<rparr>) (call c (upd x (\<lambda>h. h \<lparr>nRef := nRef h - 1\<rparr>) (q \<lparr>nRefSum := k\<rparr>)))"
      if "nRef (hdr q x) = 1" for q c k using that by (simp add: upd_def call_def swap)
    from this [OF n1] show ?thesis by (simp only: sqlite3PcacheDrop_def Let_def manage)
  qed
  have "flag_inv ?p1 L" using d(2) flag_inv_same [OF p1(2)] by simp
  then have "flag_inv ?p2 L" by simp
  moreover have "bit (flags (hdr ?p3 y)) k = (if y = x then k = 0 else bit (flags (hdr ?p2 y)) k)" for y k
    by (simp add: upd_def call_def flag_bits)
  moreover have "y \<in> set (remove1 x L) \<longleftrightarrow> y \<in> set L \<and> y \<noteq> x" for y using d(1) by auto
  ultimately have "flag_inv ?p3 (remove1 x L)" by (auto simp: flag_inv_def)
  then show ?thesis unfolding e using p1(1) r2 by (simp add: pcache_inv_def)
qed

lemma clear_flags_loop_correct:
  "dseg (hdr p) pr xs None \<Longrightarrow> length xs < k \<Longrightarrow> distinct xs \<Longrightarrow>
   \<exists>q. clear_flags_loop k f (first_of xs) p = Some q
     \<and> q = p \<lparr>hdr := \<lambda>y. if y \<in> set xs then (hdr p y) \<lparr>flags := flags (hdr p y) AND NOT f\<rparr> else hdr p y\<rparr>"
proof (induction xs arbitrary: k p pr)
  case Nil
  then show ?case by (cases k) (simp_all add: first_of_def)
next
  case (Cons x xs)
  obtain k' where k: "k = Suc k'" using Cons.prems(2) by (cases k) auto
  let ?p = "upd x (\<lambda>h. h \<lparr>flags := flags h AND NOT f\<rparr>) p"
  have "dseg (hdr ?p) (Some x) xs None"
    using Cons.prems(1) dseg_cong [of xs "hdr ?p" "hdr p"] by (simp add: upd_def)
  from Cons.IH [OF this, of k'] Cons.prems k have
    "clear_flags_loop k' f (first_of xs) ?p = Some (?p \<lparr>hdr := \<lambda>y. if y \<in> set xs
       then (hdr ?p y) \<lparr>flags := flags (hdr ?p y) AND NOT f\<rparr> else hdr ?p y\<rparr>)" by auto
  moreover have "?p \<lparr>hdr := \<lambda>y. if y \<in> set xs then (hdr ?p y) \<lparr>flags := flags (hdr ?p y) AND NOT f\<rparr> else hdr ?p y\<rparr>
      = p \<lparr>hdr := \<lambda>y. if y \<in> set (x # xs) then (hdr p y) \<lparr>flags := flags (hdr p y) AND NOT f\<rparr> else hdr p y\<rparr>"
    using Cons.prems(3) by (auto simp: upd_def fun_eq_iff)
  ultimately show ?case using k Cons.prems(1) by (simp add: Let_def first_of_def upd_def)
qed

lemma clear_flags_inv:
  assumes "pcache_inv p L" and "length L < k" and "\<not> bit f 0" "\<not> bit f 1"
  shows "\<exists>q. clear_flags_loop k f (pDirty p) p = Some q \<and> pcache_inv (q \<lparr>pSynced := pDirtyTail q\<rparr>) L"
proof -
  have l: "dseg (hdr p) None L None" "distinct L" "pDirty p = first_of L" using assms(1) by (simp_all add: pcache_inv_def link_inv_def)
  let ?h = "\<lambda>y. if y \<in> set L then (hdr p y) \<lparr>flags := flags (hdr p y) AND NOT f\<rparr> else hdr p y"
  let ?q = "p \<lparr>hdr := ?h\<rparr>"
  have c: "clear_flags_loop k f (pDirty p) p = Some ?q"
    using clear_flags_loop_correct [OF l(1) assms(2) l(2)] l(3) by simp
  have "dseg ?h None L None" using l(1) dseg_cong [of L ?h "hdr p"] by simp
  then have "link_inv (?q \<lparr>pSynced := pDirtyTail ?q\<rparr>) L"
    using assms(1) by (auto simp: pcache_inv_def link_inv_def last_of_def split: if_splits)
  moreover have "flag_inv ?q L" using assms by (auto simp: pcache_inv_def flag_inv_def bit_and_iff bit_not_iff)
  moreover have "nRef (?h y) = nRef (hdr p y)" for y by simp
  then have "ref_inv ?q" using assms(1) by (simp add: pcache_inv_def ref_inv_def)
  ultimately show ?thesis using c by (simp add: pcache_inv_def)
qed

lemma Move_inv:
  assumes "pcache_inv p L" and "0 < nRef (hdr p x)"
    and "case pOther of None \<Rightarrow> True | Some y \<Rightarrow> nRef (hdr p y) = 0"
  shows "\<exists>L'. pcache_inv (sqlite3PcacheMove x n pOther p) L'"
proof -
  define p1 where "p1 = (case pOther of Some y \<Rightarrow>
      sqlite3PcacheDrop y ((upd y (\<lambda>h. h \<lparr>nRef := nRef h + 1\<rparr>) p) \<lparr>nRefSum := nRefSum p + 1\<rparr>) | None \<Rightarrow> p)"
  have "\<exists>L1. pcache_inv p1 L1"
  proof (cases pOther)
    case None
    with assms(1) show ?thesis by (auto simp: p1_def)
  next
    case (Some y)
    let ?q = "(upd y (\<lambda>h. h \<lparr>nRef := nRef h + 1\<rparr>) p) \<lparr>nRefSum := nRefSum p + 1\<rparr>"
    have "pcache_inv ?q L" using assms(1) ref_inv_plus [of p y] by (simp add: pcache_inv_def)
    moreover have "nRef (hdr ?q y) = 1" using assms(3) Some by (simp add: upd_def)
    ultimately show ?thesis using Drop_inv [of ?q L y] Some by (auto simp: p1_def)
  qed
  then obtain L1 where L1: "pcache_inv p1 L1" by blast
  let ?p3 = "upd x (\<lambda>h. h \<lparr>pgno := n\<rparr>) (call (XRekey x (pgno (hdr p1 x)) n) p1)"
  have p3: "pcache_inv ?p3 L1" using L1 by (simp add: pcache_inv_def)
  have e: "sqlite3PcacheMove x n pOther p = (if has (hdr ?p3 x) PGHDR_DIRTY \<and> has (hdr ?p3 x) PGHDR_NEED_SYNC
      then dirtylist_add x (dirtylist_remove x ?p3) else ?p3)"
    by (simp only: sqlite3PcacheMove_def Let_def manage p1_def)
  have "has (hdr ?p3 x) PGHDR_DIRTY \<Longrightarrow> x \<in> set L1" using p3 by (simp add: has_bits pcache_inv_def flag_inv_def)
  then show ?thesis unfolding e using p3 front_inv [OF p3] by auto
qed

lemma CleanAll_inv:
  "pcache_inv p L \<Longrightarrow> length L < k \<Longrightarrow> \<exists>q. sqlite3PcacheCleanAll k p = Some q \<and> pcache_inv q []"
proof (induction L arbitrary: p k)
  case Nil
  then show ?case by (cases k) (auto simp: pcache_inv_def link_inv_def first_of_def)
next
  case (Cons x L)
  obtain k' where k: "k = Suc k'" using Cons.prems(2) by (cases k) auto
  have d: "pDirty p = Some x" using Cons.prems(1) by (simp add: pcache_inv_def link_inv_def first_of_def)
  have "pcache_inv (sqlite3PcacheMakeClean x p) L" using MakeClean_inv [OF Cons.prems(1), of x] by simp
  with Cons.IH [OF this, of k'] Cons.prems(2) k d show ?case by auto
qed

lemma MakeClean_pgno:
  assumes "pcache_inv p L" and "x \<in> set L"
  shows "pgno (hdr (sqlite3PcacheMakeClean x p) y) = pgno (hdr p y)"
proof -
  have "link_inv p L" using assms(1) by (simp add: pcache_inv_def)
  from link_pages(1) [OF this assms(2)] show ?thesis
    by (simp add: sqlite3PcacheMakeClean_def Let_def manage pcacheUnpin_def call_def same_pages_def)
qed

lemma truncate_loop_inv:
  "pcache_inv p (ys @ xs) \<Longrightarrow> length xs < k \<Longrightarrow>
   \<exists>q. truncate_loop k n (first_of xs) p = Some q \<and> pcache_inv q (ys @ filter (\<lambda>x. pgno (hdr p x) \<le> n) xs)"
proof (induction xs arbitrary: p ys k)
  case Nil
  then show ?case by (cases k) (auto simp: first_of_def)
next
  case (Cons x xs)
  obtain k' where k: "k = Suc k'" "length xs < k'" using Cons.prems(2) by (cases k) auto
  have l: "distinct (ys @ x # xs)" "dseg (hdr p) None (ys @ x # xs) None"
    using Cons.prems(1) by (simp_all add: pcache_inv_def link_inv_def)
  then have nx: "pDirtyNext (hdr p x) = first_of xs" by (simp add: dseg_append first_of_def)
  show ?case
  proof (cases "pgno (hdr p x) > n")
    case True
    let ?q = "sqlite3PcacheMakeClean x p"
    have "remove1 x (ys @ x # xs) = ys @ xs" using l(1) by (simp add: remove1_append)
    then have "pcache_inv ?q (ys @ xs)" using MakeClean_inv [OF Cons.prems(1), of x] by simp
    from Cons.IH [OF this k(2)] MakeClean_pgno [OF Cons.prems(1), of x] show ?thesis
      using k(1) True nx by (simp add: first_of_def Let_def)
  next
    case False
    have "pcache_inv p ((ys @ [x]) @ xs)" using Cons.prems(1) by simp
    from Cons.IH [OF this k(2)] show ?thesis using k(1) False nx by (simp add: first_of_def Let_def)
  qed
qed

lemma Truncate_inv:
  assumes "pcache_inv p L" and "length L < k"
  shows "\<exists>q. sqlite3PcacheTruncate k n p = Some q \<and> pcache_inv q (filter (\<lambda>x. pgno (hdr p x) \<le> n) L)"
proof -
  have "pDirty p = first_of L" using assms(1) by (simp add: pcache_inv_def link_inv_def)
  with truncate_loop_inv [of p "[]" L k n] assms show ?thesis
    by (auto simp: sqlite3PcacheTruncate_def pcache_inv_def)
qed

lemma dirty_walk_correct: "dseg h pr L None \<Longrightarrow> length L < k \<Longrightarrow> dirty_walk k h (first_of L) = Some L"
proof (induction L arbitrary: k pr)
  case Nil
  then show ?case by (cases k) (simp_all add: first_of_def)
next
  case (Cons x L)
  then show ?case by (cases k) (auto simp: first_of_def split: if_splits)
qed

lemma search_back_correct:
  "dseg h None L nx \<Longrightarrow> length L < k \<Longrightarrow>
   search_back k h skip (last_of L) = Some (List.find (\<lambda>x. \<not> skip (h x)) (rev L))"
proof (induction L arbitrary: k nx rule: rev_induct)
  case Nil
  then show ?case by (cases k) (simp_all add: last_of_def)
next
  case (snoc x L)
  obtain k' where k: "k = Suc k'" "length L < k'" using snoc.prems(2) by (cases k) auto
  have s: "dseg h None L (Some x)" "pDirtyPrev (h x) = last_of L" using snoc.prems(1) by (simp_all add: dseg_append last_of_def)
  from snoc.IH [OF s(1) k(2)] show ?case using k(1) s(2) by (simp add: last_of_def)
qed

lemma find_SomeD: "List.find P xs = Some y \<Longrightarrow> P y \<and> y \<in> set xs"
  by (induction xs) (auto split: if_splits)

lemma find_NoneD: "List.find P xs = None \<Longrightarrow> y \<in> set xs \<Longrightarrow> \<not> P y"
  by (induction xs) (auto split: if_splits)

lemma spill_victim_correct:
  assumes "pcache_inv p L" and "length L < k"
  shows "\<exists>q x. spill_victim k p = Some (q, x) \<and> pcache_inv q L \<and> hdr q = hdr p
     \<and> (case x of Some y \<Rightarrow> y \<in> set L \<and> nRef (hdr p y) = 0 | None \<Rightarrow> \<forall>y \<in> set L. nRef (hdr p y) \<noteq> 0)"
proof -
  let ?s1 = "\<lambda>h. nRef h \<noteq> 0 \<or> has h PGHDR_NEED_SYNC" and ?s2 = "\<lambda>h. nRef h \<noteq> 0"
  have l: "dseg (hdr p) None L None" "pDirtyTail p = last_of L" "\<And>x. pSynced p = Some x \<Longrightarrow> x \<in> set L"
    using assms(1) by (simp_all add: pcache_inv_def link_inv_def)
  obtain A where A: "pSynced p = last_of A" "\<exists>nx. dseg (hdr p) None A nx" "length A \<le> length L" "set A \<subseteq> set L"
  proof (cases "pSynced p")
    case None
    then show ?thesis using that [of "[]"] by (simp add: last_of_def)
  next
    case (Some x)
    then obtain B C where BC: "L = B @ x # C" using l(3) split_list by metis
    then have "L = (B @ [x]) @ C" by simp
    then have "dseg (hdr p) None (B @ [x]) (if C = [] then None else Some (hd C))"
      using l(1) dseg_append [of "hdr p" None "B @ [x]" C None] by simp
    then show ?thesis using that [of "B @ [x]"] Some BC by (auto simp: last_of_def)
  qed
  obtain nx where nx: "dseg (hdr p) None A nx" using A(2) by blast
  let ?r = "List.find (\<lambda>x. \<not> ?s1 (hdr p x)) (rev A)"
  have 1: "search_back k (hdr p) ?s1 (pSynced p) = Some ?r"
    unfolding A(1) using search_back_correct [OF nx] A(3) assms(2) by simp
  have 2: "search_back k (hdr p) ?s2 (pDirtyTail p) = Some (List.find (\<lambda>x. \<not> ?s2 (hdr p x)) (rev L))"
    unfolding l(2) using search_back_correct [OF l(1) assms(2)] by simp
  have r: "y \<in> set L \<and> nRef (hdr p y) = 0" if "?r = Some y" for y
    using find_SomeD [OF that] A(4) by auto
  let ?q = "p \<lparr>pSynced := ?r\<rparr>"
  have "\<forall>y. pSynced ?q = Some y \<longrightarrow> y \<in> set L" using r by simp
  then have "link_inv ?q L" using assms(1) by (simp add: pcache_inv_def link_inv_def)
  then have inv: "pcache_inv ?q L" using assms(1) by (simp add: pcache_inv_def)
  show ?thesis
  proof (cases ?r)
    case (Some y)
    then have "spill_victim k p = Some (?q, Some y)" unfolding spill_victim_def 1 by simp
    then show ?thesis using inv r [OF Some] by (intro exI [of _ ?q] exI [of _ "Some y"]) simp
  next
    case None
    let ?x = "List.find (\<lambda>x. \<not> ?s2 (hdr p x)) (rev L)"
    have s: "spill_victim k p = Some (?q, ?x)" unfolding spill_victim_def 1 None using 2 by (simp add: Let_def)
    have "case ?x of Some y \<Rightarrow> y \<in> set L \<and> nRef (hdr p y) = 0 | None \<Rightarrow> \<forall>y \<in> set L. nRef (hdr p y) \<noteq> 0"
    proof (cases ?x)
      case N: None
      then show ?thesis using find_NoneD [OF N] by simp
    next
      case S: (Some y)
      then show ?thesis using find_SomeD [OF S] by simp
    qed
    then show ?thesis using s inv by (intro exI [of _ ?q] exI [of _ ?x]) simp
  qed
qed

subsection \<open>Sorting the dirty pages\<close>

lemma mergeDirty_mset: "mset (pcacheMergeDirtyList pg p q) = mset p + mset q"
  by (induction pg p q rule: pcacheMergeDirtyList.induct) auto

lemma mergeDirty_set: "set (pcacheMergeDirtyList pg p q) = set p \<union> set q"
  by (metis mergeDirty_mset set_mset_mset set_mset_union)

lemma mergeDirty_sorted:
  "sorted (map pg p) \<Longrightarrow> sorted (map pg q) \<Longrightarrow> sorted (map pg (pcacheMergeDirtyList pg p q))"
  by (induction pg p q rule: pcacheMergeDirtyList.induct) (auto simp: mergeDirty_set)

interpretation pc: list_merge "pcacheMergeDirtyList pg" mset "(+)" "\<lambda>l. sorted (map pg l)" for pg
proof unfold_locales
  fix p q :: "nat list"
  assume "p \<noteq> []" "q \<noteq> []"
  then show "pcacheMergeDirtyList pg p q \<noteq> []" using mergeDirty_mset [of pg p q] by auto
qed (auto simp: mergeDirty_mset mergeDirty_sorted)

text \<open>The extra bucket is never needed.\<close>

lemma pcache_bucket_add_snoc:
  "bucket_add m bs x = Some bs' \<Longrightarrow> pcache_bucket_add m (bs @ [b]) x = Some (bs' @ [b])"
proof (induction bs arbitrary: x bs')
  case (Cons c bs)
  obtain d ds where d: "bs @ [b] = d # ds" by (cases "bs @ [b]") auto
  show ?case using Cons d by (auto simp: bind_eq_Some_conv split: if_splits)
qed simp

lemma pcache_sort_loop_eq:
  "bs \<noteq> [] \<Longrightarrow> bucket_sort m xs bs = Some ys \<Longrightarrow> pcache_sort_loop m xs (bs @ [[]]) = Some ys"
proof (induction xs arbitrary: bs)
  case Nil
  have "bucket_collect m p (cs @ [[]]) = bucket_collect m p cs" for p cs
    by (induction cs arbitrary: p) auto
  then show ?case using Nil by (cases bs) auto
next
  case (Cons x xs)
  then obtain bs' where b: "bucket_add m bs [x] = Some bs'" "bucket_sort m xs bs' = Some ys"
    by (auto simp: bind_eq_Some_conv)
  then have "bs' \<noteq> []" using Cons.prems(1) by (cases bs) (auto simp: bind_eq_Some_conv split: if_splits)
  with Cons.IH b(2) have "pcache_sort_loop m xs (bs' @ [[]]) = Some ys" by blast
  then show ?case using pcache_bucket_add_snoc [OF b(1)] by simp
qed

lemma pcacheSortDirtyList_correct:
  assumes "length xs < 2 ^ 31"
  shows "\<exists>ys. pcacheSortDirtyList pg xs = Some ys \<and> sorted (map pg ys) \<and> mset ys = mset xs"
proof -
  obtain ys where ys: "bucket_sort (pcacheMergeDirtyList pg) xs (replicate 31 []) = Some ys"
    "sorted (map pg ys)" "mset ys = mset xs"
    using pc.bucket_sort_empty [of 31 xs pg] assms by auto
  have "replicate N_SORT_BUCKET [] = replicate 31 ([] :: nat list) @ [[]]"
    by (simp add: N_SORT_BUCKET_def replicate_append_same [symmetric] numeral_eq_Suc)
  then show ?thesis using pcache_sort_loop_eq [OF _ ys(1)] ys(2,3) by (simp add: pcacheSortDirtyList_def)
qed

subsection \<open>The pager's use of the cache\<close>

text \<open>
  A step is one call of the interface, made as the assertions of the code demand, or a
  change that the pager makes to a header itself: of the flags, and of \<open>pPager\<close>, which \<open>getPageNormal\<close> sets in a page
  that it has fetched; for the page number 0 it returns before it fetches.
\<close>

inductive pcache_step :: "pcache \<Rightarrow> pcache \<Rightarrow> bool" where
  fetch_new: "nRef (hdr p x) = 0 \<Longrightarrow> \<not> has (hdr p x) PGHDR_DIRTY \<Longrightarrow>
     pcache_step p (sqlite3PcacheFetchFinish False x n p)"
| fetch_old: "pcache_step p (sqlite3PcacheFetchFinish True x n p)"
| ref: "0 < nRef (hdr p x) \<Longrightarrow> pcache_step p (sqlite3PcacheRef x p)"
| release: "0 < nRef (hdr p x) \<Longrightarrow> pcache_step p (sqlite3PcacheRelease x p)"
| drop_page: "nRef (hdr p x) = 1 \<Longrightarrow> pcache_step p (sqlite3PcacheDrop x p)"
| make_dirty: "0 < nRef (hdr p x) \<Longrightarrow> pcache_step p (sqlite3PcacheMakeDirty x p)"
| make_clean: "has (hdr p x) PGHDR_DIRTY \<Longrightarrow> pcache_step p (sqlite3PcacheMakeClean x p)"
| clean_all: "sqlite3PcacheCleanAll k p = Some q \<Longrightarrow> pcache_step p q"
| clear_writable: "sqlite3PcacheClearWritable k p = Some q \<Longrightarrow> pcache_step p q"
| clear_sync: "sqlite3PcacheClearSyncFlags k p = Some q \<Longrightarrow> pcache_step p q"
| attach: "0 < nRef (hdr p x) \<Longrightarrow> pgno (hdr p x) \<noteq> 0 \<Longrightarrow> pcache_step p (upd x (\<lambda>h. h \<lparr>pPager := True\<rparr>) p)"
| move: "0 < nRef (hdr p x) \<Longrightarrow> 0 < n \<Longrightarrow> case pOther of None \<Rightarrow> True | Some y \<Rightarrow> nRef (hdr p y) = 0 \<Longrightarrow>
     pcache_step p (sqlite3PcacheMove x n pOther p)"
| truncate: "sqlite3PcacheTruncate k n p = Some q \<Longrightarrow> pcache_step p q"
| pager_flags: "has (hdr p x) PGHDR_CLEAN = (f AND PGHDR_CLEAN \<noteq> 0) \<Longrightarrow>
     has (hdr p x) PGHDR_DIRTY = (f AND PGHDR_DIRTY \<noteq> 0) \<Longrightarrow>
     f AND PGHDR_WRITEABLE \<noteq> 0 \<longrightarrow> f AND PGHDR_DIRTY \<noteq> 0 \<Longrightarrow>
     pcache_step p (upd x (\<lambda>h. h \<lparr>flags := f\<rparr>) p)"
| cachesize: "pcache_step p (sqlite3PcacheSetCachesize i p)"
| spillsize: "pcache_step p (snd (sqlite3PcacheSetSpillsize i p))"
| victim: "spill_victim k p = Some (q, x) \<Longrightarrow> pcache_step p q"

inductive pcache_reachable :: "pcache \<Rightarrow> bool" where
  opened: "sqlite3PcacheOpen ok sz ext purgeable = (True, p) \<Longrightarrow> pcache_reachable p"
| stepped: "pcache_reachable p \<Longrightarrow> pcache_step p q \<Longrightarrow> pcache_reachable q"

text \<open>The fuel of a loop that returned does not matter.\<close>

lemma CleanAll_mono: "sqlite3PcacheCleanAll k p = Some q \<Longrightarrow> sqlite3PcacheCleanAll (k + d) p = Some q"
  by (induction k p rule: sqlite3PcacheCleanAll.induct) (auto split: option.splits)

lemma clear_loop_mono: "clear_flags_loop k f x p = Some q \<Longrightarrow> clear_flags_loop (k + d) f x p = Some q"
  by (induction k f x p rule: clear_flags_loop.induct) (auto simp: Let_def)

lemma truncate_loop_mono: "truncate_loop k n x p = Some q \<Longrightarrow> truncate_loop (k + d) n x p = Some q"
  by (induction k n x p rule: truncate_loop.induct) (auto simp: Let_def)

lemma search_back_mono: "search_back k h s x = Some y \<Longrightarrow> search_back (k + d) h s x = Some y"
  by (induction k h s x rule: search_back.induct) (auto split: if_splits)

lemma Truncate_mono: "sqlite3PcacheTruncate k n p = Some q \<Longrightarrow> sqlite3PcacheTruncate (k + d) n p = Some q"
  using truncate_loop_mono by (fastforce simp: sqlite3PcacheTruncate_def bind_eq_Some_conv)

lemma spill_victim_mono: "spill_victim k p = Some r \<Longrightarrow> spill_victim (k + d) p = Some r"
  using search_back_mono [where d = d]
  by (auto simp: spill_victim_def Let_def bind_eq_Some_conv split: option.splits)

lemma Open_inv: "sqlite3PcacheOpen ok sz ext purgeable = (True, p) \<Longrightarrow> pcache_inv p []"
  by (auto simp: sqlite3PcacheOpen_def sqlite3PcacheSetPageSize_def pcache_inv_def link_inv_def flag_inv_def
      ref_inv_def call_def first_of_def last_of_def flag_bits split: if_splits intro!: exI [of _ "{}"])

lemma clear_step_inv:
  assumes "pcache_inv p L" and "clear_flags_loop k f (pDirty p) p = Some q" and "\<not> bit f 0" "\<not> bit f 1"
  shows "pcache_inv (q \<lparr>pSynced := pDirtyTail q\<rparr>) L"
proof -
  have "length L < k + Suc (length L)" by simp
  from clear_flags_inv [OF assms(1) this assms(3,4)] clear_loop_mono [OF assms(2), of "Suc (length L)"]
  show ?thesis by auto
qed

lemma pager_flags_inv:
  assumes "pcache_inv p L" and "has (hdr p x) PGHDR_CLEAN = (f AND PGHDR_CLEAN \<noteq> 0)"
    and "has (hdr p x) PGHDR_DIRTY = (f AND PGHDR_DIRTY \<noteq> 0)"
    and "f AND PGHDR_WRITEABLE \<noteq> 0 \<longrightarrow> f AND PGHDR_DIRTY \<noteq> 0"
  shows "pcache_inv (upd x (\<lambda>h. h \<lparr>flags := f\<rparr>) p) L"
proof -
  have g: "has h PGHDR_CLEAN = (flags h AND PGHDR_CLEAN \<noteq> 0)" "has h PGHDR_DIRTY = (flags h AND PGHDR_DIRTY \<noteq> 0)"
    "has h PGHDR_WRITEABLE = (flags h AND PGHDR_WRITEABLE \<noteq> 0)" for h by (simp_all add: has_def)
  let ?h = "(hdr p x) \<lparr>flags := f\<rparr>"
  have b: "bit f 0 = bit (flags (hdr p x)) 0" "bit f 1 = bit (flags (hdr p x)) 1" "bit f 2 \<longrightarrow> bit f 1"
    using assms(2-4) has_bits(1-3) [of ?h] has_bits(1,2) [of "hdr p x"] g [of ?h] by simp_all
  have "flag_inv (upd x (\<lambda>h. h \<lparr>flags := f\<rparr>) p) L"
    using assms(1) b by (auto simp: pcache_inv_def flag_inv_def upd_def)
  then show ?thesis using assms(1) by (simp add: pcache_inv_def)
qed

lemma step_inv:
  assumes "pcache_step p q" and "pcache_inv p L"
  shows "\<exists>L'. pcache_inv q L'"
  using assms
proof (induction rule: pcache_step.induct)
  case (fetch_new p x n)
  then show ?case using FetchFinish_inv [of p L False x n] by (auto simp: has_bits pcache_inv_def flag_inv_def)
next
  case (fetch_old p x n)
  then show ?case using FetchFinish_inv [of p L True x n] by auto
next
  case (ref p x)
  then show ?case using Ref_inv by blast
next
  case (release p x)
  then show ?case using Release_inv by blast
next
  case (drop_page p x)
  then show ?case using Drop_inv by blast
next
  case (make_dirty p x)
  then show ?case using MakeDirty_inv by blast
next
  case (make_clean p x)
  then have "x \<in> set L" by (simp add: has_bits pcache_inv_def flag_inv_def)
  with make_clean show ?case using MakeClean_inv by blast
next
  case (clean_all k p q)
  have "length L < k + Suc (length L)" by simp
  from CleanAll_inv [OF clean_all(2) this] CleanAll_mono [OF clean_all(1), of "Suc (length L)"] show ?case by auto
next
  case (clear_writable k p q)
  then obtain q' where q: "clear_flags_loop k (PGHDR_NEED_SYNC OR PGHDR_WRITEABLE) (pDirty p) p = Some q'"
    "q = q' \<lparr>pSynced := pDirtyTail q'\<rparr>" by (auto simp: sqlite3PcacheClearWritable_def bind_eq_Some_conv)
  from clear_step_inv [OF clear_writable(2) q(1)] q(2) show ?case by (auto simp: bit_or_iff flag_bits)
next
  case (clear_sync k p q)
  then obtain q' where q: "clear_flags_loop k PGHDR_NEED_SYNC (pDirty p) p = Some q'"
    "q = q' \<lparr>pSynced := pDirtyTail q'\<rparr>" by (auto simp: sqlite3PcacheClearSyncFlags_def bind_eq_Some_conv)
  from clear_step_inv [OF clear_sync(2) q(1)] q(2) show ?case by (auto simp: flag_bits)
next
  case (attach p x)
  have "link_inv (upd x (\<lambda>h. h \<lparr>pPager := True\<rparr>) p) L = link_inv p L" by (rule link_inv_upd) simp
  moreover have "flags (hdr (upd x (\<lambda>h. h \<lparr>pPager := True\<rparr>) p) y) = flags (hdr p y)"
    "nRef (hdr (upd x (\<lambda>h. h \<lparr>pPager := True\<rparr>) p) y) = nRef (hdr p y)" for y by (simp_all add: upd_def)
  ultimately have "pcache_inv (upd x (\<lambda>h. h \<lparr>pPager := True\<rparr>) p) L"
    using attach(3) by (simp add: pcache_inv_def flag_inv_def ref_inv_def)
  then show ?case by blast
next
  case (move p x n pOther)
  then show ?case using Move_inv by blast
next
  case (truncate k n p q)
  have "length L < k + Suc (length L)" by simp
  from Truncate_inv [OF truncate(2) this, of n] Truncate_mono [OF truncate(1), of "Suc (length L)"] show ?case by auto
next
  case (pager_flags p x f)
  then show ?case using pager_flags_inv by blast
next
  case (cachesize p i)
  then show ?case by (auto simp: sqlite3PcacheSetCachesize_def Let_def pcache_inv_def intro!: exI [of _ L])
next
  case (spillsize p i)
  then show ?case by (auto simp: sqlite3PcacheSetSpillsize_def Let_def pcache_inv_def intro!: exI [of _ L])
next
  case (victim k p q x)
  have "length L < k + Suc (length L)" by simp
  from spill_victim_correct [OF victim(2) this] spill_victim_mono [OF victim(1), of "Suc (length L)"] show ?case by auto
qed

text \<open>The numbers of pages: which operations leave them alone.\<close>

definition page_ids :: "pcache \<Rightarrow> nat \<Rightarrow> nat \<times> bool" where
  "page_ids p x = (pgno (hdr p x), pPager (hdr p x))"

lemma page_ids_basic [simp]:
  "page_ids (p \<lparr>pDirty := a\<rparr>) = page_ids p" "page_ids (p \<lparr>pDirtyTail := a\<rparr>) = page_ids p" "page_ids (p \<lparr>pSynced := a\<rparr>) = page_ids p"
  "page_ids (p \<lparr>nRefSum := i\<rparr>) = page_ids p" "page_ids (p \<lparr>eCreate := n\<rparr>) = page_ids p" "page_ids (p \<lparr>szCache := i\<rparr>) = page_ids p"
  "page_ids (p \<lparr>szSpill := i\<rparr>) = page_ids p" "page_ids (call c p) = page_ids p"
  by (simp_all add: page_ids_def call_def fun_eq_iff)

lemma page_ids_upd [simp]:
  "page_ids (upd x (\<lambda>h. h \<lparr>flags := f h\<rparr>) p) = page_ids p" "page_ids (upd x (\<lambda>h. h \<lparr>nRef := g h\<rparr>) p) = page_ids p"
  "page_ids (upd x (\<lambda>h. h \<lparr>pDirtyNext := a h\<rparr>) p) = page_ids p" "page_ids (upd x (\<lambda>h. h \<lparr>pDirtyPrev := a h\<rparr>) p) = page_ids p"
  "page_ids (upd x (\<lambda>h. h \<lparr>pDirtyPrev := a h, pDirtyNext := b h\<rparr>) p) = page_ids p"
  "page_ids (upd x (\<lambda>h. h \<lparr>flags := f h, nRef := g h\<rparr>) p) = page_ids p"
  by (simp_all add: page_ids_def upd_def fun_eq_iff)

lemma page_ids_manage [simp]: "page_ids (pcacheManageDirtyList x a p) = page_ids p"
proof -
  have "page_ids (dirtylist_remove x q) = page_ids q" for q
    by (simp add: dirtylist_remove_def remove_prev_def remove_next_def remove_synced_def Let_def split: option.split)
  moreover have "page_ids (dirtylist_add x q) = page_ids q" for q
    by (simp add: dirtylist_add_def add_synced_def add_next_def add_link_def Let_def split: option.split)
  ultimately show ?thesis by (simp add: pcacheManageDirtyList_def Let_def)
qed

lemma page_ids_ops [simp]:
  "page_ids (sqlite3PcacheRef x p) = page_ids p" "page_ids (sqlite3PcacheRelease x p) = page_ids p" "page_ids (sqlite3PcacheDrop x p) = page_ids p"
  "page_ids (sqlite3PcacheMakeDirty x p) = page_ids p" "page_ids (sqlite3PcacheMakeClean x p) = page_ids p"
  "page_ids (sqlite3PcacheFetchFinish True x n p) = page_ids p"
  by (simp_all add: sqlite3PcacheRef_def sqlite3PcacheRelease_def sqlite3PcacheDrop_def sqlite3PcacheMakeDirty_def
      sqlite3PcacheMakeClean_def sqlite3PcacheFetchFinish_def pcacheUnpin_def Let_def)

lemma page_ids_loops:
  "sqlite3PcacheCleanAll k p = Some q \<Longrightarrow> page_ids q = page_ids p"
  "clear_flags_loop k f x p = Some q \<Longrightarrow> page_ids q = page_ids p"
  "truncate_loop k n x p = Some q \<Longrightarrow> page_ids q = page_ids p"
proof -
  show "sqlite3PcacheCleanAll k p = Some q \<Longrightarrow> page_ids q = page_ids p"
    by (induction k p rule: sqlite3PcacheCleanAll.induct) (auto split: option.splits)
  show "clear_flags_loop k f x p = Some q \<Longrightarrow> page_ids q = page_ids p"
    by (induction k f x p rule: clear_flags_loop.induct) (auto simp: Let_def)
  show "truncate_loop k n x p = Some q \<Longrightarrow> page_ids q = page_ids p"
    by (induction k n x p rule: truncate_loop.induct) (auto simp: Let_def split: if_splits)
qed

lemma page_ids_move:
  "page_ids (sqlite3PcacheMove x n pOther p) = (page_ids p)(x := (n, snd (page_ids p x)))"
proof -
  have u: "page_ids (upd x (\<lambda>h. h \<lparr>pgno := n\<rparr>) q) = (page_ids q)(x := (n, snd (page_ids q x)))" for q
    by (simp add: page_ids_def upd_def fun_eq_iff)
  show ?thesis by (cases pOther) (simp_all add: sqlite3PcacheMove_def Let_def u)
qed

text \<open>A page that belongs to a pager has a number.\<close>

definition num_inv :: "pcache \<Rightarrow> bool" where
  "num_inv p \<longleftrightarrow> (\<forall>x. snd (page_ids p x) \<longrightarrow> 0 < fst (page_ids p x))"

lemma num_inv_same: "page_ids q = page_ids p \<Longrightarrow> num_inv p \<Longrightarrow> num_inv q"
  by (simp add: num_inv_def)

lemma num_inv_step: "pcache_step p q \<Longrightarrow> num_inv p \<Longrightarrow> num_inv q"
proof (induction rule: pcache_step.induct)
  case (fetch_new p x n)
  then show ?case by (simp add: num_inv_def sqlite3PcacheFetchFinish_def pcacheFetchFinishWithInit_def page_ids_def upd_def)
next
  case (clean_all k p q)
  then show ?case using page_ids_loops(1) num_inv_same by blast
next
  case (clear_writable k p q)
  then show ?case
    by (auto simp: sqlite3PcacheClearWritable_def bind_eq_Some_conv dest!: page_ids_loops(2) intro: num_inv_same)
next
  case (clear_sync k p q)
  then show ?case
    by (auto simp: sqlite3PcacheClearSyncFlags_def bind_eq_Some_conv dest!: page_ids_loops(2) intro: num_inv_same)
next
  case (attach p x)
  then show ?case by (simp add: num_inv_def page_ids_def upd_def)
next
  case (move p x n pOther)
  then show ?case by (simp add: num_inv_def page_ids_move)
next
  case (truncate k n p q)
  then show ?case
    by (auto simp: sqlite3PcacheTruncate_def bind_eq_Some_conv dest!: page_ids_loops(3) intro: num_inv_same split: if_splits)
next
  case (spillsize p i)
  then show ?case by (simp add: sqlite3PcacheSetSpillsize_def Let_def num_inv_def)
next
  case (victim k p q x)
  then show ?case by (auto simp: spill_victim_def bind_eq_Some_conv Let_def num_inv_def split: option.splits)
qed (simp_all add: num_inv_def sqlite3PcacheSetCachesize_def Let_def)

lemma reachable_num: "pcache_reachable p \<Longrightarrow> num_inv p"
proof (induction rule: pcache_reachable.induct)
  case (opened ok sz ext purgeable p)
  then show ?case
    by (auto simp: sqlite3PcacheOpen_def sqlite3PcacheSetPageSize_def num_inv_def page_ids_def call_def split: if_splits)
next
  case (stepped p q)
  then show ?case using num_inv_step by blast
qed

lemma reachable_inv: "pcache_reachable p \<Longrightarrow> \<exists>L. pcache_inv p L"
proof (induction rule: pcache_reachable.induct)
  case (opened ok sz ext purgeable p)
  then show ?case using Open_inv by blast
next
  case (stepped p q)
  then show ?case using step_inv by blast
qed

lemma inv_sanity:
  assumes "pcache_inv p L" and "length L < k" and "num_inv p"
  shows "sqlite3PcachePageSanity k p x"
proof -
  have n0: "pgno (hdr p x) > 0 \<or> \<not> pPager (hdr p x)" using assms(3) by (auto simp: num_inv_def page_ids_def)
  have l: "dseg (hdr p) None L None" "pDirty p = first_of L" using assms(1) by (simp_all add: pcache_inv_def link_inv_def)
  have w: "dirty_walk k (hdr p) (pDirty p) = Some L" using dirty_walk_correct [OF l(1) assms(2)] l(2) by simp
  have f: "has (hdr p x) PGHDR_CLEAN \<longleftrightarrow> x \<notin> set L" "has (hdr p x) PGHDR_DIRTY \<longleftrightarrow> x \<in> set L"
    "has (hdr p x) PGHDR_WRITEABLE \<longrightarrow> x \<in> set L"
    using assms(1) by (simp_all add: has_bits pcache_inv_def flag_inv_def)
  show ?thesis
  proof (cases "x \<in> set L")
    case False
    with f w n0 show ?thesis by (auto simp: sqlite3PcachePageSanity_def pageNotOnDirtyList_def)
  next
    case True
    then obtain A B where L: "L = A @ x # B" using split_list by metis
    have s: "dseg (hdr p) None (A @ x # B) None" using l(1) L by simp
    have n: "pDirtyNext (hdr p x) = first_of B" "pDirtyPrev (hdr p x) = last_of A"
      using s by (simp_all add: dseg_append last_of_def first_of_def)
    have "case pDirtyNext (hdr p x) of None \<Rightarrow> True | Some y \<Rightarrow> pDirtyPrev (hdr p y) = Some x"
      unfolding n using s by (cases B) (simp_all add: dseg_append first_of_def)
    moreover have "case pDirtyPrev (hdr p x) of None \<Rightarrow> True | Some y \<Rightarrow> pDirtyNext (hdr p y) = Some x"
      unfolding n using s by (cases A rule: rev_cases) (simp_all add: dseg_append last_of_def)
    moreover have "pDirtyPrev (hdr p x) \<noteq> None \<or> pDirty p = Some x"
      unfolding n l(2) L by (cases A) (simp_all add: last_of_def first_of_def)
    ultimately show ?thesis using f w True n0 by (simp add: sqlite3PcachePageSanity_def pageOnDirtyList_def)
  qed
qed

subsection \<open>Properties\<close>

lemma pcache_sane_parts:
  assumes "pcache_reachable p"
  shows "\<exists>n. \<forall>k > n. \<forall>x. sqlite3PcachePageSanity k p x"
    and "eCreate p = (if bPurgeable p \<and> pDirty p \<noteq> None then 1 else 2)"
    and "\<exists>S. finite S \<and> (\<forall>x. x \<notin> S \<longrightarrow> nRef (hdr p x) = 0) \<and> sqlite3PcacheRefCount p = (\<Sum>x \<in> S. nRef (hdr p x))"
    and "0 \<le> sqlite3PcachePageRefcount x p"
proof -
  obtain L where L: "pcache_inv p L" using reachable_inv [OF assms] by blast
  show "\<exists>n. \<forall>k > n. \<forall>x. sqlite3PcachePageSanity k p x" using inv_sanity [OF L] reachable_num [OF assms] by blast
  show "eCreate p = (if bPurgeable p \<and> pDirty p \<noteq> None then 1 else 2)"
    using L by (auto simp: pcache_inv_def link_inv_def first_of_def)
  show "\<exists>S. finite S \<and> (\<forall>x. x \<notin> S \<longrightarrow> nRef (hdr p x) = 0) \<and> sqlite3PcacheRefCount p = (\<Sum>x \<in> S. nRef (hdr p x))"
    "0 \<le> sqlite3PcachePageRefcount x p"
    using L by (auto simp: pcache_inv_def ref_inv_def sqlite3PcacheRefCount_def sqlite3PcachePageRefcount_def)
qed

text \<open>
  C22. In every state that any sequence of calls can reach, the sanity check of the debug
  build holds for every page: a page of a pager has a number, clean pages are off the dirty list, dirty pages are on it with
  consistent links in both directions, writeable pages are dirty. Moreover \<open>eCreate\<close> tells
  whether a purgeable cache has dirty pages, and \<open>nRefSum\<close> is the sum of the reference
  counts, none of which is negative.
\<close>

theorem pcache_sane:
  assumes "pcache_reachable p"
  shows "(\<exists>n. \<forall>k > n. \<forall>x. sqlite3PcachePageSanity k p x)
    \<and> (eCreate p = (if bPurgeable p \<and> pDirty p \<noteq> None then 1 else 2))
    \<and> (\<exists>S. finite S \<and> (\<forall>x. x \<notin> S \<longrightarrow> nRef (hdr p x) = 0) \<and> sqlite3PcacheRefCount p = (\<Sum>x \<in> S. nRef (hdr p x)))
    \<and> (0 \<le> sqlite3PcachePageRefcount x p)"
  using pcache_sane_parts [OF assms] by blast

definition example_open :: pcache where
  "example_open = snd (sqlite3PcacheOpen True 4096 136 True)"

definition example_dirty :: pcache where
  "example_dirty = sqlite3PcacheRelease 10 (sqlite3PcacheMakeDirty 11 (sqlite3PcacheFetchFinish False 11 2
     (sqlite3PcacheMakeDirty 10 (sqlite3PcacheFetchFinish False 10 3 example_open))))"

lemma example_reachable: "pcache_reachable example_dirty"
proof -
  have o: "pcache_reachable example_open"
    by (rule opened [of True 4096 136 True]) (simp add: example_open_def sqlite3PcacheOpen_def sqlite3PcacheSetPageSize_def)
  let ?a = "sqlite3PcacheFetchFinish False 10 3 example_open"
  let ?b = "sqlite3PcacheMakeDirty 10 ?a"
  let ?c = "sqlite3PcacheFetchFinish False 11 2 ?b"
  let ?d = "sqlite3PcacheMakeDirty 11 ?c"
  have "nRef (hdr example_open 10) = 0 \<and> \<not> has (hdr example_open 10) PGHDR_DIRTY \<and> 0 < nRef (hdr ?a 10)
     \<and> nRef (hdr ?b 11) = 0 \<and> \<not> has (hdr ?b 11) PGHDR_DIRTY \<and> 0 < nRef (hdr ?c 11) \<and> 0 < nRef (hdr ?d 10)"
    by code_simp
  then have h: "nRef (hdr example_open 10) = 0" "\<not> has (hdr example_open 10) PGHDR_DIRTY" "0 < nRef (hdr ?a 10)"
     "nRef (hdr ?b 11) = 0" "\<not> has (hdr ?b 11) PGHDR_DIRTY" "0 < nRef (hdr ?c 11)" "0 < nRef (hdr ?d 10)" by blast+
  have a: "pcache_reachable ?a" using stepped [OF o] fetch_new [OF h(1,2)] by blast
  have b: "pcache_reachable ?b" using stepped [OF a] make_dirty [OF h(3)] by blast
  have c: "pcache_reachable ?c" using stepped [OF b] fetch_new [OF h(4,5)] by blast
  have d: "pcache_reachable ?d" using stepped [OF c] make_dirty [OF h(6)] by blast
  show ?thesis unfolding example_dirty_def using stepped [OF d] release [OF h(7)] by blast
qed

theorem pcache_sane_witness:
  "\<exists>p. pcache_reachable p \<and> pPager (hdr p 11) \<and> has (hdr p 11) PGHDR_DIRTY \<and> (\<exists>n. \<forall>k > n. \<forall>x. sqlite3PcachePageSanity k p x)"
proof -
  let ?p = "upd 11 (\<lambda>h. h \<lparr>pPager := True\<rparr>) example_dirty"
  have "0 < nRef (hdr example_dirty 11) \<and> pgno (hdr example_dirty 11) \<noteq> 0 \<and> has (hdr example_dirty 11) PGHDR_DIRTY" by code_simp
  then have d: "0 < nRef (hdr example_dirty 11)" "pgno (hdr example_dirty 11) \<noteq> 0" "has (hdr example_dirty 11) PGHDR_DIRTY" by blast+
  have r: "pcache_reachable ?p" using stepped [OF example_reachable] attach [OF d(1,2)] by blast
  moreover have "pPager (hdr ?p 11)" "has (hdr ?p 11) PGHDR_DIRTY" using d(3) by (simp_all add: upd_def has_def)
  ultimately show ?thesis using pcache_sane [OF r] by blast
qed

text \<open>
  C23. \<open>sqlite3PcacheDirtyList\<close> returns exactly the dirty pages, each once, in ascending
  order of page numbers, in every reachable state with fewer than \<open>2^31\<close> of them.
\<close>

theorem dirty_list_sorted:
  assumes "pcache_reachable p" and "card {x. has (hdr p x) PGHDR_DIRTY} < 2 ^ 31"
    and "card {x. has (hdr p x) PGHDR_DIRTY} < k"
  shows "\<exists>xs. sqlite3PcacheDirtyList k p = Some xs \<and> distinct xs \<and> sorted (map (\<lambda>x. pgno (hdr p x)) xs)
     \<and> set xs = {x. has (hdr p x) PGHDR_DIRTY}"
proof -
  obtain L where L: "pcache_inv p L" using reachable_inv [OF assms(1)] by blast
  then have l: "dseg (hdr p) None L None" "pDirty p = first_of L" "distinct L"
    "set L = {x. has (hdr p x) PGHDR_DIRTY}"
    by (auto simp: pcache_inv_def link_inv_def flag_inv_def has_bits)
  then have c: "length L < k" "length L < 2 ^ 31" using assms(2,3) distinct_card [OF l(3)] by simp_all
  have w: "dirty_walk k (hdr p) (pDirty p) = Some L" using dirty_walk_correct [OF l(1) c(1)] l(2) by simp
  from pcacheSortDirtyList_correct [OF c(2), of "\<lambda>x. pgno (hdr p x)"] obtain ys where
    ys: "pcacheSortDirtyList (\<lambda>x. pgno (hdr p x)) L = Some ys" "sorted (map (\<lambda>x. pgno (hdr p x)) ys)" "mset ys = mset L"
    by blast
  have "distinct ys" "set ys = set L" using ys(3) l(3) by (metis mset_eq_imp_distinct_iff, metis mset_eq_setD)
  then show ?thesis using w ys(1,2) l(4) by (simp add: sqlite3PcacheDirtyList_def)
qed

lemma dirty_walk_mono: "dirty_walk k h x = Some L \<Longrightarrow> dirty_walk (k + d) h x = Some L"
  by (induction k h x arbitrary: L rule: dirty_walk.induct) (auto split: Option.bind_splits)

lemma example_dirty_pages: "{x. has (hdr example_dirty x) PGHDR_DIRTY} \<subseteq> {10, 11}"
proof -
  obtain L where L: "pcache_inv example_dirty L" using reachable_inv [OF example_reachable] by blast
  then have l: "dseg (hdr example_dirty) None L None" "pDirty example_dirty = first_of L"
    "set L = {x. has (hdr example_dirty x) PGHDR_DIRTY}"
    by (auto simp: pcache_inv_def link_inv_def flag_inv_def has_bits)
  have w: "dirty_walk 5 (hdr example_dirty) (pDirty example_dirty) = Some [10, 11]" by code_simp
  have "dirty_walk (5 + Suc (length L)) (hdr example_dirty) (pDirty example_dirty) = Some L"
    by (simp only: l(2)) (rule dirty_walk_correct [OF l(1)], simp)
  with dirty_walk_mono [OF w, of "Suc (length L)"] have "L = [10, 11]" by (metis option.inject)
  with l(3) show ?thesis by auto
qed

theorem dirty_list_sorted_witness: "\<exists>xs. sqlite3PcacheDirtyList 5 example_dirty = Some xs \<and> distinct xs"
proof -
  have "card {x. has (hdr example_dirty x) PGHDR_DIRTY} \<le> card {10, 11 :: nat}"
    by (rule card_mono) (use example_dirty_pages in simp_all)
  then have h: "card {x. has (hdr example_dirty x) PGHDR_DIRTY} < 2 ^ 31"
    "card {x. has (hdr example_dirty x) PGHDR_DIRTY} < 5" by simp_all
  from dirty_list_sorted [OF example_reachable h] show ?thesis by blast
qed

text \<open>
  C24. The page chosen for spilling is dirty and nobody holds a reference to it, and none is
  chosen only if every dirty page is referenced, although \<open>pSynced\<close> is just a hint.
\<close>

theorem spill_victim_safe:
  assumes "pcache_reachable p" and "card {x. has (hdr p x) PGHDR_DIRTY} < k"
  shows "\<exists>q x. spill_victim k p = Some (q, x) \<and>
     (case x of
        Some y \<Rightarrow> has (hdr p y) PGHDR_DIRTY \<and> nRef (hdr p y) = 0
      | None \<Rightarrow> \<forall>y. has (hdr p y) PGHDR_DIRTY \<longrightarrow> nRef (hdr p y) \<noteq> 0)"
proof -
  obtain L where L: "pcache_inv p L" using reachable_inv [OF assms(1)] by blast
  then have l: "distinct L" "set L = {x. has (hdr p x) PGHDR_DIRTY}"
    by (auto simp: pcache_inv_def link_inv_def flag_inv_def has_bits)
  then have "length L < k" using assms(2) distinct_card [OF l(1)] by simp
  from spill_victim_correct [OF L this] l(2) show ?thesis by (fastforce split: option.splits)
qed

theorem spill_victim_safe_witness:
  "\<exists>q x. spill_victim 5 example_dirty = Some (q, x)"
proof -
  have "card {x. has (hdr example_dirty x) PGHDR_DIRTY} \<le> card {10, 11 :: nat}"
    by (rule card_mono) (use example_dirty_pages in simp_all)
  then have h: "card {x. has (hdr example_dirty x) PGHDR_DIRTY} < 5" by simp
  from spill_victim_safe [OF example_reachable h] show ?thesis by blast
qed

lemma clean_and_truncate_parts:
  assumes "pcache_reachable p" and "card {x. has (hdr p x) PGHDR_DIRTY} < k"
  shows "\<exists>q. sqlite3PcacheCleanAll k p = Some q \<and> pDirty q = None \<and> (\<forall>x. \<not> has (hdr q x) PGHDR_DIRTY)"
    and "\<exists>q. sqlite3PcacheTruncate k n p = Some q \<and>
      (\<forall>x. has (hdr q x) PGHDR_DIRTY \<longleftrightarrow> has (hdr p x) PGHDR_DIRTY \<and> pgno (hdr p x) \<le> n)"
proof -
  obtain L where L: "pcache_inv p L" using reachable_inv [OF assms(1)] by blast
  then have l: "distinct L" "set L = {x. has (hdr p x) PGHDR_DIRTY}"
    by (auto simp: pcache_inv_def link_inv_def flag_inv_def has_bits)
  then have k: "length L < k" using assms(2) distinct_card [OF l(1)] by simp
  have d: "pcache_inv q M \<Longrightarrow> has (hdr q x) PGHDR_DIRTY \<longleftrightarrow> x \<in> set M" for q M x
    by (simp add: pcache_inv_def flag_inv_def has_bits)
  from CleanAll_inv [OF L k] obtain q where "sqlite3PcacheCleanAll k p = Some q" "pcache_inv q []" by blast
  then show "\<exists>q. sqlite3PcacheCleanAll k p = Some q \<and> pDirty q = None \<and> (\<forall>x. \<not> has (hdr q x) PGHDR_DIRTY)"
    using d [of q "[]"] by (auto simp: pcache_inv_def link_inv_def first_of_def)
  from Truncate_inv [OF L k, of n] obtain q where
    "sqlite3PcacheTruncate k n p = Some q" "pcache_inv q (filter (\<lambda>x. pgno (hdr p x) \<le> n) L)" by blast
  then show "\<exists>q. sqlite3PcacheTruncate k n p = Some q \<and>
      (\<forall>x. has (hdr q x) PGHDR_DIRTY \<longleftrightarrow> has (hdr p x) PGHDR_DIRTY \<and> pgno (hdr p x) \<le> n)"
    using d l(2) by auto
qed

text \<open>
  C25. \<open>sqlite3PcacheCleanAll\<close> ends, and afterwards no page is dirty; truncation ends, and
  afterwards exactly the dirty pages up to the given number are dirty still.
\<close>

theorem clean_and_truncate:
  assumes "pcache_reachable p" and "card {x. has (hdr p x) PGHDR_DIRTY} < k"
  shows "(\<exists>q. sqlite3PcacheCleanAll k p = Some q \<and> pDirty q = None \<and> (\<forall>x. \<not> has (hdr q x) PGHDR_DIRTY))
    \<and> (\<exists>q. sqlite3PcacheTruncate k n p = Some q \<and>
      (\<forall>x. has (hdr q x) PGHDR_DIRTY \<longleftrightarrow> has (hdr p x) PGHDR_DIRTY \<and> pgno (hdr p x) \<le> n))"
  using clean_and_truncate_parts [OF assms] by blast

theorem clean_and_truncate_witness:
  "\<exists>q. sqlite3PcacheCleanAll 5 example_dirty = Some q \<and> pDirty q = None"
proof -
  have "card {x. has (hdr example_dirty x) PGHDR_DIRTY} \<le> card {10, 11 :: nat}"
    by (rule card_mono) (use example_dirty_pages in simp_all)
  then have h: "card {x. has (hdr example_dirty x) PGHDR_DIRTY} < 5" by simp
  from clean_and_truncate [OF example_reachable h] show ?thesis by blast
qed

text \<open>A negative spill size of \<open>2^31\<close> kilobytes wraps around in the conversion to \<open>int\<close>.\<close>

lemma spillsize_wraps:
  "szSpill (snd (sqlite3PcacheSetSpillsize (- (2 ^ 31)) (example_open \<lparr>szPage := 512\<rparr>))) < 0"
  by (simp add: sqlite3PcacheSetSpillsize_def example_open_def sqlite3PcacheOpen_def sqlite3PcacheSetPageSize_def
      int_cast_def Let_def call_def)

end
