(* ===== verification/Memdb.thy ===== *)
theory Memdb
  imports Prelude "HOL-Library.Multiset"
begin

text \<open>
  The in-memory VFS (\<open>memdb.c\<close>): stores of bytes that grow on demand, their registry by
  name, file handles on them and the lock protocol between the handles of one store. Stores
  live in a heap addressed by numbers; following a pointer to a store that is not allocated,
  or touching bytes outside the allocation, is \<open>None\<close>. Each method holds the store's
  mutex (and the registry's, where it uses the registry) from its first access to its last,
  so that methods are atomic steps. Sizes are \<open>i64\<close> values, modelled as integers. What the
  allocator does is a parameter.
\<close>

unbundle bit_operations_syntax

subsection \<open>Stores, files and the registry\<close>

definition SQLITE_DESERIALIZE_FREEONCLOSE :: u32 where "SQLITE_DESERIALIZE_FREEONCLOSE = 1"
definition SQLITE_DESERIALIZE_RESIZEABLE :: u32 where "SQLITE_DESERIALIZE_RESIZEABLE = 2"
definition SQLITE_DESERIALIZE_READONLY :: u32 where "SQLITE_DESERIALIZE_READONLY = 4"

lemmas deserialize_flags = SQLITE_DESERIALIZE_FREEONCLOSE_def SQLITE_DESERIALIZE_RESIZEABLE_def
  SQLITE_DESERIALIZE_READONLY_def

definition SQLITE_LOCK_NONE :: nat where "SQLITE_LOCK_NONE = 0"
definition SQLITE_LOCK_SHARED :: nat where "SQLITE_LOCK_SHARED = 1"
definition SQLITE_LOCK_RESERVED :: nat where "SQLITE_LOCK_RESERVED = 2"
definition SQLITE_LOCK_PENDING :: nat where "SQLITE_LOCK_PENDING = 3"
definition SQLITE_LOCK_EXCLUSIVE :: nat where "SQLITE_LOCK_EXCLUSIVE = 4"

lemmas lock_levels = SQLITE_LOCK_NONE_def SQLITE_LOCK_SHARED_def SQLITE_LOCK_RESERVED_def SQLITE_LOCK_PENDING_def
  SQLITE_LOCK_EXCLUSIVE_def

record mem_store =
  sz :: int
  szAlloc :: int
  szMax :: int
  aData :: "u8 list"
  nMmap :: int
  mFlags :: u32
  nRdLock :: int
  nWrLock :: int
  nRef :: int
  zFName :: "string option"

record mem_file =
  pStore :: nat
  eLock :: nat

text \<open>\<open>apMemStore\<close> is the registry \<open>memdb_g\<close>, with \<open>nMemStore\<close> its length; \<open>heap\<close> holds the
  allocated stores and \<open>files\<close> the open handles.\<close>

record mem_fs =
  apMemStore :: "nat list"
  heap :: "nat \<Rightarrow> mem_store option"
  files :: "nat \<Rightarrow> mem_file option"

subsection \<open>Reading and writing\<close>

definition memdbRead :: "int \<Rightarrow> int \<Rightarrow> mem_store \<Rightarrow> nat \<times> u8 list" where
  "memdbRead iAmt iOfst p =
     (if iOfst + iAmt > sz p then
        let zBuf = replicate (nat iAmt) 0;
            got = (if iOfst < sz p then take (nat (sz p - iOfst)) (drop (nat iOfst) (aData p)) else [])
        in (SQLITE_IOERR_SHORT_READ, got @ drop (length got) zBuf)
      else (SQLITE_OK, take (nat iAmt) (drop (nat iOfst) (aData p))))"

text \<open>\<open>pNew\<close>: what the bytes of a larger allocation beyond the old content hold, or \<open>None\<close>
  when the allocation fails.\<close>

definition memdbEnlarge :: "(nat \<Rightarrow> u8) option \<Rightarrow> int \<Rightarrow> mem_store \<Rightarrow> nat \<times> mem_store" where
  "memdbEnlarge pNew newSz p =
     (if mFlags p AND SQLITE_DESERIALIZE_RESIZEABLE = 0 \<or> nMmap p > 0 then (SQLITE_FULL, p)
      else if newSz > szMax p then (SQLITE_FULL, p)
      else
        let newSz = newSz * 2;
            newSz = (if newSz > szMax p then szMax p else newSz)
        in case pNew of
             None \<Rightarrow> (SQLITE_IOERR_NOMEM, p)
           | Some fresh \<Rightarrow>
               (SQLITE_OK,
                p \<lparr>aData := take (nat newSz) (aData p) @ map fresh [length (aData p)..<nat newSz],
                   szAlloc := newSz\<rparr>))"

definition memdbWrite :: "(nat \<Rightarrow> u8) option \<Rightarrow> u8 list \<Rightarrow> int \<Rightarrow> mem_store \<Rightarrow> (nat \<times> mem_store) option" where
  "memdbWrite pNew z iOfst p =
     (let iAmt = int (length z) in
      if mFlags p AND SQLITE_DESERIALIZE_READONLY \<noteq> 0 then Some (SQLITE_IOERR_WRITE, p)
      else
        let (rc, p1) =
          (if iOfst + iAmt > sz p \<and> iOfst + iAmt > szAlloc p then memdbEnlarge pNew (iOfst + iAmt) p
           else (SQLITE_OK, p))
        in if rc \<noteq> SQLITE_OK then Some (rc, p1)
           else do {
             p2 \<leftarrow>
               (if iOfst + iAmt > sz p1 then do {
                  a \<leftarrow> (if iOfst > sz p1
                       then wrs (aData p1) (nat (sz p1)) (replicate (nat (iOfst - sz p1)) 0)
                       else Some (aData p1));
                  Some (p1 \<lparr>aData := a, sz := iOfst + iAmt\<rparr>) }
                else Some p1);
             a \<leftarrow> wrs (aData p2) (nat iOfst) z;
             Some (SQLITE_OK, p2 \<lparr>aData := a\<rparr>) })"

definition memdbTruncate :: "int \<Rightarrow> mem_store \<Rightarrow> nat \<times> mem_store" where
  "memdbTruncate nByte p = (if nByte > sz p then (SQLITE_CORRUPT, p) else (SQLITE_OK, p \<lparr>sz := nByte\<rparr>))"

definition memdbSync :: "nat" where "memdbSync = SQLITE_OK"

definition memdbFileSize :: "mem_store \<Rightarrow> nat \<times> int" where
  "memdbFileSize p = (SQLITE_OK, sz p)"

definition SQLITE_FCNTL_VFSNAME :: nat where "SQLITE_FCNTL_VFSNAME = 12"
definition SQLITE_FCNTL_SIZE_LIMIT :: nat where "SQLITE_FCNTL_SIZE_LIMIT = 36"

text \<open>The text that \<open>SQLITE_FCNTL_VFSNAME\<close> formats is not modelled.\<close>

definition memdbFileControl :: "nat \<Rightarrow> int \<Rightarrow> mem_store \<Rightarrow> nat \<times> int \<times> mem_store" where
  "memdbFileControl op arg p =
     (let rc = (if op = SQLITE_FCNTL_VFSNAME then SQLITE_OK else SQLITE_NOTFOUND)
      in if op = SQLITE_FCNTL_SIZE_LIMIT then
           let iLimit = (if arg < sz p then if arg < 0 then szMax p else sz p else arg)
           in (SQLITE_OK, iLimit, p \<lparr>szMax := iLimit\<rparr>)
         else (rc, arg, p))"

definition memdbFetch :: "int \<Rightarrow> int \<Rightarrow> mem_store \<Rightarrow> nat \<times> int option \<times> mem_store" where
  "memdbFetch iOfst iAmt p =
     (if iOfst + iAmt > sz p \<or> mFlags p AND SQLITE_DESERIALIZE_RESIZEABLE \<noteq> 0 then (SQLITE_OK, None, p)
      else (SQLITE_OK, Some iOfst, p \<lparr>nMmap := nMmap p + 1\<rparr>))"

definition memdbUnfetch :: "mem_store \<Rightarrow> nat \<times> mem_store" where
  "memdbUnfetch p = (SQLITE_OK, p \<lparr>nMmap := nMmap p - 1\<rparr>)"

subsection \<open>Locks\<close>

definition memdbLock :: "nat \<Rightarrow> mem_file \<Rightarrow> mem_store \<Rightarrow> nat \<times> mem_file \<times> mem_store" where
  "memdbLock lck this p =
     (if lck \<le> eLock this then (SQLITE_OK, this, p)
      else
        let (rc, p) =
          (if lck > SQLITE_LOCK_SHARED \<and> mFlags p AND SQLITE_DESERIALIZE_READONLY \<noteq> 0 then (SQLITE_READONLY, p)
           else if lck = SQLITE_LOCK_SHARED then
             (if nWrLock p > 0 then (SQLITE_BUSY, p) else (SQLITE_OK, p \<lparr>nRdLock := nRdLock p + 1\<rparr>))
           else if lck = SQLITE_LOCK_RESERVED \<or> lck = SQLITE_LOCK_PENDING then
             (if eLock this = SQLITE_LOCK_SHARED then
                if nWrLock p > 0 then (SQLITE_BUSY, p) else (SQLITE_OK, p \<lparr>nWrLock := 1\<rparr>)
              else (SQLITE_OK, p))
           else
             (if nRdLock p > 1 then (SQLITE_BUSY, p)
              else if eLock this = SQLITE_LOCK_SHARED then (SQLITE_OK, p \<lparr>nWrLock := 1\<rparr>)
              else (SQLITE_OK, p)))
        in (rc, if rc = SQLITE_OK then this \<lparr>eLock := lck\<rparr> else this, p))"

text \<open>The assertions of \<open>memdbLock\<close>, for a request the store has not granted already.\<close>

definition memdbLock_asserts :: "nat \<Rightarrow> mem_file \<Rightarrow> mem_store \<Rightarrow> bool" where
  "memdbLock_asserts lck this p \<longleftrightarrow>
     (nWrLock p = 0 \<or> nWrLock p = 1)
     \<and> (eLock this \<le> SQLITE_LOCK_SHARED \<or> nWrLock p = 1)
     \<and> (eLock this = SQLITE_LOCK_NONE \<or> nRdLock p \<ge> 1)
     \<and> (if lck = SQLITE_LOCK_SHARED then eLock this = SQLITE_LOCK_NONE
        else if lck = SQLITE_LOCK_RESERVED \<or> lck = SQLITE_LOCK_PENDING then eLock this = SQLITE_LOCK_SHARED
        else lck = SQLITE_LOCK_EXCLUSIVE \<and> eLock this \<ge> SQLITE_LOCK_SHARED)"

definition memdbUnlock :: "nat \<Rightarrow> mem_file \<Rightarrow> mem_store \<Rightarrow> nat \<times> mem_file \<times> mem_store" where
  "memdbUnlock lck this p =
     (if lck \<ge> eLock this then (SQLITE_OK, this, p)
      else
        let p =
          (if lck = SQLITE_LOCK_SHARED then
             (if eLock this > SQLITE_LOCK_SHARED then p \<lparr>nWrLock := nWrLock p - 1\<rparr> else p)
           else
             let p = (if eLock this > SQLITE_LOCK_SHARED then p \<lparr>nWrLock := nWrLock p - 1\<rparr> else p)
             in p \<lparr>nRdLock := nRdLock p - 1\<rparr>)
        in (SQLITE_OK, this \<lparr>eLock := lck\<rparr>, p))"

subsection \<open>Opening and closing\<close>

fun store_named :: "(nat \<Rightarrow> mem_store option) \<Rightarrow> string \<Rightarrow> nat list \<Rightarrow> nat option option" where
  "store_named h zName [] = Some None"
| "store_named h zName (p # ps) = do {
     st \<leftarrow> h p;
     if zFName st = Some zName then Some (Some p) else store_named h zName ps }"

definition shared_name :: "string \<Rightarrow> bool" where
  "shared_name zName \<longleftrightarrow> length zName > 1 \<and> (hd zName = CHR ''/'' \<or> hd zName = CHR 0x5C)"

definition mem_store_new :: "int \<Rightarrow> mem_store" where
  "mem_store_new mxMemdbSize =
     \<lparr>sz = 0, szAlloc = 0, szMax = mxMemdbSize, aData = [], nMmap = 0,
      mFlags = SQLITE_DESERIALIZE_RESIZEABLE OR SQLITE_DESERIALIZE_FREEONCLOSE,
      nRdLock = 0, nWrLock = 0, nRef = 0, zFName = None\<rparr>"

text \<open>\<open>pNew\<close>: the address of a new store, or \<open>None\<close> when it cannot be allocated; \<open>apNew\<close> and
  \<open>pMutex\<close>: whether the registry can be enlarged and the mutex allocated. \<open>fd\<close> is the file
  handle, which is open afterwards if the result is \<open>SQLITE_OK\<close>.\<close>

definition memdbOpen ::
  "int \<Rightarrow> nat option \<Rightarrow> bool \<Rightarrow> bool \<Rightarrow> string \<Rightarrow> nat \<Rightarrow> mem_fs \<Rightarrow> (nat \<times> mem_fs) option" where
  "memdbOpen mxMemdbSize pNew apNew pMutex zName fd g =
     (if shared_name zName then do {
        found \<leftarrow> store_named (heap g) zName (apMemStore g);
        (case found of
           Some p \<Rightarrow> do {
             st \<leftarrow> heap g p;
             Some (SQLITE_OK,
               g \<lparr>heap := (heap g)(p \<mapsto> st \<lparr>nRef := nRef st + 1\<rparr>),
                  files := (files g)(fd \<mapsto> \<lparr>pStore = p, eLock = SQLITE_LOCK_NONE\<rparr>)\<rparr>) }
         | None \<Rightarrow>
             (case pNew of
                None \<Rightarrow> Some (SQLITE_NOMEM, g)
              | Some p \<Rightarrow>
                  if \<not> apNew \<or> \<not> pMutex then Some (SQLITE_NOMEM, g)
                  else Some (SQLITE_OK,
                    g \<lparr>apMemStore := apMemStore g @ [p],
                       heap := (heap g)(p \<mapsto> (mem_store_new mxMemdbSize) \<lparr>zFName := Some zName, nRef := 1\<rparr>),
                       files := (files g)(fd \<mapsto> \<lparr>pStore = p, eLock = SQLITE_LOCK_NONE\<rparr>)\<rparr>))) }
      else
        (case pNew of
           None \<Rightarrow> Some (SQLITE_NOMEM, g)
         | Some p \<Rightarrow>
             Some (SQLITE_OK,
               g \<lparr>heap := (heap g)(p \<mapsto> mem_store_new mxMemdbSize),
                  files := (files g)(fd \<mapsto> \<lparr>pStore = p, eLock = SQLITE_LOCK_NONE\<rparr>)\<rparr>)))"

text \<open>The last element of the registry takes the place of a removed one.\<close>

fun unregister :: "nat \<Rightarrow> bool \<Rightarrow> nat list \<Rightarrow> nat list \<Rightarrow> nat list" where
  "unregister p last_user before [] = before"
| "unregister p last_user before (q # qs) =
     (if q = p then
        if last_user then butlast (before @ last (q # qs) # qs) else before @ q # qs
      else unregister p last_user (before @ [q]) qs)"

definition memdbClose :: "nat \<Rightarrow> mem_fs \<Rightarrow> (nat \<times> mem_fs) option" where
  "memdbClose fd g = do {
     this \<leftarrow> files g fd;
     let p = pStore this;
     st \<leftarrow> heap g p;
     let g = (if zFName st \<noteq> None
              then g \<lparr>apMemStore := unregister p (nRef st = 1) [] (apMemStore g)\<rparr> else g);
     let st = st \<lparr>nRef := nRef st - 1\<rparr>;
     Some (SQLITE_OK,
       g \<lparr>heap := (heap g)(p := if nRef st \<le> 0 then None else Some st),
          files := (files g)(fd := None)\<rparr>) }"

text \<open>The part of \<open>sqlite3_deserialize\<close> that fills the store of a freshly reopened file, and
  the part of \<open>sqlite3_serialize\<close> for an in-memory database (\<open>pOut\<close>: whether the copy can be
  allocated).\<close>

definition sqlite3_deserialize :: "int \<Rightarrow> u8 list \<Rightarrow> int \<Rightarrow> int \<Rightarrow> u32 \<Rightarrow> mem_store \<Rightarrow> mem_store" where
  "sqlite3_deserialize mxMemdbSize pData szDb szBuf flgs st =
     (let st = st \<lparr>aData := pData, sz := szDb, szAlloc := szBuf, szMax := szBuf\<rparr>;
          st = (if szMax st < mxMemdbSize then st \<lparr>szMax := mxMemdbSize\<rparr> else st)
      in st \<lparr>mFlags := flgs\<rparr>)"

definition sqlite3_serialize :: "bool \<Rightarrow> mem_store \<Rightarrow> int \<times> u8 list option" where
  "sqlite3_serialize pOut st = (sz st, if pOut then Some (take (nat (sz st)) (aData st)) else None)"

subsection \<open>The content of one store\<close>

text \<open>What a file is for its users: a sequence of bytes; reads beyond its end give zeros, a
  write beyond its end fills the gap with zeros.\<close>

definition content :: "mem_store \<Rightarrow> u8 list" where
  "content p = take (nat (sz p)) (aData p)"

definition file_read :: "nat \<Rightarrow> nat \<Rightarrow> u8 list \<Rightarrow> u8 list" where
  "file_read n ofs f = map (\<lambda>i. if i < length f then f ! i else 0) [ofs..<ofs + n]"

definition file_write :: "nat \<Rightarrow> u8 list \<Rightarrow> u8 list \<Rightarrow> u8 list" where
  "file_write ofs z f =
     (let f = f @ replicate (ofs - length f) 0 in take ofs f @ z @ drop (ofs + length z) f)"

definition store_ok :: "mem_store \<Rightarrow> bool" where
  "store_ok p \<longleftrightarrow>
     0 \<le> sz p \<and> sz p \<le> szAlloc p \<and> szAlloc p = int (length (aData p))
     \<and> 0 \<le> nMmap p \<and> (mFlags p AND SQLITE_DESERIALIZE_RESIZEABLE \<noteq> 0 \<longrightarrow> nMmap p = 0)"

lemma content_length: "store_ok p \<Longrightarrow> length (content p) = nat (sz p)"
  by (auto simp: content_def store_ok_def min_def)

lemma file_read_take:
  "ofs + n \<le> length f \<Longrightarrow> file_read n ofs f = take n (drop ofs f)"
  by (auto simp: file_read_def intro!: nth_equalityI)

lemma memdbRead_correct:
  assumes "store_ok p" and "0 \<le> iAmt" and "0 \<le> iOfst"
  shows "memdbRead iAmt iOfst p =
    (if iOfst + iAmt > sz p then SQLITE_IOERR_SHORT_READ else SQLITE_OK,
     file_read (nat iAmt) (nat iOfst) (content p))"
proof (cases "iOfst + iAmt > sz p")
  case False
  then have l: "nat iOfst + nat iAmt \<le> length (content p)" using assms by (simp add: content_length store_ok_def)
  have "file_read (nat iAmt) (nat iOfst) (content p) = take (nat iAmt) (drop (nat iOfst) (aData p))"
    using l by (simp add: file_read_take drop_take min_def content_length assms(1)) (simp add: content_def drop_take)
  then show ?thesis using False by (simp add: memdbRead_def)
next
  case True
  let ?got = "if iOfst < sz p then take (nat (sz p - iOfst)) (drop (nat iOfst) (aData p)) else []"
  have g: "?got = drop (nat iOfst) (content p)"
    using assms by (auto simp: content_def drop_take nat_diff_distrib' store_ok_def)
  have l: "length (content p) - nat iOfst \<le> nat iAmt"
    using True assms by (simp add: content_length)
  have "?got @ drop (length ?got) (replicate (nat iAmt) 0) = file_read (nat iAmt) (nat iOfst) (content p)"
    unfolding g by (intro nth_equalityI) (use l in \<open>auto simp: file_read_def nth_append diff_less_mono\<close>)
  then show ?thesis using True by (simp add: memdbRead_def Let_def)
qed

text \<open>Everything but the bytes and the limit is the same.\<close>

definition same_control :: "mem_store \<Rightarrow> mem_store \<Rightarrow> bool" where
  "same_control p q \<longleftrightarrow>
     mFlags q = mFlags p \<and> nMmap q = nMmap p \<and> nRdLock q = nRdLock p \<and> nWrLock q = nWrLock p
     \<and> nRef q = nRef p \<and> zFName q = zFName p"

lemma same_control_refl [simp]: "same_control p p"
  by (simp add: same_control_def)

lemma same_control_trans: "same_control p q \<Longrightarrow> same_control q r \<Longrightarrow> same_control p r"
  by (simp add: same_control_def)

lemma Enlarge_result:
  assumes "store_ok p" and "szAlloc p < n"
  shows "case memdbEnlarge pNew n p of (rc, q) \<Rightarrow>
    store_ok q \<and> content q = content p \<and> sz q = sz p
    \<and> (rc = SQLITE_OK \<longrightarrow> n \<le> szAlloc q)
    \<and> rc = (if mFlags p AND SQLITE_DESERIALIZE_RESIZEABLE = 0 \<or> n > szMax p then SQLITE_FULL
            else if pNew = None then SQLITE_IOERR_NOMEM else SQLITE_OK)
    \<and> (rc \<noteq> SQLITE_OK \<longrightarrow> q = p)
    \<and> same_control p q"
proof (cases "mFlags p AND SQLITE_DESERIALIZE_RESIZEABLE = 0 \<or> n > szMax p \<or> pNew = None")
  case True
  then show ?thesis using assms by (auto simp: memdbEnlarge_def Let_def store_ok_def result_codes)
next
  case False
  then obtain fresh where f: "pNew = Some fresh" by blast
  define m where "m = (if n * 2 > szMax p then szMax p else n * 2)"
  define a where "a = take (nat m) (aData p) @ map fresh [length (aData p)..<nat m]"
  have s: "0 \<le> sz p" "sz p \<le> szAlloc p" "szAlloc p = int (length (aData p))" "nMmap p = 0"
    using assms(1) False by (auto simp: store_ok_def)
  have m: "n \<le> m" using False assms(2) s by (auto simp: m_def)
  have r: "memdbEnlarge pNew n p = (SQLITE_OK, p \<lparr>aData := a, szAlloc := m\<rparr>)"
    using False s(4) by (simp add: memdbEnlarge_def f a_def m_def Let_def)
  have l: "int (length a) = m" "take (nat (sz p)) a = take (nat (sz p)) (aData p)"
    using m assms(2) s by (simp_all add: a_def min_def)
  then show ?thesis unfolding r using s m assms(2) False by (auto simp: store_ok_def content_def same_control_def)
qed

lemma overlay:
  assumes "length pad = max n ofs" and "take (max n ofs) a = pad" and "max n (ofs + length z) \<le> length a"
  shows "take (max n (ofs + length z)) (take ofs a @ z @ drop (ofs + length z) a)
    = take ofs pad @ z @ drop (ofs + length z) pad"
proof (rule nth_equalityI)
  show "length (take (max n (ofs + length z)) (take ofs a @ z @ drop (ofs + length z) a))
    = length (take ofs pad @ z @ drop (ofs + length z) pad)"
    using assms(1,3) by (auto simp: max_def)
  fix i assume i: "i < length (take (max n (ofs + length z)) (take ofs a @ z @ drop (ofs + length z) a))"
  have p: "pad ! j = a ! j" if "j < max n ofs" for j
    using that assms(2) by (metis nth_take)
  have l: "ofs \<le> length a" "ofs \<le> length pad" using assms(1,3) by simp_all
  consider "i < ofs" | "ofs \<le> i" "i < ofs + length z" | "ofs + length z \<le> i" "i < n"
    using i assms(3) by (simp add: max_def split: if_splits) linarith+
  then show "take (max n (ofs + length z)) (take ofs a @ z @ drop (ofs + length z) a) ! i
    = (take ofs pad @ z @ drop (ofs + length z) pad) ! i"
  proof cases
    case 3
    then have "ofs + length z \<le> length pad" using assms(1) by simp
    then show ?thesis using 3 i l p [of i] by (auto simp: nth_append)
  qed (use i l p [of i] in \<open>auto simp: nth_append\<close>)
qed

lemma Write_store:
  assumes "store_ok p" and "0 \<le> iOfst" and "iOfst + int (length z) \<le> szAlloc p"
    and "mFlags p AND SQLITE_DESERIALIZE_READONLY = 0"
  shows "\<exists>q. memdbWrite pNew z iOfst p = Some (SQLITE_OK, q) \<and> store_ok q
    \<and> content q = file_write (nat iOfst) z (content p) \<and> same_control p q"
proof -
  let ?o = "nat iOfst" and ?n = "nat (sz p)" and ?a = "aData p"
  define a where "a = (if iOfst > sz p then take ?n ?a @ replicate (?o - ?n) 0 @ drop ?o ?a else ?a)"
  define m where "m = max (sz p) (iOfst + int (length z))"
  have s: "0 \<le> sz p" "sz p \<le> szAlloc p" "szAlloc p = int (length ?a)" using assms(1) by (auto simp: store_ok_def)
  have ns: "?n \<le> length ?a" "?o + length z \<le> length ?a" using s assms(2,3) by linarith+
  have la: "length a = length ?a" using ns by (auto simp: a_def)
  have z: "(if iOfst > sz p then wrs ?a ?n (replicate (nat (iOfst - sz p)) 0) else Some ?a) = Some a"
    using s assms(2,3) by (simp add: a_def wrs_eq nat_diff_distrib')
  have w: "wrs a ?o z = Some (take ?o a @ z @ drop (?o + length z) a)"
    using s assms(2,3) la by (intro wrs_eq) linarith
  define q where "q = p \<lparr>aData := take ?o a @ z @ drop (?o + length z) a, sz := m\<rparr>"
  have r: "memdbWrite pNew z iOfst p = Some (SQLITE_OK, q)"
  proof (cases "iOfst + int (length z) > sz p")
    case True
    then show ?thesis using z w assms(3,4) by (simp add: memdbWrite_def q_def m_def Let_def)
  next
    case False
    then have "a = ?a" by (simp add: a_def)
    with False show ?thesis using w assms(3,4) by (simp add: memdbWrite_def q_def m_def Let_def)
  qed
  have mn: "nat m = max ?n (?o + length z)" using s(1) assms(2) by (simp add: m_def)
  have pad: "take (max ?n ?o) a = content p @ replicate (?o - length (content p)) 0"
    using s assms(2,3) by (auto simp: a_def content_def max_def min_def)
  have lp: "length (content p @ replicate (?o - length (content p)) (0 :: u8)) = max ?n ?o"
    using assms(1) by (simp add: content_length)
  have "content q = take (max ?n (?o + length z)) (take ?o a @ z @ drop (?o + length z) a)"
    by (simp add: q_def content_def mn)
  then have "content q = file_write ?o z (content p)"
    using overlay [OF lp pad, of z] ns la by (simp add: file_write_def)
  moreover have "store_ok q" using assms(1) s assms(2,3) la by (auto simp: q_def store_ok_def m_def min_def)
  moreover have "same_control p q" by (simp add: q_def same_control_def)
  ultimately show ?thesis using r by blast
qed

text \<open>The result code of a write of \<open>n\<close> bytes.\<close>

definition write_code :: "bool \<Rightarrow> int \<Rightarrow> int \<Rightarrow> mem_store \<Rightarrow> nat" where
  "write_code can_alloc n ofs p =
    (if mFlags p AND SQLITE_DESERIALIZE_READONLY \<noteq> 0 then SQLITE_IOERR_WRITE
     else if ofs + n \<le> szAlloc p then SQLITE_OK
     else if mFlags p AND SQLITE_DESERIALIZE_RESIZEABLE = 0 \<or> ofs + n > szMax p then SQLITE_FULL
     else if \<not> can_alloc then SQLITE_IOERR_NOMEM
     else SQLITE_OK)"

lemma Write_result:
  assumes "store_ok p" and "0 \<le> iOfst"
  shows "\<exists>rc q. memdbWrite pNew z iOfst p = Some (rc, q) \<and> store_ok q
     \<and> rc = write_code (pNew \<noteq> None) (int (length z)) iOfst p
     \<and> same_control p q
     \<and> (if rc = SQLITE_OK then content q = file_write (nat iOfst) z (content p) else q = p)"
proof -
  define fin where "fin = iOfst + int (length z)"
  define code where "code = write_code (pNew \<noteq> None) (int (length z)) iOfst p"
  have code_eq: "code =
    (if mFlags p AND SQLITE_DESERIALIZE_READONLY \<noteq> 0 then SQLITE_IOERR_WRITE
     else if fin \<le> szAlloc p then SQLITE_OK
     else if mFlags p AND SQLITE_DESERIALIZE_RESIZEABLE = 0 \<or> fin > szMax p then SQLITE_FULL
     else if pNew = None then SQLITE_IOERR_NOMEM
     else SQLITE_OK)"
    by (simp add: code_def write_code_def fin_def)
  consider "mFlags p AND SQLITE_DESERIALIZE_READONLY \<noteq> 0"
    | "mFlags p AND SQLITE_DESERIALIZE_READONLY = 0" "fin \<le> szAlloc p"
    | "mFlags p AND SQLITE_DESERIALIZE_READONLY = 0" "fin > szAlloc p" by linarith
  then show ?thesis
  proof cases
    case 1
    then show ?thesis using assms(1) by (simp add: memdbWrite_def Let_def write_code_def result_codes)
  next
    case 2
    then have c: "code = SQLITE_OK" by (simp add: code_eq)
    obtain q where q: "memdbWrite pNew z iOfst p = Some (SQLITE_OK, q)" "store_ok q"
      "content q = file_write (nat iOfst) z (content p)" "same_control p q"
      using Write_store [OF assms(1,2) _ 2(1)] 2(2) unfolding fin_def by blast
    then show ?thesis using c [unfolded code_def] by auto
  next
    case 3
    then have big: "fin > sz p" using assms(1) by (simp add: store_ok_def)
    obtain rc p1 where e: "memdbEnlarge pNew fin p = (rc, p1)" by fastforce
    note E = Enlarge_result [OF assms(1) 3(2), of pNew, unfolded e prod.case]
    have c: "rc = code" using E 3 by (auto simp: code_eq)
    show ?thesis
    proof (cases "rc = SQLITE_OK")
      case False
      then have "memdbWrite pNew z iOfst p = Some (rc, p1)"
        using 3 big e by (simp add: memdbWrite_def fin_def Let_def)
      then show ?thesis using False c [unfolded code_def] E assms(1) by auto
    next
      case True
      have f: "mFlags p1 = mFlags p" "szAlloc p1 \<ge> fin" "store_ok p1" "content p1 = content p" "sz p1 = sz p"
        using E True by (auto simp: same_control_def)
      have "memdbWrite pNew z iOfst p = memdbWrite pNew z iOfst p1"
        using 3 big e f True by (simp add: memdbWrite_def fin_def Let_def)
      moreover obtain q where q: "memdbWrite pNew z iOfst p1 = Some (SQLITE_OK, q)" "store_ok q"
        "content q = file_write (nat iOfst) z (content p1)" "same_control p1 q"
        using Write_store [OF f(3) assms(2), of z pNew] f 3(1) unfolding fin_def by auto
      moreover have "same_control p q" using E q(4) same_control_trans by blast
      ultimately show ?thesis using q f c [unfolded code_def] True by auto
    qed
  qed
qed

lemma Truncate_ok: "store_ok p \<Longrightarrow> 0 \<le> n \<Longrightarrow> memdbTruncate n p = (rc, q) \<Longrightarrow> store_ok q \<and> same_control p q"
  by (auto simp: memdbTruncate_def store_ok_def same_control_def split: if_splits)

lemma FileControl_ok: "store_ok p \<Longrightarrow> memdbFileControl op arg p = (rc, r, q) \<Longrightarrow> store_ok q \<and> same_control p q"
  by (auto simp: memdbFileControl_def store_ok_def same_control_def Let_def split: if_splits)

lemma deserialize_ok:
  "0 \<le> szDb \<Longrightarrow> szDb \<le> szBuf \<Longrightarrow> szBuf = int (length pData) \<Longrightarrow> nMmap p = 0 \<Longrightarrow>
   store_ok (sqlite3_deserialize mx pData szDb szBuf fl p)"
  by (simp add: store_ok_def sqlite3_deserialize_def Let_def)

subsection \<open>The handles of a store\<close>

definition fcount :: "(nat \<Rightarrow> mem_file option) \<Rightarrow> (mem_file \<Rightarrow> bool) \<Rightarrow> int" where
  "fcount m Q = int (card {fd. \<exists>f. m fd = Some f \<and> Q f})"

lemma finite_handles: "finite (dom m) \<Longrightarrow> finite {fd. \<exists>f. m fd = Some f \<and> Q f}"
  by (rule finite_subset [of _ "dom m"]) auto

lemma fcount_empty: "fcount (\<lambda>_. None) Q = 0"
  by (simp add: fcount_def)

lemma fcount_nonneg [simp]: "0 \<le> fcount m Q"
  by (simp add: fcount_def)

lemma fcount_del:
  assumes "finite (dom m)"
  shows "fcount m Q = fcount (m(x := None)) Q + (case m x of Some f \<Rightarrow> of_bool (Q f) | None \<Rightarrow> 0)"
proof -
  let ?A = "{fd. \<exists>f. m fd = Some f \<and> Q f}"
  have A: "{fd. \<exists>f. (m(x := None)) fd = Some f \<and> Q f} = ?A - {x}" by auto
  have fin: "finite ?A" by (rule finite_handles [OF assms])
  show ?thesis
  proof (cases "x \<in> ?A")
    case True
    then obtain f where f: "m x = Some f" "Q f" by blast
    have "card ?A = Suc (card (?A - {x}))" using True fin by (rule card.remove [rotated])
    then show ?thesis using f by (simp only: fcount_def A) simp
  next
    case False
    then have "?A - {x} = ?A" by blast
    with False show ?thesis by (simp only: fcount_def A) (cases "m x", simp_all)
  qed
qed

lemma fcount_upd:
  assumes "finite (dom m)"
  shows "fcount (m(x \<mapsto> f)) Q = fcount (m(x := None)) Q + of_bool (Q f)"
  using fcount_del [of "m(x \<mapsto> f)" Q x] assms by simp

lemma fcount_mem: "finite (dom m) \<Longrightarrow> m x = Some f \<Longrightarrow> Q f \<Longrightarrow> 1 \<le> fcount m Q"
  using fcount_del [of m Q x] by (simp add: add_increasing)

lemma fcount_mono:
  assumes "finite (dom m)" "\<And>fd f. m fd = Some f \<Longrightarrow> Q f \<Longrightarrow> R f"
  shows "fcount m Q \<le> fcount m R"
  unfolding fcount_def using assms by (intro of_nat_mono card_mono finite_handles) blast+

lemma fcount_cong: "(\<And>fd f. m fd = Some f \<Longrightarrow> Q f = R f) \<Longrightarrow> fcount m Q = fcount m R"
  unfolding fcount_def by (rule arg_cong [of _ _ "\<lambda>A. int (card A)"]) blast

lemma fcount_two:
  assumes "finite (dom m)" "m x = Some f" "m y = Some g" "x \<noteq> y" "Q f" "Q g"
  shows "2 \<le> fcount m Q"
proof -
  have "1 \<le> fcount (m(x := None)) Q" by (rule fcount_mem [of _ y g]) (use assms in simp_all)
  then show ?thesis using fcount_del [OF assms(1), of Q x] assms(2,5) by simp
qed

text \<open>The lock counters of the store at \<open>i\<close> count its handles, at most one of them beyond a
  shared lock, and an exclusive lock has the store to itself.\<close>

definition at_least :: "nat \<Rightarrow> nat \<Rightarrow> mem_file \<Rightarrow> bool" where
  "at_least i l f \<longleftrightarrow> pStore f = i \<and> l \<le> eLock f"

definition locks_ok :: "(nat \<Rightarrow> mem_file option) \<Rightarrow> nat \<Rightarrow> mem_store \<Rightarrow> bool" where
  "locks_ok m i p \<longleftrightarrow>
     nRdLock p = fcount m (at_least i 1) \<and> nWrLock p = fcount m (at_least i 2) \<and> nWrLock p \<le> 1
     \<and> (0 < fcount m (at_least i 4) \<longrightarrow> nRdLock p \<le> 1)"

lemma at_least_mono: "finite (dom m) \<Longrightarrow> k \<le> l \<Longrightarrow> fcount m (at_least i l) \<le> fcount m (at_least i k)"
  by (rule fcount_mono) (auto simp: at_least_def)

definition lock_request :: "nat \<Rightarrow> nat \<Rightarrow> bool" where
  "lock_request lck cur \<longleftrightarrow>
     lck \<le> SQLITE_LOCK_EXCLUSIVE
     \<and> (lck > SQLITE_LOCK_SHARED \<longrightarrow> cur \<ge> SQLITE_LOCK_SHARED)
     \<and> (lck = SQLITE_LOCK_RESERVED \<or> lck = SQLITE_LOCK_PENDING \<longrightarrow> lck \<le> cur \<or> cur = SQLITE_LOCK_SHARED)"

lemma lock_asserts:
  assumes "finite (dom m)" and "locks_ok m (pStore f) p" and "m fd = Some f"
    and "lock_request lck (eLock f)" and "lck > eLock f"
  shows "memdbLock_asserts lck f p"
proof -
  have n: "2 \<le> eLock f \<Longrightarrow> 1 \<le> fcount m (at_least (pStore f) 2)"
    "1 \<le> eLock f \<Longrightarrow> 1 \<le> fcount m (at_least (pStore f) 1)"
    by (rule fcount_mem [OF assms(1,3)], simp add: at_least_def)+
  have w: "nWrLock p = 0 \<or> nWrLock p = 1"
    using assms(2) fcount_nonneg [of m "at_least (pStore f) 2"] unfolding locks_ok_def by linarith
  have "eLock f \<le> 1 \<or> nWrLock p = 1" "eLock f = 0 \<or> 1 \<le> nRdLock p"
    using n w assms(2) unfolding locks_ok_def by linarith+
  with w assms(4,5) show ?thesis by (auto simp: memdbLock_asserts_def lock_request_def lock_levels)
qed

lemma Lock_ok:
  assumes "finite (dom m)" and "locks_ok m (pStore f) p" and "m fd = Some f"
    and "lock_request lck (eLock f)" and "memdbLock lck f p = (rc, f', p')"
  shows "locks_ok (m(fd \<mapsto> f')) (pStore f) p' \<and> pStore f' = pStore f \<and> (eLock f' = eLock f \<or> eLock f' = lck)"
proof -
  let ?i = "pStore f"
  define c where "c l = fcount (m(fd := None)) (at_least ?i l)" for l
  have c: "fcount m (at_least ?i l) = c l + of_bool (l \<le> eLock f)" for l
    using fcount_del [OF assms(1), of "at_least ?i l" fd] assms(3) by (simp add: c_def at_least_def)
  have c': "fcount (m(fd \<mapsto> f')) (at_least ?i l) = c l + of_bool (pStore f' = ?i \<and> l \<le> eLock f')" for l
    using fcount_upd [OF assms(1), of fd f' "at_least ?i l"] by (simp add: c_def at_least_def)
  have m: "c 2 \<le> c 1" "c 4 \<le> c 2" "0 \<le> c 1" "0 \<le> c 2" "0 \<le> c 4"
    unfolding c_def using assms(1) by (auto intro!: at_least_mono)
  show ?thesis
    using assms(2,4,5) m unfolding locks_ok_def c c'
    by (auto simp: memdbLock_def lock_request_def lock_levels result_codes Let_def split: if_splits)
qed

lemma Unlock_ok:
  assumes "finite (dom m)" and "locks_ok m (pStore f) p" and "m fd = Some f"
    and "lck \<le> SQLITE_LOCK_SHARED" and "memdbUnlock lck f p = (rc, f', p')"
  shows "locks_ok (m(fd \<mapsto> f')) (pStore f) p' \<and> pStore f' = pStore f \<and> eLock f' \<le> eLock f"
proof -
  let ?i = "pStore f"
  define c where "c l = fcount (m(fd := None)) (at_least ?i l)" for l
  have c: "fcount m (at_least ?i l) = c l + of_bool (l \<le> eLock f)" for l
    using fcount_del [OF assms(1), of "at_least ?i l" fd] assms(3) by (simp add: c_def at_least_def)
  have c': "fcount (m(fd \<mapsto> f')) (at_least ?i l) = c l + of_bool (pStore f' = ?i \<and> l \<le> eLock f')" for l
    using fcount_upd [OF assms(1), of fd f' "at_least ?i l"] by (simp add: c_def at_least_def)
  have m: "c 2 \<le> c 1" "c 4 \<le> c 2" "0 \<le> c 1" "0 \<le> c 2" "0 \<le> c 4"
    unfolding c_def using assms(1) by (auto intro!: at_least_mono)
  show ?thesis
    using assms(2,4,5) m unfolding locks_ok_def c c'
    by (auto simp: memdbUnlock_def lock_levels result_codes Let_def split: if_splits)
qed

subsection \<open>The whole file system\<close>

lemma store_named_result:
  assumes "\<forall>i \<in> set ps. h i \<noteq> None"
  shows "\<exists>r. store_named h n ps = Some r \<and>
    (case r of None \<Rightarrow> \<forall>i \<in> set ps. \<forall>p. h i = Some p \<longrightarrow> zFName p \<noteq> Some n
     | Some i \<Rightarrow> i \<in> set ps \<and> (\<exists>p. h i = Some p \<and> zFName p = Some n))"
  using assms
proof (induction ps)
  case (Cons i ps)
  then obtain p r where "h i = Some p" and r: "store_named h n ps = Some r"
    "case r of None \<Rightarrow> \<forall>i \<in> set ps. \<forall>p. h i = Some p \<longrightarrow> zFName p \<noteq> Some n
     | Some i \<Rightarrow> i \<in> set ps \<and> (\<exists>p. h i = Some p \<and> zFName p = Some n)" by auto
  then show ?case by (cases "zFName p = Some n") (auto split: option.splits)
qed simp

lemma unregister_keep: "unregister p False pre ps = pre @ ps"
  by (induction p False pre ps rule: unregister.induct) simp_all

lemma unregister_remove: "p \<in> set ps \<Longrightarrow> mset (unregister p True pre ps) = mset (pre @ ps) - {#p#}"
proof (induction p True pre ps rule: unregister.induct)
  case (2 p pre q qs)
  show ?case
  proof (cases "q = p")
    case True
    have "mset (butlast (pre @ last (p # qs) # qs)) = mset (pre @ qs)"
    proof (cases qs rule: rev_cases)
      case (snoc ys y)
      then show ?thesis by (simp add: butlast_append)
    qed (simp add: butlast_append)
    then show ?thesis using True by simp
  next
    case False
    then show ?thesis using 2 by simp
  qed
qed simp

definition refs_ok :: "(nat \<Rightarrow> mem_file option) \<Rightarrow> nat list \<Rightarrow> nat \<Rightarrow> mem_store \<Rightarrow> bool" where
  "refs_ok m reg i p \<longleftrightarrow>
     (case zFName p of
        None \<Rightarrow> nRef p = 0 \<and> fcount m (at_least i 0) = 1
      | Some _ \<Rightarrow> i \<in> set reg \<and> nRef p = fcount m (at_least i 0) \<and> 0 < nRef p)"

definition registry_ok :: "(nat \<Rightarrow> mem_store option) \<Rightarrow> nat list \<Rightarrow> bool" where
  "registry_ok h reg \<longleftrightarrow>
     distinct reg \<and> (\<forall>i \<in> set reg. \<exists>p. h i = Some p \<and> zFName p \<noteq> None)
     \<and> (\<forall>i \<in> set reg. \<forall>j \<in> set reg. map_option zFName (h i) = map_option zFName (h j) \<longrightarrow> i = j)"

definition handles_ok :: "(nat \<Rightarrow> mem_store option) \<Rightarrow> (nat \<Rightarrow> mem_file option) \<Rightarrow> bool" where
  "handles_ok h m \<longleftrightarrow>
     finite (dom m) \<and> (\<forall>fd f. m fd = Some f \<longrightarrow> h (pStore f) \<noteq> None \<and> eLock f \<le> SQLITE_LOCK_EXCLUSIVE)"

definition fs_ok :: "mem_fs \<Rightarrow> bool" where
  "fs_ok g \<longleftrightarrow>
     handles_ok (heap g) (files g) \<and> registry_ok (heap g) (apMemStore g)
     \<and> (\<forall>i p. heap g i = Some p \<longrightarrow>
          store_ok p \<and> locks_ok (files g) i p \<and> refs_ok (files g) (apMemStore g) i p)"

lemma fs_okD:
  assumes "fs_ok g"
  shows "finite (dom (files g))" "handles_ok (heap g) (files g)" "registry_ok (heap g) (apMemStore g)"
    "heap g i = Some p \<Longrightarrow> store_ok p" "heap g i = Some p \<Longrightarrow> locks_ok (files g) i p"
    "heap g i = Some p \<Longrightarrow> refs_ok (files g) (apMemStore g) i p"
    "files g fd = Some f \<Longrightarrow> \<exists>p. heap g (pStore f) = Some p"
  using assms by (auto simp: fs_ok_def handles_ok_def)

text \<open>Counts of another store's handles do not change.\<close>

lemma fcount_other:
  assumes "finite (dom m)" and "\<And>f. m fd = Some f \<Longrightarrow> pStore f \<noteq> j" and "\<And>f. v = Some f \<Longrightarrow> pStore f \<noteq> j"
  shows "fcount (m(fd := v)) (at_least j l) = fcount m (at_least j l)"
  by (rule trans [OF _ fcount_del [OF assms(1), of "at_least j l" fd, symmetric]])
    (cases "m fd"; cases v; use assms in \<open>simp add: fcount_upd at_least_def\<close>)

lemma other_ok:
  assumes "finite (dom m)" and "\<And>f. m fd = Some f \<Longrightarrow> pStore f \<noteq> j" and "\<And>f. v = Some f \<Longrightarrow> pStore f \<noteq> j"
  shows "locks_ok (m(fd := v)) j p = locks_ok m j p"
    and "j \<in> set reg' \<longleftrightarrow> j \<in> set reg \<Longrightarrow> refs_ok (m(fd := v)) reg' j p = refs_ok m reg j p"
  by (simp_all add: locks_ok_def refs_ok_def fcount_other [OF assms] split: option.split)

definition put :: "nat \<Rightarrow> mem_file \<Rightarrow> mem_store \<Rightarrow> mem_fs \<Rightarrow> mem_fs" where
  "put fd f p g = g \<lparr>heap := (heap g)(pStore f \<mapsto> p), files := (files g)(fd \<mapsto> f)\<rparr>"

text \<open>One store and one of its handles change; the handle may be opened or closed by that.\<close>

lemma change_ok:
  assumes "fs_ok g" and "heap g i = Some p" and "\<And>f. files g fd = Some f \<Longrightarrow> pStore f = i"
    and "\<And>f. v = Some f \<Longrightarrow> pStore f = i \<and> eLock f \<le> SQLITE_LOCK_EXCLUSIVE"
    and "store_ok p'" and "locks_ok ((files g)(fd := v)) i p'"
    and "refs_ok ((files g)(fd := v)) (apMemStore g) i p'" and "zFName p' = zFName p"
  shows "fs_ok (g \<lparr>heap := (heap g)(i \<mapsto> p'), files := (files g)(fd := v)\<rparr>)"
proof -
  let ?m = "(files g)(fd := v)" and ?h = "(heap g)(i \<mapsto> p')"
  note g = fs_okD [OF assms(1)]
  have h: "handles_ok ?h ?m" using g(2) assms(4) by (auto simp: handles_ok_def)
  have n: "map_option zFName (?h j) = map_option zFName (heap g j)" for j using assms(2,8) by simp
  have r: "registry_ok ?h (apMemStore g)" using g(3) assms(2,8) unfolding registry_ok_def n by auto
  have "store_ok q \<and> locks_ok ?m j q \<and> refs_ok ?m (apMemStore g) j q" if q': "?h j = Some q" for j q
  proof (cases "j = i")
    case True
    then show ?thesis using q' assms(5-7) by simp
  next
    case False
    then have q: "heap g j = Some q" using q' by simp
    have o: "files g fd = Some f0 \<Longrightarrow> pStore f0 \<noteq> j" "v = Some f0 \<Longrightarrow> pStore f0 \<noteq> j" for f0
      using False assms(3,4) by auto
    have "locks_ok ?m j q = locks_ok (files g) j q" by (rule other_ok(1) [OF g(1)]) (use o in auto)
    moreover have "refs_ok ?m (apMemStore g) j q = refs_ok (files g) (apMemStore g) j q"
      by (rule other_ok(2) [OF g(1)]) (use o in auto)
    ultimately show ?thesis using g(4-6) [OF q] by simp
  qed
  then show ?thesis using h r by (simp add: fs_ok_def)
qed

lemma put_ok:
  assumes "fs_ok g" and "files g fd = Some f" and "heap g (pStore f) = Some p" and "pStore f' = pStore f"
    and "eLock f' \<le> SQLITE_LOCK_EXCLUSIVE" and "store_ok p'" and "locks_ok ((files g)(fd \<mapsto> f')) (pStore f) p'"
    and "nRef p' = nRef p" and "zFName p' = zFName p"
  shows "fs_ok (put fd f' p' g)"
proof -
  note g = fs_okD [OF assms(1)]
  have "fcount ((files g)(fd \<mapsto> f')) (at_least (pStore f) 0) = fcount (files g) (at_least (pStore f) 0)"
    using fcount_upd [OF g(1), of fd f' "at_least (pStore f) 0"] fcount_del [OF g(1), of "at_least (pStore f) 0" fd] assms(2,4)
    by (simp add: at_least_def)
  then have "refs_ok ((files g)(fd \<mapsto> f')) (apMemStore g) (pStore f) p'"
    using g(6) [OF assms(3)] assms(8,9) by (auto simp: refs_ok_def split: option.splits)
  note r = this
  show ?thesis unfolding put_def assms(4)
    by (rule change_ok [OF assms(1,3) _ _ assms(6,7) r assms(9)]) (use assms(2,4,5) in auto)
qed

lemma no_handles:
  assumes "handles_ok h m" and "h i = None"
  shows "fcount m (at_least i l) = 0"
proof -
  have "{fd. \<exists>f. m fd = Some f \<and> at_least i l f} = {}" using assms by (fastforce simp: handles_ok_def at_least_def)
  then show ?thesis by (simp only: fcount_def card.empty of_nat_0)
qed

text \<open>A new store with its first handle, registered or not.\<close>

lemma new_store_ok:
  assumes "fs_ok g" and "files g fd = None" and "heap g i = None" and "store_ok p"
    and "nRdLock p = 0" and "nWrLock p = 0"
    and "case zFName p of None \<Rightarrow> reg = apMemStore g \<and> nRef p = 0
      | Some n \<Rightarrow> reg = apMemStore g @ [i] \<and> nRef p = 1 \<and> (\<forall>j \<in> set (apMemStore g). \<forall>q. heap g j = Some q \<longrightarrow> zFName q \<noteq> Some n)"
  shows "fs_ok (g \<lparr>apMemStore := reg, heap := (heap g)(i \<mapsto> p), files := (files g)(fd \<mapsto> \<lparr>pStore = i, eLock = 0\<rparr>)\<rparr>)"
proof -
  let ?m = "(files g)(fd \<mapsto> \<lparr>pStore = i, eLock = 0\<rparr>)" and ?h = "(heap g)(i \<mapsto> p)"
  note g = fs_okD [OF assms(1)]
  have i: "i \<notin> set (apMemStore g)" using g(3) assms(3) by (auto simp: registry_ok_def)
  have h: "handles_ok ?h ?m" using g(2) by (auto simp: handles_ok_def)
  have r: "registry_ok ?h reg"
  proof (cases "zFName p")
    case None
    then show ?thesis using g(3) assms(7) i unfolding registry_ok_def by auto
  next
    case (Some n)
    have d: "map_option zFName (?h j) \<noteq> map_option zFName (?h i)" if "j \<in> set (apMemStore g)" for j
      using that assms(7) Some i by (cases "heap g j") auto
    have e: "?h j = heap g j" if "j \<in> set (apMemStore g)" for j using that i by auto
    have reg: "reg = apMemStore g @ [i]" using assms(7) Some by simp
    show ?thesis unfolding registry_ok_def reg
    proof (intro conjI ballI impI)
      fix j k assume "j \<in> set (apMemStore g @ [i])" "k \<in> set (apMemStore g @ [i])"
        "map_option zFName (?h j) = map_option zFName (?h k)"
      then show "j = k" using d [of j] d [of k] e [of j] e [of k] g(3) unfolding registry_ok_def
        by (cases "j = i"; cases "k = i") auto
    qed (use i g(3) Some e in \<open>auto simp: registry_ok_def\<close>)
  qed
  have z: "fcount (files g) (at_least i l) = 0" for l by (rule no_handles [OF g(2) assms(3)])
  have c: "fcount ?m (at_least i l) = of_bool (l = 0)" for l
    using fcount_upd [OF g(1), of fd "\<lparr>pStore = i, eLock = 0\<rparr>" "at_least i l"] z [of l]
      fcount_del [OF g(1), of "at_least i l" fd] assms(2) by (simp add: at_least_def)
  have "store_ok q \<and> locks_ok ?m j q \<and> refs_ok ?m reg j q" if "?h j = Some q" for j q
  proof (cases "j = i")
    case True
    then show ?thesis using that assms(4-7) by (auto simp: locks_ok_def refs_ok_def c split: option.splits)
  next
    case False
    then have q: "heap g j = Some q" using that by simp
    have o: "files g fd = Some f0 \<Longrightarrow> pStore f0 \<noteq> j" "Some \<lparr>pStore = i, eLock = 0\<rparr> = Some f0 \<Longrightarrow> pStore f0 \<noteq> j" for f0
      using False assms(2) by auto
    have "j \<in> set reg \<longleftrightarrow> j \<in> set (apMemStore g)" using assms(7) False by (auto split: option.splits)
    then have "refs_ok ?m reg j q = refs_ok (files g) (apMemStore g) j q"
      by (intro other_ok(2) [OF g(1)]) (use o in auto)
    moreover have "locks_ok ?m j q = locks_ok (files g) j q" by (rule other_ok(1) [OF g(1)]) (use o in auto)
    ultimately show ?thesis using g(4-6) [OF q] by simp
  qed
  then show ?thesis using h r by (simp add: fs_ok_def)
qed

lemma Open_ok:
  assumes "fs_ok g" and "files g fd = None" and "\<And>i. pNew = Some i \<Longrightarrow> heap g i = None"
  shows "\<exists>rc g'. memdbOpen mx pNew apNew pMutex zName fd g = Some (rc, g') \<and> fs_ok g'
    \<and> (rc = SQLITE_OK \<longrightarrow> (\<exists>i p. files g' = (files g)(fd \<mapsto> \<lparr>pStore = i, eLock = SQLITE_LOCK_NONE\<rparr>)
         \<and> heap g' i = Some p \<and> zFName p = (if shared_name zName then Some zName else None)))
    \<and> (rc \<noteq> SQLITE_OK \<longrightarrow> rc = SQLITE_NOMEM \<and> g' = g)"
proof -
  note g = fs_okD [OF assms(1)]
  let ?f = "\<lambda>i. \<lparr>pStore = i, eLock = 0\<rparr>"
  have al: "\<forall>i \<in> set (apMemStore g). heap g i \<noteq> None" using g(3) by (auto simp: registry_ok_def)
  obtain r where r: "store_named (heap g) zName (apMemStore g) = Some r"
    "case r of None \<Rightarrow> \<forall>i \<in> set (apMemStore g). \<forall>p. heap g i = Some p \<longrightarrow> zFName p \<noteq> Some zName
     | Some i \<Rightarrow> i \<in> set (apMemStore g) \<and> (\<exists>p. heap g i = Some p \<and> zFName p = Some zName)"
    using store_named_result [OF al, of zName] by blast
  have new: "store_ok (mem_store_new mx)" by (simp add: store_ok_def mem_store_new_def)
  have success: ?thesis if "memdbOpen mx pNew apNew pMutex zName fd g = Some (SQLITE_OK, g')" "fs_ok g'"
    "files g' = (files g)(fd \<mapsto> ?f i)" "heap g' i = Some p" "zFName p = (if shared_name zName then Some zName else None)"
    for g' i p using that unfolding SQLITE_LOCK_NONE_def by blast
  show ?thesis
  proof (cases "shared_name zName")
    case False
    show ?thesis
    proof (cases pNew)
      case (Some i)
      have "fs_ok (g \<lparr>apMemStore := apMemStore g, heap := (heap g)(i \<mapsto> mem_store_new mx), files := (files g)(fd \<mapsto> ?f i)\<rparr>)"
        by (rule new_store_ok [OF assms(1,2)]) (use assms(3) Some new in \<open>simp_all add: mem_store_new_def\<close>)
      then show ?thesis by (rule success [where i = i and p = "mem_store_new mx", rotated]) (use False Some in \<open>simp_all add: memdbOpen_def lock_levels mem_store_new_def\<close>)
    qed (use False assms(1) in \<open>simp add: memdbOpen_def result_codes\<close>)
  next
    case True
    show ?thesis
    proof (cases r)
      case None
      show ?thesis
      proof (cases "\<exists>i. pNew = Some i \<and> apNew \<and> pMutex")
        case ok: True
        then obtain i where i: "pNew = Some i" by blast
        let ?p = "(mem_store_new mx) \<lparr>zFName := Some zName, nRef := 1\<rparr>"
        have "fs_ok (g \<lparr>apMemStore := apMemStore g @ [i], heap := (heap g)(i \<mapsto> ?p), files := (files g)(fd \<mapsto> ?f i)\<rparr>)"
          by (rule new_store_ok [OF assms(1,2)]) (use assms(3) i new r(2) None in \<open>simp_all add: mem_store_new_def store_ok_def\<close>)
        then show ?thesis by (rule success [where i = i and p = ?p, rotated]) (use True None ok i r(1) in \<open>simp_all add: memdbOpen_def lock_levels\<close>)
      next
        case False
        then have "memdbOpen mx pNew apNew pMutex zName fd g = Some (SQLITE_NOMEM, g)"
          using True None r(1) by (auto simp: memdbOpen_def split: option.splits)
        then show ?thesis using assms(1) by (simp add: result_codes)
      qed
    next
      case (Some i)
      then obtain p where p: "i \<in> set (apMemStore g)" "heap g i = Some p" "zFName p = Some zName" using r(2) by auto
      let ?p = "p \<lparr>nRef := nRef p + 1\<rparr>"
      let ?g = "g \<lparr>heap := (heap g)(i \<mapsto> ?p), files := (files g)(fd \<mapsto> ?f i)\<rparr>"
      have o: "refs_ok (files g) (apMemStore g) i p" "locks_ok (files g) i p" "store_ok p" using g(4-6) [OF p(2)] by auto
      have c: "fcount ((files g)(fd \<mapsto> ?f i)) (at_least i l) = fcount (files g) (at_least i l) + of_bool (l = 0)" for l
        using fcount_upd [OF g(1), of fd "?f i" "at_least i l"] fcount_del [OF g(1), of "at_least i l" fd] assms(2)
        by (simp add: at_least_def)
      have "fs_ok ?g"
        by (rule change_ok [OF assms(1) p(2)])
          (use assms(2) o p(3) in \<open>auto simp: lock_levels store_ok_def locks_ok_def refs_ok_def c\<close>)
      then show ?thesis by (rule success [where i = i and p = ?p, rotated]) (use True Some r(1) p in \<open>simp_all add: memdbOpen_def lock_levels\<close>)
    qed
  qed
qed

lemma Close_ok:
  assumes "fs_ok g" and "files g fd = Some f" and "eLock f = SQLITE_LOCK_NONE"
  shows "\<exists>g'. memdbClose fd g = Some (SQLITE_OK, g') \<and> fs_ok g'"
proof -
  note g = fs_okD [OF assms(1)]
  let ?m = "(files g)(fd := None)" and ?i = "pStore f"
  obtain p where p: "heap g ?i = Some p" using g(7) [OF assms(2)] by blast
  let ?p = "p \<lparr>nRef := nRef p - 1\<rparr>"
  have o: "refs_ok (files g) (apMemStore g) ?i p" "locks_ok (files g) ?i p" "store_ok p" using g(4-6) [OF p] by auto
  have c: "fcount (files g) (at_least ?i l) = fcount ?m (at_least ?i l) + of_bool (l = 0)" for l
    using fcount_del [OF g(1), of "at_least ?i l" fd] assms(2,3) by (simp add: at_least_def lock_levels)
  have l: "locks_ok ?m ?i ?p" using o(2) by (auto simp: locks_ok_def c)
  show ?thesis
  proof (cases "nRef p \<le> 1")
    case False
    then obtain n where n: "zFName p = Some n" using o(1) by (auto simp: refs_ok_def split: option.splits)
    have r: "refs_ok ?m (apMemStore g) ?i ?p" using o(1) n False by (simp add: refs_ok_def c)
    have "fs_ok (g \<lparr>heap := (heap g)(?i \<mapsto> ?p), files := ?m\<rparr>)"
      by (rule change_ok [OF assms(1) p _ _ _ l r]) (use assms(2) o(3) in \<open>auto simp: store_ok_def\<close>)
    then show ?thesis using assms(2) p n False
      by (simp add: memdbClose_def Let_def unregister_keep)
  next
    case True
    define reg where "reg = (if zFName p \<noteq> None then unregister ?i (nRef p = 1) [] (apMemStore g) else apMemStore g)"
    let ?g = "g \<lparr>apMemStore := reg, heap := (heap g)(?i := None), files := ?m\<rparr>"
    have z: "fcount ?m (at_least ?i 0) = 0"
      using o(1) True c [of 0] by (auto simp: refs_ok_def split: option.splits)
    have away: "pStore f' \<noteq> ?i" if "?m x = Some f'" for x f'
    proof
      assume "pStore f' = ?i"
      then have "1 \<le> fcount ?m (at_least ?i 0)" by (intro fcount_mem [where x = x and f = f']) (use g(1) that in \<open>simp_all add: at_least_def\<close>)
      with z show False by simp
    qed
    have h: "handles_ok (heap ?g) ?m" using g(2) away by (fastforce simp: handles_ok_def)
    have reg: "mset reg = mset (apMemStore g) - {#?i#}"
    proof (cases "zFName p")
      case None
      then have "?i \<notin> set (apMemStore g)" using g(3) p by (auto simp: registry_ok_def)
      then show ?thesis using None by (simp add: reg_def)
    next
      case (Some n)
      then have "?i \<in> set (apMemStore g)" "nRef p = 1" using o(1) True by (auto simp: refs_ok_def)
      then show ?thesis using Some unregister_remove [of ?i "apMemStore g" "[]"] by (simp add: reg_def)
    qed
    have d: "distinct (apMemStore g)" using g(3) by (simp add: registry_ok_def)
    then have sr: "set reg = set (apMemStore g) - {?i}" "distinct reg"
      using reg by (metis mset_remove1 set_remove1_eq set_mset_mset, metis mset_remove1 distinct_remove1 mset_eq_imp_distinct_iff)
    have r: "registry_ok (heap ?g) reg" using g(3) sr by (auto simp: registry_ok_def)
    have "store_ok q \<and> locks_ok ?m j q \<and> refs_ok ?m reg j q" if q': "heap ?g j = Some q" for j q
    proof -
      have j: "j \<noteq> ?i" using q' by auto
      then have q: "heap g j = Some q" using q' by simp
      have "refs_ok ?m reg j q = refs_ok (files g) (apMemStore g) j q"
        by (intro other_ok(2) [OF g(1)]) (use j sr assms(2) in auto)
      moreover have "locks_ok ?m j q = locks_ok (files g) j q"
        by (rule other_ok(1) [OF g(1)]) (use j assms(2) in auto)
      ultimately show ?thesis using g(4-6) [OF q] by simp
    qed
    then have "fs_ok ?g" using h r by (simp add: fs_ok_def)
    moreover have "memdbClose fd g = Some (SQLITE_OK, ?g)" using assms(2) p True by (simp add: memdbClose_def Let_def reg_def)
    ultimately show ?thesis by blast
  qed
qed

subsection \<open>Runs\<close>

text \<open>What a method may do to the store alone. Offsets and sizes are those a pager asks for,
  never negative; a page is released only after it was fetched; \<open>sqlite3_deserialize\<close> works on a
  store without a name whose pages are not mapped.\<close>

inductive store_io :: "mem_store \<Rightarrow> mem_store \<Rightarrow> bool" where
  writes: "0 \<le> iOfst \<Longrightarrow> memdbWrite pNew z iOfst p = Some (rc, p') \<Longrightarrow> store_io p p'"
| truncates: "0 \<le> n \<Longrightarrow> memdbTruncate n p = (rc, p') \<Longrightarrow> store_io p p'"
| controls: "memdbFileControl op arg p = (rc, r, p') \<Longrightarrow> store_io p p'"
| fetches: "memdbFetch iOfst iAmt p = (rc, r, p') \<Longrightarrow> store_io p p'"
| unfetches: "0 < nMmap p \<Longrightarrow> memdbUnfetch p = (rc, p') \<Longrightarrow> store_io p p'"
| deserializes: "zFName p = None \<Longrightarrow> nMmap p = 0 \<Longrightarrow> 0 \<le> szDb \<Longrightarrow> szDb \<le> szBuf \<Longrightarrow> szBuf = int (length pData) \<Longrightarrow>
    store_io p (sqlite3_deserialize mx pData szDb szBuf fl p)"

text \<open>Handles are closed after their locks were released, and lock requests follow the
  protocol of the VFS interface.\<close>

inductive memdb_step :: "mem_fs \<Rightarrow> mem_fs \<Rightarrow> bool" where
  opens: "files g fd = None \<Longrightarrow> (\<And>i. pNew = Some i \<Longrightarrow> heap g i = None) \<Longrightarrow>
    memdbOpen mx pNew apNew pMutex zName fd g = Some (rc, g') \<Longrightarrow> memdb_step g g'"
| closes: "files g fd = Some f \<Longrightarrow> eLock f = SQLITE_LOCK_NONE \<Longrightarrow> memdbClose fd g = Some (rc, g') \<Longrightarrow> memdb_step g g'"
| locks: "files g fd = Some f \<Longrightarrow> heap g (pStore f) = Some p \<Longrightarrow> lock_request lck (eLock f) \<Longrightarrow>
    memdbLock lck f p = (rc, f', p') \<Longrightarrow> memdb_step g (put fd f' p' g)"
| unlocks: "files g fd = Some f \<Longrightarrow> heap g (pStore f) = Some p \<Longrightarrow> lck \<le> SQLITE_LOCK_SHARED \<Longrightarrow>
    memdbUnlock lck f p = (rc, f', p') \<Longrightarrow> memdb_step g (put fd f' p' g)"
| io: "files g fd = Some f \<Longrightarrow> heap g (pStore f) = Some p \<Longrightarrow> store_io p p' \<Longrightarrow> memdb_step g (put fd f p' g)"

inductive memdb_reachable :: "mem_fs \<Rightarrow> bool" where
  start: "memdb_reachable \<lparr>apMemStore = [], heap = (\<lambda>_. None), files = (\<lambda>_. None)\<rparr>"
| stepped: "memdb_reachable g \<Longrightarrow> memdb_step g g' \<Longrightarrow> memdb_reachable g'"

inductive_cases memdb_stepE: "memdb_step g g'"
inductive_cases store_ioE: "store_io p p'"

lemma store_io_ok:
  assumes "store_io p p'" and "store_ok p"
  shows "store_ok p' \<and> nRdLock p' = nRdLock p \<and> nWrLock p' = nWrLock p \<and> nRef p' = nRef p \<and> zFName p' = zFName p"
  using assms(1)
proof cases
  case (writes iOfst pNew z rc)
  then have "store_ok p' \<and> same_control p p'" using Write_result [OF assms(2) writes(1), of pNew z] by auto
  then show ?thesis by (simp add: same_control_def)
next
  case (truncates n rc)
  then show ?thesis using Truncate_ok [OF assms(2)] by (auto simp: same_control_def)
next
  case (controls op arg rc r)
  then show ?thesis using FileControl_ok [OF assms(2)] by (auto simp: same_control_def)
next
  case (fetches iOfst iAmt rc r)
  then show ?thesis using assms(2) by (auto simp: memdbFetch_def store_ok_def split: if_splits)
next
  case (unfetches rc)
  then show ?thesis using assms(2) by (auto simp: memdbUnfetch_def store_ok_def)
next
  case (deserializes szDb szBuf pData mx fl)
  then show ?thesis using deserialize_ok [of szDb szBuf pData p mx fl]
    by (simp add: sqlite3_deserialize_def Let_def)
qed

lemma step_ok:
  assumes "fs_ok g" and "memdb_step g g'"
  shows "fs_ok g'"
  using assms(2)
proof cases
  case (opens fd pNew mx apNew pMutex zName rc)
  then show ?thesis using Open_ok [OF assms(1) opens(1), of pNew mx apNew pMutex zName] by force
next
  case (closes fd f rc)
  then show ?thesis using Close_ok [OF assms(1) closes(1,2)] by force
next
  case (locks fd f p lck rc f' p')
  note g = fs_okD [OF assms(1)]
  have l: "locks_ok ((files g)(fd \<mapsto> f')) (pStore f) p'" "pStore f' = pStore f" "eLock f' = eLock f \<or> eLock f' = lck"
    using Lock_ok [OF g(1) g(5) [OF locks(3)] locks(2,4,5)] by blast+
  have "eLock f \<le> SQLITE_LOCK_EXCLUSIVE" "lck \<le> SQLITE_LOCK_EXCLUSIVE"
    using locks(2,4) g(2) unfolding handles_ok_def lock_request_def by blast+
  with l(3) have "eLock f' \<le> SQLITE_LOCK_EXCLUSIVE" by metis
  moreover have "store_ok p' \<and> nRef p' = nRef p \<and> zFName p' = zFName p"
    using locks(5) g(4) [OF locks(3)] by (auto simp: memdbLock_def store_ok_def Let_def split: if_splits)
  ultimately show ?thesis unfolding locks(1) by (intro put_ok [OF assms(1) locks(2,3) l(2)]) (use l(1) in blast)+
next
  case (unlocks fd f p lck rc f' p')
  note g = fs_okD [OF assms(1)]
  have l: "locks_ok ((files g)(fd \<mapsto> f')) (pStore f) p'" "pStore f' = pStore f" "eLock f' \<le> eLock f"
    using Unlock_ok [OF g(1) g(5) [OF unlocks(3)] unlocks(2,4,5)] by blast+
  have "eLock f' \<le> SQLITE_LOCK_EXCLUSIVE" using l(3) unlocks(2) g(2) by (force simp: handles_ok_def)
  moreover have "store_ok p' \<and> nRef p' = nRef p \<and> zFName p' = zFName p"
    using unlocks(5) g(4) [OF unlocks(3)] by (auto simp: memdbUnlock_def store_ok_def Let_def split: if_splits)
  ultimately show ?thesis unfolding unlocks(1) by (intro put_ok [OF assms(1) unlocks(2,3) l(2)]) (use l(1) in blast)+
next
  case (io fd f p p')
  note g = fs_okD [OF assms(1)]
  have p: "store_ok p'" "nRdLock p' = nRdLock p" "nWrLock p' = nWrLock p" "nRef p' = nRef p" "zFName p' = zFName p"
    using store_io_ok [OF io(4) g(4) [OF io(3)]] by blast+
  have "(files g)(fd \<mapsto> f) = files g" using io(2) by auto
  then have l: "locks_ok ((files g)(fd \<mapsto> f)) (pStore f) p'" using g(5) [OF io(3)] p by (auto simp: locks_ok_def)
  have "eLock f \<le> SQLITE_LOCK_EXCLUSIVE" using io(2) g(2) by (auto simp: handles_ok_def)
  then show ?thesis unfolding io(1) by (intro put_ok [OF assms(1) io(2,3)]) (use l p in blast)+
qed

lemma reachable_ok: "memdb_reachable g \<Longrightarrow> fs_ok g"
proof (induction rule: memdb_reachable.induct)
  case start
  show ?case by (simp add: fs_ok_def handles_ok_def registry_ok_def)
next
  case (stepped g g')
  then show ?case using step_ok by blast
qed

subsection \<open>Properties\<close>

text \<open>Two handles of one store are open in the example, and the first has the store for itself.\<close>

definition fs_open :: "nat \<Rightarrow> nat \<Rightarrow> string \<Rightarrow> mem_fs \<Rightarrow> mem_fs" where
  "fs_open fd i zName g = snd (the (memdbOpen 1073741824 (Some i) True True zName fd g))"

definition fs_lock :: "nat \<Rightarrow> nat \<Rightarrow> mem_fs \<Rightarrow> mem_fs" where
  "fs_lock fd lck g =
     (let (rc, f, p) = memdbLock lck (the (files g fd)) (the (heap g (pStore (the (files g fd))))) in put fd f p g)"

definition example_fs :: mem_fs where
  "example_fs = fs_lock 0 SQLITE_LOCK_EXCLUSIVE (fs_lock 0 SQLITE_LOCK_RESERVED (fs_lock 0 SQLITE_LOCK_SHARED
     (fs_open 1 8 ''/db'' (fs_open 0 7 ''/db'' \<lparr>apMemStore = [], heap = (\<lambda>_. None), files = (\<lambda>_. None)\<rparr>))))"

lemma fs_open_reachable:
  assumes "memdb_reachable g" and "files g fd = None" and "heap g i = None"
  shows "memdb_reachable (fs_open fd i zName g)"
proof -
  obtain rc g' where o: "memdbOpen 1073741824 (Some i) True True zName fd g = Some (rc, g')"
    using Open_ok [OF reachable_ok [OF assms(1)] assms(2), of "Some i" 1073741824 True True zName] assms(3) by auto
  have "memdb_step g g'" by (rule memdb_step.opens [OF assms(2) _ o]) (use assms(3) in simp)
  then show ?thesis using memdb_reachable.stepped [OF assms(1)] by (simp add: fs_open_def o)
qed

lemma fs_lock_reachable:
  assumes "memdb_reachable g" and "files g fd = Some f" and "lock_request lck (eLock f)"
  shows "memdb_reachable (fs_lock fd lck g)"
proof -
  obtain p where p: "heap g (pStore f) = Some p" using fs_okD(7) [OF reachable_ok [OF assms(1)] assms(2)] by blast
  obtain rc f' p' where l: "memdbLock lck f p = (rc, f', p')" by (metis prod.exhaust)
  have "memdb_step g (put fd f' p' g)" by (rule memdb_step.locks [OF assms(2) p assms(3) l])
  then show ?thesis using memdb_reachable.stepped [OF assms(1)] by (simp add: fs_lock_def assms(2) p l)
qed

lemma example_fs_reachable: "memdb_reachable example_fs"
proof -
  let ?g0 = "\<lparr>apMemStore = [], heap = (\<lambda>_. None), files = (\<lambda>_. None)\<rparr> :: mem_fs"
  let ?g1 = "fs_open 0 7 ''/db'' ?g0"
  let ?g2 = "fs_open 1 8 ''/db'' ?g1"
  let ?g3 = "fs_lock 0 SQLITE_LOCK_SHARED ?g2"
  let ?g4 = "fs_lock 0 SQLITE_LOCK_RESERVED ?g3"
  have e: "files ?g1 1 = None \<and> heap ?g1 8 = None" "files ?g2 0 = Some \<lparr>pStore = 7, eLock = 0\<rparr>"
    "files ?g3 0 = Some \<lparr>pStore = 7, eLock = 1\<rparr>" "files ?g4 0 = Some \<lparr>pStore = 7, eLock = 2\<rparr>"
    by code_simp+
  have 1: "memdb_reachable ?g1" by (rule fs_open_reachable [OF memdb_reachable.start]) simp_all
  have 2: "memdb_reachable ?g2" by (rule fs_open_reachable [OF 1]) (use e(1) in blast)+
  have 3: "memdb_reachable ?g3" by (rule fs_lock_reachable [OF 2 e(2)]) (simp add: lock_request_def lock_levels)
  have 4: "memdb_reachable ?g4" by (rule fs_lock_reachable [OF 3 e(3)]) (simp add: lock_request_def lock_levels)
  show ?thesis unfolding example_fs_def
    by (rule fs_lock_reachable [OF 4 e(4)]) (simp add: lock_request_def lock_levels)
qed

text \<open>
  C26. The lock protocol is safe in every reachable state, whatever the order of the methods on
  the handles: of two handles of one store at most one has more than a shared lock, and a
  handle with an exclusive lock is the only one with any; the assertions of \<open>memdbLock\<close> hold for
  every request that follows the VFS protocol and is not granted already.
\<close>

theorem memdb_locks_safe:
  assumes "memdb_reachable g" and "files g x = Some f"
  shows "(\<forall>y f'. files g y = Some f' \<and> y \<noteq> x \<and> pStore f' = pStore f \<longrightarrow>
      \<not> (eLock f > SQLITE_LOCK_SHARED \<and> eLock f' > SQLITE_LOCK_SHARED)
      \<and> (eLock f = SQLITE_LOCK_EXCLUSIVE \<longrightarrow> eLock f' = SQLITE_LOCK_NONE))
    \<and> (\<exists>p. heap g (pStore f) = Some p
      \<and> (\<forall>lck. lock_request lck (eLock f) \<and> lck > eLock f \<longrightarrow> memdbLock_asserts lck f p))"
proof -
  note g = fs_okD [OF reachable_ok [OF assms(1)]]
  obtain p where p: "heap g (pStore f) = Some p" using g(7) [OF assms(2)] by blast
  note l = g(5) [OF p]
  have two: "2 \<le> fcount (files g) (at_least (pStore f) k)"
    if "files g y = Some f'" "y \<noteq> x" "pStore f' = pStore f" "k \<le> eLock f" "k \<le> eLock f'" for y f' k
    by (rule fcount_two [OF g(1) assms(2) that(1)]) (use that in \<open>simp_all add: at_least_def\<close>)
  have "\<not> (eLock f > 1 \<and> eLock f' > 1) \<and> (eLock f = 4 \<longrightarrow> eLock f' = 0)"
    if y: "files g y = Some f'" "y \<noteq> x" "pStore f' = pStore f" for y f'
  proof (intro conjI notI impI)
    assume "1 < eLock f \<and> 1 < eLock f'"
    then show False using two [OF y, of 2] l by (simp add: locks_ok_def)
  next
    assume x: "eLock f = 4"
    have "1 \<le> fcount (files g) (at_least (pStore f) 4)"
      by (rule fcount_mem [OF g(1) assms(2)]) (simp add: at_least_def x)
    then have "nRdLock p \<le> 1" "nRdLock p = fcount (files g) (at_least (pStore f) 1)" using l by (auto simp: locks_ok_def)
    then show "eLock f' = 0" using two [OF y, of 1] x by force
  qed
  then show ?thesis using p lock_asserts [OF g(1) l assms(2)] by (auto simp: lock_levels)
qed

theorem memdb_locks_safe_witness:
  "memdb_reachable example_fs
   \<and> (\<exists>f f'. files example_fs 0 = Some f \<and> files example_fs 1 = Some f' \<and> pStore f = pStore f' \<and> eLock f' = SQLITE_LOCK_NONE)"
proof -
  have e: "files example_fs 0 = Some \<lparr>pStore = 7, eLock = 4\<rparr>" "files example_fs 1 = Some \<lparr>pStore = 7, eLock = 0\<rparr>"
    by code_simp+
  show ?thesis using memdb_locks_safe [OF example_fs_reachable e(1)] e example_fs_reachable
    by (auto simp: lock_levels)
qed

text \<open>
  C27. A write either stores exactly its bytes, filling a gap before them with zeros, or reports
  an error that its arguments and the limits of the store determine (\<open>write_code\<close>) and changes nothing; it
  never touches memory outside the allocation. A read returns the file's bytes, followed by
  zeros and with an error code if it goes beyond the end.
\<close>

theorem memdb_write_read:
  assumes "store_ok p" and "0 \<le> ofs"
  shows "\<exists>rc q. memdbWrite pNew z ofs p = Some (rc, q) \<and> store_ok q
    \<and> rc = write_code (pNew \<noteq> None) (int (length z)) ofs p
    \<and> content q = (if rc = SQLITE_OK then file_write (nat ofs) z (content p) else content p)
    \<and> (\<forall>n k. 0 \<le> n \<and> 0 \<le> k \<longrightarrow> memdbRead n k q =
         (if k + n > int (length (content q)) then SQLITE_IOERR_SHORT_READ else SQLITE_OK,
          file_read (nat n) (nat k) (content q)))"
proof -
  obtain rc q where q: "memdbWrite pNew z ofs p = Some (rc, q)" "store_ok q"
    "rc = write_code (pNew \<noteq> None) (int (length z)) ofs p"
    "if rc = SQLITE_OK then content q = file_write (nat ofs) z (content p) else q = p"
    using Write_result [OF assms, of pNew z] by blast
  have "int (length (content q)) = sz q" using content_length [OF q(2)] q(2) by (simp add: store_ok_def)
  then show ?thesis using q memdbRead_correct [OF q(2)] by (auto split: if_splits)
qed

text \<open>Writing three bytes behind the end of a store of four bytes.\<close>

definition example_store :: mem_store where
  "example_store = sqlite3_deserialize 1073741824 [1, 2, 3, 4] 4 4
     (SQLITE_DESERIALIZE_RESIZEABLE OR SQLITE_DESERIALIZE_FREEONCLOSE) (mem_store_new 1073741824)"

theorem memdb_write_read_witness:
  "\<exists>q. memdbWrite (Some (\<lambda>_. 99)) [7, 8, 9] 6 example_store = Some (SQLITE_OK, q)
     \<and> content q = [1, 2, 3, 4, 0, 0, 7, 8, 9]
     \<and> memdbRead 5 5 q = (SQLITE_IOERR_SHORT_READ, [0, 7, 8, 9, 0])"
proof -
  have ok: "store_ok example_store"
    unfolding example_store_def by (rule deserialize_ok) (simp_all add: mem_store_new_def)
  have e: "write_code (Some (\<lambda>_. 99 :: u8) \<noteq> None) (int (length [7, 8, 9 :: u8])) 6 example_store = SQLITE_OK"
    "file_write (nat 6) [7, 8, 9] (content example_store) = [1, 2, 3, 4, 0, 0, 7, 8, 9]" by code_simp+
  obtain q where q: "memdbWrite (Some (\<lambda>_. 99)) [7, 8, 9] 6 example_store = Some (SQLITE_OK, q)"
    "content q = [1, 2, 3, 4, 0, 0, 7, 8, 9]"
    "memdbRead 5 5 q = (if (5::int) + 5 > int (length (content q)) then SQLITE_IOERR_SHORT_READ else SQLITE_OK,
       file_read (nat 5) (nat 5) (content q))"
    using memdb_write_read [OF ok, of 6 "Some (\<lambda>_. 99)" "[7, 8, 9]"] unfolding e by fastforce
  moreover have "file_read (nat 5) (nat 5) [1, 2, 3, 4, 0, 0, 7, 8, 9] = [0, 7, 8, 9, 0]" by code_simp
  ultimately show ?thesis by simp
qed

text \<open>
  C28. The registry is sound in every reachable state: opening and closing never follow a
  pointer to a freed store; two registered stores never have the same name, and every store is in use
  by some handle, so that once all handles are closed nothing is left; opening a name that is open
  gives the same store.
\<close>

theorem memdb_registry_sound:
  assumes "memdb_reachable g"
  shows "(\<forall>x zName pNew. files g x = None \<and> (\<forall>i. pNew = Some i \<longrightarrow> heap g i = None) \<longrightarrow>
      (\<exists>rc g'. memdbOpen mx pNew apNew pMutex zName x g = Some (rc, g') \<and> (rc = SQLITE_OK \<or> rc = SQLITE_NOMEM \<and> g' = g)))
    \<and> (\<forall>x f. files g x = Some f \<and> eLock f = SQLITE_LOCK_NONE \<longrightarrow> memdbClose x g \<noteq> None)
    \<and> (\<forall>i p. heap g i = Some p \<longrightarrow> (\<exists>x f. files g x = Some f \<and> pStore f = i))
    \<and> (\<forall>i j p q. heap g i = Some p \<and> heap g j = Some q \<and> zFName p = zFName q \<and> zFName p \<noteq> None \<longrightarrow> i = j)"
proof -
  have ok: "fs_ok g" by (rule reachable_ok [OF assms])
  note g = fs_okD [OF ok]
  have used: "\<exists>x f. files g x = Some f \<and> pStore f = i" if "heap g i = Some p" for i p
  proof (rule ccontr)
    assume "\<not> ?thesis"
    then have "{fd. \<exists>f. files g fd = Some f \<and> at_least i 0 f} = {}" by (auto simp: at_least_def)
    then have "fcount (files g) (at_least i 0) = 0" by (simp only: fcount_def card.empty of_nat_0)
    with g(6) [OF that] show False by (auto simp: refs_ok_def split: option.splits)
  qed
  have same: "i = j" if "heap g i = Some p" "heap g j = Some q" "zFName p = zFName q" "zFName p \<noteq> None" for i j p q
    using that g(6) [OF that(1)] g(6) [OF that(2)] g(3)
    by (auto simp: refs_ok_def registry_ok_def split: option.splits)
  have opened: "\<exists>rc g'. memdbOpen mx pNew apNew pMutex zName x g = Some (rc, g') \<and> (rc = SQLITE_OK \<or> rc = SQLITE_NOMEM \<and> g' = g)"
    if "files g x = None" "\<And>i. pNew = Some i \<Longrightarrow> heap g i = None" for x zName pNew
    using Open_ok [OF ok that(1), of pNew mx apNew pMutex zName] that(2) by blast
  have closed: "memdbClose x g \<noteq> None" if "files g x = Some f" "eLock f = SQLITE_LOCK_NONE" for x f
    using Close_ok [OF ok that] by auto
  show ?thesis
    by (intro conjI allI impI; (elim conjE)?)
      (rule opened, assumption, blast, rule closed, assumption, assumption, rule used, assumption, rule same, assumption+)
qed

theorem memdb_registry_sound_witness:
  "memdb_reachable example_fs \<and> memdbClose 1 example_fs \<noteq> None"
proof -
  have "files example_fs 1 = Some \<lparr>pStore = 7, eLock = 0\<rparr>" by code_simp
  then show ?thesis using memdb_registry_sound [OF example_fs_reachable] example_fs_reachable by (auto simp: lock_levels)
qed

text \<open>The size limit does not bind inside the allocation: after a limit of 4 bytes was
  granted, the store still grows to 6.\<close>

lemma size_limit_exceeded:
  "\<exists>p q. memdbFileControl SQLITE_FCNTL_SIZE_LIMIT 4 (snd (the (memdbWrite (Some (\<lambda>_. 0)) [1, 2, 3, 4] 0 (mem_store_new 100))))
       = (SQLITE_OK, 4, p)
     \<and> memdbWrite None [5, 6] 4 p = Some (SQLITE_OK, q) \<and> sz q = 6 \<and> szMax q = 4"
proof -
  let ?p = "snd (snd (memdbFileControl SQLITE_FCNTL_SIZE_LIMIT 4 (snd (the (memdbWrite (Some (\<lambda>_. 0)) [1, 2, 3, 4] 0 (mem_store_new 100))))))"
  have "fst (the (memdbWrite None [5, 6] 4 ?p)) = SQLITE_OK \<and> memdbWrite None [5, 6] 4 ?p \<noteq> None
    \<and> sz (snd (the (memdbWrite None [5, 6] 4 ?p))) = 6 \<and> szMax (snd (the (memdbWrite None [5, 6] 4 ?p))) = 4" by code_simp
  moreover have "fst (memdbFileControl SQLITE_FCNTL_SIZE_LIMIT 4 (snd (the (memdbWrite (Some (\<lambda>_. 0)) [1, 2, 3, 4] 0 (mem_store_new 100))))) = SQLITE_OK
    \<and> fst (snd (memdbFileControl SQLITE_FCNTL_SIZE_LIMIT 4 (snd (the (memdbWrite (Some (\<lambda>_. 0)) [1, 2, 3, 4] 0 (mem_store_new 100)))))) = 4" by code_simp
  ultimately show ?thesis by (intro exI [of _ ?p] exI [of _ "snd (the (memdbWrite None [5, 6] 4 ?p))"]) (auto simp: prod_eq_iff)
qed

end
