(* ===== verification/Keywords.thy ===== *)
theory Keywords
  imports Ctype Parse_Codes
begin

text \<open>
  The keyword table of the tokenizer (\<open>keywordhash.h\<close>, a perfect-ish hash table over one
  string that overlaps the texts of all keywords). The collision chain is followed with fuel,
  and \<open>None\<close> would be a chain that does not end. The reference is the plain list of the 147 keywords
  with their token codes.
\<close>

unbundle bit_operations_syntax

subsection \<open>The tables\<close>

definition zKWText :: string where
  "zKWText =
    ''REINDEXEDESCAPEACHECKEYBEFOREIGNOREGEXPLAINSTEADDATABASELECTABLEFTHENDEF'' @
    ''ERRABLELSEXCLUDELETEMPORARYISNULLSAVEPOINTERSECTIESNOTNULLIKEXCEPTRANSAC'' @
    ''TIONATURALTERAISEXCLUSIVEXISTSCONSTRAINTOFFSETRIGGERANGENERATEDETACHAVIN'' @
    ''GLOBEGINNEREFERENCESUNIQUERYWITHOUTERELEASEATTACHBETWEENOTHINGROUPSCASCA'' @
    ''DEFAULTCASECOLLATECREATECURRENT_DATEIMMEDIATEJOINSERTMATCHPLANALYZEPRAGM'' @
    ''ATERIALIZEDEFERREDISTINCTUPDATEVALUESVIRTUALWAYSWHENWHERECURSIVEABORTAFT'' @
    ''ERENAMEANDROPARTITIONAUTOINCREMENTCASTCOLUMNCOMMITCONFLICTCROSSCURRENT_T'' @
    ''IMESTAMPRECEDINGFAILASTFILTEREPLACEFIRSTFOLLOWINGFROMFULLIMITIFORDERESTR'' @
    ''ICTOTHERSOVERETURNINGRIGHTROLLBACKROWSUNBOUNDEDUNIONUSINGVACUUMVIEWINDOW'' @
    ''BYINITIALLYPRIMARY''"

definition aKWHash :: "nat list" where
  "aKWHash = [
    84, 92, 134, 82, 105, 29, 0, 0, 94, 0, 85, 72, 0, 53, 35, 86, 15, 0,
    42, 97, 54, 89, 135, 19, 0, 0, 140, 0, 40, 129, 0, 22, 107, 0, 9, 0,
    0, 123, 80, 0, 78, 6, 0, 65, 103, 147, 0, 136, 115, 0, 0, 48, 0, 90,
    24, 0, 17, 0, 27, 70, 23, 26, 5, 60, 142, 110, 122, 0, 73, 91, 71, 145,
    61, 120, 74, 0, 49, 0, 11, 41, 0, 113, 0, 0, 0, 109, 10, 111, 116, 125,
    14, 50, 124, 0, 100, 0, 18, 121, 144, 56, 130, 139, 88, 83, 37, 30, 126, 0,
    0, 108, 51, 131, 128, 0, 34, 0, 0, 132, 0, 98, 38, 39, 0, 20, 45, 117,
    93]"

definition aKWNext :: "nat list" where
  "aKWNext = [
    0, 0, 0, 0, 0, 4, 0, 43, 0, 0, 106, 114, 0, 0, 0, 2, 0, 0,
    143, 0, 0, 0, 13, 0, 0, 0, 0, 141, 0, 0, 119, 52, 0, 0, 137, 12,
    0, 0, 62, 0, 138, 0, 133, 0, 0, 36, 0, 0, 28, 77, 0, 0, 0, 0,
    59, 0, 47, 0, 0, 0, 0, 0, 0, 0, 0, 0, 0, 69, 0, 0, 0, 0,
    0, 146, 3, 0, 58, 0, 1, 75, 0, 0, 0, 31, 0, 0, 0, 0, 0, 127,
    0, 104, 0, 64, 66, 63, 0, 0, 0, 0, 0, 46, 0, 16, 8, 0, 0, 0,
    0, 0, 0, 0, 0, 0, 0, 81, 101, 0, 112, 21, 7, 67, 0, 79, 96, 118,
    0, 0, 68, 0, 0, 99, 44, 0, 55, 0, 76, 0, 95, 32, 33, 57, 25, 0,
    102, 0, 0, 87]"

definition aKWLen :: "nat list" where
  "aKWLen = [
    0, 7, 7, 5, 4, 6, 4, 5, 3, 6, 7, 3, 6, 6, 7, 7, 3, 8,
    2, 6, 5, 4, 4, 3, 10, 4, 7, 6, 9, 4, 2, 6, 5, 9, 9, 4,
    7, 3, 2, 4, 4, 6, 11, 6, 2, 7, 5, 5, 9, 6, 10, 4, 6, 2,
    3, 7, 5, 9, 6, 6, 4, 5, 5, 10, 6, 5, 7, 4, 5, 7, 6, 7,
    7, 6, 5, 7, 3, 7, 4, 7, 6, 12, 9, 4, 6, 5, 4, 7, 6, 12,
    8, 8, 2, 6, 6, 7, 6, 4, 5, 9, 5, 5, 6, 3, 4, 9, 13, 2,
    2, 4, 6, 6, 8, 5, 17, 12, 7, 9, 4, 4, 6, 7, 5, 9, 4, 4,
    5, 2, 5, 8, 6, 4, 9, 5, 8, 4, 3, 9, 5, 5, 6, 4, 6, 2,
    2, 9, 3, 7]"

definition aKWOffset :: "nat list" where
  "aKWOffset = [
    0, 0, 2, 2, 8, 9, 14, 16, 20, 23, 25, 25, 29, 33, 36, 41, 46, 48,
    53, 54, 59, 62, 65, 67, 69, 78, 81, 86, 90, 90, 94, 99, 101, 105, 111, 119,
    123, 123, 123, 126, 129, 132, 137, 142, 146, 147, 152, 156, 160, 168, 174, 181, 184, 184,
    187, 189, 195, 198, 206, 211, 216, 219, 222, 226, 236, 239, 244, 244, 248, 252, 259, 265,
    271, 277, 277, 283, 284, 288, 295, 299, 306, 312, 324, 333, 335, 341, 346, 348, 355, 359,
    370, 377, 378, 385, 391, 397, 402, 408, 412, 415, 424, 429, 433, 439, 441, 444, 453, 455,
    457, 466, 470, 476, 482, 490, 495, 495, 495, 511, 520, 523, 527, 532, 539, 544, 553, 557,
    560, 565, 567, 571, 579, 585, 588, 597, 602, 610, 610, 614, 623, 628, 633, 639, 642, 645,
    648, 650, 655, 659]"

definition aKWCode :: "nat list" where
  "aKWCode = [0,
    TK_REINDEX, TK_INDEXED, TK_INDEX, TK_DESC, TK_ESCAPE, TK_EACH,
    TK_CHECK, TK_KEY, TK_BEFORE, TK_FOREIGN, TK_FOR, TK_IGNORE,
    TK_LIKE_KW, TK_EXPLAIN, TK_INSTEAD, TK_ADD, TK_DATABASE, TK_AS,
    TK_SELECT, TK_TABLE, TK_JOIN_KW, TK_THEN, TK_END, TK_DEFERRABLE,
    TK_ELSE, TK_EXCLUDE, TK_DELETE, TK_TEMP, TK_TEMP, TK_OR,
    TK_ISNULL, TK_NULLS, TK_SAVEPOINT, TK_INTERSECT, TK_TIES, TK_NOTNULL,
    TK_NOT, TK_NO, TK_NULL, TK_LIKE_KW, TK_EXCEPT, TK_TRANSACTION,
    TK_ACTION, TK_ON, TK_JOIN_KW, TK_ALTER, TK_RAISE, TK_EXCLUSIVE,
    TK_EXISTS, TK_CONSTRAINT, TK_INTO, TK_OFFSET, TK_OF, TK_SET,
    TK_TRIGGER, TK_RANGE, TK_GENERATED, TK_DETACH, TK_HAVING, TK_LIKE_KW,
    TK_BEGIN, TK_JOIN_KW, TK_REFERENCES, TK_UNIQUE, TK_QUERY, TK_WITHOUT,
    TK_WITH, TK_JOIN_KW, TK_RELEASE, TK_ATTACH, TK_BETWEEN, TK_NOTHING,
    TK_GROUPS, TK_GROUP, TK_CASCADE, TK_ASC, TK_DEFAULT, TK_CASE,
    TK_COLLATE, TK_CREATE, TK_CTIME_KW, TK_IMMEDIATE, TK_JOIN, TK_INSERT,
    TK_MATCH, TK_PLAN, TK_ANALYZE, TK_PRAGMA, TK_MATERIALIZED, TK_DEFERRED,
    TK_DISTINCT, TK_IS, TK_UPDATE, TK_VALUES, TK_VIRTUAL, TK_ALWAYS,
    TK_WHEN, TK_WHERE, TK_RECURSIVE, TK_ABORT, TK_AFTER, TK_RENAME,
    TK_AND, TK_DROP, TK_PARTITION, TK_AUTOINCR, TK_TO, TK_IN,
    TK_CAST, TK_COLUMNKW, TK_COMMIT, TK_CONFLICT, TK_JOIN_KW, TK_CTIME_KW,
    TK_CTIME_KW, TK_CURRENT, TK_PRECEDING, TK_FAIL, TK_LAST, TK_FILTER,
    TK_REPLACE, TK_FIRST, TK_FOLLOWING, TK_FROM, TK_JOIN_KW, TK_LIMIT,
    TK_IF, TK_ORDER, TK_RESTRICT, TK_OTHERS, TK_OVER, TK_RETURNING,
    TK_JOIN_KW, TK_ROLLBACK, TK_ROWS, TK_ROW, TK_UNBOUNDED, TK_UNION,
    TK_USING, TK_VACUUM, TK_VIEW, TK_WINDOW, TK_DO, TK_BY,
    TK_INITIALLY, TK_ALL, TK_PRIMARY]"

definition SQLITE_N_KEYWORD :: nat where "SQLITE_N_KEYWORD = 147"

subsection \<open>The lookup\<close>

definition charMap :: "u8 \<Rightarrow> u8" where
  "charMap x = sqlite3UpperToLower ! unat x"

text \<open>\<open>z[j] & ~0x20\<close>, and the byte of the keyword at position \<open>j\<close>.\<close>

definition kw_fold :: "u8 \<Rightarrow> u8" where "kw_fold c = c AND NOT 0x20"

definition zKW :: "nat \<Rightarrow> nat \<Rightarrow> u8" where
  "zKW i j = of_char (zKWText ! (aKWOffset ! i + j))"

function kw_scan :: "u8 list \<Rightarrow> nat \<Rightarrow> nat \<Rightarrow> nat \<Rightarrow> nat" where
  "kw_scan z n i j = (if j < n \<and> kw_fold (z ! j) = zKW i j then kw_scan z n i (j + 1) else j)"
  by pat_completeness auto
termination by (relation "measure (\<lambda>(z, n, i, j). n - j)") auto

declare kw_scan.simps [simp del]

fun kw_chain :: "nat \<Rightarrow> u8 list \<Rightarrow> nat \<Rightarrow> nat \<Rightarrow> nat option option" where
  "kw_chain 0 z n i = None"
| "kw_chain (Suc k) z n i =
     (if i = 0 then Some None
      else if aKWLen ! i \<noteq> n then kw_chain k z n (aKWNext ! i)
      else if kw_fold (z ! 0) \<noteq> zKW i 0 then kw_chain k z n (aKWNext ! i)
      else if kw_fold (z ! 1) \<noteq> zKW i 1 then kw_chain k z n (aKWNext ! i)
      else if kw_scan z n i 2 < n then kw_chain k z n (aKWNext ! i)
      else Some (Some i))"

definition kw_hash :: "u8 \<Rightarrow> u8 \<Rightarrow> nat \<Rightarrow> nat" where
  "kw_hash c d n = nat (((uint (charMap c) * 4) XOR (uint (charMap d) * 3) XOR int n * 1) mod 127)"

text \<open>The new value of \<open>*pType\<close>; the function always returns \<open>n\<close>. The fuel exceeds the number of
  keywords.\<close>

definition keywordCode :: "u8 list \<Rightarrow> nat \<Rightarrow> nat \<Rightarrow> nat option" where
  "keywordCode z n pType = do {
     r \<leftarrow> kw_chain 148 z n (aKWHash ! kw_hash (z ! 0) (z ! (n - 1)) n);
     Some (case r of None \<Rightarrow> pType | Some i \<Rightarrow> aKWCode ! i) }"

definition sqlite3KeywordCode :: "u8 list \<Rightarrow> nat \<Rightarrow> nat option" where
  "sqlite3KeywordCode z n = (if n \<ge> 2 then keywordCode z n TK_ID else Some TK_ID)"

definition sqlite3_keyword_name :: "int \<Rightarrow> string option" where
  "sqlite3_keyword_name i =
     (if i < 0 \<or> i \<ge> int SQLITE_N_KEYWORD then None
      else let i = nat (i + 1) in Some (take (aKWLen ! i) (drop (aKWOffset ! i) zKWText)))"

definition sqlite3_keyword_count :: nat where "sqlite3_keyword_count = SQLITE_N_KEYWORD"

definition sqlite3_keyword_check :: "u8 list \<Rightarrow> nat \<Rightarrow> bool option" where
  "sqlite3_keyword_check zName nName = do { c \<leftarrow> sqlite3KeywordCode zName nName; Some (TK_ID \<noteq> c) }"

subsection \<open>The list of keywords\<close>

definition keyword_list :: "(string \<times> nat) list" where
  "keyword_list = [
    (''REINDEX'', TK_REINDEX), (''INDEXED'', TK_INDEXED), (''INDEX'', TK_INDEX),
    (''DESC'', TK_DESC), (''ESCAPE'', TK_ESCAPE), (''EACH'', TK_EACH),
    (''CHECK'', TK_CHECK), (''KEY'', TK_KEY), (''BEFORE'', TK_BEFORE),
    (''FOREIGN'', TK_FOREIGN), (''FOR'', TK_FOR), (''IGNORE'', TK_IGNORE),
    (''REGEXP'', TK_LIKE_KW), (''EXPLAIN'', TK_EXPLAIN), (''INSTEAD'', TK_INSTEAD),
    (''ADD'', TK_ADD), (''DATABASE'', TK_DATABASE), (''AS'', TK_AS),
    (''SELECT'', TK_SELECT), (''TABLE'', TK_TABLE), (''LEFT'', TK_JOIN_KW),
    (''THEN'', TK_THEN), (''END'', TK_END), (''DEFERRABLE'', TK_DEFERRABLE),
    (''ELSE'', TK_ELSE), (''EXCLUDE'', TK_EXCLUDE), (''DELETE'', TK_DELETE),
    (''TEMPORARY'', TK_TEMP), (''TEMP'', TK_TEMP), (''OR'', TK_OR),
    (''ISNULL'', TK_ISNULL), (''NULLS'', TK_NULLS), (''SAVEPOINT'', TK_SAVEPOINT),
    (''INTERSECT'', TK_INTERSECT), (''TIES'', TK_TIES), (''NOTNULL'', TK_NOTNULL),
    (''NOT'', TK_NOT), (''NO'', TK_NO), (''NULL'', TK_NULL),
    (''LIKE'', TK_LIKE_KW), (''EXCEPT'', TK_EXCEPT), (''TRANSACTION'', TK_TRANSACTION),
    (''ACTION'', TK_ACTION), (''ON'', TK_ON), (''NATURAL'', TK_JOIN_KW),
    (''ALTER'', TK_ALTER), (''RAISE'', TK_RAISE), (''EXCLUSIVE'', TK_EXCLUSIVE),
    (''EXISTS'', TK_EXISTS), (''CONSTRAINT'', TK_CONSTRAINT), (''INTO'', TK_INTO),
    (''OFFSET'', TK_OFFSET), (''OF'', TK_OF), (''SET'', TK_SET),
    (''TRIGGER'', TK_TRIGGER), (''RANGE'', TK_RANGE), (''GENERATED'', TK_GENERATED),
    (''DETACH'', TK_DETACH), (''HAVING'', TK_HAVING), (''GLOB'', TK_LIKE_KW),
    (''BEGIN'', TK_BEGIN), (''INNER'', TK_JOIN_KW), (''REFERENCES'', TK_REFERENCES),
    (''UNIQUE'', TK_UNIQUE), (''QUERY'', TK_QUERY), (''WITHOUT'', TK_WITHOUT),
    (''WITH'', TK_WITH), (''OUTER'', TK_JOIN_KW), (''RELEASE'', TK_RELEASE),
    (''ATTACH'', TK_ATTACH), (''BETWEEN'', TK_BETWEEN), (''NOTHING'', TK_NOTHING),
    (''GROUPS'', TK_GROUPS), (''GROUP'', TK_GROUP), (''CASCADE'', TK_CASCADE),
    (''ASC'', TK_ASC), (''DEFAULT'', TK_DEFAULT), (''CASE'', TK_CASE),
    (''COLLATE'', TK_COLLATE), (''CREATE'', TK_CREATE), (''CURRENT_DATE'', TK_CTIME_KW),
    (''IMMEDIATE'', TK_IMMEDIATE), (''JOIN'', TK_JOIN), (''INSERT'', TK_INSERT),
    (''MATCH'', TK_MATCH), (''PLAN'', TK_PLAN), (''ANALYZE'', TK_ANALYZE),
    (''PRAGMA'', TK_PRAGMA), (''MATERIALIZED'', TK_MATERIALIZED), (''DEFERRED'', TK_DEFERRED),
    (''DISTINCT'', TK_DISTINCT), (''IS'', TK_IS), (''UPDATE'', TK_UPDATE),
    (''VALUES'', TK_VALUES), (''VIRTUAL'', TK_VIRTUAL), (''ALWAYS'', TK_ALWAYS),
    (''WHEN'', TK_WHEN), (''WHERE'', TK_WHERE), (''RECURSIVE'', TK_RECURSIVE),
    (''ABORT'', TK_ABORT), (''AFTER'', TK_AFTER), (''RENAME'', TK_RENAME),
    (''AND'', TK_AND), (''DROP'', TK_DROP), (''PARTITION'', TK_PARTITION),
    (''AUTOINCREMENT'', TK_AUTOINCR), (''TO'', TK_TO), (''IN'', TK_IN),
    (''CAST'', TK_CAST), (''COLUMN'', TK_COLUMNKW), (''COMMIT'', TK_COMMIT),
    (''CONFLICT'', TK_CONFLICT), (''CROSS'', TK_JOIN_KW), (''CURRENT_TIMESTAMP'', TK_CTIME_KW),
    (''CURRENT_TIME'', TK_CTIME_KW), (''CURRENT'', TK_CURRENT), (''PRECEDING'', TK_PRECEDING),
    (''FAIL'', TK_FAIL), (''LAST'', TK_LAST), (''FILTER'', TK_FILTER),
    (''REPLACE'', TK_REPLACE), (''FIRST'', TK_FIRST), (''FOLLOWING'', TK_FOLLOWING),
    (''FROM'', TK_FROM), (''FULL'', TK_JOIN_KW), (''LIMIT'', TK_LIMIT),
    (''IF'', TK_IF), (''ORDER'', TK_ORDER), (''RESTRICT'', TK_RESTRICT),
    (''OTHERS'', TK_OTHERS), (''OVER'', TK_OVER), (''RETURNING'', TK_RETURNING),
    (''RIGHT'', TK_JOIN_KW), (''ROLLBACK'', TK_ROLLBACK), (''ROWS'', TK_ROWS),
    (''ROW'', TK_ROW), (''UNBOUNDED'', TK_UNBOUNDED), (''UNION'', TK_UNION),
    (''USING'', TK_USING), (''VACUUM'', TK_VACUUM), (''VIEW'', TK_VIEW),
    (''WINDOW'', TK_WINDOW), (''DO'', TK_DO), (''BY'', TK_BY),
    (''INITIALLY'', TK_INITIALLY), (''ALL'', TK_ALL), (''PRIMARY'', TK_PRIMARY)]"

definition kw_text :: "nat \<Rightarrow> string" where
  "kw_text i = take (aKWLen ! i) (drop (aKWOffset ! i) zKWText)"

lemma table_lengths: "length aKWNext = 148 \<and> length aKWLen = 148 \<and> length aKWOffset = 148 \<and> length aKWCode = 148 \<and> length aKWHash = 127 \<and> length zKWText = 666"
  by code_simp

lemma texts_fit: "map2 (\<lambda>off len. take len (drop off zKWText)) (tl aKWOffset) (tl aKWLen) = map fst keyword_list"
  by (simp add: aKWOffset_def aKWLen_def keyword_list_def zKWText_def)

lemma codes_fit: "tl aKWCode = map snd keyword_list"
  by code_simp

fun chain_list :: "nat \<Rightarrow> nat \<Rightarrow> nat list" where
  "chain_list 0 i = []"
| "chain_list (Suc k) i = (if i = 0 then [] else i # chain_list k (aKWNext ! i))"

definition text_hash :: "string \<Rightarrow> nat" where
  "text_hash t = kw_hash (of_char (hd t)) (of_char (last t)) (length t)"

lemma letters:
  "charMap 65 = 97"
  "charMap 66 = 98"
  "charMap 67 = 99"
  "charMap 68 = 100"
  "charMap 69 = 101"
  "charMap 70 = 102"
  "charMap 71 = 103"
  "charMap 72 = 104"
  "charMap 73 = 105"
  "charMap 74 = 106"
  "charMap 75 = 107"
  "charMap 76 = 108"
  "charMap 77 = 109"
  "charMap 78 = 110"
  "charMap 79 = 111"
  "charMap 80 = 112"
  "charMap 81 = 113"
  "charMap 82 = 114"
  "charMap 83 = 115"
  "charMap 84 = 116"
  "charMap 85 = 117"
  "charMap 86 = 118"
  "charMap 87 = 119"
  "charMap 88 = 120"
  "charMap 89 = 121"
  by (simp_all add: charMap_def sqlite3UpperToLower_def)

definition text_hashes :: "nat list" where
  "text_hashes = [
    40, 16, 74, 62, 62, 41, 73, 69, 34, 86, 78, 14, 31, 90, 16, 44, 56, 96,
    23, 123, 105, 31, 60, 54, 64, 61, 58, 51, 5, 105, 103, 101, 26, 114, 14, 124,
    104, 120, 121, 28, 79, 18, 73, 117, 124, 88, 99, 51, 76, 91, 110, 103, 13, 20,
    2, 99, 58, 47, 20, 63, 72, 120, 28, 126, 43, 8, 97, 112, 97, 59, 70, 11,
    68, 74, 37, 47, 76, 40, 37, 38, 48, 3, 103, 0, 10, 15, 45, 102, 21, 53,
    69, 1, 126, 8, 28, 92, 19, 119, 111, 94, 88, 98, 44, 69, 4, 86, 32, 109,
    85, 65, 87, 89, 81, 78, 48, 88, 125, 89, 105, 73, 97, 66, 37, 92, 89, 106,
    21, 112, 29, 100, 111, 117, 18, 2, 22, 47, 114, 28, 101, 26, 58, 64, 96, 98,
    71, 68, 45]"

lemma hashes_fit: "map (text_hash \<circ> fst) keyword_list = text_hashes"
  by (simp add: keyword_list_def text_hashes_def text_hash_def kw_hash_def letters)

lemma chains_fit: "list_all2 (\<lambda>i h. i \<in> set (chain_list 5 (aKWHash ! h))) [1..<148] text_hashes"
  by code_simp

lemma lengths_fit: "tl aKWLen = map (length \<circ> fst) keyword_list"
  by (simp add: aKWLen_def keyword_list_def)

lemma texts_ok: "list_all (\<lambda>t. 2 \<le> length t \<and> 65 \<le> (of_char (hd t) :: u8) \<and> of_char (hd t) \<le> (90 :: u8) \<and>
     65 \<le> (of_char (last t) :: u8) \<and> of_char (last t) \<le> (90 :: u8)) (map fst keyword_list)"
  by (simp add: keyword_list_def)

lemma texts_distinct: "distinct (map fst keyword_list)"
  by (simp add: keyword_list_def)

lemma links_small: "list_all (\<lambda>i. i < 148) aKWNext \<and> list_all (\<lambda>i. i < 148) aKWHash"
  by (simp add: aKWNext_def aKWHash_def)

fun chain_ends :: "nat \<Rightarrow> nat \<Rightarrow> bool" where
  "chain_ends 0 i \<longleftrightarrow> False"
| "chain_ends (Suc k) i \<longleftrightarrow> i = 0 \<or> chain_ends k (aKWNext ! i)"

lemma chains_end: "list_all (chain_ends 5) aKWHash"
  by code_simp

subsection \<open>The table is the list\<close>

lemma unat_of_char: "unat (of_char c :: u8) = of_char c"
proof -
  have "unat (of_nat (of_char c) :: u8) = of_char c mod 256" by (simp only: unat_of_nat) simp
  also have "\<dots> = of_char c" by (rule of_char_mod_256)
  finally show ?thesis by (simp only: of_nat_of_char)
qed

lemma of_char_u8_inj: "(of_char c :: u8) = of_char d \<longleftrightarrow> c = d"
  by (metis unat_of_char of_char_eq_iff)

lemma kw_fold_cases: "x = kw_fold x \<or> x = kw_fold x + 32"
proof -
  let ?b = "if bit x 5 then 32 else 0 :: u8"
  have "kw_fold x AND ?b = 0" "kw_fold x OR ?b = x"
    by (rule u8_eqI, simp add: kw_fold_def bit_simps)+
  then have "kw_fold x + ?b = x" by (metis disjunctive_add_eq_or)
  then show ?thesis by (cases "bit x 5") auto
qed

lemma charMap_table: "charMap x = (if 65 \<le> x \<and> x \<le> 90 then x + 32 else x)"
  unfolding charMap_def by (rule table_lookup [OF sqlite3UpperToLower_table])

lemma charMap_fold:
  assumes "65 \<le> kw_fold x" "kw_fold x \<le> 90"
  shows "charMap x = kw_fold x + 32"
proof (cases "x = kw_fold x")
  case True
  then show ?thesis using assms charMap_table [of x] by simp
next
  case False
  then have x: "x = kw_fold x + 32" using kw_fold_cases by blast
  have "unat x = unat (kw_fold x) + 32" using assms(2) by (subst x) (simp add: word_le_nat_alt unat_word_ariths)
  then have "\<not> x \<le> 90" using assms(1) by (simp add: word_le_nat_alt)
  then show ?thesis using x charMap_table [of x] by simp
qed

definition entry :: "nat \<Rightarrow> string \<times> nat" where "entry i = keyword_list ! (i - 1)"

lemma list_length: "length keyword_list = 147"
  by (simp add: keyword_list_def)

lemma entry_facts:
  assumes "0 < i" "i < 148"
  shows "aKWLen ! i = length (fst (entry i))" "aKWCode ! i = snd (entry i)"
    "take (aKWLen ! i) (drop (aKWOffset ! i) zKWText) = fst (entry i)"
    "2 \<le> length (fst (entry i))"
    "65 \<le> (of_char (hd (fst (entry i))) :: u8) \<and> of_char (hd (fst (entry i))) \<le> (90 :: u8)"
    "65 \<le> (of_char (last (fst (entry i))) :: u8) \<and> of_char (last (fst (entry i))) \<le> (90 :: u8)"
    "i \<in> set (chain_list 5 (aKWHash ! text_hash (fst (entry i))))"
proof -
  obtain j where j: "i = Suc j" "j < 147" using assms by (cases i) auto
  have e: "entry i = keyword_list ! j" "j < length keyword_list" using j by (simp_all add: entry_def list_length)
  have nl: "xs ! i = tl xs ! j" if "length xs = 148" for xs :: "nat list" using j that by (cases xs) auto
  note t = table_lengths
  show len: "aKWLen ! i = length (fst (entry i))"
    using nl [of aKWLen] t e by (simp add: lengths_fit)
  show "aKWCode ! i = snd (entry i)" using nl [of aKWCode] t e by (simp add: codes_fit)
  have "map2 (\<lambda>off len. take len (drop off zKWText)) (tl aKWOffset) (tl aKWLen) ! j = fst (keyword_list ! j)"
    unfolding texts_fit using e by simp
  then show "take (aKWLen ! i) (drop (aKWOffset ! i) zKWText) = fst (entry i)"
    using nl [of aKWLen] nl [of aKWOffset] t e j by simp
  have "fst (entry i) \<in> set (map fst keyword_list)" using e by simp
  then show "2 \<le> length (fst (entry i))"
    "65 \<le> (of_char (hd (fst (entry i))) :: u8) \<and> of_char (hd (fst (entry i))) \<le> (90 :: u8)"
    "65 \<le> (of_char (last (fst (entry i))) :: u8) \<and> of_char (last (fst (entry i))) \<le> (90 :: u8)"
    using texts_ok unfolding list_all_iff by blast+
  have l: "length text_hashes = 147" using hashes_fit by (metis length_map list_length)
  have "[1..<148] ! j \<in> set (chain_list 5 (aKWHash ! (text_hashes ! j)))"
    using list_all2_nthD2 [OF chains_fit, of j] l j by simp
  moreover have "text_hashes ! j = text_hash (fst (entry i))"
    using e by (simp add: hashes_fit [symmetric])
  ultimately show "i \<in> set (chain_list 5 (aKWHash ! text_hash (fst (entry i))))" using j by simp
qed

lemma kw_scan_full:
  "j \<le> n \<Longrightarrow> \<not> kw_scan z n i j < n \<longleftrightarrow> (\<forall>k. j \<le> k \<and> k < n \<longrightarrow> kw_fold (z ! k) = zKW i k)"
proof (induction z n i j rule: kw_scan.induct)
  case (1 z n i j)
  show ?case
  proof (cases "j < n \<and> kw_fold (z ! j) = zKW i j")
    case True
    then have s: "kw_scan z n i j = kw_scan z n i (j + 1)" by (subst kw_scan.simps) simp
    have "\<not> kw_scan z n i (j + 1) < n \<longleftrightarrow> (\<forall>k. j + 1 \<le> k \<and> k < n \<longrightarrow> kw_fold (z ! k) = zKW i k)"
      using 1(1) [OF True] True by simp
    also have "\<dots> \<longleftrightarrow> (\<forall>k. j \<le> k \<and> k < n \<longrightarrow> kw_fold (z ! k) = zKW i k)"
      using True by (metis Suc_eq_plus1 Suc_leD not_less_eq_eq order_antisym_conv)
    finally show ?thesis using s by simp
  next
    case False
    then show ?thesis using 1(2) by (subst kw_scan.simps) auto
  qed
qed

text \<open>A keyword matches when its text is the folded word.\<close>

definition kw_matches :: "u8 list \<Rightarrow> nat \<Rightarrow> nat \<Rightarrow> bool" where
  "kw_matches z n i \<longleftrightarrow> map kw_fold (take n z) = map of_char (fst (entry i))"

lemma matches_iff:
  assumes "0 < i" "i < 148" "n \<le> length z"
  shows "kw_matches z n i \<longleftrightarrow> aKWLen ! i = n \<and> kw_fold (z ! 0) = zKW i 0 \<and> kw_fold (z ! 1) = zKW i 1 \<and> \<not> kw_scan z n i 2 < n"
proof -
  let ?t = "fst (entry i)"
  note e = entry_facts [OF assms(1,2)]
  have off: "aKWOffset ! i < length zKWText"
    using e(1,3,4) by (cases "aKWOffset ! i < length zKWText") auto
  have z: "zKW i j = of_char (?t ! j)" if j: "j < length ?t" for j
  proof -
    have "?t ! j = take (aKWLen ! i) (drop (aKWOffset ! i) zKWText) ! j" by (simp only: e(3))
    also have "\<dots> = zKWText ! (aKWOffset ! i + j)" using j off by (simp add: e(1))
    finally show ?thesis by (simp add: zKW_def)
  qed
  have "kw_matches z n i \<longleftrightarrow> length ?t = n \<and> (\<forall>k < n. kw_fold (z ! k) = zKW i k)"
    unfolding kw_matches_def list_eq_iff_nth_eq using assms(3) z by auto
  moreover have "(\<forall>k < n. kw_fold (z ! k) = zKW i k) \<longleftrightarrow>
      kw_fold (z ! 0) = zKW i 0 \<and> kw_fold (z ! 1) = zKW i 1 \<and> \<not> kw_scan z n i 2 < n" if "length ?t = n"
  proof -
    have n: "2 \<le> n" using that e(4) by simp
    have "(\<forall>k < n. kw_fold (z ! k) = zKW i k) \<longleftrightarrow>
        kw_fold (z ! 0) = zKW i 0 \<and> kw_fold (z ! 1) = zKW i 1 \<and> (\<forall>k. 2 \<le> k \<and> k < n \<longrightarrow> kw_fold (z ! k) = zKW i k)"
    proof (intro iffI conjI allI impI)
      fix k assume a: "kw_fold (z ! 0) = zKW i 0 \<and> kw_fold (z ! 1) = zKW i 1 \<and> (\<forall>k. 2 \<le> k \<and> k < n \<longrightarrow> kw_fold (z ! k) = zKW i k)"
        and k: "k < n"
      consider "k = 0" | "k = 1" | "2 \<le> k" by linarith
      then show "kw_fold (z ! k) = zKW i k" by cases (use a k in simp_all)
    qed (use n in simp_all)
    then show ?thesis using kw_scan_full [OF n] by simp
  qed
  ultimately show ?thesis using e(1) by auto
qed

lemma link_small: "i < 148 \<Longrightarrow> aKWNext ! i < 148" "h < 127 \<Longrightarrow> aKWHash ! h < 148"
  using links_small table_lengths by (auto simp: list_all_length)

lemma chain_find:
  assumes "n \<le> length z"
  shows "chain_ends k i \<Longrightarrow> i < 148 \<Longrightarrow> kw_chain (k + d) z n i = Some (List.find (kw_matches z n) (chain_list k i))"
proof (induction k arbitrary: i)
  case (Suc k)
  show ?case
  proof (cases "i = 0")
    case False
    then have "kw_chain (k + d) z n (aKWNext ! i) = Some (List.find (kw_matches z n) (chain_list k (aKWNext ! i)))"
      using Suc by (simp add: link_small(1))
    then show ?thesis using matches_iff [of i n z] False Suc.prems(2) assms by auto
  qed simp
qed simp

lemma chain_list_small: "i < 148 \<Longrightarrow> j \<in> set (chain_list k i) \<Longrightarrow> 0 < j \<and> j < 148"
proof (induction k arbitrary: i)
  case (Suc k)
  show ?case
  proof (cases "j = i")
    case True
    then show ?thesis using Suc.prems by (cases "i = 0") simp_all
  next
    case False
    then have "j \<in> set (chain_list k (aKWNext ! i))" using Suc.prems(2) by (cases "i = 0") simp_all
    then show ?thesis using Suc.IH [OF link_small(1) [OF Suc.prems(1)]] by blast
  qed
qed simp

lemma entry_inj: "0 < i \<Longrightarrow> i < 148 \<Longrightarrow> 0 < j \<Longrightarrow> j < 148 \<Longrightarrow> fst (entry i) = fst (entry j) \<Longrightarrow> i = j"
  using texts_distinct nth_eq_iff_index_eq [of "map fst keyword_list" "i - 1" "j - 1"]
  by (simp add: entry_def list_length) arith

lemma kw_hash_less: "kw_hash c d n < 127"
  unfolding kw_hash_def by (simp add: nat_less_iff)

lemma map_of_char_inj: "map of_char s = (map of_char t :: u8 list) \<longleftrightarrow> s = t"
  by (rule inj_map_eq_map) (simp add: inj_def of_char_u8_inj)

lemma matching_hash:
  assumes "0 < i" "i < 148" "n \<le> length z" "kw_matches z n i"
  shows "kw_hash (z ! 0) (z ! (n - 1)) n = text_hash (fst (entry i))"
proof -
  let ?t = "fst (entry i)"
  note e = entry_facts [OF assms(1,2)]
  have m: "map kw_fold (take n z) = map of_char ?t" using assms(4) by (simp add: kw_matches_def)
  have len: "length ?t = n" using arg_cong [OF m, of length] assms(3) by simp
  have f: "kw_fold (z ! k) = of_char (?t ! k)" if "k < n" for k
    using arg_cong [OF m, of "\<lambda>xs. xs ! k"] that len assms(3) by simp
  have n: "2 \<le> n" using e(4) len by simp
  have "xs ! 0 = hd xs \<and> xs ! (length xs - 1) = last xs" if "2 \<le> length xs" for xs :: string
    using that by (cases "xs = []") (simp_all add: hd_conv_nth last_conv_nth)
  from this [OF e(4)] have ht: "?t ! 0 = hd ?t" "?t ! (n - 1) = last ?t" unfolding len by blast+
  have c: "charMap (z ! k) = charMap (of_char (?t ! k))" if "k < n" "65 \<le> (of_char (?t ! k) :: u8)" "of_char (?t ! k) \<le> (90 :: u8)" for k
    using charMap_fold [of "z ! k"] f [OF that(1)] that(2,3) charMap_table [of "of_char (?t ! k)"] by simp
  have "charMap (z ! 0) = charMap (of_char (hd ?t))" using c [of 0] n e(5) ht by simp
  moreover have "charMap (z ! (n - 1)) = charMap (of_char (last ?t))" using c [of "n - 1"] n e(6) ht by simp
  ultimately show ?thesis by (simp add: text_hash_def kw_hash_def len)
qed

lemma map_of_entry:
  assumes "0 < i" "i < 148"
  shows "map_of (map (\<lambda>(t, c). (map of_char t :: u8 list, c)) keyword_list) (map of_char (fst (entry i))) = Some (snd (entry i))"
proof (rule map_of_is_SomeI)
  have "map fst (map (\<lambda>(t, c). (map of_char t :: u8 list, c)) keyword_list) = map (map of_char) (map fst keyword_list)"
    by (simp add: case_prod_beta comp_def)
  then show "distinct (map fst (map (\<lambda>(t, c). (map of_char t :: u8 list, c)) keyword_list))"
    using texts_distinct by (simp only: distinct_map) (auto simp: inj_on_def map_of_char_inj)
  have "entry i \<in> set keyword_list" using assms by (simp add: entry_def list_length)
  then show "(map of_char (fst (entry i)), snd (entry i)) \<in> set (map (\<lambda>(t, c). (map of_char t :: u8 list, c)) keyword_list)"
    by (force simp: case_prod_beta)
qed

lemma keyword_code_list:
  assumes "n \<le> length z"
  shows "sqlite3KeywordCode z n =
    Some (case map_of (map (\<lambda>(t, c). (map of_char t, c)) keyword_list) (map kw_fold (take n z)) of
            None \<Rightarrow> TK_ID | Some c \<Rightarrow> c)"
proof -
  let ?L = "map (\<lambda>(t, c). (map of_char t :: u8 list, c)) keyword_list" and ?w = "map kw_fold (take n z)"
  have some: "\<exists>i. 0 < i \<and> i < 148 \<and> kw_matches z n i \<and> c = snd (entry i)" if "map_of ?L ?w = Some c" for c
  proof -
    from map_of_SomeD [OF that] obtain t where t: "(t, c) \<in> set keyword_list" "?w = map of_char t" by auto
    then obtain j where "j < 147" "keyword_list ! j = (t, c)" by (auto simp: in_set_conv_nth list_length)
    then show ?thesis using t(2) by (intro exI [of _ "Suc j"]) (simp add: entry_def kw_matches_def)
  qed
  have none: "\<not> kw_matches z n i" if "map_of ?L ?w = None" "0 < i" "i < 148" for i
    using that map_of_entry [OF that(2,3)] by (auto simp: kw_matches_def)
  show ?thesis
  proof (cases "2 \<le> n")
    case False
    have "map_of ?L ?w = None"
    proof (cases "map_of ?L ?w")
      case (Some c)
      then obtain i where i: "0 < i" "i < 148" "kw_matches z n i" using some by blast
      then show ?thesis using matches_iff [OF i(1,2) assms] entry_facts(1,4) [OF i(1,2)] False by simp
    qed
    then show ?thesis using False by (simp add: sqlite3KeywordCode_def)
  next
    case True
    let ?h = "kw_hash (z ! 0) (z ! (n - 1)) n"
    have sm: "aKWHash ! ?h < 148" by (rule link_small(2) [OF kw_hash_less])
    have "chain_ends 5 (aKWHash ! ?h)"
      using chains_end kw_hash_less table_lengths by (simp add: list_all_length)
    from chain_find [OF assms this sm, of 143]
    have r: "kw_chain 148 z n (aKWHash ! ?h) = Some (List.find (kw_matches z n) (chain_list 5 (aKWHash ! ?h)))" by simp
    show ?thesis
    proof (cases "map_of ?L ?w")
      case None
      have "List.find (kw_matches z n) (chain_list 5 (aKWHash ! ?h)) = None"
        unfolding find_None_iff using none [OF None] chain_list_small [OF sm] by blast
      then show ?thesis using True None r by (simp add: sqlite3KeywordCode_def keywordCode_def)
    next
      case (Some c)
      then obtain i where i: "0 < i" "i < 148" "kw_matches z n i" "c = snd (entry i)" using some by blast
      have mem: "i \<in> set (chain_list 5 (aKWHash ! ?h))"
        using entry_facts(7) [OF i(1,2)] matching_hash [OF i(1,2) assms i(3)] by simp
      then obtain j where j: "List.find (kw_matches z n) (chain_list 5 (aKWHash ! ?h)) = Some j"
        using i(3) by (metis find_None_iff not_Some_eq)
      then have "kw_matches z n j" "j \<in> set (chain_list 5 (aKWHash ! ?h))"
        by (auto simp: find_Some_iff)
      then have "j = i" using i chain_list_small [OF sm]
        by (intro entry_inj) (auto simp: kw_matches_def map_of_char_inj)
      then show ?thesis using True Some r j i entry_facts(2) [OF i(1,2)]
        by (simp add: sqlite3KeywordCode_def keywordCode_def)
    qed
  qed
qed

text \<open>
  C29. For every word the hash table, its overlapping texts and its collision chains find what
  the plain list of the 147 keywords says, and every chain ends. Words are compared after the
  bit \<open>0x20\<close> is cleared in every byte.
\<close>

theorem keyword_lookup:
  assumes "n \<le> length z"
  shows "sqlite3KeywordCode z n =
    Some (case map_of (map (\<lambda>(t, c). (map of_char t, c)) keyword_list) (map kw_fold (take n z)) of
            None \<Rightarrow> TK_ID | Some c \<Rightarrow> c)"
  by (rule keyword_code_list [OF assms])

theorem keyword_lookup_witness:
  "sqlite3KeywordCode (map of_char ''Select x'') 6 = Some TK_SELECT
   \<and> sqlite3KeywordCode (map of_char ''selects'') 7 = Some TK_ID"
proof -
  have "map_of (map (\<lambda>(t, c). (map of_char t, c)) keyword_list) (map kw_fold (take 6 (map of_char ''Select x''))) = Some TK_SELECT"
    "map_of (map (\<lambda>(t, c). (map of_char t, c)) keyword_list) (map kw_fold (take 7 (map of_char ''selects''))) = None"
    by (simp_all add: keyword_list_def kw_fold_def)
  then show ?thesis
    using keyword_lookup [of 6 "map of_char ''Select x''"] keyword_lookup [of 7 "map of_char ''selects''"] by simp
qed

text \<open>Clearing the bit also turns the byte \<open>0x7F\<close> into an underscore.\<close>

lemma keyword_check_del: "sqlite3_keyword_check (map of_char ''CURRENT'' @ [0x7F] @ map of_char ''DATE'') 12 = Some True"
proof -
  have "map_of (map (\<lambda>(t, c). (map of_char t, c)) keyword_list)
      (map kw_fold (take 12 (map of_char ''CURRENT'' @ [0x7F] @ map of_char ''DATE''))) = Some TK_CTIME_KW"
    by (simp add: keyword_list_def kw_fold_def)
  then have "sqlite3KeywordCode (map of_char ''CURRENT'' @ [0x7F] @ map of_char ''DATE'') 12 = Some TK_CTIME_KW"
    using keyword_code_list [of 12 "map of_char ''CURRENT'' @ [0x7F] @ map of_char ''DATE''"] by simp
  then show ?thesis by (simp add: sqlite3_keyword_check_def token_codes)
qed

end
