(* ===== verification/Tokenize.thy ===== *)
theory Tokenize
  imports Keywords
begin

text \<open>
  The SQL tokenizer (\<open>tokenize.c\<close>): the length and the code of the token at the start of a
  zero-terminated text. A text is the list of its bytes without the terminator; reading the
  terminator gives 0 and reading beyond it, which is undefined in C, is \<open>None\<close>.
\<close>

unbundle bit_operations_syntax

subsection \<open>Character classes\<close>

definition CC_X :: nat where "CC_X = 0"
definition CC_KYWD0 :: nat where "CC_KYWD0 = 1"
definition CC_KYWD :: nat where "CC_KYWD = 2"
definition CC_DIGIT :: nat where "CC_DIGIT = 3"
definition CC_DOLLAR :: nat where "CC_DOLLAR = 4"
definition CC_VARALPHA :: nat where "CC_VARALPHA = 5"
definition CC_VARNUM :: nat where "CC_VARNUM = 6"
definition CC_SPACE :: nat where "CC_SPACE = 7"
definition CC_QUOTE :: nat where "CC_QUOTE = 8"
definition CC_QUOTE2 :: nat where "CC_QUOTE2 = 9"
definition CC_PIPE :: nat where "CC_PIPE = 10"
definition CC_MINUS :: nat where "CC_MINUS = 11"
definition CC_LT :: nat where "CC_LT = 12"
definition CC_GT :: nat where "CC_GT = 13"
definition CC_EQ :: nat where "CC_EQ = 14"
definition CC_BANG :: nat where "CC_BANG = 15"
definition CC_SLASH :: nat where "CC_SLASH = 16"
definition CC_LP :: nat where "CC_LP = 17"
definition CC_RP :: nat where "CC_RP = 18"
definition CC_SEMI :: nat where "CC_SEMI = 19"
definition CC_PLUS :: nat where "CC_PLUS = 20"
definition CC_STAR :: nat where "CC_STAR = 21"
definition CC_PERCENT :: nat where "CC_PERCENT = 22"
definition CC_COMMA :: nat where "CC_COMMA = 23"
definition CC_AND :: nat where "CC_AND = 24"
definition CC_TILDA :: nat where "CC_TILDA = 25"
definition CC_DOT :: nat where "CC_DOT = 26"
definition CC_ID :: nat where "CC_ID = 27"
definition CC_ILLEGAL :: nat where "CC_ILLEGAL = 28"
definition CC_NUL :: nat where "CC_NUL = 29"
definition CC_BOM :: nat where "CC_BOM = 30"

lemmas cc_classes =
  CC_X_def CC_KYWD0_def CC_KYWD_def CC_DIGIT_def CC_DOLLAR_def CC_VARALPHA_def CC_VARNUM_def CC_SPACE_def
  CC_QUOTE_def CC_QUOTE2_def CC_PIPE_def CC_MINUS_def CC_LT_def CC_GT_def CC_EQ_def CC_BANG_def
  CC_SLASH_def CC_LP_def CC_RP_def CC_SEMI_def CC_PLUS_def CC_STAR_def CC_PERCENT_def CC_COMMA_def
  CC_AND_def CC_TILDA_def CC_DOT_def CC_ID_def CC_ILLEGAL_def CC_NUL_def CC_BOM_def

definition aiClass :: "nat list" where
  "aiClass = [
    29, 28, 28, 28, 28, 28, 28, 28, 28, 7, 7, 28, 7, 7, 28, 28,
    28, 28, 28, 28, 28, 28, 28, 28, 28, 28, 28, 28, 28, 28, 28, 28,
    7, 15, 8, 5, 4, 22, 24, 8, 17, 18, 21, 20, 23, 11, 26, 16,
    3, 3, 3, 3, 3, 3, 3, 3, 3, 3, 5, 19, 12, 14, 13, 6,
    5, 1, 1, 1, 1, 1, 1, 1, 1, 1, 1, 1, 1, 1, 1, 1,
    1, 1, 1, 1, 1, 1, 1, 1, 0, 2, 2, 9, 28, 28, 28, 2,
    8, 1, 1, 1, 1, 1, 1, 1, 1, 1, 1, 1, 1, 1, 1, 1,
    1, 1, 1, 1, 1, 1, 1, 1, 0, 2, 2, 28, 10, 28, 25, 28,
    27, 27, 27, 27, 27, 27, 27, 27, 27, 27, 27, 27, 27, 27, 27, 27,
    27, 27, 27, 27, 27, 27, 27, 27, 27, 27, 27, 27, 27, 27, 27, 27,
    27, 27, 27, 27, 27, 27, 27, 27, 27, 27, 27, 27, 27, 27, 27, 27,
    27, 27, 27, 27, 27, 27, 27, 27, 27, 27, 27, 27, 27, 27, 27, 27,
    27, 27, 27, 27, 27, 27, 27, 27, 27, 27, 27, 27, 27, 27, 27, 27,
    27, 27, 27, 27, 27, 27, 27, 27, 27, 27, 27, 27, 27, 27, 27, 27,
    27, 27, 27, 27, 27, 27, 27, 27, 27, 27, 27, 27, 27, 27, 27, 30,
    27, 27, 27, 27, 27, 27, 27, 27, 27, 27, 27, 27, 27, 27, 27, 27]"

definition char_class :: "u8 \<Rightarrow> nat" where
  "char_class c = aiClass ! unat c"

subsection \<open>Loops over the text\<close>

definition zat :: "u8 list \<Rightarrow> nat \<Rightarrow> u8 option" where
  "zat z i = (if i < length z then Some (z ! i) else if i = length z then Some 0 else None)"

lemma zat_le: "zat z i = Some c \<Longrightarrow> i \<le> length z"
  by (auto simp: zat_def split: if_splits)

text \<open>\<open>while( P(z[i]) ) i++\<close>.\<close>

function skip_while :: "(u8 \<Rightarrow> bool) \<Rightarrow> u8 list \<Rightarrow> nat \<Rightarrow> nat option" where
  "skip_while P z i =
     (case zat z i of None \<Rightarrow> None | Some c \<Rightarrow> if P c then skip_while P z (i + 1) else Some i)"
  by pat_completeness auto
termination by (relation "measure (\<lambda>(P, z, i). Suc (length z) - i)") (auto dest: zat_le)

text \<open>The comment loop, with the variables \<open>c\<close> and \<open>i\<close> at its end.\<close>

function comment_loop :: "u8 list \<Rightarrow> u8 \<Rightarrow> nat \<Rightarrow> (nat \<times> u8) option" where
  "comment_loop z c i =
     (case zat z i of
        None \<Rightarrow> None
      | Some d \<Rightarrow>
          if c = 42 \<and> d = 47 then Some (i, c)
          else if d = 0 then Some (i, d)
          else comment_loop z d (i + 1))"
  by pat_completeness auto
termination by (relation "measure (\<lambda>(z, c, i). Suc (length z) - i)") (auto dest: zat_le)

function quote_loop :: "u8 list \<Rightarrow> u8 \<Rightarrow> nat \<Rightarrow> (nat \<times> u8) option" where
  "quote_loop z delim i =
     (case zat z i of
        None \<Rightarrow> None
      | Some c \<Rightarrow>
          if c = 0 then Some (i, c)
          else if c = delim then
            (case zat z (i + 1) of
               None \<Rightarrow> None
             | Some d \<Rightarrow> if d = delim then quote_loop z delim (i + 2) else Some (i, c))
          else quote_loop z delim (i + 1))"
  by pat_completeness auto
termination by (relation "measure (\<lambda>(z, c, i). Suc (length z) - i)") (auto dest: zat_le)

text \<open>Digits with separators; \<open>t\<close> is the token code so far.\<close>

function digits_loop :: "(u8 \<Rightarrow> bool) \<Rightarrow> u8 list \<Rightarrow> nat \<Rightarrow> nat \<Rightarrow> (nat \<times> nat) option" where
  "digits_loop isdigit z i t =
     (case zat z i of
        None \<Rightarrow> None
      | Some c \<Rightarrow>
          if isdigit c then digits_loop isdigit z (i + 1) t
          else if c = 95 then digits_loop isdigit z (i + 1) TK_QNUMBER
          else Some (i, t))"
  by pat_completeness auto
termination by (relation "measure (\<lambda>(P, z, i, t). Suc (length z) - i)") (auto dest: zat_le)

function bracket_loop :: "u8 list \<Rightarrow> u8 \<Rightarrow> nat \<Rightarrow> (nat \<times> u8) option" where
  "bracket_loop z c i =
     (if c = 93 then Some (i, c)
      else case zat z i of
        None \<Rightarrow> None
      | Some d \<Rightarrow> if d = 0 then Some (i, d) else bracket_loop z d (i + 1))"
  by pat_completeness auto
termination by (relation "measure (\<lambda>(z, c, i). Suc (length z) - i)") (auto dest: zat_le)

text \<open>Variables; \<open>n\<close> counts the identifier characters.\<close>

function var_loop :: "u8 list \<Rightarrow> nat \<Rightarrow> nat \<Rightarrow> nat \<Rightarrow> (nat \<times> nat \<times> nat) option" where
  "var_loop z i n t =
     (case zat z i of
        None \<Rightarrow> None
      | Some c \<Rightarrow>
          if c = 0 then Some (i, n, t)
          else if IdChar c then var_loop z (i + 1) (n + 1) t
          else if c = 40 \<and> n > 0 then do {
            j \<leftarrow> skip_while (\<lambda>c. c \<noteq> 0 \<and> \<not> sqlite3Isspace c \<and> c \<noteq> 41) z (i + 1);
            d \<leftarrow> zat z j;
            Some (if d = 41 then (j + 1, n, t) else (j, n, TK_ILLEGAL)) }
          else if c = 58 then
            (case zat z (i + 1) of
               None \<Rightarrow> None
             | Some d \<Rightarrow> if d = 58 then var_loop z (i + 2) n t else Some (i, n, t))
          else Some (i, n, t))"
  by pat_completeness auto
termination by (relation "measure (\<lambda>(z, i, n, t). Suc (length z) - i)") (auto dest: zat_le)

lemmas loop_simps = skip_while.simps comment_loop.simps quote_loop.simps digits_loop.simps bracket_loop.simps var_loop.simps
declare loop_simps [simp del]

subsection \<open>The cases of the tokenizer\<close>

definition tok_minus :: "u8 list \<Rightarrow> (nat \<times> nat) option" where
  "tok_minus z = do {
     c \<leftarrow> zat z 1;
     if c = 45 then do { i \<leftarrow> skip_while (\<lambda>c. c \<noteq> 0 \<and> c \<noteq> 10) z 2; Some (i, TK_COMMENT) }
     else if c = 62 then do { d \<leftarrow> zat z 2; Some (2 + of_bool (d = 62), TK_PTR) }
     else Some (1, TK_MINUS) }"

definition tok_slash :: "u8 list \<Rightarrow> (nat \<times> nat) option" where
  "tok_slash z = do {
     c \<leftarrow> zat z 1;
     if c \<noteq> 42 then Some (1, TK_SLASH)
     else do {
       c \<leftarrow> zat z 2;
       if c = 0 then Some (1, TK_SLASH)
       else do {
         (i, c) \<leftarrow> comment_loop z c 3;
         Some (if c \<noteq> 0 then i + 1 else i, TK_COMMENT) } } }"

definition tok_lt :: "u8 list \<Rightarrow> (nat \<times> nat) option" where
  "tok_lt z = do {
     c \<leftarrow> zat z 1;
     Some (if c = 61 then (2, TK_LE) else if c = 62 then (2, TK_NE) else if c = 60 then (2, TK_LSHIFT) else (1, TK_LT)) }"

definition tok_gt :: "u8 list \<Rightarrow> (nat \<times> nat) option" where
  "tok_gt z = do {
     c \<leftarrow> zat z 1;
     Some (if c = 61 then (2, TK_GE) else if c = 62 then (2, TK_RSHIFT) else (1, TK_GT)) }"

definition tok_quote :: "u8 list \<Rightarrow> (nat \<times> nat) option" where
  "tok_quote z = do {
     delim \<leftarrow> zat z 0;
     (i, c) \<leftarrow> quote_loop z delim 1;
     Some (if c = 39 then (i + 1, TK_STRING) else if c \<noteq> 0 then (i + 1, TK_ID) else (i, TK_ILLEGAL)) }"

text \<open>The fraction, the exponent and trailing identifier characters of a number.\<close>

definition num_fraction :: "u8 list \<Rightarrow> nat \<Rightarrow> nat \<Rightarrow> (nat \<times> nat) option" where
  "num_fraction z i t = do {
     c \<leftarrow> zat z i;
     if c = 46 then digits_loop sqlite3Isdigit z (i + 1) (if t = TK_INTEGER then TK_FLOAT else t)
     else Some (i, t) }"

definition num_exponent :: "u8 list \<Rightarrow> nat \<Rightarrow> nat \<Rightarrow> (nat \<times> nat) option" where
  "num_exponent z i t = do {
     c \<leftarrow> zat z i;
     if c = 101 \<or> c = 69 then do {
       d \<leftarrow> zat z (i + 1);
       yes \<leftarrow> (if sqlite3Isdigit d then Some True
              else if d = 43 \<or> d = 45 then do { e \<leftarrow> zat z (i + 2); Some (sqlite3Isdigit e) }
              else Some False);
       if yes then digits_loop sqlite3Isdigit z (i + 2) (if t = TK_INTEGER then TK_FLOAT else t)
       else Some (i, t) }
     else Some (i, t) }"

definition num_is_hex :: "u8 list \<Rightarrow> bool option" where
  "num_is_hex z = do {
     c \<leftarrow> zat z 0;
     if c \<noteq> 48 then Some False
     else do {
       d \<leftarrow> zat z 1;
       if d \<noteq> 120 \<and> d \<noteq> 88 then Some False
       else do { e \<leftarrow> zat z 2; Some (sqlite3Isxdigit e) } } }"

definition tok_digit :: "u8 list \<Rightarrow> (nat \<times> nat) option" where
  "tok_digit z = do {
     hex \<leftarrow> num_is_hex z;
     (i, t) \<leftarrow>
       (if hex then digits_loop sqlite3Isxdigit z 3 TK_INTEGER
        else do {
          (i, t) \<leftarrow> digits_loop sqlite3Isdigit z 0 TK_INTEGER;
          (i, t) \<leftarrow> num_fraction z i t;
          num_exponent z i t });
     j \<leftarrow> skip_while IdChar z i;
     Some (j, if j > i then TK_ILLEGAL else t) }"

definition tok_bracket :: "u8 list \<Rightarrow> (nat \<times> nat) option" where
  "tok_bracket z = do {
     c \<leftarrow> zat z 0;
     (i, c) \<leftarrow> bracket_loop z c 1;
     Some (i, if c = 93 then TK_ID else TK_ILLEGAL) }"

definition tok_variable :: "u8 list \<Rightarrow> (nat \<times> nat) option" where
  "tok_variable z = do {
     (i, n, t) \<leftarrow> var_loop z 1 0 TK_VARIABLE;
     Some (i, if n = 0 then TK_ILLEGAL else t) }"

text \<open>The rest of an identifier of which \<open>i\<close> bytes are known.\<close>

definition tok_id :: "u8 list \<Rightarrow> nat \<Rightarrow> (nat \<times> nat) option" where
  "tok_id z i = do { i \<leftarrow> skip_while IdChar z i; Some (i, TK_ID) }"

definition tok_keyword :: "u8 list \<Rightarrow> (nat \<times> nat) option" where
  "tok_keyword z = do {
     c \<leftarrow> zat z 1;
     if char_class c > CC_KYWD then tok_id z 1
     else do {
       i \<leftarrow> skip_while (\<lambda>c. char_class c \<le> CC_KYWD) z 2;
       c \<leftarrow> zat z i;
       if IdChar c then tok_id z (i + 1)
       else do { t \<leftarrow> keywordCode z i TK_ID; Some (i, t) } } }"

definition tok_x :: "u8 list \<Rightarrow> (nat \<times> nat) option" where
  "tok_x z = do {
     c \<leftarrow> zat z 1;
     if c = 39 then do {
       i \<leftarrow> skip_while sqlite3Isxdigit z 2;
       c \<leftarrow> zat z i;
       (i, t) \<leftarrow>
         (if c \<noteq> 39 \<or> i mod 2 \<noteq> 0 then do {
            i \<leftarrow> skip_while (\<lambda>c. c \<noteq> 0 \<and> c \<noteq> 39) z i;
            Some (i, TK_ILLEGAL) }
          else Some (i, TK_BLOB));
       c \<leftarrow> zat z i;
       Some (if c \<noteq> 0 then i + 1 else i, t) }
     else tok_id z 1 }"

definition tok_bom :: "u8 list \<Rightarrow> (nat \<times> nat) option" where
  "tok_bom z = do {
     c \<leftarrow> zat z 1;
     if c \<noteq> 0xbb then tok_id z 1
     else do { d \<leftarrow> zat z 2; if d = 0xbf then Some (3, TK_SPACE) else tok_id z 1 } }"

definition sqlite3GetToken :: "u8 list \<Rightarrow> (nat \<times> nat) option" where
  "sqlite3GetToken z = do {
     c \<leftarrow> zat z 0;
     let k = char_class c;
     if k = CC_SPACE then do { i \<leftarrow> skip_while sqlite3Isspace z 1; Some (i, TK_SPACE) }
     else if k = CC_MINUS then tok_minus z
     else if k = CC_LP then Some (1, TK_LP)
     else if k = CC_RP then Some (1, TK_RP)
     else if k = CC_SEMI then Some (1, TK_SEMI)
     else if k = CC_PLUS then Some (1, TK_PLUS)
     else if k = CC_STAR then Some (1, TK_STAR)
     else if k = CC_SLASH then tok_slash z
     else if k = CC_PERCENT then Some (1, TK_REM)
     else if k = CC_EQ then do { d \<leftarrow> zat z 1; Some (1 + of_bool (d = 61), TK_EQ) }
     else if k = CC_LT then tok_lt z
     else if k = CC_GT then tok_gt z
     else if k = CC_BANG then do { d \<leftarrow> zat z 1; Some (if d \<noteq> 61 then (1, TK_ILLEGAL) else (2, TK_NE)) }
     else if k = CC_PIPE then do { d \<leftarrow> zat z 1; Some (if d \<noteq> 124 then (1, TK_BITOR) else (2, TK_CONCAT)) }
     else if k = CC_COMMA then Some (1, TK_COMMA)
     else if k = CC_AND then Some (1, TK_BITAND)
     else if k = CC_TILDA then Some (1, TK_BITNOT)
     else if k = CC_QUOTE then tok_quote z
     else if k = CC_DOT then do { d \<leftarrow> zat z 1; if \<not> sqlite3Isdigit d then Some (1, TK_DOT) else tok_digit z }
     else if k = CC_DIGIT then tok_digit z
     else if k = CC_QUOTE2 then tok_bracket z
     else if k = CC_VARNUM then do { i \<leftarrow> skip_while sqlite3Isdigit z 1; Some (i, TK_VARIABLE) }
     else if k = CC_DOLLAR \<or> k = CC_VARALPHA then tok_variable z
     else if k = CC_KYWD0 then tok_keyword z
     else if k = CC_X then tok_x z
     else if k = CC_KYWD \<or> k = CC_ID then tok_id z 1
     else if k = CC_BOM then tok_bom z
     else if k = CC_NUL then Some (0, TK_ILLEGAL)
     else Some (1, TK_ILLEGAL) }"

subsection \<open>Bounds\<close>

lemma char_class_nul: "char_class c = CC_NUL \<longleftrightarrow> c = 0"
proof -
  have "(char_class c = 29) = (c = 0)"
    unfolding char_class_def
    by (rule bytes_eqI [of "\<lambda>c. aiClass ! unat c = 29"]) (simp add: all_256 aiClass_def)
  then show ?thesis by (simp add: CC_NUL_def)
qed

lemma nul_facts [simp]:
  "\<not> IdChar 0" "\<not> sqlite3Isspace 0" "\<not> sqlite3Isdigit 0" "\<not> sqlite3Isxdigit 0" "\<not> char_class 0 \<le> CC_KYWD"
  by (simp_all add: IdChar_def sqlite3Isspace_def sqlite3Isdigit_def sqlite3Isxdigit_def sqlite3CtypeMap_def
      char_class_def aiClass_def CC_KYWD_def)

lemma zat_Some: "i \<le> length z \<Longrightarrow> \<exists>c. zat z i = Some c \<and> (c \<noteq> 0 \<longrightarrow> i < length z)"
  by (auto simp: zat_def)

lemma zat_less: "i < length z \<Longrightarrow> zat z i = Some (z ! i)"
  by (simp add: zat_def)

lemma skip_while_result:
  assumes "\<not> P 0" and "i \<le> length z"
  shows "\<exists>j c. skip_while P z i = Some j \<and> i \<le> j \<and> j \<le> length z \<and> zat z j = Some c \<and> \<not> P c \<and> (\<forall>k. i \<le> k \<and> k < j \<longrightarrow> P (z ! k))"
  using assms
proof (induction P z i rule: skip_while.induct)
  case (1 P z i)
  obtain c where c: "zat z i = Some c" "c \<noteq> 0 \<longrightarrow> i < length z" using zat_Some [OF 1(3)] by blast
  show ?case
  proof (cases "P c")
    case False
    then show ?thesis using c 1(3) by (subst skip_while.simps) auto
  next
    case True
    then have i: "i < length z" "z ! i = c" using c 1(2) zat_less [of i z] by auto
    with 1(1) [OF c(1) True 1(2)] obtain j d where j: "skip_while P z (i + 1) = Some j" "i + 1 \<le> j" "j \<le> length z"
      "zat z j = Some d" "\<not> P d" "\<forall>k. i + 1 \<le> k \<and> k < j \<longrightarrow> P (z ! k)" by auto
    then have "skip_while P z i = Some j" using c True by (subst skip_while.simps) simp
    moreover have "P (z ! k)" if "i \<le> k \<and> k < j" for k using that j(6) i True by (cases "k = i") auto
    ultimately show ?thesis using j by (intro exI [of _ j] exI [of _ d]) auto
  qed
qed

lemma comment_loop_result:
  assumes "i \<le> length z"
  shows "\<exists>j d. comment_loop z c i = Some (j, d) \<and> i \<le> j \<and> j \<le> length z \<and> (d \<noteq> 0 \<longrightarrow> j < length z)"
  using assms
proof (induction z c i rule: comment_loop.induct)
  case (1 z c i)
  obtain d where d: "zat z i = Some d" "d \<noteq> 0 \<longrightarrow> i < length z" using zat_Some [OF 1(2)] by blast
  consider "c = 42 \<and> d = 47" | "\<not> (c = 42 \<and> d = 47)" "d = 0" | "\<not> (c = 42 \<and> d = 47)" "d \<noteq> 0" by blast
  then show ?case
  proof cases
    case 3
    with 1(1) [OF d(1) 3(1,2)] d(2) obtain j e where "comment_loop z d (i + 1) = Some (j, e)" "i + 1 \<le> j" "j \<le> length z"
      "e \<noteq> 0 \<longrightarrow> j < length z" by auto
    then show ?thesis using d 3 by (subst comment_loop.simps) auto
  qed (use d 1(2) in \<open>subst comment_loop.simps, auto\<close>)+
qed

lemma quote_loop_result:
  assumes "i \<le> length z" and "delim \<noteq> 0"
  shows "\<exists>j d. quote_loop z delim i = Some (j, d) \<and> i \<le> j \<and> j \<le> length z \<and> (d \<noteq> 0 \<longrightarrow> j < length z)"
  using assms
proof (induction z delim i rule: quote_loop.induct)
  case (1 z delim i)
  obtain c where c: "zat z i = Some c" "c \<noteq> 0 \<longrightarrow> i < length z" using zat_Some [OF 1(3)] by blast
  show ?case
  proof (cases "c = 0 \<or> c \<noteq> delim")
    case True
    show ?thesis
    proof (cases "c = 0")
      case False
      with True 1(2) [OF c(1) False] c(2) 1(4) obtain j d where "quote_loop z delim (i + 1) = Some (j, d)" "i + 1 \<le> j" "j \<le> length z"
        "d \<noteq> 0 \<longrightarrow> j < length z" by auto
      then show ?thesis using c True False by (subst quote_loop.simps) auto
    qed (use c 1(3) in \<open>subst quote_loop.simps, auto\<close>)
  next
    case False
    then have i: "i < length z" "c = delim" "c \<noteq> 0" using c by auto
    then obtain d where d: "zat z (i + 1) = Some d" "d \<noteq> 0 \<longrightarrow> i + 1 < length z" using zat_Some [of "i + 1" z] by auto
    show ?thesis
    proof (cases "d = delim")
      case True
      with 1(1) [OF c(1) i(3,2) d(1) True] d(2) 1(4) obtain j e where "quote_loop z delim (i + 2) = Some (j, e)" "i + 2 \<le> j"
        "j \<le> length z" "e \<noteq> 0 \<longrightarrow> j < length z" by auto
      then show ?thesis using c d True i by (subst quote_loop.simps) auto
    qed (use c d i in \<open>subst quote_loop.simps, auto\<close>)
  qed
qed

lemma digits_loop_result:
  assumes "i \<le> length z" and "\<not> P 0"
  shows "\<exists>j s. digits_loop P z i t = Some (j, s) \<and> i \<le> j \<and> j \<le> length z \<and> (i < length z \<and> P (z ! i) \<longrightarrow> i < j)"
  using assms
proof (induction P z i t rule: digits_loop.induct)
  case (1 P z i t)
  obtain c where c: "zat z i = Some c" "c \<noteq> 0 \<longrightarrow> i < length z" using zat_Some [OF 1(3)] by blast
  have ci: "i < length z \<Longrightarrow> c = z ! i" using c(1) zat_less [of i z] by simp
  show ?case
  proof (cases "P c \<or> c = 95")
    case False
    then show ?thesis using c ci 1(3) by (subst digits_loop.simps) auto
  next
    case True
    then have i: "i + 1 \<le> length z" using c(2) 1(4) by (cases "c = 0") auto
    obtain j s where "digits_loop P z (i + 1) (if P c then t else TK_QNUMBER) = Some (j, s)" "i + 1 \<le> j" "j \<le> length z"
      using 1(1) [OF c(1) _ i 1(4)] 1(2) [OF c(1) _ _ i 1(4)] True by (cases "P c") auto
    then show ?thesis using c True by (subst digits_loop.simps) (auto split: if_splits)
  qed
qed

lemma bracket_loop_result:
  assumes "i \<le> length z"
  shows "\<exists>j d. bracket_loop z c i = Some (j, d) \<and> i \<le> j \<and> j \<le> length z"
  using assms
proof (induction z c i rule: bracket_loop.induct)
  case (1 z c i)
  show ?case
  proof (cases "c = 93")
    case False
    obtain d where d: "zat z i = Some d" "d \<noteq> 0 \<longrightarrow> i < length z" using zat_Some [OF 1(2)] by blast
    show ?thesis
    proof (cases "d = 0")
      case dn: False
      with 1(1) [OF False d(1) dn] d(2) obtain j e where "bracket_loop z d (i + 1) = Some (j, e)" "i + 1 \<le> j" "j \<le> length z" by auto
      then show ?thesis using d False dn by (subst bracket_loop.simps) auto
    qed (use d False 1(2) in \<open>subst bracket_loop.simps, auto\<close>)
  qed (use 1(2) in \<open>subst bracket_loop.simps, auto\<close>)
qed

lemma var_loop_result:
  assumes "i \<le> length z"
  shows "\<exists>j m s. var_loop z i n t = Some (j, m, s) \<and> i \<le> j \<and> j \<le> length z"
  using assms
proof (induction z i n t rule: var_loop.induct)
  case (1 z i n t)
  obtain c where c: "zat z i = Some c" "c \<noteq> 0 \<longrightarrow> i < length z" using zat_Some [OF 1(3)] by blast
  consider "c = 0" | "c \<noteq> 0" "IdChar c" | "c \<noteq> 0" "\<not> IdChar c" "c = 40" "n > 0"
    | "c \<noteq> 0" "\<not> IdChar c" "\<not> (c = 40 \<and> n > 0)" "c = 58" | "c \<noteq> 0" "\<not> IdChar c" "\<not> (c = 40 \<and> n > 0)" "c \<noteq> 58" by blast
  then show ?case
  proof cases
    case 1
    then show ?thesis using c \<open>i \<le> length z\<close> by (subst var_loop.simps) auto
  next
    case 2
    then obtain j m s where "var_loop z (i + 1) (n + 1) t = Some (j, m, s)" "i + 1 \<le> j" "j \<le> length z"
      using "1.IH"(1) [OF c(1) 2] c(2) by auto
    then show ?thesis using c 2 by (subst var_loop.simps) auto
  next
    case 3
    let ?P = "\<lambda>c. c \<noteq> 0 \<and> \<not> sqlite3Isspace c \<and> c \<noteq> 41"
    obtain j d where "skip_while ?P z (i + 1) = Some j" "i + 1 \<le> j" "j \<le> length z" "zat z j = Some d"
      using skip_while_result [of ?P "i + 1" z] c(2) 3(1) by auto
    moreover have "d = 41 \<longrightarrow> j < length z" using calculation(4) by (auto simp: zat_def split: if_splits)
    ultimately show ?thesis using c 3 by (subst var_loop.simps) (auto simp: Suc_le_eq)
  next
    case 4
    then obtain d where d: "zat z (i + 1) = Some d" "d \<noteq> 0 \<longrightarrow> i + 1 < length z" using zat_Some [of "i + 1" z] c by auto
    show ?thesis
    proof (cases "d = 58")
      case True
      then obtain j m s where "var_loop z (i + 2) n t = Some (j, m, s)" "i + 2 \<le> j" "j \<le> length z"
        using "1.IH"(2) [OF c(1) 4 d(1) True] d(2) by auto
      then show ?thesis using c d 4 True by (subst var_loop.simps) auto
    qed (use c d 4 in \<open>subst var_loop.simps, auto\<close>)
  next
    case 5
    then show ?thesis using c \<open>i \<le> length z\<close> by (subst var_loop.simps) auto
  qed
qed

definition good :: "u8 list \<Rightarrow> (nat \<times> nat) option \<Rightarrow> bool" where
  "good z r \<longleftrightarrow> (\<exists>n t. r = Some (n, t) \<and> 0 < n \<and> n \<le> length z)"

lemma good_Some [simp]: "good z (Some (n, t)) \<longleftrightarrow> 0 < n \<and> n \<le> length z"
  by (simp add: good_def)

lemma zat_1: "z \<noteq> [] \<Longrightarrow> \<exists>c. zat z 1 = Some c \<and> (c \<noteq> 0 \<longrightarrow> 2 \<le> length z)"
  using zat_Some [of 1 z] by (cases z) (auto simp: Suc_le_eq)

lemma zat_2: "zat z 1 = Some c \<Longrightarrow> c \<noteq> 0 \<Longrightarrow> \<exists>d. zat z 2 = Some d \<and> (d \<noteq> 0 \<longrightarrow> 3 \<le> length z)"
  using zat_Some [of 2 z] by (auto simp: zat_def split: if_splits)

lemma zat_pos: "zat z i = Some c \<Longrightarrow> c \<noteq> 0 \<Longrightarrow> i < length z"
  by (auto simp: zat_def split: if_splits)

lemma good_skip:
  assumes "\<not> P 0" "0 < i" "i \<le> length z"
  shows "\<exists>j. skip_while P z i = Some j \<and> i \<le> j \<and> j \<le> length z"
  using skip_while_result [of P i z] assms by blast

lemma tok_id_good: "0 < i \<Longrightarrow> i \<le> length z \<Longrightarrow> good z (tok_id z i)"
  using good_skip [of IdChar i z] by (auto simp: tok_id_def)

lemma tok_minus_good:
  assumes "z \<noteq> []"
  shows "good z (tok_minus z)"
proof -
  obtain c where c: "zat z 1 = Some c" "c \<noteq> 0 \<longrightarrow> 2 \<le> length z" using zat_1 [OF assms] by blast
  consider "c = 45" | "c = 62" | "c \<noteq> 45" "c \<noteq> 62" by blast
  then show ?thesis
  proof cases
    case 1
    then show ?thesis using c good_skip [of "\<lambda>c. c \<noteq> 0 \<and> c \<noteq> 10" 2 z] by (auto simp: tok_minus_def)
  next
    case 2
    then obtain d where "zat z 2 = Some d" "d \<noteq> 0 \<longrightarrow> 3 \<le> length z" using zat_2 [OF c(1)] by auto
    then show ?thesis using c 2 by (auto simp: tok_minus_def)
  next
    case 3
    then show ?thesis using c assms by (cases z) (auto simp: tok_minus_def)
  qed
qed

lemma tok_slash_good:
  assumes "z \<noteq> []"
  shows "good z (tok_slash z)"
proof -
  have l: "Suc 0 \<le> length z" using assms by (cases z) auto
  obtain c where c: "zat z 1 = Some c" "c \<noteq> 0 \<longrightarrow> 2 \<le> length z" using zat_1 [OF assms] by blast
  show ?thesis
  proof (cases "c = 42")
    case True
    then obtain d where d: "zat z 2 = Some d" "d \<noteq> 0 \<longrightarrow> 3 \<le> length z" using zat_2 [OF c(1)] by auto
    show ?thesis
    proof (cases "d = 0")
      case False
      then obtain j e where "comment_loop z d 3 = Some (j, e)" "3 \<le> j" "j \<le> length z" "e \<noteq> 0 \<longrightarrow> j < length z"
        using comment_loop_result [of 3 z d] d by auto
      then show ?thesis using c d True False by (auto simp: tok_slash_def)
    qed (use c d True l in \<open>simp add: tok_slash_def\<close>)
  qed (use c l in \<open>simp add: tok_slash_def\<close>)
qed

lemma tok_two_good:
  assumes "z \<noteq> []"
  shows "good z (tok_lt z)" "good z (tok_gt z)"
    "good z (do { d \<leftarrow> zat z 1; Some (1 + of_bool (d = 61), TK_EQ) })"
    "good z (do { d \<leftarrow> zat z 1; Some (if d \<noteq> 61 then (1, TK_ILLEGAL) else (2, TK_NE)) })"
    "good z (do { d \<leftarrow> zat z 1; Some (if d \<noteq> 124 then (1, TK_BITOR) else (2, TK_CONCAT)) })"
proof -
  have l: "Suc 0 \<le> length z" using assms by (cases z) auto
  obtain c where c: "zat z 1 = Some c" "c \<noteq> 0 \<longrightarrow> 2 \<le> length z" using zat_1 [OF assms] by blast
  show "good z (tok_lt z)" "good z (tok_gt z)"
    "good z (do { d \<leftarrow> zat z 1; Some (1 + of_bool (d = 61), TK_EQ) })"
    "good z (do { d \<leftarrow> zat z 1; Some (if d \<noteq> 61 then (1, TK_ILLEGAL) else (2, TK_NE)) })"
    "good z (do { d \<leftarrow> zat z 1; Some (if d \<noteq> 124 then (1, TK_BITOR) else (2, TK_CONCAT)) })"
    using c l by (auto simp: tok_lt_def tok_gt_def)
qed

lemma tok_quote_good:
  assumes "z \<noteq> []" "z ! 0 \<noteq> 0"
  shows "good z (tok_quote z)"
proof -
  have l: "Suc 0 \<le> length z" using assms by (cases z) auto
  then obtain j d where "quote_loop z (z ! 0) 1 = Some (j, d)" "1 \<le> j" "j \<le> length z" "d \<noteq> 0 \<longrightarrow> j < length z"
    using quote_loop_result [of 1 z "z ! 0"] assms by auto
  moreover have "zat z 0 = Some (z ! 0)" using zat_less [of 0 z] assms by simp
  ultimately show ?thesis by (auto simp: tok_quote_def)
qed

lemma num_fraction_result:
  assumes "i \<le> length z"
  shows "\<exists>j s. num_fraction z i t = Some (j, s) \<and> i \<le> j \<and> j \<le> length z \<and> (zat z i = Some 46 \<longrightarrow> i < j)"
proof -
  obtain c where c: "zat z i = Some c" "c \<noteq> 0 \<longrightarrow> i < length z" using zat_Some [OF assms] by blast
  show ?thesis
  proof (cases "c = 46")
    case True
    then have "i + 1 \<le> length z" using c(2) by simp
    from digits_loop_result [of "i + 1" z sqlite3Isdigit "if t = TK_INTEGER then TK_FLOAT else t", OF this nul_facts(3)]
    show ?thesis using c True by (auto simp: num_fraction_def)
  qed (use c assms in \<open>simp add: num_fraction_def\<close>)
qed

lemma num_exponent_result:
  assumes "i \<le> length z"
  shows "\<exists>j s. num_exponent z i t = Some (j, s) \<and> i \<le> j \<and> j \<le> length z"
proof -
  obtain c where c: "zat z i = Some c" "c \<noteq> 0 \<longrightarrow> i < length z" using zat_Some [OF assms] by blast
  show ?thesis
  proof (cases "c = 101 \<or> c = 69")
    case True
    then have "i + 1 \<le> length z" using c(2) by auto
    then obtain d where d: "zat z (i + 1) = Some d" "d \<noteq> 0 \<longrightarrow> i + 1 < length z" using zat_Some by blast
    define yes where "yes = (if sqlite3Isdigit d then Some True
              else if d = 43 \<or> d = 45 then do { e \<leftarrow> zat z (i + 2); Some (sqlite3Isdigit e) }
              else Some False)"
    have "\<exists>b. yes = Some b \<and> (b \<longrightarrow> i + 2 \<le> length z)"
    proof (cases "d = 0")
      case False
      then have "i + 2 \<le> length z" using d(2) by simp
      then show ?thesis using zat_Some [of "i + 2" z] by (auto simp: yes_def)
    qed (simp add: yes_def exI [of _ False])
    then obtain b where b: "yes = Some b" "b \<longrightarrow> i + 2 \<le> length z" by blast
    show ?thesis
    proof (cases b)
      case bt: True
      from b(2) bt digits_loop_result [of "i + 2" z sqlite3Isdigit "if t = TK_INTEGER then TK_FLOAT else t"]
      show ?thesis using c d True b(1) bt unfolding yes_def by (fastforce simp: num_exponent_def)
    next
      case False
      then show ?thesis using c d True b(1) assms unfolding yes_def by (auto simp: num_exponent_def)
    qed
  qed (use c assms in \<open>auto simp: num_exponent_def\<close>)
qed

lemma num_is_hex_result:
  assumes "z \<noteq> []"
  shows "\<exists>b. num_is_hex z = Some b \<and> (b \<longrightarrow> 3 \<le> length z)"
proof -
  have z0: "zat z 0 = Some (z ! 0)" using zat_less [of 0 z] assms by simp
  obtain d where d: "zat z 1 = Some d" "d \<noteq> 0 \<longrightarrow> 2 \<le> length z" using zat_1 [OF assms] by blast
  show ?thesis
  proof (cases "z ! 0 = 48 \<and> (d = 120 \<or> d = 88)")
    case True
    then have "d \<noteq> 0" by auto
    then obtain e where "zat z 2 = Some e" "e \<noteq> 0 \<longrightarrow> 3 \<le> length z" using zat_2 [OF d(1)] by blast
    then show ?thesis using True z0 d by (cases "e = 0") (auto simp: num_is_hex_def)
  qed (use z0 d in \<open>auto simp: num_is_hex_def\<close>)
qed

lemma tok_digit_good:
  assumes "z \<noteq> []" and "sqlite3Isdigit (z ! 0) \<or> z ! 0 = 46"
  shows "good z (tok_digit z)"
proof -
  obtain b where b: "num_is_hex z = Some b" "b \<longrightarrow> 3 \<le> length z" using num_is_hex_result [OF assms(1)] by blast
  define r where "r = (if b then digits_loop sqlite3Isxdigit z 3 TK_INTEGER
        else do {
          (i, t) \<leftarrow> digits_loop sqlite3Isdigit z 0 TK_INTEGER;
          (i, t) \<leftarrow> num_fraction z i t;
          num_exponent z i t })"
  have "\<exists>i t. r = Some (i, t) \<and> 0 < i \<and> i \<le> length z"
  proof (cases b)
    case True
    then show ?thesis using b(2) digits_loop_result [of 3 z sqlite3Isxdigit TK_INTEGER] by (fastforce simp: r_def)
  next
    case False
    obtain i s where i: "digits_loop sqlite3Isdigit z 0 TK_INTEGER = Some (i, s)" "i \<le> length z"
      "sqlite3Isdigit (z ! 0) \<longrightarrow> 0 < i"
      using digits_loop_result [of 0 z sqlite3Isdigit TK_INTEGER] assms(1) by auto
    obtain j u where j: "num_fraction z i s = Some (j, u)" "i \<le> j" "j \<le> length z" "zat z i = Some 46 \<longrightarrow> i < j"
      using num_fraction_result [OF i(2), of s] by blast
    have "0 < j" using assms i(3) j(2,4) zat_less [of 0 z] by (cases "i = 0") auto
    moreover obtain k v where "num_exponent z j u = Some (k, v)" "j \<le> k" "k \<le> length z"
      using num_exponent_result [OF j(3), of u] by blast
    ultimately show ?thesis using False i(1) j(1) by (auto simp: r_def)
  qed
  then obtain i t where i: "r = Some (i, t)" "0 < i" "i \<le> length z" by blast
  then obtain j where "skip_while IdChar z i = Some j" "i \<le> j" "j \<le> length z" using good_skip [of IdChar i z] by auto
  then show ?thesis using b(1) i unfolding r_def by (simp add: tok_digit_def)
qed

lemma tok_rest_good:
  assumes "z \<noteq> []"
  shows "good z (tok_bracket z)" "good z (tok_variable z)" "good z (tok_keyword z)" "good z (tok_x z)" "good z (tok_bom z)"
proof -
  have l: "Suc 0 \<le> length z" using assms by (cases z) auto
  have z0: "zat z 0 = Some (z ! 0)" using zat_less [of 0 z] assms by simp
  obtain c where c: "zat z 1 = Some c" "c \<noteq> 0 \<longrightarrow> 2 \<le> length z" using zat_1 [OF assms] by blast
  have id1: "good z (tok_id z 1)" using l by (intro tok_id_good) auto
  show "good z (tok_bracket z)"
    using bracket_loop_result [of 1 z "z ! 0"] l z0 by (fastforce simp: tok_bracket_def)
  show "good z (tok_variable z)"
    using var_loop_result [of 1 z 0 TK_VARIABLE] l by (fastforce simp: tok_variable_def)
  show "good z (tok_bom z)"
  proof (cases "c = 0xbb")
    case True
    then obtain d where "zat z 2 = Some d" "d \<noteq> 0 \<longrightarrow> 3 \<le> length z" using zat_2 [OF c(1)] by auto
    then show ?thesis using c True id1 by (auto simp: tok_bom_def)
  qed (use c id1 in \<open>simp add: tok_bom_def\<close>)
  show "good z (tok_keyword z)"
  proof (cases "char_class c > CC_KYWD")
    case False
    let ?P = "\<lambda>c. char_class c \<le> CC_KYWD"
    have "c \<noteq> 0" using False nul_facts(5) by (auto simp: not_less)
    then have l2: "2 \<le> length z" using c(2) by blast
    then obtain j d where j: "skip_while ?P z 2 = Some j" "2 \<le> j" "j \<le> length z" "zat z j = Some d"
      using skip_while_result [of ?P 2 z] by auto
    show ?thesis
    proof (cases "IdChar d")
      case True
      then have "d \<noteq> 0" by auto
      then have "j + 1 \<le> length z" using zat_pos [OF j(4)] by simp
      then show ?thesis using c False j True tok_id_good [of "j + 1" z] by (simp add: tok_keyword_def)
    next
      case di: False
      obtain t where "keywordCode z j TK_ID = Some t"
        using keyword_code_list [OF j(3)] j(2) by (simp add: sqlite3KeywordCode_def)
      then show ?thesis using c False j di by (simp add: tok_keyword_def)
    qed
  qed (use c id1 in \<open>simp add: tok_keyword_def\<close>)
  show "good z (tok_x z)"
  proof (cases "c = 39")
    case True
    then have l2: "2 \<le> length z" using c(2) by simp
    obtain i d where i: "skip_while sqlite3Isxdigit z 2 = Some i" "2 \<le> i" "i \<le> length z" "zat z i = Some d"
      using skip_while_result [of sqlite3Isxdigit 2 z] l2 by auto
    let ?P = "\<lambda>c. c \<noteq> 0 \<and> c \<noteq> 39"
    obtain j e where j: "skip_while ?P z i = Some j" "i \<le> j" "j \<le> length z" "zat z j = Some e"
      using skip_while_result [of ?P i z] i by auto
    have "e \<noteq> 0 \<longrightarrow> j < length z" "d \<noteq> 0 \<longrightarrow> i < length z" using zat_pos i(4) j(4) by auto
    then show ?thesis using c True i j by (auto simp: tok_x_def)
  qed (use c id1 in \<open>simp add: tok_x_def\<close>)
qed

lemma char_class_values:
  "map char_class (map word_of_nat [0..<256]) = aiClass"
  by (rule nth_equalityI) (simp_all add: char_class_def aiClass_def unat_of_nat nth_append del: upt_Suc)

lemma class_values:
  "list_all (\<lambda>n. (aiClass ! n = 3 \<longrightarrow> sqlite3CtypeMap ! n AND 0x04 \<noteq> 0) \<and> (aiClass ! n = 26 \<longrightarrow> n = 46)) [0..<256]"
  by code_simp

lemma class_digit: "char_class c = CC_DIGIT \<Longrightarrow> sqlite3Isdigit c" "char_class c = CC_DOT \<Longrightarrow> c = 46"
proof -
  have "unat c \<in> set [0..<256]" using unat_u8 [of c] by simp
  then have v: "aiClass ! unat c = 3 \<longrightarrow> sqlite3CtypeMap ! unat c AND 0x04 \<noteq> 0" "aiClass ! unat c = 26 \<longrightarrow> unat c = 46"
    using class_values unfolding list_all_iff by blast+
  show "char_class c = CC_DIGIT \<Longrightarrow> sqlite3Isdigit c" using v(1) by (simp add: char_class_def CC_DIGIT_def sqlite3Isdigit_def)
  assume "char_class c = CC_DOT"
  then have "unat c = unat (46 :: u8)" using v(2) by (simp add: char_class_def CC_DOT_def)
  then show "c = 46" by (simp only: word_unat_eq_iff)
qed

lemma good_ifI: "(b \<Longrightarrow> good z x) \<Longrightarrow> (\<not> b \<Longrightarrow> good z y) \<Longrightarrow> good z (if b then x else y)"
  by simp

lemma GetToken_good:
  assumes "z \<noteq> []" and "z ! 0 \<noteq> 0"
  shows "good z (sqlite3GetToken z)"
proof -
  have l: "Suc 0 \<le> length z" using assms by (cases z) auto
  have z0: "zat z 0 = Some (z ! 0)" using zat_less [of 0 z] assms by simp
  obtain d where d: "zat z 1 = Some d" using zat_1 [OF assms(1)] by blast
  have s: "good z (do { i \<leftarrow> skip_while P z 1; Some (i, t) })" if "\<not> P 0" for P t
    using good_skip [of P 1 z] that l by auto
  have i: "good z (tok_id z 1)" using l by (intro tok_id_good) auto
  have dot: "char_class (z ! 0) = CC_DOT \<Longrightarrow> good z (tok_digit z)" "char_class (z ! 0) = CC_DIGIT \<Longrightarrow> good z (tok_digit z)"
    using tok_digit_good [OF assms(1)] class_digit by blast+
  note parts = tok_minus_good [OF assms(1)] tok_slash_good [OF assms(1)] tok_two_good [OF assms(1)]
    tok_quote_good [OF assms] tok_rest_good [OF assms(1)]
  have c0: "char_class (z ! 0) \<noteq> CC_NUL" using assms(2) by (simp add: char_class_nul)
  have dd: "good z (do { d \<leftarrow> zat z 1; if \<not> sqlite3Isdigit d then Some (1, TK_DOT) else tok_digit z })"
    if "char_class (z ! 0) = CC_DOT" using d dot(1) [OF that] l by simp
  show ?thesis
    unfolding sqlite3GetToken_def z0 Option.bind.bind_lunit Let_def
    by (intro good_ifI)
      (assumption | rule parts s nul_facts i dot(2) dd | erule notE [OF c0] | simp add: l)+
qed

subsection \<open>Whole texts\<close>

text \<open>All tokens of a text, in order, with their codes; a token that is empty or reaches beyond the
  end is an error.\<close>

function tokenize :: "u8 list \<Rightarrow> (u8 list \<times> nat) list option" where
  "tokenize z =
     (if z = [] then Some []
      else case sqlite3GetToken z of
        None \<Rightarrow> None
      | Some (n, t) \<Rightarrow>
          if n = 0 \<or> n > length z then None
          else case tokenize (drop n z) of None \<Rightarrow> None | Some ts \<Rightarrow> Some ((take n z, t) # ts))"
  by pat_completeness auto
termination by (relation "measure length") auto

declare tokenize.simps [simp del]

lemma tokenize_Cons:
  assumes "z \<noteq> []" "sqlite3GetToken z = Some (n, t)" "0 < n" "n \<le> length z" "tokenize (drop n z) = Some ts"
  shows "tokenize z = Some ((take n z, t) # ts)"
  using assms by (subst tokenize.simps) simp

text \<open>
  C31. Every text without zero bytes is cut into tokens completely: the tokenizer never reads
  beyond the terminator, always advances, and the tokens put together are the text.
\<close>

theorem tokenize_lossless:
  assumes "0 \<notin> set z"
  shows "\<exists>ts. tokenize z = Some ts \<and> concat (map fst ts) = z \<and> [] \<notin> fst ` set ts"
  using assms
proof (induction z rule: length_induct)
  case (1 z)
  show ?case
  proof (cases "z = []")
    case True
    then show ?thesis by (subst tokenize.simps) simp
  next
    case False
    then have "z ! 0 \<noteq> 0" using 1(2) by (metis length_greater_0_conv nth_mem)
    then obtain n t where g: "sqlite3GetToken z = Some (n, t)" "0 < n" "n \<le> length z"
      using GetToken_good [OF False] by (auto simp: good_def)
    have "length (drop n z) < length z" "0 \<notin> set (drop n z)" using g(2) False 1(2) by (auto dest: in_set_dropD)
    with 1(1) obtain ts where ts: "tokenize (drop n z) = Some ts" "concat (map fst ts) = drop n z" "[] \<notin> fst ` set ts"
      by blast
    have "take n z \<noteq> []" using g(2) False by simp
    then show ?thesis using tokenize_Cons [OF False g ts(1)] ts(2,3) by auto
  qed
qed

lemma example_tokens: "tokenize [97, 61, 39, 59, 39] = Some [([97], TK_ID), ([61], TK_EQ), ([39, 59, 39], TK_STRING)]"
  by code_simp

theorem tokenize_lossless_witness:
  "\<exists>ts. tokenize [97, 61, 39, 59, 39] = Some ts \<and> length ts = 3 \<and> concat (map fst ts) = [97, 61, 39, 59, 39]"
  using tokenize_lossless [of "[97, 61, 39, 59, 39]"] example_tokens by auto

text \<open>A string literal with every quote doubled, as \<open>%Q\<close> and \<open>quote()\<close> print it.\<close>

definition doubled :: "u8 \<Rightarrow> u8 list \<Rightarrow> u8 list" where
  "doubled q s = concat (map (\<lambda>c. if c = q then [q, q] else [c]) s)"

lemma doubled_simps [simp]:
  "doubled q [] = []"
  "doubled q (c # s) = (if c = q then q # q # doubled q s else c # doubled q s)"
  by (simp_all add: doubled_def)

lemma zat_append [simp]: "zat (p @ c # q) (length p) = Some c"
  by (simp add: zat_def)

lemma zat_append_Suc: "zat (p @ c # q) (Suc (length p)) = (case q of [] \<Rightarrow> Some 0 | d # _ \<Rightarrow> Some d)"
  by (cases q) (auto simp: zat_def nth_append)

lemma quote_loop_doubled:
  assumes "0 \<notin> set s" "q \<noteq> 0" "r = [] \<or> hd r \<noteq> q"
  shows "quote_loop (p @ doubled q s @ q # r) q (length p) = Some (length p + length (doubled q s), q)"
  using assms(1)
proof (induction s arbitrary: p)
  case Nil
  show ?case using assms(2,3)
    by (subst quote_loop.simps) (cases r; simp add: zat_append_Suc)
next
  case (Cons c s)
  show ?case
  proof (cases "c = q")
    case True
    have "quote_loop (p @ q # q # doubled q s @ q # r) q (length p)
      = quote_loop ((p @ [q, q]) @ doubled q s @ q # r) q (length (p @ [q, q]))"
      using assms(2) by (subst quote_loop.simps) (simp add: zat_append_Suc)
    then show ?thesis using Cons.IH [of "p @ [q, q]"] Cons.prems True by simp
  next
    case False
    have "quote_loop (p @ c # doubled q s @ q # r) q (length p)
      = quote_loop ((p @ [c]) @ doubled q s @ q # r) q (length (p @ [c]))"
      using False Cons.prems by (subst quote_loop.simps) simp
    then show ?thesis using Cons.IH [of "p @ [c]"] Cons.prems False by simp
  qed
qed

text \<open>
  C30. A string between single quotes with its quotes doubled is exactly one string token,
  whatever bytes it holds and whatever follows (but another quote): no content can end the
  literal early or swallow the text behind it.
\<close>

theorem quoted_literal_token:
  assumes "0 \<notin> set s" and "r = [] \<or> hd r \<noteq> 39"
  shows "sqlite3GetToken (39 # doubled 39 s @ 39 # r) = Some (length (doubled 39 s) + 2, TK_STRING)"
proof -
  let ?z = "39 # doubled 39 s @ 39 # r"
  have "quote_loop ?z 39 1 = Some (1 + length (doubled 39 s), 39)"
    using quote_loop_doubled [OF assms(1) _ assms(2), of "[39]"] by simp
  moreover have "char_class 39 = CC_QUOTE" by (simp add: char_class_def aiClass_def CC_QUOTE_def)
  moreover have "zat ?z 0 = Some 39" by (simp add: zat_def)
  ultimately have "tok_quote ?z = Some (length (doubled 39 s) + 2, TK_STRING)" by (simp add: tok_quote_def)
  then show ?thesis using \<open>char_class 39 = CC_QUOTE\<close> \<open>zat ?z 0 = Some 39\<close>
    by (simp add: sqlite3GetToken_def cc_classes)
qed

theorem quoted_literal_token_witness:
  "sqlite3GetToken (39 # doubled 39 [39, 59, 45, 45] @ 39 # [32, 59]) = Some (7, TK_STRING)"
  by (subst quoted_literal_token) simp_all

end
