(* ===== verification/Run_Parser.thy ===== *)
theory Run_Parser
  imports Tokenize
begin

text \<open>
  How \<open>sqlite3RunParser\<close> (\<open>tokenize.c\<close>) drives the LALR(1) parser: which tokens it passes on,
  which it drops, how it decides the context-dependent keywords \<open>WINDOW\<close>, \<open>OVER\<close> and \<open>FILTER\<close> by
  looking ahead, and how it ends. The generated parser is a parameter, a state transformer that
  says whether \<open>pParse->rc\<close> is still \<open>SQLITE_OK\<close>. The flag \<open>isInterrupted\<close> and the setting of comments are read
  as constants of the run. The loop takes fuel, and is shown to need at most
  three rounds more than the text has bytes. The specification works on the list of tokens instead of the text: it
  says which of them reach the parser, with which code, and what ends the run.
\<close>

unbundle bit_operations_syntax

subsection \<open>Context-dependent keywords\<close>

definition yyFallback :: "nat list" where
  "yyFallback = [
    0, 0, 60, 60, 60, 60, 0, 60, 60, 60, 0, 60, 60, 60, 60, 0, 0, 0, 60, 0,
    0, 60, 0, 0, 0, 0, 60, 60, 60, 60, 60, 60, 60, 60, 60, 60, 60, 60, 60, 60,
    60, 60, 60, 0, 0, 0, 0, 60, 60, 0, 0, 0, 0, 0, 0, 0, 0, 0, 0, 0,
    0, 60, 60, 60, 60, 60, 60, 60, 60, 60, 60, 60, 60, 60, 60, 60, 60, 60, 60, 60,
    60, 60, 60, 60, 60, 60, 60, 60, 60, 60, 60, 60, 60, 60, 60, 60, 60, 60, 60, 60,
    60, 60, 0, 0, 0, 0, 0, 0, 0, 0, 0, 0, 0, 0, 0, 0, 0, 0, 0, 0,
    0, 0, 0, 0, 0, 0, 0, 0, 0, 0, 0, 0, 0, 0, 0, 0, 0, 0, 0, 0,
    0, 0, 0, 0, 0, 0, 0, 0, 0, 0, 0, 0, 0, 0, 0, 0, 0, 0, 0, 0,
    0, 0, 0, 0, 0, 0, 0, 0, 0, 0, 0, 0, 0, 0, 0, 0, 0, 0, 0, 0,
    0, 0, 0, 0, 0, 0, 0]"

definition sqlite3ParserFallback :: "nat \<Rightarrow> nat" where
  "sqlite3ParserFallback iToken = yyFallback ! iToken"

text \<open>\<open>getToken\<close>: the code of the next token that is neither space nor comment, and the text
  behind it.\<close>

fun getToken_loop :: "nat \<Rightarrow> u8 list \<Rightarrow> (nat \<times> u8 list) option" where
  "getToken_loop 0 z = None"
| "getToken_loop (Suc k) z =
     (case sqlite3GetToken z of
        None \<Rightarrow> None
      | Some (n, t) \<Rightarrow>
          if t = TK_SPACE \<or> t = TK_COMMENT then getToken_loop k (drop n z) else Some (t, drop n z))"

definition getToken :: "u8 list \<Rightarrow> (nat \<times> u8 list) option" where
  "getToken z =
     (case getToken_loop (length z + 1) z of
        None \<Rightarrow> None
      | Some (t, z) \<Rightarrow>
          Some (if t = TK_ID \<or> t = TK_STRING \<or> t = TK_JOIN_KW \<or> t = TK_WINDOW \<or> t = TK_OVER
                   \<or> sqlite3ParserFallback t = TK_ID
                then TK_ID else t, z))"

definition analyzeWindowKeyword :: "u8 list \<Rightarrow> nat option" where
  "analyzeWindowKeyword z = do {
     (t, z) \<leftarrow> getToken z;
     if t \<noteq> TK_ID then Some TK_ID
     else do {
       (t, z) \<leftarrow> getToken z;
       Some (if t \<noteq> TK_AS then TK_ID else TK_WINDOW) } }"

definition analyzeOverKeyword :: "u8 list \<Rightarrow> int \<Rightarrow> nat option" where
  "analyzeOverKeyword z lastToken =
     (if lastToken = int TK_RP then do {
        (t, z) \<leftarrow> getToken z;
        Some (if t = TK_LP \<or> t = TK_ID then TK_OVER else TK_ID) }
      else Some TK_ID)"

definition analyzeFilterKeyword :: "u8 list \<Rightarrow> int \<Rightarrow> nat option" where
  "analyzeFilterKeyword z lastToken =
     (if lastToken = int TK_RP then do {
        (t, z) \<leftarrow> getToken z;
        Some (if t = TK_LP then TK_FILTER else TK_ID) }
      else Some TK_ID)"

subsection \<open>The driver loop\<close>

datatype parse_end = Finished | Stopped | Too_Big | Interrupted | Unrecognized "u8 list"

text \<open>What one round does with the next token of length \<open>n\<close> and code \<open>t\<close>: skip it, pass a token
  on (with its code and length), or end.\<close>

datatype action = Skip | Feed nat nat | End parse_end

definition token_action :: "bool \<Rightarrow> bool \<Rightarrow> int \<Rightarrow> u8 list \<Rightarrow> nat \<Rightarrow> nat \<Rightarrow> action option" where
  "token_action isInterrupted comments lastTokenParsed zSql n t =
     (if t \<ge> TK_WINDOW then
        if isInterrupted then Some (End Interrupted)
        else if t = TK_SPACE then Some Skip
        else if zSql = [] then
          Some (if lastTokenParsed = int TK_SEMI then Feed 0 0
                else if lastTokenParsed = 0 then End Finished
                else Feed TK_SEMI 0)
        else if t = TK_WINDOW then do { t \<leftarrow> analyzeWindowKeyword (drop 6 zSql); Some (Feed t n) }
        else if t = TK_OVER then do { t \<leftarrow> analyzeOverKeyword (drop 4 zSql) lastTokenParsed; Some (Feed t n) }
        else if t = TK_FILTER then do { t \<leftarrow> analyzeFilterKeyword (drop 6 zSql) lastTokenParsed; Some (Feed t n) }
        else if t = TK_COMMENT \<and> comments then Some Skip
        else if t \<noteq> TK_QNUMBER then Some (End (Unrecognized (take n zSql)))
        else Some (Feed t n)
      else Some (Feed t n))"

fun parser_loop ::
  "('s \<Rightarrow> nat \<Rightarrow> u8 list \<Rightarrow> 's \<times> bool) \<Rightarrow> bool \<Rightarrow> bool \<Rightarrow> nat \<Rightarrow> u8 list \<Rightarrow> int \<Rightarrow> int \<Rightarrow> 's \<Rightarrow> (parse_end \<times> 's) option" where
  "parser_loop psr intr comments 0 zSql mxSqlLen lastTokenParsed s = None"
| "parser_loop psr intr comments (Suc k) zSql mxSqlLen lastTokenParsed s =
     (case sqlite3GetToken zSql of
        None \<Rightarrow> None
      | Some (n, t) \<Rightarrow>
          let mxSqlLen = mxSqlLen - int n in
          if mxSqlLen < 0 then Some (Too_Big, s)
          else case token_action intr comments lastTokenParsed zSql n t of
            None \<Rightarrow> None
          | Some (End e) \<Rightarrow> Some (e, s)
          | Some Skip \<Rightarrow> parser_loop psr intr comments k (drop n zSql) mxSqlLen lastTokenParsed s
          | Some (Feed t n) \<Rightarrow>
              (case psr s t (take n zSql) of
                 (s, ok) \<Rightarrow>
                   if ok then parser_loop psr intr comments k (drop n zSql) mxSqlLen (int t) s
                   else Some (Stopped, s)))"

definition sqlite3RunParser ::
  "('s \<Rightarrow> nat \<Rightarrow> u8 list \<Rightarrow> 's \<times> bool) \<Rightarrow> bool \<Rightarrow> bool \<Rightarrow> int \<Rightarrow> u8 list \<Rightarrow> 's \<Rightarrow> (parse_end \<times> 's) option" where
  "sqlite3RunParser psr intr comments mxSqlLen zSql s =
     parser_loop psr intr comments (length zSql + 4) zSql mxSqlLen (-1) s"

subsection \<open>Token codes\<close>

text \<open>What is known of the code \<open>t\<close> of a token of length \<open>n\<close>: the context-dependent keywords have their lengths.\<close>

definition token_code :: "nat \<Rightarrow> nat \<Rightarrow> bool" where
  "token_code n t \<longleftrightarrow> 0 < t \<and> t \<le> TK_ILLEGAL
     \<and> (t = TK_WINDOW \<longrightarrow> n = 6) \<and> (t = TK_OVER \<longrightarrow> n = 4) \<and> (t = TK_FILTER \<longrightarrow> n = 6)"

lemma digits_code: "digits_loop P z i t = Some (j, s) \<Longrightarrow> s = t \<or> s = TK_QNUMBER"
proof (induction P z i t rule: digits_loop.induct)
  case (1 P z i t)
  from 1(3) show ?case
    by (subst (asm) digits_loop.simps) (use 1(1,2) in \<open>auto split: option.splits if_splits\<close>)
qed

lemma var_code: "var_loop z i n t = Some (j, m, s) \<Longrightarrow> s = t \<or> s = TK_ILLEGAL"
proof (induction z i n t rule: var_loop.induct)
  case (1 z i n t)
  from 1(3) show ?case
    by (subst (asm) var_loop.simps) (use 1(1,2) in \<open>auto split: option.splits if_splits bind_splits\<close>)
qed

definition code_post :: "(nat \<times> nat) option \<Rightarrow> bool" where
  "code_post r \<longleftrightarrow> (\<forall>n t. r = Some (n, t) \<longrightarrow> token_code n t)"

lemma code_post_simps:
  "code_post (Some (n, t)) \<longleftrightarrow> token_code n t"
  "code_post None"
  by (simp_all add: code_post_def)

lemma code_post_bind: "(\<And>x. m = Some x \<Longrightarrow> code_post (f x)) \<Longrightarrow> code_post (Option.bind m f)"
  by (cases m) (simp_all add: code_post_simps)

lemma code_post_if: "(b \<Longrightarrow> code_post x) \<Longrightarrow> (\<not> b \<Longrightarrow> code_post y) \<Longrightarrow> code_post (if b then x else y)"
  by simp

lemma token_codes_ok: "token_code n TK_COMMENT" "token_code n TK_PTR" "token_code n TK_MINUS" "token_code n TK_SLASH"
  "token_code n TK_LE" "token_code n TK_NE" "token_code n TK_LSHIFT" "token_code n TK_LT" "token_code n TK_GE" "token_code n TK_RSHIFT"
  "token_code n TK_GT" "token_code n TK_STRING" "token_code n TK_ID" "token_code n TK_ILLEGAL" "token_code n TK_INTEGER"
  "token_code n TK_FLOAT" "token_code n TK_QNUMBER" "token_code n TK_VARIABLE" "token_code n TK_BLOB" "token_code n TK_SPACE"
  "token_code n TK_LP" "token_code n TK_RP" "token_code n TK_SEMI" "token_code n TK_PLUS" "token_code n TK_STAR" "token_code n TK_REM"
  "token_code n TK_EQ" "token_code n TK_BITOR" "token_code n TK_CONCAT" "token_code n TK_COMMA" "token_code n TK_BITAND"
  "token_code n TK_BITNOT" "token_code n TK_DOT"
  by (simp_all add: token_code_def token_codes)

lemma fraction_code: "num_fraction z i t = Some (j, s) \<Longrightarrow> token_code n t \<Longrightarrow> token_code n s"
  by (auto simp: num_fraction_def token_codes_ok dest!: digits_code split: bind_splits if_splits)

lemma exponent_code: "num_exponent z i t = Some (j, s) \<Longrightarrow> token_code n t \<Longrightarrow> token_code n s"
  by (auto simp: num_exponent_def token_codes_ok dest!: digits_code split: bind_splits if_splits)

lemma digit_code: "code_post (tok_digit z)"
  unfolding tok_digit_def
proof (intro code_post_bind)
  fix hex x assume "(if hex then digits_loop sqlite3Isxdigit z 3 TK_INTEGER
    else do { (i, t) \<leftarrow> digits_loop sqlite3Isdigit z 0 TK_INTEGER; (i, t) \<leftarrow> num_fraction z i t; num_exponent z i t }) = Some x"
  then have "token_code n (snd x)" for n
    by (cases x) (auto dest!: digits_code fraction_code exponent_code simp: token_codes_ok split: if_splits bind_splits)
  then show "code_post (case x of (i, t) \<Rightarrow> do { j \<leftarrow> skip_while IdChar z i; Some (j, if i < j then TK_ILLEGAL else t) })"
    by (cases x) (auto intro!: code_post_bind simp: code_post_simps token_codes_ok)
qed

lemma keyword_list_codes: "list_all (\<lambda>(w, t). token_code (length w) t) keyword_list"
  by (simp add: keyword_list_def token_code_def token_codes)

lemma keyword_code:
  assumes "sqlite3KeywordCode z n = Some t" "n \<le> length z"
  shows "token_code n t"
proof (cases "map_of (map (\<lambda>(t, c). (map of_char t :: u8 list, c)) keyword_list) (map kw_fold (take n z))")
  case None
  then show ?thesis using keyword_code_list [OF assms(2)] assms(1) token_codes_ok by simp
next
  case (Some c)
  then obtain w where w: "(w, c) \<in> set keyword_list" "map of_char w = map kw_fold (take n z)" by (auto dest!: map_of_SomeD)
  have "length (map of_char w :: u8 list) = n" unfolding w(2) using assms(2) by simp
  then have "token_code n c" using keyword_list_codes w(1) by (auto simp: list_all_iff)
  then show ?thesis using keyword_code_list [OF assms(2)] assms(1) Some by simp
qed

lemma skip_while_le: "skip_while P z i = Some j \<Longrightarrow> i \<le> j \<and> j \<le> length z"
proof (induction P z i rule: skip_while.induct)
  case (1 P z i)
  from 1(2) show ?case
    by (subst (asm) skip_while.simps) (use 1(1) zat_le in \<open>auto split: option.splits if_splits\<close>)
qed

lemma id_code: "code_post (tok_id z i)"
  unfolding tok_id_def by (intro code_post_bind) (simp add: code_post_simps token_codes_ok)

lemma tok_keyword_code: "code_post (tok_keyword z)"
  unfolding tok_keyword_def
proof (intro code_post_bind code_post_if id_code)
  fix c i c' t assume "skip_while (\<lambda>c. char_class c \<le> CC_KYWD) z 2 = Some i" "keywordCode z i TK_ID = Some t"
  then have "sqlite3KeywordCode z i = Some t" "i \<le> length z"
    using skip_while_le [of _ z 2 i] by (auto simp: sqlite3KeywordCode_def)
  then show "code_post (Some (i, t))" using keyword_code by (simp add: code_post_simps)
qed

lemma small_codes:
  "code_post (tok_minus z)" "code_post (tok_slash z)" "code_post (tok_lt z)" "code_post (tok_gt z)" "code_post (tok_quote z)"
  "code_post (tok_bracket z)" "code_post (tok_x z)" "code_post (tok_bom z)" "code_post (tok_variable z)"
  unfolding tok_minus_def tok_slash_def tok_lt_def tok_gt_def tok_quote_def tok_bracket_def tok_x_def tok_bom_def tok_variable_def
  by (auto intro!: code_post_bind code_post_if id_code simp: code_post_simps token_codes_ok Option.bind_eq_Some_conv
      dest!: var_code split: prod.splits if_splits)

lemma GetToken_code: "sqlite3GetToken z = Some (n, t) \<Longrightarrow> token_code n t"
proof -
  have "code_post (sqlite3GetToken z)"
    unfolding sqlite3GetToken_def Let_def
    by (intro code_post_bind code_post_if digit_code small_codes id_code tok_keyword_code)
      (simp_all add: code_post_simps token_codes_ok)
  then show "sqlite3GetToken z = Some (n, t) \<Longrightarrow> token_code n t" by (simp add: code_post_def)
qed

subsection \<open>What the parser is to be given\<close>

text \<open>Tokens that never reach the parser, and tokens that it cannot be given.\<close>

definition dropped :: "nat \<Rightarrow> bool" where "dropped t \<longleftrightarrow> t = TK_SPACE \<or> t = TK_COMMENT"

definition unusable :: "nat \<Rightarrow> bool" where
  "unusable t \<longleftrightarrow> t \<ge> TK_WINDOW \<and> t \<notin> {TK_WINDOW, TK_OVER, TK_FILTER, TK_SPACE, TK_COMMENT, TK_QNUMBER}"

text \<open>Tokens are pairs of a spelling and the code that \<open>sqlite3GetToken\<close> gave it. Behind the last one comes \<open>TK_ILLEGAL\<close>.\<close>

definition significant :: "(u8 list \<times> nat) list \<Rightarrow> (u8 list \<times> nat) list" where
  "significant ts = filter (\<lambda>(w, t). \<not> dropped t) ts"

definition next_code :: "(u8 list \<times> nat) list \<Rightarrow> nat" where
  "next_code S = (case S of [] \<Rightarrow> TK_ILLEGAL | p # _ \<Rightarrow> snd p)"

text \<open>An identifier, or a keyword that can stand for one.\<close>

definition as_id :: "nat \<Rightarrow> nat" where
  "as_id t = (if t = TK_ID \<or> t = TK_STRING \<or> t = TK_JOIN_KW \<or> t = TK_WINDOW \<or> t = TK_OVER \<or> sqlite3ParserFallback t = TK_ID
     then TK_ID else t)"

text \<open>
  The code that a token gets between its neighbours, as the comment in front of \<open>analyzeWindowKeyword\<close> has it: \<open>WINDOW\<close> is a
  keyword before an identifier and \<open>AS\<close>, \<open>OVER\<close> between \<open>)\<close> and \<open>(\<close> or an identifier, \<open>FILTER\<close> between \<open>)\<close> and \<open>(\<close>, and
  otherwise they are identifiers; every other token keeps its code. \<open>rp\<close>: the token before is \<open>)\<close>; \<open>S\<close>: the tokens behind.
\<close>

definition parser_code :: "bool \<Rightarrow> nat \<Rightarrow> (u8 list \<times> nat) list \<Rightarrow> nat" where
  "parser_code rp t S =
     (if t = TK_WINDOW then if as_id (next_code S) = TK_ID \<and> as_id (next_code (tl S)) = TK_AS then TK_WINDOW else TK_ID
      else if t = TK_OVER then if rp \<and> as_id (next_code S) \<in> {TK_LP, TK_ID} then TK_OVER else TK_ID
      else if t = TK_FILTER then if rp \<and> as_id (next_code S) = TK_LP then TK_FILTER else TK_ID
      else t)"

fun parser_codes :: "bool \<Rightarrow> (u8 list \<times> nat) list \<Rightarrow> (nat \<times> u8 list) list" where
  "parser_codes rp [] = []"
| "parser_codes rp ((w, t) # S) = (parser_code rp t S, w) # parser_codes (t = TK_RP) S"

text \<open>How many tokens there are in front of the one that ends the run, and what the end is if the parser does not stop before.\<close>

fun run_end :: "bool \<Rightarrow> bool \<Rightarrow> int \<Rightarrow> (u8 list \<times> nat) list \<Rightarrow> nat \<times> parse_end" where
  "run_end intr comments mx [] = (0, if mx < 0 then Too_Big else if intr then Interrupted else Finished)"
| "run_end intr comments mx ((w, t) # ts) =
     (if mx < int (length w) then (0, Too_Big)
      else if intr \<and> t \<ge> TK_WINDOW then (0, Interrupted)
      else if unusable t \<or> t = TK_COMMENT \<and> \<not> comments then (0, Unrecognized w)
      else case run_end intr comments (mx - int (length w)) ts of (n, e) \<Rightarrow> (Suc n, e))"

text \<open>The text is closed by a semicolon, unless it ends with one, and the end marker 0.\<close>

definition parser_stream :: "bool \<Rightarrow> bool \<Rightarrow> int \<Rightarrow> (u8 list \<times> nat) list \<Rightarrow> (nat \<times> u8 list) list \<times> parse_end" where
  "parser_stream intr comments mx ts =
     (case run_end intr comments mx ts of
        (n, e) \<Rightarrow>
          let body = take (length (significant (take n ts))) (parser_codes False (significant ts)) in
          (if e \<noteq> Finished then body
           else if body \<noteq> [] \<and> fst (last body) = TK_SEMI then body @ [(0, [])]
           else body @ [(TK_SEMI, []), (0, [])], e))"

text \<open>A parser that is given a list of tokens, until it stops.\<close>

fun feed :: "('s \<Rightarrow> nat \<Rightarrow> u8 list \<Rightarrow> 's \<times> bool) \<Rightarrow> 's \<Rightarrow> (nat \<times> u8 list) list \<Rightarrow> parse_end \<Rightarrow> parse_end \<times> 's" where
  "feed psr s [] e = (e, s)"
| "feed psr s ((t, w) # ts) e = (case psr s t w of (s, ok) \<Rightarrow> if ok then feed psr s ts e else (Stopped, s))"

subsection \<open>Looking ahead\<close>

lemma GetToken_Nil: "sqlite3GetToken [] = Some (0, TK_ILLEGAL)"
  by code_simp

lemma GetToken_progress:
  assumes "z \<noteq> []" "0 \<notin> set z"
  obtains n t where "sqlite3GetToken z = Some (n, t)" "0 < n" "n \<le> length z" "token_code n t"
proof -
  have "z ! 0 \<noteq> 0" using assms by (metis length_greater_0_conv nth_mem)
  then obtain n t where "sqlite3GetToken z = Some (n, t)" "0 < n" "n \<le> length z"
    using GetToken_good [OF assms(1)] by (auto simp: good_def)
  then show thesis using that GetToken_code by blast
qed

lemma nul_free_drop: "0 \<notin> set z \<Longrightarrow> 0 \<notin> set (drop n z)"
  by (auto dest: in_set_dropD)

lemma tokenize_Cons_D:
  assumes "z \<noteq> []" "sqlite3GetToken z = Some (n, t)" "0 < n" "n \<le> length z" "tokenize z = Some ts"
  shows "\<exists>us. tokenize (drop n z) = Some us \<and> ts = (take n z, t) # us"
  using assms by (subst (asm) tokenize.simps) (auto split: option.splits)

text \<open>A text and its tokens.\<close>

definition tokens_of :: "u8 list \<Rightarrow> (u8 list \<times> nat) list \<Rightarrow> bool" where
  "tokens_of z ts \<longleftrightarrow> 0 \<notin> set z \<and> tokenize z = Some ts"

lemma tokens_of_cases:
  assumes "tokens_of z ts"
  obtains "z = []" "ts = []"
  | n t us where "z \<noteq> []" "sqlite3GetToken z = Some (n, t)" "0 < n" "n \<le> length z" "token_code n t"
      "ts = (take n z, t) # us" "tokens_of (drop n z) us"
proof (cases "z = []")
  case True
  then show thesis using assms that(1) by (simp add: tokens_of_def tokenize.simps)
next
  case False
  have nul: "0 \<notin> set z" "tokenize z = Some ts" using assms by (simp_all add: tokens_of_def)
  obtain n t where n: "sqlite3GetToken z = Some (n, t)" "0 < n" "n \<le> length z" "token_code n t"
    by (rule GetToken_progress [OF False nul(1)])
  then obtain us where "tokenize (drop n z) = Some us" "ts = (take n z, t) # us"
    using tokenize_Cons_D [OF False n(1-3) nul(2)] by blast
  then show thesis using that(2) [OF False n] nul_free_drop [OF nul(1)] by (simp add: tokens_of_def)
qed

lemma significant_simps:
  "significant [] = []" "significant ((w, t) # ts) = (if dropped t then significant ts else (w, t) # significant ts)"
  by (simp_all add: significant_def)

lemma next_code_simps: "next_code [] = TK_ILLEGAL" "next_code ((w, t) # S) = t"
  by (simp_all add: next_code_def)

lemma getToken_loop_tokens:
  "tokens_of z ts \<Longrightarrow> length z < k \<Longrightarrow> \<exists>z' us. getToken_loop k z = Some (next_code (significant ts), z')
    \<and> tokens_of z' us \<and> significant us = tl (significant ts)"
proof (induction k arbitrary: z ts)
  case (Suc k)
  from Suc.prems(1) show ?case
  proof (cases rule: tokens_of_cases)
    case 1
    then show ?thesis using Suc.prems(1)
      by (auto simp: GetToken_Nil token_codes significant_simps next_code_simps intro!: exI [of _ "[]"])
  next
    case (2 n t us)
    have k: "length (drop n z) < k" using Suc.prems(2) 2(3,4) by simp
    show ?thesis
    proof (cases "dropped t")
      case True
      then have "getToken_loop (Suc k) z = getToken_loop k (drop n z)" using 2(2) by (auto simp: dropped_def)
      then show ?thesis using Suc.IH [OF 2(7) k] True 2(6) by (simp add: significant_simps)
    next
      case False
      then have "getToken_loop (Suc k) z = Some (t, drop n z)" using 2(2) by (auto simp: dropped_def)
      then show ?thesis using 2(6,7) False by (auto simp: significant_simps next_code_simps)
    qed
  qed
qed simp

lemma getToken_tokens:
  assumes "tokens_of z ts"
  obtains z' us where "getToken z = Some (as_id (next_code (significant ts)), z')" "tokens_of z' us" "significant us = tl (significant ts)"
proof -
  obtain z' us where g: "getToken_loop (length z + 1) z = Some (next_code (significant ts), z')" "tokens_of z' us"
    "significant us = tl (significant ts)"
    using getToken_loop_tokens [OF assms, of "length z + 1"] by auto
  then have "getToken z = Some (as_id (next_code (significant ts)), z')" by (simp add: getToken_def as_id_def)
  then show thesis using that g(2,3) by blast
qed

text \<open>The three decisions, made on the text behind the keyword, are those made on the tokens.\<close>

lemma analyze_tokens:
  assumes "tokens_of z ts"
  shows "analyzeWindowKeyword z = Some (parser_code rp TK_WINDOW (significant ts))"
    "analyzeOverKeyword z l = Some (parser_code (l = int TK_RP) TK_OVER (significant ts))"
    "analyzeFilterKeyword z l = Some (parser_code (l = int TK_RP) TK_FILTER (significant ts))"
proof -
  obtain z1 us where g: "getToken z = Some (as_id (next_code (significant ts)), z1)" "tokens_of z1 us" "significant us = tl (significant ts)"
    by (rule getToken_tokens [OF assms])
  obtain z2 where h: "getToken z1 = Some (as_id (next_code (tl (significant ts))), z2)"
    using getToken_tokens [OF g(2)] unfolding g(3) by metis
  show "analyzeWindowKeyword z = Some (parser_code rp TK_WINDOW (significant ts))"
    using g(1) h by (simp add: analyzeWindowKeyword_def parser_code_def)
  have "TK_OVER \<noteq> TK_WINDOW" "TK_FILTER \<noteq> TK_WINDOW" "TK_FILTER \<noteq> TK_OVER" by (simp_all add: token_codes)
  then show "analyzeOverKeyword z l = Some (parser_code (l = int TK_RP) TK_OVER (significant ts))"
    "analyzeFilterKeyword z l = Some (parser_code (l = int TK_RP) TK_FILTER (significant ts))"
    using g(1) by (simp_all add: analyzeOverKeyword_def analyzeFilterKeyword_def parser_code_def)
qed

lemma parser_code_RP: "parser_code rp t S = TK_RP \<longleftrightarrow> t = TK_RP"
  by (auto simp: parser_code_def token_codes)

lemma parser_code_pos: "token_code n t \<Longrightarrow> parser_code rp t S \<noteq> 0"
  by (auto simp: parser_code_def token_code_def token_codes)

subsection \<open>The loop gives it that\<close>

lemma token_action_tokens:
  assumes z: "z \<noteq> []" and t: "token_code n t" and us: "tokens_of (drop n z) us" and intr: "\<not> (intr \<and> t \<ge> TK_WINDOW)"
  shows "token_action intr comments l z n t =
    Some (if unusable t \<or> t = TK_COMMENT \<and> \<not> comments then End (Unrecognized (take n z))
          else if dropped t then Skip
          else Feed (parser_code (l = int TK_RP) t (significant us)) n)"
proof -
  consider "t = TK_WINDOW" | "t = TK_OVER" | "t = TK_FILTER" | "t \<notin> {TK_WINDOW, TK_OVER, TK_FILTER}" by blast
  then show ?thesis
  proof cases
    case 4
    then have "parser_code (l = int TK_RP) t (significant us) = t" by (simp add: parser_code_def)
    then show ?thesis using 4 z intr by (auto simp: token_action_def unusable_def dropped_def token_codes)
  qed (use z t us intr analyze_tokens(1) [OF us, of "l = int TK_RP"] analyze_tokens(2,3) [OF us, of l] in
      \<open>auto simp: token_action_def unusable_def dropped_def token_codes token_code_def\<close>)
qed

definition last_code :: "int \<Rightarrow> (nat \<times> u8 list) list \<Rightarrow> int" where
  "last_code l fed = (if fed = [] then l else int (fst (last fed)))"

text \<open>The stream from the middle of a text on; \<open>l\<close> is the code passed on last.\<close>

definition stream_from :: "int \<Rightarrow> bool \<Rightarrow> bool \<Rightarrow> int \<Rightarrow> (u8 list \<times> nat) list \<Rightarrow> (nat \<times> u8 list) list \<times> parse_end" where
  "stream_from l intr comments mx ts =
     (case run_end intr comments mx ts of
        (n, e) \<Rightarrow>
          let body = take (length (significant (take n ts))) (parser_codes (l = int TK_RP) (significant ts)) in
          (if e \<noteq> Finished then body
           else if last_code l body = int TK_SEMI then body @ [(0, [])]
           else body @ [(TK_SEMI, []), (0, [])], e))"

lemma stream_from_start: "stream_from (- 1) intr comments mx ts = parser_stream intr comments mx ts"
  by (simp add: stream_from_def parser_stream_def last_code_def Let_def split: prod.splits)

lemma stream_from_stop:
  "run_end intr comments mx ts = (0, e) \<Longrightarrow> e \<noteq> Finished \<Longrightarrow> stream_from l intr comments mx ts = ([], e)"
  by (simp add: stream_from_def significant_simps)

lemma stream_from_skip:
  assumes "run_end intr comments mx ((w, t) # ts) = (case run_end intr comments mx' ts of (n, e) \<Rightarrow> (Suc n, e))" "dropped t"
  shows "stream_from l intr comments mx ((w, t) # ts) = stream_from l intr comments mx' ts"
  using assms by (simp add: stream_from_def significant_simps split: prod.splits)

lemma stream_from_feed:
  assumes "run_end intr comments mx ((w, t) # ts) = (case run_end intr comments mx' ts of (n, e) \<Rightarrow> (Suc n, e))" "\<not> dropped t"
  shows "stream_from l intr comments mx ((w, t) # ts) =
    (let u = parser_code (l = int TK_RP) t (significant ts); (B, e) = stream_from (int u) intr comments mx' ts in ((u, w) # B, e))"
proof -
  obtain n e where r: "run_end intr comments mx' ts = (n, e)" by fastforce
  have c: "run_end intr comments mx ((w, t) # ts) = (Suc n, e)" unfolding assms(1) r by simp
  define u where "u = parser_code (l = int TK_RP) t (significant ts)"
  define B where "B = take (length (significant (take n ts))) (parser_codes (int u = int TK_RP) (significant ts))"
  have "(int u = int TK_RP) = (t = TK_RP)" using parser_code_RP by (simp add: u_def)
  then have b: "take (length (significant (take (Suc n) ((w, t) # ts)))) (parser_codes (l = int TK_RP) (significant ((w, t) # ts))) = (u, w) # B"
    using assms(2) by (simp add: significant_simps B_def u_def)
  show ?thesis
    unfolding stream_from_def c r prod.case b Let_def u_def [symmetric] B_def [symmetric] by (simp add: last_code_def)
qed

lemma loop_at_end:
  "l \<noteq> 0 \<Longrightarrow> parser_loop psr intr comments (Suc (Suc (Suc k))) [] mx l s
     = Some (feed psr s (fst (stream_from l intr comments mx [])) (snd (stream_from l intr comments mx [])))"
  by (auto simp: stream_from_def significant_simps last_code_def GetToken_Nil token_action_def Let_def token_codes split: prod.splits)

lemma loop_stream:
  assumes "tokens_of z ts" "l \<noteq> 0" "length ts + 3 \<le> k"
  shows "parser_loop psr intr comments k z mx l s
    = Some (feed psr s (fst (stream_from l intr comments mx ts)) (snd (stream_from l intr comments mx ts)))"
  using assms
proof (induction ts arbitrary: z mx l s k)
  case Nil
  have "z = []" using Nil.prems(1) by (cases rule: tokens_of_cases) simp_all
  moreover obtain d where "k = Suc (Suc (Suc d))"
    using Nil.prems(3) by (metis Suc_le_D add_0 list.size(3) numeral_3_eq_3 Suc_le_mono)
  ultimately show ?case using loop_at_end [OF Nil.prems(2)] by simp
next
  case (Cons p ts)
  from Cons.prems(1) obtain n t where n: "z \<noteq> []" "sqlite3GetToken z = Some (n, t)" "0 < n" "n \<le> length z" "token_code n t"
    and p: "p = (take n z, t)" and us: "tokens_of (drop n z) ts"
    by (cases rule: tokens_of_cases) auto
  obtain k' where k: "k = Suc k'" "length ts + 3 \<le> k'" using Cons.prems(3) by (cases k) auto
  have w: "length (take n z) = n" using n(4) by simp
  let ?m = "mx - int n" and ?stop = "unusable t \<or> t = TK_COMMENT \<and> \<not> comments"
  show ?case
  proof (cases "mx < int n \<or> intr \<and> t \<ge> TK_WINDOW")
    case True
    define e where "e = (if mx < int n then Too_Big else Interrupted)"
    have "parser_loop psr intr comments k z mx l s = Some (e, s)"
      using True k(1) n(1,2) by (auto simp: e_def token_action_def)
    moreover have "run_end intr comments mx (p # ts) = (0, e)" "e \<noteq> Finished" using True p w by (auto simp: e_def)
    ultimately show ?thesis using stream_from_stop by simp
  next
    case False
    then have act: "token_action intr comments l z n t = Some (if ?stop then End (Unrecognized (take n z))
        else if dropped t then Skip else Feed (parser_code (l = int TK_RP) t (significant ts)) n)"
      using token_action_tokens [OF n(1,5) us] by simp
    have mx: "\<not> mx - int n < 0" using False by simp
    show ?thesis
    proof (cases ?stop)
      case True
      have "run_end intr comments mx (p # ts) = (0, Unrecognized (take n z))" using True False p w by simp
      then show ?thesis using True act k(1) n(2) mx stream_from_stop [of intr comments mx "p # ts"] by simp
    next
      case go: False
      have e: "run_end intr comments mx ((take n z, t) # ts) = (case run_end intr comments ?m ts of (n, e) \<Rightarrow> (Suc n, e))"
        using False go w by auto
      show ?thesis
      proof (cases "dropped t")
        case True
        then show ?thesis
          using act go k(1) n(2) mx Cons.IH [OF us Cons.prems(2) k(2)] stream_from_skip [OF e True] p by (simp add: Let_def)
      next
        case False
        define u where "u = parser_code (l = int TK_RP) t (significant ts)"
        have u: "int u \<noteq> 0" using parser_code_pos [OF n(5)] by (simp add: u_def)
        obtain B e' where B: "stream_from (int u) intr comments ?m ts = (B, e')" by fastforce
        have st: "stream_from l intr comments mx (p # ts) = ((u, take n z) # B, e')"
          unfolding p stream_from_feed [OF e False] u_def [symmetric] Let_def B by simp
        show ?thesis
          using act go False k(1) n(2) mx Cons.IH [OF us u k(2), of ?m] B
          unfolding st u_def [symmetric] by (simp add: Let_def split: prod.split)
      qed
    qed
  qed
qed

lemma tokenize_total: "0 \<notin> set z \<Longrightarrow> \<exists>ts. tokenize z = Some ts"
proof (induction z rule: length_induct)
  case (1 z)
  show ?case
  proof (cases "z = []")
    case False
    then obtain n t where n: "sqlite3GetToken z = Some (n, t)" "0 < n" "n \<le> length z"
      using GetToken_progress 1(2) by blast
    have "length (drop n z) < length z" using n False by simp
    then obtain ts where "tokenize (drop n z) = Some ts" using 1 nul_free_drop by blast
    then show ?thesis using tokenize_Cons [OF False n] by blast
  qed (simp add: tokenize.simps)
qed

lemma tokenize_short: "tokenize z = Some ts \<Longrightarrow> length ts \<le> length z"
proof (induction z arbitrary: ts rule: tokenize.induct)
  case (1 z)
  then show ?case
    by (subst (asm) (2) tokenize.simps) (force split: option.splits if_splits)
qed

text \<open>
  C32. For every text and every parser the driver ends, and does what a run over the list of its tokens does: the
  parser is given, with their spellings, the codes of the tokens that are neither space nor comment, where \<open>WINDOW\<close>,
  \<open>OVER\<close> and \<open>FILTER\<close> are keywords exactly between the neighbours that make them so, and behind the last one a
  semicolon, unless there was one, and the end marker 0. The run is over at the first token that
  exceeds the length limit, is no token (or a comment while comments are off), or meets an interrupt, and when the
  parser reports an error.
\<close>

theorem run_parser_stream:
  assumes "0 \<notin> set z"
  shows "\<exists>ts. tokenize z = Some ts \<and> sqlite3RunParser psr isInterrupted comments mxSqlLen z s
    = Some (case parser_stream isInterrupted comments mxSqlLen ts of (fed, e) \<Rightarrow> feed psr s fed e)"
proof -
  obtain ts where ts: "tokenize z = Some ts" using tokenize_total [OF assms] by blast
  then have "tokens_of z ts" "length ts + 3 \<le> length z + 4" using assms tokenize_short [OF ts] by (simp_all add: tokens_of_def)
  then show ?thesis
    using ts loop_stream [of z ts "- 1" "length z + 4"] by (simp add: sqlite3RunParser_def stream_from_start split_beta)
qed

text \<open>
  The text \<open>over) over(/**/window w as filter\<close> and a parser that writes down what it is given: the first \<open>over\<close> and
  \<open>filter\<close> are identifiers, the second \<open>over\<close> and \<open>window\<close> are keywords.
\<close>

definition recorder :: "(nat \<times> u8 list) list \<Rightarrow> nat \<Rightarrow> u8 list \<Rightarrow> (nat \<times> u8 list) list \<times> bool" where
  "recorder s t x = (s @ [(t, x)], True)"

definition example_sql :: "u8 list" where
  "example_sql = [111, 118, 101, 114, 41, 32, 111, 118, 101, 114, 40, 47, 42, 42, 47, 119, 105, 110, 100, 111, 119, 32, 119, 32, 97, 115,
     32, 102, 105, 108, 116, 101, 114]"

theorem run_parser_stream_witness:
  "\<exists>fed. sqlite3RunParser recorder False True 100 example_sql [] = Some (Finished, fed)
     \<and> map fst fed = [TK_ID, TK_RP, TK_OVER, TK_LP, TK_WINDOW, TK_ID, TK_AS, TK_ID, TK_SEMI, 0]"
proof -
  define ts where "ts = [([111 :: u8, 118, 101, 114], TK_OVER), ([41], TK_RP), ([32], TK_SPACE), ([111, 118, 101, 114], TK_OVER), ([40], TK_LP),
    ([47, 42, 42, 47], TK_COMMENT), ([119, 105, 110, 100, 111, 119], TK_WINDOW), ([32], TK_SPACE), ([119], TK_ID), ([32], TK_SPACE),
    ([97, 115], TK_AS), ([32], TK_SPACE), ([102, 105, 108, 116, 101, 114], TK_FILTER)]"
  have t: "tokenize example_sql = Some ts" unfolding ts_def by code_simp
  have "parser_stream False True 100 ts = ([(TK_ID, [111, 118, 101, 114]), (TK_RP, [41]), (TK_OVER, [111, 118, 101, 114]), (TK_LP, [40]),
    (TK_WINDOW, [119, 105, 110, 100, 111, 119]), (TK_ID, [119]), (TK_AS, [97, 115]), (TK_ID, [102, 105, 108, 116, 101, 114]),
    (TK_SEMI, []), (0, [])], Finished)"
    unfolding ts_def by code_simp
  moreover have "0 \<notin> set example_sql" by (simp add: example_sql_def)
  ultimately show ?thesis using run_parser_stream [of example_sql recorder False True 100 "[]"] t by (simp add: recorder_def)
qed

end
