(* ===== verification/Complete.thy ===== *)
theory Complete
  imports Util_Text "HOL-Library.Sublist"
begin

text \<open>
  \<open>sqlite3_complete\<close> (\<open>complete.c\<close>): does a text consist of complete SQL statements? One round of the
  routine's loop finds the next token class (\<open>next_token\<close>), the table \<open>trans\<close> moves its
  eight-state machine. A text is a zero-terminated string, the list of its bytes.
\<close>

unbundle bit_operations_syntax

subsection \<open>Tokens and states\<close>

definition tkSEMI :: nat where "tkSEMI = 0"
definition tkWS :: nat where "tkWS = 1"
definition tkOTHER :: nat where "tkOTHER = 2"
definition tkEXPLAIN :: nat where "tkEXPLAIN = 3"
definition tkCREATE :: nat where "tkCREATE = 4"
definition tkTEMP :: nat where "tkTEMP = 5"
definition tkTRIGGER :: nat where "tkTRIGGER = 6"
definition tkEND :: nat where "tkEND = 7"

lemmas tks = tkSEMI_def tkWS_def tkOTHER_def tkEXPLAIN_def tkCREATE_def tkTEMP_def tkTRIGGER_def tkEND_def

definition trans :: "nat list list" where
  "trans = [
    [1, 0, 2, 3, 4, 2, 2, 2],
    [1, 1, 2, 3, 4, 2, 2, 2],
    [1, 2, 2, 2, 2, 2, 2, 2],
    [1, 3, 3, 2, 4, 2, 2, 2],
    [1, 4, 2, 2, 2, 4, 5, 2],
    [6, 5, 5, 5, 5, 5, 5, 5],
    [6, 6, 5, 5, 5, 5, 5, 7],
    [1, 7, 5, 5, 5, 5, 5, 5]]"

text \<open>Three spellings of words as bytes.\<close>

definition is_word :: "u8 list \<Rightarrow> nat \<Rightarrow> u8 list \<Rightarrow> bool" where
  "is_word zSql nId w \<longleftrightarrow> nId = length w \<and> sqlite3_strnicmp (Some zSql) (Some w) (int (length w)) = 0"

definition word_token :: "u8 list \<Rightarrow> nat \<Rightarrow> nat" where
  "word_token zSql nId =
     (let c = chd zSql in
      if c = 99 \<or> c = 67 then
        if is_word zSql nId [99, 114, 101, 97, 116, 101] then tkCREATE else tkOTHER
      else if c = 116 \<or> c = 84 then
        if is_word zSql nId [116, 114, 105, 103, 103, 101, 114] then tkTRIGGER
        else if is_word zSql nId [116, 101, 109, 112] then tkTEMP
        else if is_word zSql nId [116, 101, 109, 112, 111, 114, 97, 114, 121] then tkTEMP
        else tkOTHER
      else if c = 101 \<or> c = 69 then
        if is_word zSql nId [101, 110, 100] then tkEND
        else if is_word zSql nId [101, 120, 112, 108, 97, 105, 110] then tkEXPLAIN
        else tkOTHER
      else tkOTHER)"

fun comment_end :: "u8 list \<Rightarrow> u8 list" where
  "comment_end [] = []"
| "comment_end (c # z) = (if c \<noteq> 0 \<and> (c \<noteq> 42 \<or> chd z \<noteq> 47) then comment_end z else c # z)"

text \<open>A round: the next token and the text behind it, or the two early returns.\<close>

datatype scan = Token nat "u8 list" | Unclosed | Open_Line

definition next_token :: "u8 list \<Rightarrow> scan" where
  "next_token zSql =
     (let c = chd zSql in
      if c = 59 then Token tkSEMI (tl zSql)
      else if c \<in> {32, 13, 9, 10, 12} then Token tkWS (tl zSql)
      else if c = 47 then
        if chd (tl zSql) \<noteq> 42 then Token tkOTHER (tl zSql)
        else
          let z = comment_end (drop 2 zSql) in
          if chd z = 0 then Unclosed else Token tkWS (drop 2 z)
      else if c = 45 then
        if chd (tl zSql) \<noteq> 45 then Token tkOTHER (tl zSql)
        else
          let z = dropWhile (\<lambda>c. c \<noteq> 0 \<and> c \<noteq> 10) zSql in
          if chd z = 0 then Open_Line else Token tkWS (tl z)
      else if c = 91 then
        let z = dropWhile (\<lambda>c. c \<noteq> 0 \<and> c \<noteq> 93) (tl zSql) in
        if chd z = 0 then Unclosed else Token tkOTHER (tl z)
      else if c \<in> {96, 34, 39} then
        let z = dropWhile (\<lambda>d. d \<noteq> 0 \<and> d \<noteq> c) (tl zSql) in
        if chd z = 0 then Unclosed else Token tkOTHER (tl z)
      else if IdChar c then
        let nId = 1 + length (takeWhile IdChar (tl zSql)) in
        Token (word_token zSql nId) (drop nId zSql)
      else Token tkOTHER (tl zSql))"

lemma length_comment_end: "length (comment_end z) \<le> length z"
  by (induction z rule: comment_end.induct) auto

lemma next_token_shorter:
  assumes "next_token z = Token t z'" "chd z \<noteq> 0"
  shows "length z' < length z"
proof -
  from assms(2) obtain c y where z: "z = c # y" by (cases z) auto
  have "length (dropWhile P y) - k \<le> length y" for P k
    using length_dropWhile_le [of P y] by simp
  moreover have "length (comment_end (drop i y)) - k \<le> length y" for i k
    using length_comment_end [of "drop i y"] by simp
  ultimately show ?thesis using assms(1) z
    by (auto simp: next_token_def Let_def less_Suc_eq_le split: if_splits)
qed

function complete_loop :: "nat \<Rightarrow> u8 list \<Rightarrow> bool" where
  "complete_loop state zSql =
     (if chd zSql = 0 then state = 1
      else case next_token zSql of
        Unclosed \<Rightarrow> False
      | Open_Line \<Rightarrow> state = 1
      | Token t z \<Rightarrow> complete_loop (trans ! state ! t) z)"
  by pat_completeness auto
termination
  by (relation "measure (\<lambda>(s, z). length z)") (auto dest: next_token_shorter)

declare complete_loop.simps [simp del]

definition sqlite3_complete :: "u8 list \<Rightarrow> bool" where
  "sqlite3_complete zSql \<longleftrightarrow> complete_loop 0 zSql"

subsection \<open>What a complete statement is\<close>

text \<open>The token classes of a text, \<open>None\<close> if a comment, a string or a name is not closed.\<close>

function complete_tokens :: "u8 list \<Rightarrow> nat list option" where
  "complete_tokens z =
     (if chd z = 0 then Some []
      else case next_token z of
        Unclosed \<Rightarrow> None
      | Open_Line \<Rightarrow> Some []
      | Token t z \<Rightarrow> map_option (Cons t) (complete_tokens z))"
  by pat_completeness auto
termination
  by (relation "measure length") (auto dest: next_token_shorter)

declare complete_tokens.simps [simp del]

text \<open>The head of a trigger: \<open>CREATE TEMP\<^sup>* TRIGGER\<close>, possibly behind \<open>EXPLAIN OTHER\<^sup>*\<close>.\<close>

definition trigger_head :: "nat list \<Rightarrow> bool" where
  "trigger_head h \<longleftrightarrow>
     (\<exists>k. h = [tkCREATE] @ replicate k tkTEMP @ [tkTRIGGER])
     \<or> (\<exists>n k. h = [tkEXPLAIN] @ replicate n tkOTHER @ [tkCREATE] @ replicate k tkTEMP @ [tkTRIGGER])"

text \<open>A trigger body ends with the first \<open>; END ;\<close>.\<close>

definition trigger_body :: "nat list \<Rightarrow> bool" where
  "trigger_body b \<longleftrightarrow> suffix [tkSEMI, tkEND, tkSEMI] b \<and> \<not> sublist [tkSEMI, tkEND, tkSEMI] (butlast b)"

definition trigger_statement :: "nat list \<Rightarrow> bool" where
  "trigger_statement s \<longleftrightarrow> (\<exists>h b. s = h @ b \<and> trigger_head h \<and> trigger_body b)"

definition plain_statement :: "nat list \<Rightarrow> bool" where
  "plain_statement s \<longleftrightarrow> (\<exists>b. s = b @ [tkSEMI] \<and> tkSEMI \<notin> set b \<and> (\<forall>h. prefix h b \<longrightarrow> \<not> trigger_head h))"

subsection \<open>The machine accepts sequences of statements\<close>

lemma complete_loop_tokens:
  "complete_loop s z \<longleftrightarrow> (\<exists>ts. complete_tokens z = Some ts \<and> foldl (\<lambda>s t. trans ! s ! t) s ts = 1)"
proof (induction s z rule: complete_loop.induct)
  case (1 s z)
  then show ?case
    by (subst complete_loop.simps, subst complete_tokens.simps) (auto split: scan.split)
qed

lemma word_token_small: "word_token z n < 8"
  by (auto simp: word_token_def Let_def tks)

lemma next_token_small: "next_token z = Token t z' \<Longrightarrow> t < 8"
  using word_token_small by (auto simp: next_token_def Let_def tks split: if_splits)

lemma complete_tokens_small: "complete_tokens z = Some ts \<Longrightarrow> list_all (\<lambda>t. t < 8) ts"
proof (induction z arbitrary: ts rule: complete_tokens.induct)
  case (1 z)
  from 1(2) show ?case
    by (subst (asm) complete_tokens.simps) (use 1(1) next_token_small in \<open>auto split: if_splits scan.splits\<close>)
qed

definition stmt_step :: "nat \<Rightarrow> nat \<Rightarrow> nat" where
  "stmt_step s t = trans ! s ! t"

lemma small8: "(t :: nat) < 8 \<longleftrightarrow> t \<in> {0, 1, 2, 3, 4, 5, 6, 7}"
  by auto

lemma stmt_steps:
  "stmt_step (Suc 0) t = (if t = tkSEMI then 1 else if t = tkEXPLAIN then 3 else if t = tkCREATE then 4 else 2)"
  "stmt_step 2 t = (if t = tkSEMI then 1 else 2)"
  "stmt_step 3 t = (if t = tkSEMI then 1 else if t = tkOTHER then 3 else if t = tkCREATE then 4 else 2)"
  "stmt_step 4 t = (if t = tkSEMI then 1 else if t = tkTEMP then 4 else if t = tkTRIGGER then 5 else 2)"
  "stmt_step 5 t = (if t = tkSEMI then 6 else 5)"
  "stmt_step 6 t = (if t = tkSEMI then 6 else if t = tkEND then 7 else 5)"
  "stmt_step 7 t = (if t = tkSEMI then 1 else 5)"
  if "t < 8" "t \<noteq> tkWS"
  using that by (auto simp: small8 stmt_step_def trans_def tks numeral_2_eq_2)

lemma white_step: "s < 8 \<Longrightarrow> stmt_step s tkWS = s"
  by (auto simp: small8 stmt_step_def trans_def tks)

lemma small_step: "s < 8 \<Longrightarrow> t < 8 \<Longrightarrow> stmt_step s t < 8"
  by (auto simp: small8 stmt_step_def trans_def)

lemma foldl_white:
  "s < 8 \<Longrightarrow> list_all (\<lambda>t. t < 8) ts \<Longrightarrow> foldl stmt_step s ts = foldl stmt_step s (filter (\<lambda>t. t \<noteq> tkWS) ts)"
  by (induction ts arbitrary: s) (auto simp: white_step small_step)

text \<open>Words that lead from a state to the end of a statement for the first time.\<close>

fun first_end :: "nat \<Rightarrow> nat list \<Rightarrow> bool" where
  "first_end s [] = False"
| "first_end s (t # ts) = (let s' = stmt_step s t in if s' = 1 then ts = [] else first_end s' ts)"


lemma first_end_reaches: "first_end s p \<Longrightarrow> foldl stmt_step s p = 1"
  by (induction s p rule: first_end.induct) (auto simp: Let_def split: if_splits)

lemma first_end_split:
  "foldl stmt_step s ts = 1 \<Longrightarrow> ts \<noteq> [] \<Longrightarrow> \<exists>p q. ts = p @ q \<and> first_end s p \<and> foldl stmt_step 1 q = 1"
proof (induction ts arbitrary: s)
  case (Cons t ts)
  show ?case
  proof (cases "stmt_step s t = 1")
    case True
    then show ?thesis using Cons.prems(1) by (intro exI [of _ "[t]"] exI [of _ ts]) simp
  next
    case False
    then have "ts \<noteq> []" using Cons.prems(1) by auto
    then obtain p q where "ts = p @ q" "first_end (stmt_step s t) p" "foldl stmt_step 1 q = 1"
      using Cons.IH Cons.prems(1) by (metis foldl_Cons)
    then show ?thesis using False by (intro exI [of _ "t # p"] exI [of _ q]) simp
  qed
qed simp

lemma first_end_concat: "foldl stmt_step 1 ts = 1 \<longleftrightarrow> (\<exists>ss. ts = concat ss \<and> list_all (first_end 1) ss)"
proof
  show "foldl stmt_step 1 ts = 1 \<Longrightarrow> \<exists>ss. ts = concat ss \<and> list_all (first_end 1) ss"
  proof (induction ts rule: length_induct)
    case (1 ts)
    show ?case
    proof (cases "ts = []")
      case True
      then show ?thesis by (intro exI [of _ "[]"]) simp
    next
      case False
      then obtain p q where p: "ts = p @ q" "first_end 1 p" "foldl stmt_step 1 q = 1"
        using first_end_split 1(2) by blast
      then have "length q < length ts" by (cases p) auto
      then obtain ss where "q = concat ss" "list_all (first_end 1) ss" using 1(1) p(3) by blast
      then show ?thesis using p by (intro exI [of _ "p # ss"]) simp
    qed
  qed
  show "\<exists>ss. ts = concat ss \<and> list_all (first_end 1) ss \<Longrightarrow> foldl stmt_step 1 ts = 1"
  proof (elim exE conjE)
    fix ss assume "ts = concat ss" "list_all (first_end 1) ss"
    then show "foldl stmt_step 1 ts = 1"
      by (induction ss arbitrary: ts) (auto dest: first_end_reaches)
  qed
qed

text \<open>Statements whose trigger heads are those of \<open>H\<close>.\<close>

definition stmt :: "(nat list \<Rightarrow> bool) \<Rightarrow> nat list \<Rightarrow> bool" where
  "stmt H s \<longleftrightarrow> (\<exists>h b. s = h @ b \<and> H h \<and> trigger_body b) \<or>
     (\<exists>b. s = b @ [tkSEMI] \<and> tkSEMI \<notin> set b \<and> (\<forall>h. prefix h b \<longrightarrow> \<not> H h))"

lemma stmt_Nil: "\<not> H [] \<Longrightarrow> \<not> stmt H []"
  by (auto simp: stmt_def)

lemma stmt_semi: "\<not> H [] \<Longrightarrow> (\<And>h. \<not> H (tkSEMI # h)) \<Longrightarrow> stmt H (tkSEMI # ts) \<longleftrightarrow> ts = []"
  by (fastforce simp: stmt_def Cons_eq_append_conv)

lemma stmt_other:
  assumes "\<not> H []" "t \<noteq> tkSEMI"
  shows "stmt H (t # ts) \<longleftrightarrow> stmt (\<lambda>h. H (t # h)) ts"
proof -
  have "(\<exists>h b. t # ts = h @ b \<and> H h \<and> trigger_body b) \<longleftrightarrow> (\<exists>h b. ts = h @ b \<and> H (t # h) \<and> trigger_body b)"
    using assms(1) by (auto simp: Cons_eq_append_conv)
  moreover have "(\<forall>h. prefix h (t # b) \<longrightarrow> \<not> H h) \<longleftrightarrow> (\<forall>h. prefix h b \<longrightarrow> \<not> H (t # h))" for b
    using assms(1) by (auto simp: prefix_Cons)
  then have "(\<exists>b. t # ts = b @ [tkSEMI] \<and> tkSEMI \<notin> set b \<and> (\<forall>h. prefix h b \<longrightarrow> \<not> H h))
    \<longleftrightarrow> (\<exists>b. ts = b @ [tkSEMI] \<and> tkSEMI \<notin> set b \<and> (\<forall>h. prefix h b \<longrightarrow> \<not> H (t # h)))"
    using assms(2) by (auto simp: Cons_eq_append_conv)
  ultimately show ?thesis by (simp add: stmt_def)
qed

lemma stmt_body: "stmt (\<lambda>h. h = []) ts \<longleftrightarrow> trigger_body ts"
  by (auto simp: stmt_def dest: spec [of _ "[]"])

definition head4 :: "nat list \<Rightarrow> bool" where
  "head4 h \<longleftrightarrow> (\<exists>k. h = replicate k tkTEMP @ [tkTRIGGER])"

definition head3 :: "nat list \<Rightarrow> bool" where
  "head3 h \<longleftrightarrow> (\<exists>n k. h = replicate n tkOTHER @ tkCREATE # replicate k tkTEMP @ [tkTRIGGER])"

lemma replicate_Cons_iff:
  "(\<exists>k. t # h = replicate k x @ y # r k) \<longleftrightarrow> (t = y \<and> h = r 0) \<or> (t = x \<and> (\<exists>k. h = replicate k x @ y # r (Suc k)))"
proof
  assume "\<exists>k. t # h = replicate k x @ y # r k"
  then obtain k where "t # h = replicate k x @ y # r k" by blast
  then show "(t = y \<and> h = r 0) \<or> (t = x \<and> (\<exists>k. h = replicate k x @ y # r (Suc k)))" by (cases k) auto
next
  assume "(t = y \<and> h = r 0) \<or> (t = x \<and> (\<exists>k. h = replicate k x @ y # r (Suc k)))"
  then show "\<exists>k. t # h = replicate k x @ y # r k"
  proof (elim disjE conjE exE)
    assume "t = y" "h = r 0"
    then show ?thesis by (intro exI [of _ 0]) simp
  next
    fix k assume "t = x" "h = replicate k x @ y # r (Suc k)"
    then show ?thesis by (intro exI [of _ "Suc k"]) simp
  qed
qed

lemma head4_Cons: "head4 (t # h) \<longleftrightarrow> (t = tkTRIGGER \<and> h = []) \<or> (t = tkTEMP \<and> head4 h)"
  by (simp add: head4_def replicate_Cons_iff)

lemma head3_Cons: "head3 (t # h) \<longleftrightarrow> (t = tkCREATE \<and> head4 h) \<or> (t = tkOTHER \<and> head3 h)"
proof -
  have "head3 h = (\<exists>k n. h = replicate n tkOTHER @ tkCREATE # replicate k tkTEMP @ [tkTRIGGER])" for h
    unfolding head3_def by blast
  then show ?thesis by (auto simp: head4_def replicate_Cons_iff)
qed

lemma trigger_head_Cons: "trigger_head (t # h) \<longleftrightarrow> (t = tkCREATE \<and> head4 h) \<or> (t = tkEXPLAIN \<and> head3 h)"
  by (auto simp: trigger_head_def head4_def head3_def)

lemma heads_Nil: "\<not> head4 []" "\<not> head3 []" "\<not> trigger_head []"
  by (auto simp: head4_def head3_def trigger_head_def)


lemma trigger_body_Cons:
  "trigger_body (x # xs) \<longleftrightarrow>
     (if take 3 (x # xs) = [tkSEMI, tkEND, tkSEMI] then length xs = 2 else trigger_body xs)"
proof (cases "xs = []")
  case False
  have "prefix [tkSEMI, tkEND, tkSEMI] (x # butlast xs) \<longleftrightarrow> take 3 (x # xs) = [tkSEMI, tkEND, tkSEMI] \<and> length xs \<noteq> 2"
    by (cases xs; cases "tl xs"; cases "tl (tl xs)") (auto simp: prefix_Cons)
  moreover have "[tkSEMI, tkEND, tkSEMI] = x # xs \<longleftrightarrow> take 3 (x # xs) = [tkSEMI, tkEND, tkSEMI] \<and> length xs = 2"
    by (cases xs; cases "tl xs"; cases "tl (tl xs)") auto
  moreover have "length xs = 2 \<Longrightarrow> \<not> sublist [tkSEMI, tkEND, tkSEMI] (butlast xs)"
    using sublist_length_le by fastforce
  ultimately show ?thesis using False
    by (auto simp: trigger_body_def suffix_Cons sublist_Cons_right)
qed (auto simp: trigger_body_def suffix_def append_eq_Cons_conv)

lemma trigger_body_Nil: "\<not> trigger_body []"
  by (simp add: trigger_body_def)

lemma first_end_body:
  assumes "list_all (\<lambda>t. t < 8 \<and> t \<noteq> tkWS) r"
  shows "(first_end 5 r \<longleftrightarrow> trigger_body r) \<and> (first_end 6 r \<longleftrightarrow> trigger_body (tkSEMI # r))
    \<and> (first_end 7 r \<longleftrightarrow> trigger_body (tkSEMI # tkEND # r))"
  using assms
proof (induction r)
  case Nil
  then show ?case by (simp add: trigger_body_Cons trigger_body_Nil)
next
  case (Cons t r)
  have t: "t < 8" "t \<noteq> tkWS" using Cons.prems by auto
  have e: "tkSEMI \<noteq> tkEND" by (simp add: tks)
  then have f: "trigger_body (tkEND # r) = trigger_body r" by (simp add: trigger_body_Cons)
  note IH = Cons.IH
  have ih: "first_end 5 r \<longleftrightarrow> trigger_body r" "first_end 6 r \<longleftrightarrow> trigger_body (tkSEMI # r)"
    "first_end 7 r \<longleftrightarrow> trigger_body (tkSEMI # tkEND # r)"
    using IH Cons.prems by simp_all
  have "first_end 5 (t # r) \<longleftrightarrow> trigger_body (t # r)"
    using ih by (simp add: Let_def stmt_steps [OF t] trigger_body_Cons)
  moreover have "first_end 6 (t # r) \<longleftrightarrow> trigger_body (tkSEMI # t # r)"
    using ih e f by (simp add: Let_def stmt_steps [OF t] trigger_body_Cons [of tkSEMI] trigger_body_Cons [of t])
  moreover have "first_end 7 (t # r) \<longleftrightarrow> trigger_body (tkSEMI # tkEND # t # r)"
    using ih e f by (simp add: Let_def stmt_steps [OF t] trigger_body_Cons [of tkSEMI] trigger_body_Cons [of tkEND] trigger_body_Cons [of t])
  ultimately show ?case by simp
qed

lemma first_end_stmt:
  assumes "list_all (\<lambda>t. t < 8 \<and> t \<noteq> tkWS) r"
  shows "(first_end 2 r \<longleftrightarrow> stmt (\<lambda>h. False) r) \<and> (first_end 4 r \<longleftrightarrow> stmt head4 r) \<and> (first_end 3 r \<longleftrightarrow> stmt head3 r)
    \<and> (first_end 1 r \<longleftrightarrow> stmt trigger_head r)"
  using assms
proof (induction r)
  case Nil
  then show ?case by (simp add: stmt_Nil heads_Nil)
next
  case (Cons t r)
  have t: "t < 8" "t \<noteq> tkWS" using Cons.prems by auto
  have b: "first_end 5 r \<longleftrightarrow> stmt (\<lambda>h. h = []) r" using first_end_body Cons.prems by (simp add: stmt_body)
  have "tkSEMI \<notin> {tkTRIGGER, tkTEMP, tkCREATE, tkOTHER, tkEXPLAIN}" by (simp add: tks)
  then have n: "\<not> head4 (tkSEMI # h)" "\<not> head3 (tkSEMI # h)" "\<not> trigger_head (tkSEMI # h)" for h
    by (simp_all add: head4_Cons head3_Cons trigger_head_Cons)
  have ih: "first_end 2 r \<longleftrightarrow> stmt (\<lambda>h. False) r" "first_end 4 r \<longleftrightarrow> stmt head4 r" "first_end 3 r \<longleftrightarrow> stmt head3 r"
    using Cons by simp_all
  show ?case
  proof (cases "t = tkSEMI")
    case True
    then show ?thesis using n by (simp add: Let_def stmt_steps [OF t, unfolded True] stmt_semi heads_Nil)
  next
    case False
    then show ?thesis using ih b
      by (auto simp: Let_def stmt_steps [OF t] stmt_other heads_Nil head4_Cons head3_Cons trigger_head_Cons tks)
  qed
qed

lemma stmt_trigger_head: "stmt trigger_head s \<longleftrightarrow> trigger_statement s \<or> plain_statement s"
  by (auto simp: stmt_def trigger_statement_def plain_statement_def)


lemma foldl_start:
  assumes "list_all (\<lambda>t. t < 8 \<and> t \<noteq> tkWS) ts"
  shows "foldl stmt_step 0 ts = 1 \<longleftrightarrow> ts \<noteq> [] \<and> foldl stmt_step 1 ts = 1"
proof (cases ts)
  case (Cons t us)
  then have "stmt_step 0 t = stmt_step 1 t" using assms by (auto simp: small8 stmt_step_def trans_def tks)
  then show ?thesis using Cons by simp
qed simp

lemma concat_first_end:
  assumes "list_all (\<lambda>t. t < 8 \<and> t \<noteq> tkWS) (concat ss)"
  shows "list_all (first_end 1) ss \<longleftrightarrow> list_all (\<lambda>s. trigger_statement s \<or> plain_statement s) ss"
  using assms
proof (induction ss)
  case (Cons s ss)
  have "first_end 1 s \<longleftrightarrow> trigger_statement s \<or> plain_statement s"
    using first_end_stmt [of s] Cons.prems by (simp add: stmt_trigger_head del: One_nat_def)
  then show ?case using Cons by (simp del: One_nat_def)
qed simp

lemma first_end_sequence:
  "ts \<noteq> [] \<and> foldl stmt_step 1 ts = 1 \<longleftrightarrow> (\<exists>ss. ss \<noteq> [] \<and> ts = concat ss \<and> list_all (first_end 1) ss)"
proof -
  have "concat ss \<noteq> []" if "ss \<noteq> []" "list_all (first_end 1) ss" for ss
    using that by (cases ss; cases "hd ss") auto
  moreover have "ss \<noteq> []" if "concat ss \<noteq> []" for ss :: "nat list list" using that by auto
  ultimately show ?thesis unfolding first_end_concat by metis
qed

text \<open>
  C33. A text is complete exactly when every comment, string and quoted name in it is closed and
  its tokens, white space left out, are a sequence of one or more statements: a plain statement
  runs to its first semicolon, one that begins with the head of a trigger runs to its first
  \<open>; END ;\<close>.
\<close>

theorem complete_iff_statements:
  "sqlite3_complete z \<longleftrightarrow> (\<exists>ts ss. complete_tokens z = Some ts \<and> ss \<noteq> []
     \<and> filter (\<lambda>t. t \<noteq> tkWS) ts = concat ss \<and> list_all (\<lambda>s. trigger_statement s \<or> plain_statement s) ss)"
proof -
  have "foldl (\<lambda>s t. trans ! s ! t) 0 ts = 1 \<longleftrightarrow>
      (\<exists>ss. ss \<noteq> [] \<and> filter (\<lambda>t. t \<noteq> tkWS) ts = concat ss \<and> list_all (\<lambda>s. trigger_statement s \<or> plain_statement s) ss)"
    if "complete_tokens z = Some ts" for ts
  proof -
    let ?us = "filter (\<lambda>t. t \<noteq> tkWS) ts"
    have small: "list_all (\<lambda>t. t < 8) ts" using complete_tokens_small that by blast
    then have us: "list_all (\<lambda>t. t < 8 \<and> t \<noteq> tkWS) ?us" by (auto simp: list_all_iff)
    have "foldl (\<lambda>s t. trans ! s ! t) 0 ts = foldl stmt_step 0 ts"
      by (simp add: stmt_step_def [abs_def])
    then have "foldl (\<lambda>s t. trans ! s ! t) 0 ts = 1 \<longleftrightarrow> ?us \<noteq> [] \<and> foldl stmt_step 1 ?us = 1"
      using foldl_white [OF _ small, of 0] foldl_start [OF us] by simp
    also have "\<dots> \<longleftrightarrow> (\<exists>ss. ss \<noteq> [] \<and> ?us = concat ss \<and> list_all (first_end 1) ss)"
      by (rule first_end_sequence)
    also have "\<dots> \<longleftrightarrow> (\<exists>ss. ss \<noteq> [] \<and> ?us = concat ss \<and> list_all (\<lambda>s. trigger_statement s \<or> plain_statement s) ss)"
      using us concat_first_end by metis
    finally show ?thesis .
  qed
  then show ?thesis unfolding sqlite3_complete_def complete_loop_tokens by blast
qed

text \<open>\<open>create trigger a;end\<close> is not complete, \<open>create trigger a;end;\<close> is.\<close>

lemma complete_trigger:
  "\<not> sqlite3_complete [99, 114, 101, 97, 116, 101, 32, 116, 114, 105, 103, 103, 101, 114, 32, 97, 59, 101, 110, 100]"
  "sqlite3_complete [99, 114, 101, 97, 116, 101, 32, 116, 114, 105, 103, 103, 101, 114, 32, 97, 59, 101, 110, 100, 59]"
  by code_simp+

end
