(* ===== verification/Like.thy ===== *)
theory Like
  imports Utf
begin

text \<open>
  The pattern matcher behind \<open>LIKE\<close>, \<open>GLOB\<close>, \<open>sqlite3_strlike\<close> and \<open>sqlite3_strglob\<close>
  (\<open>func.c\<close>). A pattern or a string is a zero-terminated text, the list of its bytes; a pointer into it is
  the list of the remaining bytes. The specification reads the pattern as a list of items over
  characters and says with an inductive relation what they match.
\<close>

unbundle bit_operations_syntax

subsection \<open>The matcher\<close>

record compareInfo =
  matchAll :: u8
  matchOne :: u8
  matchSet :: u8
  noCase :: bool

definition globInfo :: compareInfo where
  "globInfo = \<lparr>matchAll = 42, matchOne = 63, matchSet = 91, noCase = False\<rparr>"

definition likeInfoNorm :: compareInfo where
  "likeInfoNorm = \<lparr>matchAll = 37, matchOne = 95, matchSet = 0, noCase = True\<rparr>"

definition likeInfoAlt :: compareInfo where
  "likeInfoAlt = \<lparr>matchAll = 37, matchOne = 95, matchSet = 0, noCase = False\<rparr>"

definition SQLITE_MATCH :: nat where "SQLITE_MATCH = 0"
definition SQLITE_NOMATCH :: nat where "SQLITE_NOMATCH = 1"
definition SQLITE_NOWILDCARDMATCH :: nat where "SQLITE_NOWILDCARDMATCH = 2"

lemmas match_codes = SQLITE_MATCH_def SQLITE_NOMATCH_def SQLITE_NOWILDCARDMATCH_def

text \<open>\<open>sqlite3Utf8Read\<close> reads up to the terminator, where \<open>READ_UTF8\<close> reads up to the end.\<close>

definition sqlite3Utf8Read :: "u8 list \<Rightarrow> u32 \<times> u8 list" where
  "sqlite3Utf8Read z = READ_UTF8 z"

lemma read_shorter: "z \<noteq> [] \<Longrightarrow> length (snd (sqlite3Utf8Read z)) < length z"
  by (simp add: sqlite3Utf8Read_def READ_UTF8_length)

lemma read_Nil [simp]: "sqlite3Utf8Read [] = (0, [])"
  by (simp add: sqlite3Utf8Read_def READ_UTF8_def)

lemma read_le: "length (snd (sqlite3Utf8Read z)) \<le> length z"
  using read_shorter [of z] by (cases "z = []") auto

lemma read_shorter_eq: "(c, y) = sqlite3Utf8Read z \<Longrightarrow> z \<noteq> [] \<Longrightarrow> length y < length z"
  using read_shorter [of z] by (metis snd_conv)

lemma read_shorter_char: "(c, y) = sqlite3Utf8Read z \<Longrightarrow> c \<noteq> 0 \<Longrightarrow> length y < length z"
  using read_shorter_eq [of c y z] by (cases "z = []") auto

lemma read_le_eq: "(c, y) = sqlite3Utf8Read z \<Longrightarrow> length y \<le> length z"
  using read_le [of z] by (metis snd_conv)

lemma one_read: "(c, y) = sqlite3Utf8Read z \<Longrightarrow> length y + (if c = 0 then 0 else 1) < length z + 1"
  using read_shorter_eq [of c y z] by (cases "z = []") auto

lemma two_reads:
  "(c, y) = sqlite3Utf8Read z \<Longrightarrow> chd z \<noteq> 0 \<Longrightarrow> (d, x) = sqlite3Utf8Read y \<Longrightarrow> length x + (if d = 0 then 0 else 1) < length z + 1"
  using one_read [of d x y] read_shorter_eq [of c y z] by (cases "z = []") auto

text \<open>
  The loop behind a \<open>*\<close>: skip further wildcards, taking one character of the string for each \<open>?\<close>;
  the early return is \<open>None\<close>. The result has the first other character, the pattern behind it and the pattern
  at it (\<open>&zPattern[-1]\<close>, used for the one-byte character \<open>[\<close>). The loop is only entered with \<open>matchAll\<close>
  not zero, so that the terminator ends it.
\<close>

function star_skip :: "u32 \<Rightarrow> u32 \<Rightarrow> u8 list \<Rightarrow> u8 list \<Rightarrow> (u32 \<times> u8 list \<times> u8 list \<times> u8 list) option" where
  "star_skip all one zPattern zString =
     (if zPattern = [] then Some (0, [], [], zString)
      else case sqlite3Utf8Read zPattern of (c, zP) \<Rightarrow>
        if c = all \<or> c = one \<and> one \<noteq> 0 then
          if c = one then
            (case sqlite3Utf8Read zString of (d, zS) \<Rightarrow> if d = 0 then None else star_skip all one zP zS)
          else star_skip all one zP zString
        else Some (c, zP, zPattern, zString))"
  by pat_completeness auto
termination
  by (relation "measure (\<lambda>(a, b, p, s). length p)") (auto dest: read_shorter_eq)

declare star_skip.simps [simp del]

text \<open>The three searches for a place where the rest of the pattern, \<open>f\<close>, may match.\<close>

function set_search :: "(u8 list \<Rightarrow> nat) \<Rightarrow> u8 list \<Rightarrow> nat" where
  "set_search f zString =
     (if chd zString = 0 then SQLITE_NOWILDCARDMATCH
      else let bMatch = f zString in
        if bMatch \<noteq> SQLITE_NOMATCH then bMatch else set_search f (SQLITE_SKIP_UTF8 zString))"
  by pat_completeness auto
termination
proof (relation "measure (\<lambda>(f, z). length z)")
  fix z :: "u8 list" and f :: "u8 list \<Rightarrow> nat" and b
  assume "chd z \<noteq> 0"
  then show "((f, SQLITE_SKIP_UTF8 z), f, z) \<in> measure (\<lambda>(f, z). length z)"
    using skip_continuation_length by (cases z) (auto simp: SQLITE_SKIP_UTF8_def less_Suc_eq_le)
qed simp

declare set_search.simps [simp del]

function byte_search :: "u8 list \<Rightarrow> (u8 list \<Rightarrow> nat) \<Rightarrow> u8 list \<Rightarrow> nat" where
  "byte_search zStop f zString =
     (let z = dropWhile (\<lambda>d. d \<noteq> 0 \<and> d \<notin> set zStop) zString in
      if chd z = 0 then SQLITE_NOWILDCARDMATCH
      else let bMatch = f (tl z) in
        if bMatch \<noteq> SQLITE_NOMATCH then bMatch else byte_search zStop f (tl z))"
  by pat_completeness auto
termination
proof (relation "measure (\<lambda>(p, f, z). length z)")
  fix p z x :: "u8 list" and f :: "u8 list \<Rightarrow> nat" and b
  assume x: "x = dropWhile (\<lambda>d. d \<noteq> 0 \<and> d \<notin> set p) z" "chd x \<noteq> 0"
  have "x \<noteq> []" using x(2) by auto
  moreover have "length x \<le> length z" unfolding x(1) by (rule length_dropWhile_le)
  ultimately show "((p, f, tl x), p, f, z) \<in> measure (\<lambda>(p, f, z). length z)" by (cases x) auto
qed simp

declare byte_search.simps [simp del]

function char_search :: "u32 \<Rightarrow> (u8 list \<Rightarrow> nat) \<Rightarrow> u8 list \<Rightarrow> nat" where
  "char_search c f zString =
     (case sqlite3Utf8Read zString of (c2, z) \<Rightarrow>
        if c2 = 0 then SQLITE_NOWILDCARDMATCH
        else if c2 \<noteq> c then char_search c f z
        else let bMatch = f z in
          if bMatch \<noteq> SQLITE_NOMATCH then bMatch else char_search c f z)"
  by pat_completeness auto
termination
  by (relation "measure (\<lambda>(c, f, z). length z)") (auto dest: read_shorter_char)

declare char_search.simps [simp del]

text \<open>The loop over a bracket expression; \<open>c\<close> is the character of the string.\<close>

function set_loop :: "u32 \<Rightarrow> u32 \<Rightarrow> bool \<Rightarrow> u32 \<Rightarrow> u8 list \<Rightarrow> u32 \<times> bool \<times> u8 list" where
  "set_loop c prior_c seen c2 zPattern =
     (if c2 \<noteq> 0 \<and> c2 \<noteq> 93 then
        if c2 = 45 \<and> chd zPattern \<noteq> 93 \<and> chd zPattern \<noteq> 0 \<and> prior_c > 0 then
          case sqlite3Utf8Read zPattern of (c2, zP) \<Rightarrow>
            case sqlite3Utf8Read zP of (c3, zP') \<Rightarrow>
              set_loop c 0 (seen \<or> c \<ge> prior_c \<and> c \<le> c2) c3 zP'
        else
          case sqlite3Utf8Read zPattern of (c3, zP) \<Rightarrow>
            set_loop c c2 (seen \<or> c = c2) c3 zP
      else (c2, seen, zPattern))"
  by pat_completeness auto
termination
proof (relation "measure (\<lambda>(c, q, s, c2, z). length z + (if c2 = 0 then 0 else 1))", goal_cases)
  case 1
  show ?case by simp
next
  case 2
  from two_reads [OF 2(3) _ 2(4)] 2(1,2) show ?case by simp
next
  case 3
  from one_read [OF 3(3)] 3(1) show ?case by simp
qed

declare set_loop.simps [simp del]

definition match_set :: "u8 list \<Rightarrow> u8 list \<Rightarrow> (u8 list \<times> u8 list) option" where
  "match_set zPattern zString =
     (case sqlite3Utf8Read zString of (c, zS) \<Rightarrow>
        if c = 0 then None
        else case sqlite3Utf8Read zPattern of (c2, zP) \<Rightarrow>
          let invert = (c2 = 94);
              (c2, zP) = (if invert then sqlite3Utf8Read zP else (c2, zP));
              seen = (c2 = 93 \<and> c = 93);
              (c2, zP) = (if c2 = 93 then sqlite3Utf8Read zP else (c2, zP));
              (c2, seen, zP) = set_loop c 0 seen c2 zP
          in if c2 = 0 \<or> seen = invert then None else Some (zP, zS))"

lemma search_congs [fundef_cong]:
  "z = z' \<Longrightarrow> (\<And>x. f x = g x) \<Longrightarrow> set_search f z = set_search g z'"
  "p = p' \<Longrightarrow> z = z' \<Longrightarrow> (\<And>x. f x = g x) \<Longrightarrow> byte_search p f z = byte_search p' g z'"
  "c = c' \<Longrightarrow> z = z' \<Longrightarrow> (\<And>x. f x = g x) \<Longrightarrow> char_search c f z = char_search c' g z'"
  by presburger+


lemma star_skip_step:
  assumes "sqlite3Utf8Read zP = (c, z)" "zP \<noteq> []"
  shows "star_skip all one zP zS =
     (if c = all \<or> c = one \<and> one \<noteq> 0 then
        if c = one then
          (case sqlite3Utf8Read zS of (d, zS) \<Rightarrow> if d = 0 then None else star_skip all one z zS)
        else star_skip all one z zS
      else Some (c, z, zP, zS))"
  using assms by (subst star_skip.simps) simp

lemma star_skip_shorter: "star_skip all one zP zS = Some (c, zP', zAt, zS') \<Longrightarrow> length zP' \<le> length zAt \<and> length zAt \<le> length zP"
proof (induction "length zP" arbitrary: zP zS rule: less_induct)
  case less
  show ?case
  proof (cases "zP = []")
    case False
    obtain d z where r: "sqlite3Utf8Read zP = (d, z)" by (metis prod.exhaust)
    obtain e y where q: "sqlite3Utf8Read zS = (e, y)" by (metis prod.exhaust)
    have l: "length z < length zP" using read_shorter [OF False] r by simp
    have "\<exists>zS. star_skip all one z zS = Some (c, zP', zAt, zS') \<or> zP' = z \<and> zAt = zP"
      using less(2) by (auto simp: star_skip_step [OF r False] q split: if_splits)
    then show ?thesis using less(1) [OF l] l by (meson less_imp_le_nat order_refl order_trans)
  qed (use less(2) in \<open>simp add: star_skip.simps\<close>)
qed

lemma set_loop_shorter: "set_loop c q s c2 zP = (c3, s', zP') \<Longrightarrow> length zP' \<le> length zP"
proof (induction "length zP + (if c2 = 0 then 0 else 1)" arbitrary: q s c2 zP rule: less_induct)
  case less
  obtain d z where r: "sqlite3Utf8Read zP = (d, z)" by (metis prod.exhaust)
  obtain e y where q: "sqlite3Utf8Read z = (e, y)" by (metis prod.exhaust)
  have l: "length z \<le> length zP" "length y \<le> length z" using read_le [of zP] read_le [of z] r q by auto
  have m: "length z + (if d = 0 then 0 else 1) < length zP + 1"
    "chd zP \<noteq> 0 \<Longrightarrow> length y + (if e = 0 then 0 else 1) < length zP + 1"
    using one_read [OF r [symmetric]] two_reads [OF r [symmetric] _ q [symmetric]] by auto
  consider "c2 = 0 \<or> c2 = 93" | "c2 \<noteq> 0" "c2 \<noteq> 93" "c2 = 45 \<and> chd zP \<noteq> 93 \<and> chd zP \<noteq> 0 \<and> q > 0"
    | "c2 \<noteq> 0" "c2 \<noteq> 93" "\<not> (c2 = 45 \<and> chd zP \<noteq> 93 \<and> chd zP \<noteq> 0 \<and> q > 0)" by blast
  then show ?case
  proof cases
    case 1
    then show ?thesis using less(2) by (subst (asm) set_loop.simps) auto
  next
    case 2
    then have "set_loop c 0 (s \<or> c \<ge> q \<and> c \<le> d) e y = (c3, s', zP')"
      using less(2) r q by (subst (asm) set_loop.simps) simp
    then have "length zP' \<le> length y" using less(1) m(2) 2 by simp
    then show ?thesis using l by simp
  next
    case 3
    then have "set_loop c c2 (s \<or> c = c2) d z = (c3, s', zP')"
      using less(2) r by (subst (asm) set_loop.simps) (simp only: if_False if_True split_conv simp_thms)
    then have "length zP' \<le> length z" using less(1) m(1) 3 by simp
    then show ?thesis using l by simp
  qed
qed

lemma match_set_shorter: "match_set zP zS = Some (zP', zS') \<Longrightarrow> length zP' \<le> length zP"
  by (force simp: match_set_def Let_def split: prod.splits if_splits dest!: read_le_eq [OF sym] set_loop_shorter)

lemma read_either_shorter: "(c', y) = (if b then sqlite3Utf8Read z else (c, z)) \<Longrightarrow> length y \<le> length z"
  by (auto split: if_splits dest: read_le_eq)

lemma read_escaped_shorter:
  "(c', y) = (if b then (case sqlite3Utf8Read z of (c, z) \<Rightarrow> (c, z, Some (length z))) else (c, z, e)) \<Longrightarrow> length (fst y) \<le> length z"
  by (auto split: if_splits prod.splits dest: read_le_eq [OF sym])

text \<open>
  The matcher: \<open>zEscaped\<close> is the place in the pattern behind the last escaped character, given by what
  is left of the pattern there. The pattern gets shorter with every round and every recursive call.
\<close>

function patternCompare :: "compareInfo \<Rightarrow> u32 \<Rightarrow> nat option \<Rightarrow> u8 list \<Rightarrow> u8 list \<Rightarrow> nat" where
  "patternCompare pInfo matchOther zEscaped zPattern zString =
     (case sqlite3Utf8Read zPattern of (c, zP) \<Rightarrow>
      if c = 0 then (if chd zString = 0 then SQLITE_MATCH else SQLITE_NOMATCH)
      else if c = ucast (matchAll pInfo) then
        (case star_skip (ucast (matchAll pInfo)) (ucast (matchOne pInfo)) zP zString of
           None \<Rightarrow> SQLITE_NOWILDCARDMATCH
         | Some (c, zP', zAt, zS) \<Rightarrow>
             if c = 0 then SQLITE_MATCH
             else if c = matchOther \<and> matchSet pInfo \<noteq> 0 then
               set_search (\<lambda>z. patternCompare pInfo matchOther None zAt z) zS
             else
               (case (if c = matchOther then sqlite3Utf8Read zP' else (c, zP')) of (c, zP'') \<Rightarrow>
                  if c = 0 then SQLITE_NOWILDCARDMATCH
                  else if c < 0x80 then
                    byte_search
                      (if noCase pInfo then [sqlite3Toupper (ucast c), sqlite3Tolower (ucast c)] else [ucast c])
                      (\<lambda>z. patternCompare pInfo matchOther None zP'' z) zS
                  else char_search c (\<lambda>z. patternCompare pInfo matchOther None zP'' z) zS))
      else if c = matchOther \<and> matchSet pInfo \<noteq> 0 then
        (case match_set zP zString of
           None \<Rightarrow> SQLITE_NOMATCH
         | Some (zP', zS) \<Rightarrow> patternCompare pInfo matchOther zEscaped zP' zS)
      else
        (case (if c = matchOther then (case sqlite3Utf8Read zP of (c, zP) \<Rightarrow> (c, zP, Some (length zP)))
               else (c, zP, zEscaped)) of (c, zP', zEscaped) \<Rightarrow>
         if c = 0 then SQLITE_NOMATCH
         else case sqlite3Utf8Read zString of (c2, zS) \<Rightarrow>
           if c = c2 then patternCompare pInfo matchOther zEscaped zP' zS
           else if noCase pInfo \<and> sqlite3Tolower (ucast c) = sqlite3Tolower (ucast c2) \<and> c < 0x80 \<and> c2 < 0x80 then
             patternCompare pInfo matchOther zEscaped zP' zS
           else if c = ucast (matchOne pInfo) \<and> Some (length zP') \<noteq> zEscaped \<and> c2 \<noteq> 0 then
             patternCompare pInfo matchOther zEscaped zP' zS
           else SQLITE_NOMATCH))"
  by pat_completeness auto
termination
  by (relation "measure (\<lambda>(i, m, e, zP, zS). length zP)")
    (auto dest!: read_shorter_char star_skip_shorter match_set_shorter read_either_shorter read_escaped_shorter)

declare patternCompare.simps [simp del]

definition sqlite3_strglob :: "u8 list option \<Rightarrow> u8 list option \<Rightarrow> nat" where
  "sqlite3_strglob zGlobPattern zString =
     (case zString of
        None \<Rightarrow> (if zGlobPattern \<noteq> None then 1 else 0)
      | Some s \<Rightarrow> (case zGlobPattern of None \<Rightarrow> 1 | Some p \<Rightarrow> patternCompare globInfo 91 None p s))"

definition sqlite3_strlike :: "u8 list option \<Rightarrow> u8 list option \<Rightarrow> u32 \<Rightarrow> nat" where
  "sqlite3_strlike zPattern zStr esc =
     (case zStr of
        None \<Rightarrow> (if zPattern \<noteq> None then 1 else 0)
      | Some s \<Rightarrow> (case zPattern of None \<Rightarrow> 1 | Some p \<Rightarrow> patternCompare likeInfoNorm esc None p s))"

text \<open>
  The SQL function: \<open>limit\<close> is the connection's limit on pattern lengths, \<open>nPat\<close> the size of the first
  argument in bytes, \<open>argv0\<close> and \<open>argv1\<close> the two arguments as text (\<open>None\<close> for \<open>NULL\<close>) and \<open>esc\<close> the third one,
  if there is one. No result means the SQL value \<open>NULL\<close>.
\<close>

datatype like_result = Too_Complex | Bad_Escape | No_Result | Result bool

definition likeFunc ::
  "compareInfo \<Rightarrow> int \<Rightarrow> int \<Rightarrow> u8 list option \<Rightarrow> u8 list option \<Rightarrow> u8 list option option \<Rightarrow> like_result" where
  "likeFunc pInfo limit nPat argv0 argv1 esc =
     (if nPat > limit then Too_Complex
      else
        let compare = (\<lambda>pInfo escape.
          case argv1 of
            Some zA \<Rightarrow>
              (case argv0 of
                 Some zB \<Rightarrow> Result (patternCompare pInfo escape None zB zA = SQLITE_MATCH)
               | None \<Rightarrow> No_Result)
          | None \<Rightarrow> No_Result)
        in case esc of
          None \<Rightarrow> compare pInfo (ucast (matchSet pInfo))
        | Some None \<Rightarrow> No_Result
        | Some (Some zEsc) \<Rightarrow>
            if sqlite3Utf8CharLen zEsc \<noteq> 1 then Bad_Escape
            else
              let escape = fst (sqlite3Utf8Read zEsc);
                  pInfo' = (if escape = ucast (matchAll pInfo) \<or> escape = ucast (matchOne pInfo) then
                    let p = (if escape = ucast (matchAll pInfo) then pInfo\<lparr>matchAll := 0\<rparr> else pInfo)
                    in if escape = ucast (matchOne p) then p\<lparr>matchOne := 0\<rparr> else p
                    else pInfo)
              in compare pInfo' escape)"

text \<open>\<open>a%b_\<close> against \<open>aXxB\<dots>\<close>, \<open>[a-c]*\<close> against \<open>bz\<close>, and an escaped wildcard.\<close>

lemma like_examples:
  "sqlite3_strlike (Some [97, 37, 98, 95]) (Some [97, 88, 120, 66, 195, 169]) 0 = 0"
  "sqlite3_strglob (Some [91, 97, 45, 99, 93, 42]) (Some [98, 122]) = 0"
  "sqlite3_strlike (Some [37, 92, 95, 97]) (Some [120, 121, 97]) 92 \<noteq> 0"
  by code_simp+

subsection \<open>What a pattern means\<close>

datatype item = Any | One | Lit u32 | Set bool "(u32 \<times> u32) list" | Bad

text \<open>The ranges of a bracket expression up to its closing bracket, and the pattern behind it.\<close>

fun set_items :: "u32 \<Rightarrow> u32 list \<Rightarrow> ((u32 \<times> u32) list \<times> u32 list) option" where
  "set_items prior [] = None"
| "set_items prior [c] = (if c = 93 then Some ([], []) else None)"
| "set_items prior (c # d # p) =
     (if c = 93 then Some ([], d # p)
      else if c = 45 \<and> d \<noteq> 93 \<and> prior > 0 then map_option (apfst (Cons (prior, d))) (set_items 0 p)
      else map_option (apfst (Cons (c, c))) (set_items c (d # p)))"

definition bracket :: "u32 list \<Rightarrow> (bool \<times> (u32 \<times> u32) list \<times> u32 list) option" where
  "bracket p =
     (let (invert, p) = (case p of c # q \<Rightarrow> if c = 94 then (True, q) else (False, p) | [] \<Rightarrow> (False, p));
          (rs, p) = (case p of c # q \<Rightarrow> if c = 93 then ([(93, 93)], q) else ([], p) | [] \<Rightarrow> ([], p))
      in map_option (\<lambda>(rs', q). (invert, rs @ rs', q)) (set_items 0 p))"

lemma set_items_shorter: "set_items c p = Some (rs, q) \<Longrightarrow> length q < length p"
  by (induction c p arbitrary: rs q rule: set_items.induct) (force split: if_splits)+

lemma bracket_shorter: "bracket p = Some (b, rs, q) \<Longrightarrow> length q < length p"
  by (fastforce simp: bracket_def Let_def split: list.splits if_splits dest: set_items_shorter)

text \<open>The items of a pattern; a pattern that breaks off inside a bracket or an escape matches nothing.\<close>

function items :: "compareInfo \<Rightarrow> u32 \<Rightarrow> u32 list \<Rightarrow> item list" where
  "items i other [] = []"
| "items i other (c # p) =
     (if c = ucast (matchAll i) then Any # items i other p
      else if c = other then
        if matchSet i \<noteq> 0 then
          (case bracket p of None \<Rightarrow> [Bad] | Some (neg, rs, q) \<Rightarrow> Set neg rs # items i other q)
        else (case p of [] \<Rightarrow> [Bad] | d # q \<Rightarrow> Lit d # items i other q)
      else if c = ucast (matchOne i) then One # items i other p
      else Lit c # items i other p)"
  by pat_completeness auto
termination
  by (relation "measure (\<lambda>(i, m, p). length p)") (auto dest: bracket_shorter)

declare items.simps(2) [simp del]

definition same_char :: "bool \<Rightarrow> u32 \<Rightarrow> u32 \<Rightarrow> bool" where
  "same_char nocase c x \<longleftrightarrow>
     c = x \<or> nocase \<and> c < 0x80 \<and> x < 0x80 \<and> UpperToLower (ucast c) = UpperToLower (ucast x)"

definition in_ranges :: "(u32 \<times> u32) list \<Rightarrow> u32 \<Rightarrow> bool" where
  "in_ranges rs x \<longleftrightarrow> list_ex (\<lambda>(lo, hi). lo \<le> x \<and> x \<le> hi) rs"

inductive matches :: "bool \<Rightarrow> item list \<Rightarrow> u32 list \<Rightarrow> bool" for nocase where
  empty: "matches nocase [] []"
| any: "matches nocase ps v \<Longrightarrow> matches nocase (Any # ps) (u @ v)"
| one: "matches nocase ps v \<Longrightarrow> matches nocase (One # ps) (x # v)"
| lit: "same_char nocase c x \<Longrightarrow> matches nocase ps v \<Longrightarrow> matches nocase (Lit c # ps) (x # v)"
| in_set: "in_ranges rs x \<noteq> neg \<Longrightarrow> matches nocase ps v \<Longrightarrow> matches nocase (Set neg rs # ps) (x # v)"

inductive_simps matches_simps:
  "matches nocase [] s" "matches nocase (One # ps) s" "matches nocase (Lit c # ps) s"
  "matches nocase (Set neg rs # ps) s" "matches nocase (Bad # ps) s"

inductive_simps matches_Any: "matches nocase (Any # ps) s"

text \<open>The characters of a text.\<close>

function chars :: "u8 list \<Rightarrow> u32 list" where
  "chars z = (if z = [] then [] else case sqlite3Utf8Read z of (c, y) \<Rightarrow> c # chars y)"
  by pat_completeness auto
termination
  by (relation "measure length") (auto dest: read_shorter_eq)

declare chars.simps [simp del]

subsection \<open>Characters and bytes\<close>

lemma chars_Nil [simp]: "chars [] = []"
  by (simp add: chars.simps)

lemma chars_read: "sqlite3Utf8Read z = (c, y) \<Longrightarrow> z \<noteq> [] \<Longrightarrow> chars z = c # chars y"
  by (subst chars.simps) simp

lemma chars_Nil_iff: "chars z = [] \<longleftrightarrow> z = []"
  by (subst chars.simps) (auto split: prod.splits)

lemma continuation_suffix:
  "\<exists>w. z = w @ snd (utf8_continuation c z) \<and> (\<forall>b\<in>set w. 0x80 \<le> b) \<and> snd (utf8_continuation c z) = skip_continuation z"
proof (induction c z rule: utf8_continuation.induct)
  case (2 c b z)
  show ?case
  proof (cases "b AND 0xc0 = 0x80")
    case True
    then have "0x80 \<le> b" by (metis word_and_le2 word_and_le1 and.commute)
    moreover obtain w where "z = w @ snd (utf8_continuation (push_bit 6 c + ucast (0x3f AND b)) z)" "\<forall>b\<in>set w. 0x80 \<le> b"
      "snd (utf8_continuation (push_bit 6 c + ucast (0x3f AND b)) z) = skip_continuation z"
      using 2 True by blast
    ultimately show ?thesis using True by (intro exI [of _ "b # w"]) simp
  qed simp
qed simp

lemma unat_wide: "unat (ucast (b :: u8) :: u32) = unat b"
  unfolding ucast_u8_u32 by (rule unat_of_small) (rule less_trans [OF unsigned_less], simp)

lemma wide_eq: "(ucast b :: u32) = ucast (k :: u8) \<longleftrightarrow> b = k"
  by (metis unat_wide word_unat_eq_iff)

text \<open>Reading a character: an ASCII byte is itself, everything else is at least 0x80 throughout.\<close>

lemma read_cases:
  assumes "z \<noteq> []" "0 \<notin> set z"
  obtains (ascii) b y where "z = b # y" "b \<noteq> 0" "b < 0x80" "sqlite3Utf8Read z = (ucast b, y)"
    | (wide) c w y where "z = w @ y" "w \<noteq> []" "\<forall>b\<in>set w. 0x80 \<le> b" "sqlite3Utf8Read z = (c, y)" "0x80 \<le> c"
proof -
  obtain b y where z: "z = b # y" using assms(1) by (cases z) auto
  then have b: "b \<noteq> 0" using assms(2) by auto
  show thesis
  proof (cases "b < 0x80")
    case True
    then have "\<not> 0xc0 \<le> b" by (simp add: word_less_nat_alt word_le_nat_alt)
    then show thesis using z b True ascii by (simp add: sqlite3Utf8Read_def READ_UTF8_def)
  next
    case False
    obtain w where w: "y = w @ snd (utf8_continuation (ucast (sqlite3Utf8Trans1 ! unat (b - 0xc0))) y)" "\<forall>b\<in>set w. 0x80 \<le> b"
      using continuation_suffix by blast
    have u: "0x80 \<le> (ucast b :: u32)" using False by (simp add: word_le_nat_alt word_less_nat_alt unat_wide)
    show thesis
    proof (cases "0xc0 \<le> b")
      case True
      have "\<exists>c. sqlite3Utf8Read z = (c, snd (utf8_continuation (ucast (sqlite3Utf8Trans1 ! unat (b - 0xc0))) y)) \<and> 0x80 \<le> c"
        using True z by (auto simp: sqlite3Utf8Read_def READ_UTF8_def Let_def split: prod.splits)
      then show thesis using w False z wide [of "b # w"] by (auto simp: not_less)
    next
      case f: False
      then show thesis using False z u wide [of "[b]" y] by (simp add: sqlite3Utf8Read_def READ_UTF8_def not_less)
    qed
  qed
qed


lemma read_char:
  assumes "z \<noteq> []" "0 \<notin> set z"
  shows "\<exists>c y. sqlite3Utf8Read z = (c, y) \<and> c \<noteq> 0 \<and> 0 \<notin> set y \<and> chars z = c # chars y \<and> length y < length z"
proof (rule read_cases [OF assms])
  fix b y assume a: "z = b # y" "b \<noteq> 0" "b < 0x80" "sqlite3Utf8Read z = (ucast b, y)"
  have "(ucast b :: u32) \<noteq> 0" using wide_eq [of b 0] a(2) by simp
  then show ?thesis using a assms chars_read [OF a(4) assms(1)] by auto
next
  fix c w y assume a: "z = w @ y" "w \<noteq> []" "\<forall>b\<in>set w. 0x80 \<le> b" "sqlite3Utf8Read z = (c, y)" "0x80 \<le> c"
  then have "c \<noteq> 0" by (auto simp: word_le_nat_alt)
  then show ?thesis using a assms chars_read [OF a(4) assms(1)] by auto
qed

lemma chd_char:
  assumes "0 \<notin> set z" "chars z = c # p" "k < 0x80"
  shows "chd z = k \<longleftrightarrow> c = ucast k"
proof -
  have "z \<noteq> []" using assms(2) by auto
  then show ?thesis
  proof (rule read_cases [OF _ assms(1)])
    fix b y assume a: "z = b # y" "sqlite3Utf8Read z = (ucast b, y)"
    then have "c = ucast b" using chars_read [OF a(2)] assms(2) by simp
    then show ?thesis using a wide_eq by auto
  next
    fix d w y assume a: "z = w @ y" "w \<noteq> []" "\<forall>b\<in>set w. 0x80 \<le> b" "sqlite3Utf8Read z = (d, y)" "0x80 \<le> d"
    then have "c = d" "0x80 \<le> chd z" using chars_read [OF a(4)] assms(2) \<open>z \<noteq> []\<close> by (cases w; auto)+
    then show ?thesis using a(5) assms(3) by (auto simp: word_le_nat_alt word_less_nat_alt unat_wide)
  qed
qed

lemma skip_read: "z \<noteq> [] \<Longrightarrow> SQLITE_SKIP_UTF8 z = snd (sqlite3Utf8Read z)"
proof (cases z)
  case (Cons b y)
  have "snd (utf8_continuation c y) = skip_continuation y" for c
    using continuation_suffix [of y c] by blast
  then show ?thesis using Cons
    by (auto simp: SQLITE_SKIP_UTF8_def sqlite3Utf8Read_def READ_UTF8_def Let_def split: prod.splits) (metis snd_conv)+
qed simp

subsection \<open>Matching behind a star\<close>

lemma any_Nil: "matches nc (Any # ps) [] \<longleftrightarrow> matches nc ps []"
  by (simp add: matches_Any)

lemma any_Cons: "matches nc (Any # ps) (x # s) \<longleftrightarrow> matches nc ps (x # s) \<or> matches nc (Any # ps) s"
proof -
  have "(\<exists>u v. x # s = u @ v \<and> matches nc ps v) \<longleftrightarrow> matches nc ps (x # s) \<or> (\<exists>u v. s = u @ v \<and> matches nc ps v)"
    by (auto simp: Cons_eq_append_conv)
  then show ?thesis by (auto simp: matches_Any)
qed

lemma any_self: "matches nc ps s \<Longrightarrow> matches nc (Any # ps) s"
  using matches.any [of nc ps s "[]"] by simp

lemma any_any: "matches nc (Any # Any # ps) s \<longleftrightarrow> matches nc (Any # ps) s"
  by (induction s) (auto simp: any_Nil any_Cons)

text \<open>An item that takes one character.\<close>

definition takes_one :: "bool \<Rightarrow> item \<Rightarrow> (u32 \<Rightarrow> bool) \<Rightarrow> bool" where
  "takes_one nc it P \<longleftrightarrow> (\<forall>ps s. matches nc (it # ps) s \<longleftrightarrow> (\<exists>x v. s = x # v \<and> P x \<and> matches nc ps v))"

lemma takes_one_items:
  "takes_one nc One (\<lambda>x. True)" "takes_one nc (Lit c) (same_char nc c)" "takes_one nc (Set neg rs) (\<lambda>x. in_ranges rs x \<noteq> neg)"
  "takes_one nc Bad (\<lambda>x. False)"
  by (auto simp: takes_one_def matches_simps)

lemma takes_one_D: "takes_one nc it P \<Longrightarrow> matches nc (it # ps) (x # v) \<longleftrightarrow> P x \<and> matches nc ps v"
  "takes_one nc it P \<Longrightarrow> \<not> matches nc (it # ps) []"
  by (auto simp: takes_one_def)

lemma any_step:
  assumes "takes_one nc it P" "matches nc (Any # it # ps) s"
  shows "\<exists>x v. s = x # v \<and> matches nc (Any # ps) v"
  using assms(2)
proof (induction s rule: list.induct)
  case Nil
  then show ?case using takes_one_D(2) [OF assms(1)] by (simp add: any_Nil)
next
  case (Cons x s)
  then show ?case using takes_one_D(1) [OF assms(1)] any_self by (auto simp: any_Cons)
qed

lemma any_one: "matches nc (Any # One # ps) (x # s) \<longleftrightarrow> matches nc (Any # ps) s"
proof
  show "matches nc (Any # One # ps) (x # s) \<Longrightarrow> matches nc (Any # ps) s"
    using any_step [OF takes_one_items(1)] by blast
  show "matches nc (Any # ps) s \<Longrightarrow> matches nc (Any # One # ps) (x # s)"
  proof (induction s arbitrary: x)
    case Nil
    then show ?case using takes_one_D [OF takes_one_items(1)] by (simp add: any_Nil any_Cons)
  next
    case (Cons y s)
    then show ?case using takes_one_D(1) [OF takes_one_items(1)] by (auto simp: any_Cons)
  qed
qed

text \<open>What the caller of the matcher relies on: the three results for a rest \<open>ps\<close> of the pattern.\<close>

definition matcher :: "bool \<Rightarrow> item list \<Rightarrow> u8 list \<Rightarrow> nat \<Rightarrow> bool" where
  "matcher nc ps z r \<longleftrightarrow>
     (r = SQLITE_MATCH \<and> matches nc ps (chars z))
     \<or> (r = SQLITE_NOMATCH \<and> \<not> matches nc ps (chars z))
     \<or> (r = SQLITE_NOWILDCARDMATCH \<and> \<not> matches nc (Any # ps) (chars z))"

lemma set_search_result:
  assumes "\<And>z. 0 \<notin> set z \<Longrightarrow> matcher nc (it # ps) z (f z)" "takes_one nc it P" "0 \<notin> set z"
  shows "set_search f z = (if matches nc (Any # it # ps) (chars z) then SQLITE_MATCH else SQLITE_NOWILDCARDMATCH)"
  using assms(3)
proof (induction "length z" arbitrary: z rule: less_induct)
  case less
  show ?case
  proof (cases "z = []")
    case True
    then show ?thesis using takes_one_D(2) [OF assms(2)] by (simp add: set_search.simps any_Nil)
  next
    case False
    obtain c y where r: "sqlite3Utf8Read z = (c, y)" "0 \<notin> set y" "chars z = c # chars y" "length y < length z"
      using read_char [OF False less(2)] by blast
    have "chd z \<noteq> 0" using False less(2) by (cases z) auto
    then have s: "set_search f z = (if f z \<noteq> SQLITE_NOMATCH then f z else set_search f y)"
      using skip_read [OF False] r(1) by (subst set_search.simps) simp
    consider "f z = SQLITE_MATCH" "matches nc (it # ps) (chars z)"
      | "f z = SQLITE_NOMATCH" "\<not> matches nc (it # ps) (chars z)"
      | "f z = SQLITE_NOWILDCARDMATCH" "\<not> matches nc (Any # it # ps) (chars z)"
      using assms(1) [OF less(2)] by (auto simp: matcher_def)
    then show ?thesis
    proof cases
      case 1
      then show ?thesis using s any_self by (simp add: match_codes)
    next
      case 2
      then show ?thesis using s less(1) [OF r(4,2)] r(3) by (simp add: any_Cons)
    next
      case 3
      then show ?thesis using s by (simp add: match_codes)
    qed
  qed
qed

text \<open>One step of the search for a literal character.\<close>

lemma search_step:
  assumes "matcher nc ps y r" "chars z = x # chars y"
    and "same_char nc c x \<Longrightarrow> s = (if r \<noteq> SQLITE_NOMATCH then r else s')"
    and "\<not> same_char nc c x \<Longrightarrow> s = s'"
    and "s' = (if matches nc (Any # Lit c # ps) (chars y) then SQLITE_MATCH else SQLITE_NOWILDCARDMATCH)"
  shows "s = (if matches nc (Any # Lit c # ps) (chars z) then SQLITE_MATCH else SQLITE_NOWILDCARDMATCH)"
proof -
  note l = takes_one_D(1) [OF takes_one_items(2) [of nc c]]
  have n: "matches nc (Any # Lit c # ps) (chars y) \<Longrightarrow> matches nc (Any # ps) (chars y)"
    using any_step [OF takes_one_items(2) [of nc c], of ps "chars y"] any_Cons by fastforce
  show ?thesis
  proof (cases "same_char nc c x")
    case True
    then have s: "s = (if r \<noteq> SQLITE_NOMATCH then r else s')" by (rule assms(3))
    show ?thesis using assms(1) s True l n any_self [of nc ps "chars y"] assms(2,5)
      by (auto simp: matcher_def any_Cons match_codes)
  qed (use assms l in \<open>simp add: any_Cons\<close>)
qed

lemma char_search_result:
  assumes "\<And>z. 0 \<notin> set z \<Longrightarrow> matcher nc ps z (f z)" "0x80 \<le> c" "0 \<notin> set z"
  shows "char_search c f z = (if matches nc (Any # Lit c # ps) (chars z) then SQLITE_MATCH else SQLITE_NOWILDCARDMATCH)"
  using assms(3)
proof (induction "length z" arbitrary: z rule: less_induct)
  case less
  have same: "same_char nc c x \<longleftrightarrow> x = c" for x using assms(2) by (auto simp: same_char_def)
  show ?case
  proof (cases "z = []")
    case True
    then show ?thesis using takes_one_D(2) [OF takes_one_items(2)] by (simp add: char_search.simps any_Nil)
  next
    case False
    obtain x y where r: "sqlite3Utf8Read z = (x, y)" "x \<noteq> 0" "0 \<notin> set y" "chars z = x # chars y" "length y < length z"
      using read_char [OF False less(2)] by blast
    show ?thesis
    proof (rule search_step [OF assms(1) [OF r(3)] r(4) _ _ less(1) [OF r(5,3)]])
      show "same_char nc c x \<Longrightarrow> char_search c f z = (if f y \<noteq> SQLITE_NOMATCH then f y else char_search c f y)"
        using r(1,2) same by (subst char_search.simps) simp
      show "\<not> same_char nc c x \<Longrightarrow> char_search c f z = char_search c f y"
        using r(1,2) same by (subst char_search.simps) simp
    qed
  qed
qed

lemma byte_search_skip: "\<forall>b\<in>set w. b \<noteq> 0 \<and> b \<notin> set stop \<Longrightarrow> byte_search stop f (w @ z) = byte_search stop f z"
  by (subst (1 2) byte_search.simps) (simp add: dropWhile_append2)

lemma byte_search_result:
  assumes "\<And>z. 0 \<notin> set z \<Longrightarrow> matcher nc ps z (f z)" "c < 0x80" "0 \<notin> set z"
    and stop: "\<And>b. b \<noteq> 0 \<Longrightarrow> b \<in> set stop \<longleftrightarrow> b < 0x80 \<and> same_char nc c (ucast b)"
  shows "byte_search stop f z = (if matches nc (Any # Lit c # ps) (chars z) then SQLITE_MATCH else SQLITE_NOWILDCARDMATCH)"
  using assms(3)
proof (induction "length z" arbitrary: z rule: less_induct)
  case less
  show ?case
  proof (cases "z = []")
    case True
    then show ?thesis using takes_one_D(2) [OF takes_one_items(2)] by (simp add: byte_search.simps any_Nil)
  next
    case False
    then show ?thesis
    proof (rule read_cases [OF _ less(2)])
      fix b y assume a: "z = b # y" "b \<noteq> 0" "b < 0x80" "sqlite3Utf8Read z = (ucast b, y)"
      have y: "0 \<notin> set y" "length y < length z" using a less(2) by auto
      show ?thesis
      proof (rule search_step [OF assms(1) [OF y(1)] chars_read [OF a(4) False] _ _ less(1) [OF y(2,1)]])
        show "same_char nc c (ucast b) \<Longrightarrow> byte_search stop f z = (if f y \<noteq> SQLITE_NOMATCH then f y else byte_search stop f y)"
          using a stop [OF a(2)] by (subst byte_search.simps) simp
        show "\<not> same_char nc c (ucast b) \<Longrightarrow> byte_search stop f z = byte_search stop f y"
          using byte_search_skip [of "[b]" stop f y] a stop [OF a(2)] by simp
      qed
    next
      fix x w y assume a: "z = w @ y" "w \<noteq> []" "\<forall>b\<in>set w. 0x80 \<le> b" "sqlite3Utf8Read z = (x, y)" "0x80 \<le> x"
      have y: "0 \<notin> set y" "length y < length z" using a less(2) by auto
      have n: "\<not> same_char nc c x" using assms(2) a(5) by (auto simp: same_char_def)
      have "b \<noteq> 0" if "b \<in> set w" for b using that a(1) less(2) by auto
      then have "\<forall>b\<in>set w. b \<noteq> 0 \<and> b \<notin> set stop" using a(3) stop by (meson not_less)
      then have "byte_search stop f z = byte_search stop f y" using byte_search_skip a(1) by blast
      then show ?thesis
        using n search_step [OF assms(1) [OF y(1)] chars_read [OF a(4) False] _ _ less(1) [OF y(2,1)]] by blast
    qed
  qed
qed

subsection \<open>Runs of wildcards and bracket expressions\<close>

lemma items_Cons:
  "c = ucast (matchAll i) \<Longrightarrow> items i m (c # p) = Any # items i m p"
  "c \<noteq> ucast (matchAll i) \<Longrightarrow> c \<noteq> m \<Longrightarrow> c = ucast (matchOne i) \<Longrightarrow> items i m (c # p) = One # items i m p"
  "c \<noteq> ucast (matchAll i) \<Longrightarrow> c \<noteq> m \<Longrightarrow> c \<noteq> ucast (matchOne i) \<Longrightarrow> items i m (c # p) = Lit c # items i m p"
  "c \<noteq> ucast (matchAll i) \<Longrightarrow> c = m \<Longrightarrow> matchSet i \<noteq> 0 \<Longrightarrow> items i m (c # p) =
     (case bracket p of None \<Rightarrow> [Bad] | Some (neg, rs, q) \<Rightarrow> Set neg rs # items i m q)"
  "c \<noteq> ucast (matchAll i) \<Longrightarrow> c = m \<Longrightarrow> matchSet i = 0 \<Longrightarrow> items i m (c # p) =
     (case p of [] \<Rightarrow> [Bad] | d # q \<Rightarrow> Lit d # items i m q)"
  by (simp_all add: items.simps(2))

text \<open>The wildcards and the escape (or bracket) character differ.\<close>

definition distinct_info :: "compareInfo \<Rightarrow> u32 \<Rightarrow> bool" where
  "distinct_info i m \<longleftrightarrow>
     (m \<noteq> 0 \<longrightarrow> m \<noteq> ucast (matchAll i) \<and> m \<noteq> ucast (matchOne i))
     \<and> (matchOne i \<noteq> 0 \<longrightarrow> matchOne i \<noteq> matchAll i)"

definition skipped :: "bool \<Rightarrow> compareInfo \<Rightarrow> u32 \<Rightarrow> u8 list \<Rightarrow> u8 list \<Rightarrow> (u32 \<times> u8 list \<times> u8 list \<times> u8 list) option \<Rightarrow> bool" where
  "skipped nc i m zP zS r \<longleftrightarrow>
     (case r of
        None \<Rightarrow> \<not> matches nc (Any # items i m (chars zP)) (chars zS)
      | Some (c, zP', zAt, zS') \<Rightarrow>
          0 \<notin> set zP' \<and> 0 \<notin> set zAt \<and> 0 \<notin> set zS' \<and> length zAt \<le> length zP \<and> length zP' \<le> length zAt
          \<and> (if c = 0 then zAt = [] else zAt \<noteq> [] \<and> sqlite3Utf8Read zAt = (c, zP') \<and> chars zAt = c # chars zP' \<and> length zP' < length zAt)
          \<and> (c \<noteq> 0 \<longrightarrow> c \<noteq> ucast (matchAll i) \<and> c \<noteq> ucast (matchOne i))
          \<and> (matches nc (Any # items i m (chars zP)) (chars zS) \<longleftrightarrow> matches nc (Any # items i m (chars zAt)) (chars zS')))"

lemma star_skip_result:
  assumes "distinct_info i m" "0 \<notin> set zP" "0 \<notin> set zS"
  shows "skipped nc i m zP zS (star_skip (ucast (matchAll i)) (ucast (matchOne i)) zP zS)"
  using assms(2,3)
proof (induction "length zP" arbitrary: zP zS rule: less_induct)
  case less
  let ?all = "ucast (matchAll i) :: u32" and ?one = "ucast (matchOne i) :: u32"
  have ne: "?all \<noteq> ?one \<or> ?one = 0" using assms(1) wide_eq wide_eq [of _ 0] by (auto simp: distinct_info_def)
  show ?case
  proof (cases "zP = []")
    case True
    then show ?thesis using less(3) by (simp add: star_skip.simps skipped_def)
  next
    case False
    obtain c z where r: "sqlite3Utf8Read zP = (c, z)" "c \<noteq> 0" "0 \<notin> set z" "chars zP = c # chars z" "length z < length zP"
      using read_char [OF False less(2)] by blast
    note step = star_skip_step [OF r(1) False]
    consider "c = ?all" "c \<noteq> ?one" | "c = ?one" "c \<noteq> ?all" | "c \<noteq> ?all" "c \<noteq> ?one" using ne r(2) by metis
    then show ?thesis
    proof cases
      case 1
      have "items i m (chars zP) = Any # items i m (chars z)" using r(4) 1 items_Cons(1) by simp
      then show ?thesis using less(1) [OF r(5,3) less(3)] 1 step [of ?all ?one zS] r(5)
        by (auto simp: skipped_def any_any split: option.splits)
    next
      case 2
      have cm: "c \<noteq> m" using assms(1) 2 r(2) by (auto simp: distinct_info_def)
      have it: "items i m (chars zP) = One # items i m (chars z)"
        unfolding r(4) by (rule items_Cons(2) [OF 2(2) cm 2(1)])
      show ?thesis
      proof (cases "zS = []")
        case True
        then have "star_skip ?all ?one zP zS = None" using 2 r(2) step by simp
        moreover have "\<not> matches nc (Any # items i m (chars zP)) (chars zS)"
          using it True takes_one_D(2) [OF takes_one_items(1)] by (simp add: any_Nil)
        ultimately show ?thesis by (simp add: skipped_def)
      next
        case f: False
        obtain d y where q: "sqlite3Utf8Read zS = (d, y)" "d \<noteq> 0" "0 \<notin> set y" "chars zS = d # chars y"
          using read_char [OF f less(3)] by blast
        have "star_skip ?all ?one zP zS = star_skip ?all ?one z y" using 2 r(2) step q by simp
        moreover have "matches nc (Any # items i m (chars zP)) (chars zS) \<longleftrightarrow> matches nc (Any # items i m (chars z)) (chars y)"
          unfolding it q(4) by (rule any_one)
        ultimately show ?thesis using less(1) [OF r(5,3) q(3)] r(5)
          by (auto simp: skipped_def split: option.splits)
      qed
    next
      case 3
      then have "star_skip ?all ?one zP zS = Some (c, z, zP, zS)" using step by simp
      then show ?thesis using r False less(2,3) 3 by (simp add: skipped_def)
    qed
  qed
qed

text \<open>The loop over a bracket expression finds its ranges.\<close>

lemma set_items_Cons:
  "c = 93 \<Longrightarrow> set_items prior (c # p) = Some ([], p)"
  "c \<noteq> 93 \<Longrightarrow> c = 45 \<Longrightarrow> p = d # q \<Longrightarrow> d \<noteq> 93 \<Longrightarrow> prior > 0 \<Longrightarrow>
     set_items prior (c # p) = map_option (apfst (Cons (prior, d))) (set_items 0 q)"
  "c \<noteq> 93 \<Longrightarrow> \<not> (c = 45 \<and> p \<noteq> [] \<and> hd p \<noteq> 93 \<and> prior > 0) \<Longrightarrow>
     set_items prior (c # p) = map_option (apfst (Cons (c, c))) (set_items c p)"
  subgoal by (cases p) simp_all
  subgoal by simp
  subgoal by (cases p) auto
  done

definition set_found :: "u32 \<Rightarrow> bool \<Rightarrow> ((u32 \<times> u32) list \<times> u32 list) option \<Rightarrow> u32 \<times> bool \<times> u8 list \<Rightarrow> bool" where
  "set_found c seen r res \<longleftrightarrow>
     (case r of
        None \<Rightarrow> fst res = 0
      | Some (rs, q) \<Rightarrow> \<exists>zP. res = (93, seen \<or> in_ranges rs c, zP) \<and> chars zP = q \<and> 0 \<notin> set zP)"

lemma set_found_step:
  assumes "set_found c (seen \<or> lo \<le> c \<and> c \<le> hi) r res"
  shows "set_found c seen (map_option (apfst (Cons (lo, hi))) r) res"
  using assms by (auto simp: set_found_def in_ranges_def split: option.splits prod.splits)

lemma single_range: "c = d \<longleftrightarrow> d \<le> c \<and> c \<le> d" for c d :: u32
  by auto

lemma read_any:
  assumes "0 \<notin> set z"
  shows "\<exists>c y. sqlite3Utf8Read z = (c, y) \<and> 0 \<notin> set y \<and> chars z = (if c = 0 then [] else c # chars y) \<and> (c = 0 \<longrightarrow> y = [])"
proof (cases "z = []")
  case False
  then obtain c y where "sqlite3Utf8Read z = (c, y) \<and> c \<noteq> 0 \<and> 0 \<notin> set y \<and> chars z = c # chars y"
    using read_char assms by metis
  then show ?thesis by (intro exI [of _ c] exI [of _ y]) simp
qed simp

lemma set_loop_result:
  assumes "0 \<notin> set zP" "c2 = 0 \<Longrightarrow> zP = []"
  shows "set_found c seen (set_items prior (if c2 = 0 then [] else c2 # chars zP)) (set_loop c prior seen c2 zP)"
  using assms
proof (induction "length zP + (if c2 = 0 then 0 else 1)" arbitrary: prior seen c2 zP rule: less_induct)
  case less
  obtain d z where r: "sqlite3Utf8Read zP = (d, z)" "0 \<notin> set z" "chars zP = (if d = 0 then [] else d # chars z)" "d = 0 \<longrightarrow> z = []"
    using read_any [OF less(2)] by blast
  obtain e y where q: "sqlite3Utf8Read z = (e, y)" "0 \<notin> set y" "chars z = (if e = 0 then [] else e # chars y)" "e = 0 \<longrightarrow> y = []"
    using read_any [OF r(2)] by blast
  have z: "zP = [] \<longleftrightarrow> d = 0" using r(3) chars_Nil_iff [of zP] by (auto split: if_splits)
  have m: "length z + (if d = 0 then 0 else 1) < length zP + 1"
    "chd zP \<noteq> 0 \<Longrightarrow> length y + (if e = 0 then 0 else 1) < length zP + 1"
    using one_read [OF r(1) [symmetric]] two_reads [OF r(1) [symmetric] _ q(1) [symmetric]] by auto
  have hd: "chd zP \<noteq> 0 \<longleftrightarrow> d \<noteq> 0" "d \<noteq> 0 \<Longrightarrow> chd zP = 93 \<longleftrightarrow> d = 93"
    using less(2) z chd_char [OF less(2), of d "chars z" 93] r(3) by (cases zP; auto)+
  consider "c2 = 0" | "c2 = 93" | "c2 \<noteq> 0" "c2 \<noteq> 93" "c2 = 45 \<and> chd zP \<noteq> 93 \<and> chd zP \<noteq> 0 \<and> prior > 0"
    | "c2 \<noteq> 0" "c2 \<noteq> 93" "\<not> (c2 = 45 \<and> chd zP \<noteq> 93 \<and> chd zP \<noteq> 0 \<and> prior > 0)" by blast
  then show ?case
  proof cases
    case 1
    then show ?thesis by (subst set_loop.simps) (simp add: set_found_def)
  next
    case 2
    then show ?thesis using less(2) by (subst set_loop.simps) (simp add: set_items_Cons set_found_def in_ranges_def)
  next
    case 3
    then have d: "d \<noteq> 0" "d \<noteq> 93" using hd by auto
    have l: "set_loop c prior seen c2 zP = set_loop c 0 (seen \<or> prior \<le> c \<and> c \<le> d) e y"
      using 3 r(1) q(1) by (subst set_loop.simps) simp
    have i: "set_items prior (c2 # chars zP) = map_option (apfst (Cons (prior, d))) (set_items 0 (chars z))"
      using 3 d r(3) by (intro set_items_Cons(2)) auto
    have "set_found c (seen \<or> prior \<le> c \<and> c \<le> d) (set_items 0 (chars z)) (set_loop c 0 (seen \<or> prior \<le> c \<and> c \<le> d) e y)"
      using less(1) [of y e "seen \<or> prior \<le> c \<and> c \<le> d" 0] m(2) 3 q by simp
    then show ?thesis unfolding l using set_found_step i 3 by simp
  next
    case 4
    have l: "set_loop c prior seen c2 zP = set_loop c c2 (seen \<or> c = c2) d z"
      using 4 r(1) by (subst set_loop.simps) (simp only: if_False if_True split_conv simp_thms)
    have i: "set_items prior (c2 # chars zP) = map_option (apfst (Cons (c2, c2))) (set_items c2 (chars zP))"
      using 4 hd r(3) by (intro set_items_Cons(3)) auto
    have "set_found c (seen \<or> c = c2) (set_items c2 (chars zP)) (set_loop c c2 (seen \<or> c = c2) d z)"
      using less(1) [of z d "seen \<or> c = c2" c2] m(1) 4 r by simp
    then have "set_found c seen (map_option (apfst (Cons (c2, c2))) (set_items c2 (chars zP))) (set_loop c c2 (seen \<or> c = c2) d z)"
      by (intro set_found_step) (simp only: single_range [of c c2])
    then show ?thesis unfolding l using i 4 by simp
  qed
qed

lemma match_set_result:
  assumes "0 \<notin> set zP" "0 \<notin> set zS"
  shows "case match_set zP zS of
      None \<Rightarrow> zS = [] \<or> (case bracket (chars zP) of None \<Rightarrow> True | Some (neg, rs, q) \<Rightarrow> in_ranges rs (hd (chars zS)) = neg)
    | Some (zP', zS') \<Rightarrow> 0 \<notin> set zP' \<and> 0 \<notin> set zS' \<and>
        (\<exists>x neg rs. chars zS = x # chars zS' \<and> bracket (chars zP) = Some (neg, rs, chars zP') \<and> in_ranges rs x \<noteq> neg)"
proof (cases "zS = []")
  case False
  obtain x y where s: "sqlite3Utf8Read zS = (x, y)" "x \<noteq> 0" "0 \<notin> set y" "chars zS = x # chars y"
    using read_char [OF False assms(2)] by blast
  obtain c z where r: "sqlite3Utf8Read zP = (c, z)" "0 \<notin> set z" "chars zP = (if c = 0 then [] else c # chars z)" "c = 0 \<longrightarrow> z = []"
    using read_any [OF assms(1)] by blast
  obtain c' z' where t: "(if c = 94 then sqlite3Utf8Read z else (c, z)) = (c', z')" "0 \<notin> set z'"
      "(if c = 94 then chars z else chars zP) = (if c' = 0 then [] else c' # chars z')" "c' = 0 \<longrightarrow> z' = []"
    using read_any [OF r(2)] r by (cases "c = 94") auto
  obtain c'' z'' where u: "(if c' = 93 then sqlite3Utf8Read z' else (c', z')) = (c'', z'')" "0 \<notin> set z''"
      "(if c' = 93 then chars z' else (if c' = 0 then [] else c' # chars z')) = (if c'' = 0 then [] else c'' # chars z'')" "c'' = 0 \<longrightarrow> z'' = []"
    using read_any [OF t(2)] t by (cases "c' = 93") auto
  have b: "bracket (chars zP) = map_option (\<lambda>(rs, q). (c = 94, (if c' = 93 then [(93, 93)] else []) @ rs, q))
      (set_items 0 (if c'' = 0 then [] else c'' # chars z''))"
    using t(3) u(3) r(3) by (auto simp: bracket_def Let_def split: list.splits if_splits)
  have f: "set_found x (c' = 93 \<and> x = 93) (set_items 0 (if c'' = 0 then [] else c'' # chars z''))
      (set_loop x 0 (c' = 93 \<and> x = 93) c'' z'')"
    using set_loop_result [of z'' c''] u by blast
  have e: "match_set zP zS = (case set_loop x 0 (c' = 93 \<and> x = 93) c'' z'' of (c2, seen, zP) \<Rightarrow>
      if c2 = 0 \<or> seen = (c = 94) then None else Some (zP, y))"
    using s(1,2) r(1) t(1) u(1) by (simp add: match_set_def Let_def)
  have p: "in_ranges ((if c' = 93 then [(93, 93)] else []) @ rs) x \<longleftrightarrow> (c' = 93 \<and> x = 93) \<or> in_ranges rs x" for rs
    by (auto simp: in_ranges_def)
  show ?thesis
  proof (cases "set_items 0 (if c'' = 0 then [] else c'' # chars z'')")
    case None
    then show ?thesis using b f e by (auto simp: set_found_def split: prod.splits)
  next
    case (Some a)
    then show ?thesis using b f e p s(3,4) by (cases a) (auto simp: set_found_def)
  qed
qed (simp add: match_set_def)

subsection \<open>The matcher decides the relation\<close>

text \<open>One step of the matcher over an item that takes a character.\<close>

lemma matcher_step:
  assumes "matcher nc ps y r" "takes_one nc it P" "chars z = x # chars y" "P x"
  shows "matcher nc (it # ps) z r"
  using assms(1) takes_one_D(1) [OF assms(2)] any_step [OF assms(2), of ps "chars z"] assms(3,4)
  by (auto simp: matcher_def)

lemma matcher_fail: "\<not> matches nc ps (chars z) \<Longrightarrow> matcher nc ps z SQLITE_NOMATCH"
  by (simp add: matcher_def)

lemma matcher_any: "matcher nc (Any # ps) z (if matches nc (Any # ps) (chars z) then SQLITE_MATCH else SQLITE_NOWILDCARDMATCH)"
  by (simp add: matcher_def any_any)

lemma Toupper_class: "sqlite3Toupper x = x AND NOT (ctype_class x AND 0x20)"
  by (simp add: sqlite3Toupper_def sqlite3CtypeMap_eq)

lemma Toupper_ascii: "sqlite3Toupper x = (if 97 \<le> x \<and> x \<le> 122 then x - 32 else x)"
proof -
  have "map sqlite3Toupper (map word_of_nat [0..<256]) = map (\<lambda>x. if 97 \<le> x \<and> x \<le> 122 then x - 32 else x) (map word_of_nat [0..<256])"
    unfolding all_256 Toupper_class by (simp add: ctype_class_def numeral_le_1_u8)
  then show ?thesis by (rule bytes_eqI)
qed

lemma Tolower_eq: "sqlite3Tolower x = UpperToLower x"
  by (simp add: sqlite3Tolower_def UpperToLower_def)

lemma case_pair:
  assumes "c < 0x80"
  shows "b = sqlite3Toupper c \<or> b = sqlite3Tolower c \<longleftrightarrow> b < 0x80 \<and> UpperToLower c = UpperToLower b"
  using assms
  by (auto simp: Toupper_ascii Tolower_eq UpperToLower_eq word_le_nat_alt word_less_nat_alt word_unat_eq_iff
      unat_word_ariths unat_sub_if' split: if_splits)

lemma ascii_byte: "c < 0x80 \<Longrightarrow> \<exists>k :: u8. c = ucast k \<and> k < 0x80" for c :: u32
  by (intro exI [of _ "ucast c"]) (simp add: word_less_nat_alt word_unat_eq_iff unat_wide unat_ucast_u8)

lemma narrow_wide: "(ucast (ucast k :: u32) :: u8) = k"
  using unat_u8 [of k] by (simp add: word_unat_eq_iff unat_ucast_u8 unat_wide)

lemma wide_less: "(ucast k :: u32) < 0x80 \<longleftrightarrow> (k :: u8) < 0x80"
  by (simp add: word_less_nat_alt unat_wide)

lemma stop_bytes:
  assumes "c < 0x80"
  shows "b \<in> set (if nc then [sqlite3Toupper (ucast c), sqlite3Tolower (ucast c)] else [ucast c])
    \<longleftrightarrow> b < 0x80 \<and> same_char nc c (ucast b)"
proof -
  obtain k :: u8 where k: "c = ucast k" "k < 0x80" using ascii_byte [OF assms] by blast
  show ?thesis using case_pair [OF k(2), of b] k(2) wide_eq [of k b]
    unfolding k(1) same_char_def narrow_wide wide_less by auto
qed

lemma same_char_0: "c \<noteq> 0 \<Longrightarrow> \<not> same_char nc c 0"
proof -
  assume c: "c \<noteq> 0"
  have "(ucast c :: u8) \<noteq> 0" if "c < 0x80"
  proof -
    have "unat (ucast c :: u8) = unat c" using that by (simp add: word_less_nat_alt unat_ucast_u8)
    then show ?thesis using c by (metis unat_0 word_unat_eq_iff)
  qed
  then have "UpperToLower (ucast c) \<noteq> UpperToLower (ucast (0 :: u32))" if "c < 0x80"
    using that UpperToLower_0 by (metis unsigned_0)
  then show ?thesis using c by (auto simp only: same_char_def)
qed

lemma literal_search_result:
  assumes "\<And>z. 0 \<notin> set z \<Longrightarrow> matcher nc ps z (f z)" "0 \<notin> set z"
  shows "(if c < 0x80 then
       byte_search (if nc then [sqlite3Toupper (ucast c), sqlite3Tolower (ucast c)] else [ucast c]) f z
     else char_search c f z)
   = (if matches nc (Any # Lit c # ps) (chars z) then SQLITE_MATCH else SQLITE_NOWILDCARDMATCH)"
proof (cases "c < 0x80")
  case True
  then show ?thesis using byte_search_result [OF assms(1) True assms(2) stop_bytes [OF True]] by simp
next
  case False
  then have "0x80 \<le> c" by simp
  then show ?thesis using char_search_result [OF assms(1) _ assms(2)] False by simp
qed

lemma compare_bad: "\<not> matches nc (Any # [Bad]) s"
  by (induction s rule: list.induct) (auto simp: any_Nil any_Cons matches_simps)

text \<open>The three results mean what \<open>matcher\<close> says.\<close>

lemma compare_items:
  assumes "distinct_info i m" "0 \<notin> set zP" "0 \<notin> set zS" "\<forall>n. e = Some n \<longrightarrow> length zP \<le> n"
  shows "matcher (noCase i) (items i m (chars zP)) zS (patternCompare i m e zP zS)"
  using assms(2-4)
proof (induction "length zP" arbitrary: e zP zS rule: less_induct)
  case less
  let ?nc = "noCase i" and ?all = "ucast (matchAll i) :: u32" and ?one = "ucast (matchOne i) :: u32"
  show ?case
  proof (cases "zP = []")
    case True
    then show ?thesis using less(3) by (cases zS) (auto simp: patternCompare.simps matcher_def matches_simps any_Nil any_Cons chars_Nil_iff)
  next
    case False
    obtain c z where r: "sqlite3Utf8Read zP = (c, z)" "c \<noteq> 0" "0 \<notin> set z" "chars zP = c # chars z" "length z < length zP"
      using read_char [OF False less(2)] by blast
    obtain x y where s: "sqlite3Utf8Read zS = (x, y)" "0 \<notin> set y" "chars zS = (if x = 0 then [] else x # chars y)"
      using read_any [OF less(3)] by blast
    consider (star) "c = ?all" | (set) "c \<noteq> ?all" "c = m" "matchSet i \<noteq> 0" | (esc) "c \<noteq> ?all" "c = m" "matchSet i = 0"
      | (char) "c \<noteq> ?all" "c \<noteq> m" by blast
    then show ?thesis
    proof cases
      case star
      have it: "items i m (chars zP) = Any # items i m (chars z)" unfolding r(4) using star by (rule items_Cons(1))
      note sk = star_skip_result [OF assms(1) r(3) less(3), of ?nc]
      show ?thesis
      proof (cases "star_skip ?all ?one z zS")
        case None
        then have "patternCompare i m e zP zS = SQLITE_NOWILDCARDMATCH"
          using r(1,2) star by (subst patternCompare.simps) simp
        then show ?thesis using sk None it by (simp add: skipped_def matcher_def any_any)
      next
        case (Some a)
        then obtain d zP' zAt zS' where a: "star_skip ?all ?one z zS = Some (d, zP', zAt, zS')" by (cases a) auto
        let ?ps = "items i m (chars zAt)"
        have k: "0 \<notin> set zP'" "0 \<notin> set zAt" "0 \<notin> set zS'" "length zAt < length zP" "length zP' < length zP"
          "d = 0 \<Longrightarrow> zAt = []" "d \<noteq> 0 \<Longrightarrow> chars zAt = d # chars zP'" "d \<noteq> 0 \<Longrightarrow> d \<noteq> ?all \<and> d \<noteq> ?one"
          "matches ?nc (items i m (chars zP)) (chars zS) \<longleftrightarrow> matches ?nc (Any # ?ps) (chars zS')"
          using sk a r(5) it by (auto simp: skipped_def split: if_splits)
        have "patternCompare i m e zP zS =
            (if matches ?nc (Any # ?ps) (chars zS') then SQLITE_MATCH else SQLITE_NOWILDCARDMATCH)"
        proof -
          consider "d = 0" | "d \<noteq> 0" "d = m" "matchSet i \<noteq> 0" | "d \<noteq> 0" "d = m" "matchSet i = 0" | "d \<noteq> 0" "d \<noteq> m" by blast
          then show ?thesis
          proof cases
            case 1
            then have "patternCompare i m e zP zS = SQLITE_MATCH"
              using r(1,2) star a by (subst patternCompare.simps) simp
            moreover have "matches ?nc (Any # ?ps) (chars zS')" using k(6) 1 by (auto simp: matches_Any matches_simps)
            ultimately show ?thesis by simp
          next
            case 2
            have p: "patternCompare i m e zP zS = set_search (\<lambda>z. patternCompare i m None zAt z) zS'"
              using r(1,2) star a 2 by (subst patternCompare.simps) simp
            obtain j js P where j: "?ps = j # js" "takes_one ?nc j P"
            proof (cases "bracket (chars zP')")
              case None
              then show thesis using that [OF _ takes_one_items(4)] items_Cons(4) [of d i m "chars zP'"] k(7,8) 2 by simp
            next
              case (Some b)
              then show thesis using that [OF _ takes_one_items(3)] items_Cons(4) [of d i m "chars zP'"] k(7,8) 2
                by (cases b) simp
            qed
            show ?thesis unfolding p j(1) using less(1) [OF k(4,2)] j(1)
              by (intro set_search_result [OF _ j(2) k(3)]) simp
          next
            case 3
            obtain f v where v: "sqlite3Utf8Read zP' = (f, v)" "0 \<notin> set v" "chars zP' = (if f = 0 then [] else f # chars v)"
              using read_any [OF k(1)] by blast
            have l: "length v < length zP" using read_le [of zP'] v(1) k(5) by simp
            have p: "patternCompare i m e zP zS = (if f = 0 then SQLITE_NOWILDCARDMATCH else
              (if f < 0x80 then
                 byte_search (if ?nc then [sqlite3Toupper (ucast f), sqlite3Tolower (ucast f)] else [ucast f])
                   (\<lambda>z. patternCompare i m None v z) zS'
               else char_search f (\<lambda>z. patternCompare i m None v z) zS'))"
              using r(1,2) star a 3 v(1) by (subst patternCompare.simps) simp
            have q: "?ps = (if f = 0 then [Bad] else Lit f # items i m (chars v))"
              using items_Cons(5) [of d i m "chars zP'"] k(7,8) 3 v(3) by simp
            show ?thesis
            proof (cases "f = 0")
              case True
              then show ?thesis using p q compare_bad by simp
            next
              case g: False
              then show ?thesis using p q literal_search_result [where f = "\<lambda>z. patternCompare i m None v z" and c = f, OF less(1) [OF l v(2)] k(3)] by simp
            qed
          next
            case 4
            have p: "patternCompare i m e zP zS =
              (if d < 0x80 then
                 byte_search (if ?nc then [sqlite3Toupper (ucast d), sqlite3Tolower (ucast d)] else [ucast d])
                   (\<lambda>z. patternCompare i m None zP' z) zS'
               else char_search d (\<lambda>z. patternCompare i m None zP' z) zS')"
              using r(1,2) star a 4 by (subst patternCompare.simps) simp
            have q: "?ps = Lit d # items i m (chars zP')"
              using items_Cons(3) [of d i m "chars zP'"] k(7,8) 4 by simp
            show ?thesis unfolding p q by (rule literal_search_result [OF less(1) [OF k(5,1)] k(3)]) simp_all
          qed
        qed
        then show ?thesis using matcher_any [of ?nc "items i m (chars z)" zS] it k(9) by simp
      qed
    next
      case set
      have p: "patternCompare i m e zP zS = (case match_set z zS of None \<Rightarrow> SQLITE_NOMATCH
          | Some (zP', zS') \<Rightarrow> patternCompare i m e zP' zS')"
        using r(1,2) set by (subst patternCompare.simps) simp
      note it = items_Cons(4) [OF set, of "chars z"]
      show ?thesis
      proof (cases "match_set z zS")
        case None
        then have "\<not> matches ?nc (items i m (chars zP)) (chars zS)"
          using match_set_result [OF r(3) less(3)] r(4) it by (auto simp: matches_simps split: option.splits)
        then show ?thesis using None p by (simp add: matcher_fail)
      next
        case (Some a)
        then obtain zP' zS' where a: "match_set z zS = Some (zP', zS')" by (cases a) auto
        then obtain d neg rs where d: "chars zS = d # chars zS'" "bracket (chars z) = Some (neg, rs, chars zP')" "in_ranges rs d \<noteq> neg"
            "0 \<notin> set zP'" "0 \<notin> set zS'"
          using match_set_result [OF r(3) less(3)] by auto
        have l: "length zP' < length zP" using match_set_shorter [OF a] r(5) by simp
        have "\<forall>n. e = Some n \<longrightarrow> length zP' \<le> n" using less(4) l by auto
        then have "matcher ?nc (items i m (chars zP')) zS' (patternCompare i m e zP' zS')"
          by (rule less(1) [OF l d(4,5)])
        then have "matcher ?nc (Set neg rs # items i m (chars zP')) zS (patternCompare i m e zP' zS')"
          using takes_one_items(3) d(1,3) by (rule matcher_step)
        moreover have "items i m (chars zP) = Set neg rs # items i m (chars zP')" unfolding r(4) it by (simp add: d(2))
        moreover have "patternCompare i m e zP zS = patternCompare i m e zP' zS'" unfolding p by (simp add: a)
        ultimately show ?thesis by (simp only:)
      qed
    next
      case esc
      obtain d v where d: "sqlite3Utf8Read z = (d, v)" "0 \<notin> set v" "chars z = (if d = 0 then [] else d # chars v)"
        using read_any [OF r(3)] by blast
      have l: "length v < length zP" using read_le [of z] d(1) r(5) by simp
      have p: "patternCompare i m e zP zS = (if d = 0 then SQLITE_NOMATCH
          else if same_char ?nc d x then patternCompare i m (Some (length v)) v y else SQLITE_NOMATCH)"
        using r(1,2) s(1) d(1) esc by (subst patternCompare.simps) (auto simp: same_char_def Tolower_eq)
      show ?thesis
      proof (cases "d = 0")
        case True
        then show ?thesis using p r(4) d(3) items_Cons(5) [OF esc] by (auto simp: matcher_fail matches_simps)
      next
        case f: False
        have it: "items i m (chars zP) = Lit d # items i m (chars v)"
          unfolding r(4) using items_Cons(5) [OF esc, of "chars z"] d(3) f by simp
        show ?thesis
        proof (cases "x \<noteq> 0 \<and> same_char ?nc d x")
          case True
          then have x: "chars zS = x # chars y" "same_char ?nc d x" using s(3) by auto
          have "matcher ?nc (items i m (chars v)) y (patternCompare i m (Some (length v)) v y)"
            by (rule less(1) [OF l d(2) s(2)]) simp
          then have "matcher ?nc (Lit d # items i m (chars v)) zS (patternCompare i m (Some (length v)) v y)"
            using takes_one_items(2) x by (rule matcher_step)
          then show ?thesis unfolding it using p f x(2) by simp
        next
          case n: False
          then have "\<not> matches ?nc (items i m (chars zP)) (chars zS)" using s(3) it by (auto simp: matches_simps)
          moreover have "\<not> same_char ?nc d x" using n same_char_0 [OF f] by (cases "x = 0") auto
          ultimately show ?thesis using p f by (simp add: matcher_fail)
        qed
      qed
    next
      case char
      have e: "Some (length z) \<noteq> e" using less(4) r(5) by auto
      have p: "patternCompare i m e zP zS =
          (if same_char ?nc c x \<or> c = ?one \<and> x \<noteq> 0 then patternCompare i m e z y else SQLITE_NOMATCH)"
        using r(1,2) s(1) char e by (subst patternCompare.simps) (auto simp: same_char_def Tolower_eq)
      have "\<forall>n. e = Some n \<longrightarrow> length z \<le> n" using less(4) r(5) by auto
      then have IH: "matcher ?nc (items i m (chars z)) y (patternCompare i m e z y)"
        by (rule less(1) [OF r(5,3) s(2)])
      let ?P = "\<lambda>x. if c = ?one then True else same_char ?nc c x"
      obtain it where it: "items i m (chars zP) = it # items i m (chars z)" "takes_one ?nc it ?P"
      proof (cases "c = ?one")
        case True
        then show thesis using that takes_one_items(1) items_Cons(2) [OF char True, of "chars z"] r(4) by simp
      next
        case False
        then show thesis using that takes_one_items(2) items_Cons(3) [OF char False, of "chars z"] r(4) by simp
      qed
      show ?thesis
      proof (cases "x \<noteq> 0 \<and> ?P x")
        case True
        then have "patternCompare i m e zP zS = patternCompare i m e z y" using p by (auto split: if_splits)
        then show ?thesis unfolding it(1) using matcher_step [OF IH it(2)] s(3) True by simp
      next
        case n: False
        then have "\<not> matches ?nc (items i m (chars zP)) (chars zS)"
          unfolding it(1) using s(3) takes_one_D [OF it(2)] by (cases "x = 0") auto
        moreover have "\<not> same_char ?nc c x" using n same_char_0 [OF r(2), of ?nc] by (cases "x = 0") (auto split: if_splits)
        ultimately show ?thesis using p n by (auto simp: matcher_fail)
      qed
    qed
  qed
qed

text \<open>
  C34. With wildcards and escape (or bracket) character that differ, the matcher reports a match exactly
  when the characters of the string match the items of the pattern. The early end of its
  search (the result \<open>SQLITE_NOWILDCARDMATCH\<close>, which callers pass on) never loses a match,
  and this holds for every text, well-formed UTF-8 or not.
\<close>

theorem patternCompare_matches:
  assumes "distinct_info i m" and "0 \<notin> set zP" and "0 \<notin> set zS"
  shows "patternCompare i m None zP zS = SQLITE_MATCH \<longleftrightarrow> matches (noCase i) (items i m (chars zP)) (chars zS)"
proof -
  have "matcher (noCase i) (items i m (chars zP)) zS (patternCompare i m None zP zS)"
    using assms by (rule compare_items) simp
  then show ?thesis by (auto simp: matcher_def match_codes dest: any_self)
qed

text \<open>The pattern \<open>*[!-/]b\<close> and the string \<open>a/b\<close>.\<close>

theorem patternCompare_matches_witness:
  "matches False [Any, Set False [(33, 33), (33, 47)], Lit 98] [97, 47, 98]"
proof -
  have "distinct_info globInfo 91" by (simp add: distinct_info_def globInfo_def)
  moreover have "items globInfo 91 (chars [42, 91, 33, 45, 47, 93, 98]) = [Any, Set False [(33, 33), (33, 47)], Lit 98]"
    by code_simp
  moreover have "chars [97, 47, 98] = [97, 47, 98]" by code_simp
  moreover have "patternCompare globInfo 91 None [42, 91, 33, 45, 47, 93, 98] [97, 47, 98] = SQLITE_MATCH" by code_simp
  moreover have "noCase globInfo = False" by (simp add: globInfo_def)
  ultimately show ?thesis
    using patternCompare_matches [of globInfo 91 "[42, 91, 33, 45, 47, 93, 98]" "[97, 47, 98]"] by simp
qed

subsection \<open>The SQL function with an escape character\<close>

text \<open>A \<open>LIKE\<close> pattern with escape character \<open>e\<close>, which takes precedence over the wildcards.\<close>

fun like_items :: "u32 \<Rightarrow> u32 list \<Rightarrow> item list" where
  "like_items e [] = []"
| "like_items e [c] = (if c = e then [Bad] else if c = 37 then [Any] else if c = 95 then [One] else [Lit c])"
| "like_items e (c # d # p) =
     (if c = e then Lit d # like_items e p
      else (if c = 37 then Any else if c = 95 then One else Lit c) # like_items e (d # p))"

lemma chars_nonzero: "0 \<notin> set z \<Longrightarrow> 0 \<notin> set (chars z)"
proof (induction "length z" arbitrary: z rule: less_induct)
  case less
  show ?case
  proof (cases "z = []")
    case False
    obtain c y where "c \<noteq> 0" "0 \<notin> set y" "chars z = c # chars y" "length y < length z"
      using read_char [OF False less(2)] by blast
    then show ?thesis using less(1) [of y] by simp
  qed simp
qed

lemma CharLen_chars: "0 \<notin> set z \<Longrightarrow> sqlite3Utf8CharLen z = length (chars z)"
proof (induction "length z" arbitrary: z rule: less_induct)
  case less
  show ?case
  proof (cases "z = []")
    case True
    then show ?thesis by (simp add: sqlite3Utf8CharLen.simps)
  next
    case False
    obtain c y where r: "sqlite3Utf8Read z = (c, y)" "0 \<notin> set y" "chars z = c # chars y" "length y < length z"
      using read_char [OF False less(2)] by blast
    have "chd z \<noteq> 0" using False less(2) by (cases z) auto
    then have "sqlite3Utf8CharLen z = Suc (sqlite3Utf8CharLen y)"
      using False skip_read [OF False] r(1) by (subst sqlite3Utf8CharLen.simps) simp
    then show ?thesis using less(1) [OF r(4,2)] r(3) by simp
  qed
qed

text \<open>The wildcard bytes that the escape character leaves.\<close>

lemma items_like:
  assumes "matchSet i = 0" "e \<noteq> 0" "0 \<notin> set p"
    "matchAll i = (if e = 37 then 0 else 37)" "matchOne i = (if e = 95 then 0 else 95)"
  shows "items i e p = like_items e p"
  using assms(3)
proof (induction p rule: induct_list012)
  case (2 c)
  then show ?case using assms(1,2,4,5) by (auto simp: items.simps(2))
next
  case (3 c d p)
  then show ?case using assms(1,2,4,5) by (auto simp: items.simps(2) [of i e c])
qed simp

text \<open>
  C35. The SQL function \<open>like(P, S, E)\<close> on texts, within the length limit, fails unless \<open>E\<close> is one
  character; otherwise its result says whether the string matches the pattern read with
  that escape character, also when the escape character is itself a wildcard.
\<close>

theorem likeFunc_escape:
  assumes "i = likeInfoNorm \<or> i = likeInfoAlt" and "nPat \<le> limit"
    and "0 \<notin> set zB" and "0 \<notin> set zA" and "0 \<notin> set zEsc"
  shows "likeFunc i limit nPat (Some zB) (Some zA) (Some (Some zEsc)) =
    (case chars zEsc of
       [e] \<Rightarrow> Result (matches (noCase i) (like_items e (chars zB)) (chars zA))
     | _ \<Rightarrow> Bad_Escape)"
proof (cases "length (chars zEsc) = 1")
  case False
  then show ?thesis using assms CharLen_chars [OF assms(5)]
    by (auto simp: likeFunc_def split: list.split)
next
  case True
  then obtain e where e: "chars zEsc = [e]" by (auto simp: length_Suc_conv)
  have ne: "zEsc \<noteq> []" using e by auto
  have e0: "e \<noteq> 0" using chars_nonzero [OF assms(5)] e by auto
  obtain c y where r: "sqlite3Utf8Read zEsc = (c, y)" "chars zEsc = c # chars y"
    using read_char [OF ne assms(5)] by blast
  define j where "j = i\<lparr>matchAll := if e = 37 then 0 else 37, matchOne := if e = 95 then 0 else 95\<rparr>"
  have j: "matchSet j = 0" "matchAll j = (if e = 37 then 0 else 37)" "matchOne j = (if e = 95 then 0 else 95)" "noCase j = noCase i"
    using assms(1) by (auto simp: j_def likeInfoNorm_def likeInfoAlt_def)
  have d: "distinct_info j e" using e0 by (simp add: distinct_info_def j)
  have "likeFunc i limit nPat (Some zB) (Some zA) (Some (Some zEsc)) = Result (patternCompare j e None zB zA = SQLITE_MATCH)"
    using assms(1,2) CharLen_chars [OF assms(5)] True r e
    by (auto simp: likeFunc_def Let_def j_def likeInfoNorm_def likeInfoAlt_def)
  also have "patternCompare j e None zB zA = SQLITE_MATCH \<longleftrightarrow> matches (noCase i) (like_items e (chars zB)) (chars zA)"
    using compare_items [OF d assms(3,4), of None] items_like [OF j(1) e0 chars_nonzero [OF assms(3)] j(2,3)] j(4)
    by (auto simp: matcher_def match_codes dest: any_self)
  finally show ?thesis using e by simp
qed

text \<open>\<open>'50%' LIKE '%!%' ESCAPE '!'\<close>, and an escape of two characters.\<close>

theorem likeFunc_escape_witness:
  "matches True [Any, Lit 37] [53, 48, 37]
   \<and> likeFunc likeInfoNorm 50000 1 (Some [37]) (Some [97]) (Some (Some [33, 33])) = Bad_Escape"
proof
  have "chars [33] = [33]" "chars [53, 48, 37] = [53, 48, 37]" "like_items 33 (chars [37, 33, 37]) = [Any, Lit 37]"
    by code_simp+
  moreover have "likeFunc likeInfoNorm 50000 3 (Some [37, 33, 37]) (Some [53, 48, 37]) (Some (Some [33])) = Result True"
    by code_simp
  moreover have "noCase likeInfoNorm" by (simp add: likeInfoNorm_def)
  ultimately show "matches True [Any, Lit 37] [53, 48, 37]"
    using likeFunc_escape [of likeInfoNorm 3 50000 "[37, 33, 37]" "[53, 48, 37]" "[33]"] by simp
  have "chars [33, 33] = [33, 33]" by code_simp
  then show "likeFunc likeInfoNorm 50000 1 (Some [37]) (Some [97]) (Some (Some [33, 33])) = Bad_Escape"
    using likeFunc_escape [of likeInfoNorm 1 50000 "[37]" "[97]" "[33, 33]"] by simp
qed

end
