(* ===== verification/Vdbe_Record.thy ===== *)
theory Vdbe_Record
  imports Util_Varint
begin

text \<open>
  The record format (\<open>vdbe.c\<close>, \<open>vdbeaux.c\<close>): \<open>OP_MakeRecord\<close>, which turns registers into a record, and
  \<open>sqlite3VdbeRecordUnpack\<close> with \<open>sqlite3VdbeSerialGet\<close>, which read one back. A register
  keeps the flags of the code; \<open>vm_u\<close> is the eight bytes that hold an integer or a
  double, \<open>vm_nZero\<close> the count of zeros behind a blob, \<open>vm_z\<close> the \<open>n\<close> bytes of a string or a blob. The conversion
  of an integer to a double is a parameter.
\<close>

unbundle bit_operations_syntax

subsection \<open>Registers\<close>

definition MEM_Null :: u16 where "MEM_Null = 0x0001"
definition MEM_Str :: u16 where "MEM_Str = 0x0002"
definition MEM_Int :: u16 where "MEM_Int = 0x0004"
definition MEM_Real :: u16 where "MEM_Real = 0x0008"
definition MEM_Blob :: u16 where "MEM_Blob = 0x0010"
definition MEM_IntReal :: u16 where "MEM_IntReal = 0x0020"
definition MEM_Term :: u16 where "MEM_Term = 0x0200"
definition MEM_Zero :: u16 where "MEM_Zero = 0x0400"
definition MEM_Ephem :: u16 where "MEM_Ephem = 0x4000"

lemmas mem_flags = MEM_Null_def MEM_Str_def MEM_Int_def MEM_Real_def MEM_Blob_def MEM_IntReal_def MEM_Term_def
  MEM_Zero_def MEM_Ephem_def

record vmem =
  vm_flags :: u16
  vm_u :: u64
  vm_nZero :: nat
  vm_z :: "u8 list"

definition has :: "vmem \<Rightarrow> u16 \<Rightarrow> bool" where
  "has m f \<longleftrightarrow> vm_flags m AND f \<noteq> 0"

definition IsNaN :: "u64 \<Rightarrow> bool" where
  "IsNaN x \<longleftrightarrow> x AND push_bit 52 0x7ff = push_bit 52 0x7ff \<and> x AND (push_bit 52 1 - 1) \<noteq> 0"

subsection \<open>Serial types\<close>

definition sqlite3SmallTypeSizes :: "u8 list" where
  "sqlite3SmallTypeSizes = [
    0,  1,  2,  3,  4,  6,  8,  8,  0,  0,
    0,  0,  0,  0,  1,  1,  2,  2,  3,  3,
    4,  4,  5,  5,  6,  6,  7,  7,  8,  8,
    9,  9, 10, 10, 11, 11, 12, 12, 13, 13,
   14, 14, 15, 15, 16, 16, 17, 17, 18, 18,
   19, 19, 20, 20, 21, 21, 22, 22, 23, 23,
   24, 24, 25, 25, 26, 26, 27, 27, 28, 28,
   29, 29, 30, 30, 31, 31, 32, 32, 33, 33,
   34, 34, 35, 35, 36, 36, 37, 37, 38, 38,
   39, 39, 40, 40, 41, 41, 42, 42, 43, 43,
   44, 44, 45, 45, 46, 46, 47, 47, 48, 48,
   49, 49, 50, 50, 51, 51, 52, 52, 53, 53,
   54, 54, 55, 55, 56, 56, 57, 57]"

definition sqlite3VdbeSerialTypeLen :: "u32 \<Rightarrow> u32" where
  "sqlite3VdbeSerialTypeLen serial_type =
     (if serial_type \<ge> 128 then (serial_type - 12) div 2 else ucast (sqlite3SmallTypeSizes ! unat serial_type))"

definition sqlite3VdbeOneByteSerialTypeLen :: "u8 \<Rightarrow> u8" where
  "sqlite3VdbeOneByteSerialTypeLen serial_type = sqlite3SmallTypeSizes ! unat serial_type"

text \<open>Big-endian integers. The C expressions have type \<open>int\<close> (or \<open>u32\<close>, the unsigned one) and do not overflow it.\<close>

definition ONE_BYTE_INT :: "u8 \<Rightarrow> int" where "ONE_BYTE_INT x0 = sint x0"

definition TWO_BYTE_INT :: "u8 \<Rightarrow> u8 \<Rightarrow> int" where
  "TWO_BYTE_INT x0 x1 = (256 * sint x0) OR uint x1"

definition THREE_BYTE_INT :: "u8 \<Rightarrow> u8 \<Rightarrow> u8 \<Rightarrow> int" where
  "THREE_BYTE_INT x0 x1 x2 = ((65536 * sint x0) OR push_bit 8 (uint x1)) OR uint x2"

definition FOUR_BYTE_INT :: "u8 \<Rightarrow> u8 \<Rightarrow> u8 \<Rightarrow> u8 \<Rightarrow> int" where
  "FOUR_BYTE_INT x0 x1 x2 x3 = (((16777216 * sint x0) OR push_bit 16 (uint x1)) OR push_bit 8 (uint x2)) OR uint x3"

definition FOUR_BYTE_UINT :: "u8 \<Rightarrow> u8 \<Rightarrow> u8 \<Rightarrow> u8 \<Rightarrow> u32" where
  "FOUR_BYTE_UINT x0 x1 x2 x3 = ((push_bit 24 (ucast x0) OR push_bit 16 (ucast x1)) OR push_bit 8 (ucast x2)) OR ucast x3"

definition serialGet_x :: "u8 list \<Rightarrow> u64 option" where
  "serialGet_x buf = do {
     a0 \<leftarrow> rd buf 0; a1 \<leftarrow> rd buf 1; a2 \<leftarrow> rd buf 2; a3 \<leftarrow> rd buf 3;
     b0 \<leftarrow> rd buf 4; b1 \<leftarrow> rd buf 5; b2 \<leftarrow> rd buf 6; b3 \<leftarrow> rd buf 7;
     Some (push_bit 32 (ucast (FOUR_BYTE_UINT a0 a1 a2 a3)) + ucast (FOUR_BYTE_UINT b0 b1 b2 b3)) }"

definition serialGet :: "u8 list \<Rightarrow> u32 \<Rightarrow> vmem \<Rightarrow> vmem option" where
  "serialGet buf serial_type pMem = do {
     x \<leftarrow> serialGet_x buf;
     if serial_type = 6 then Some (pMem\<lparr>vm_u := x, vm_flags := MEM_Int\<rparr>)
     else Some (pMem\<lparr>vm_u := x, vm_flags := if IsNaN x then MEM_Null else MEM_Real\<rparr>) }"

definition serialGet7 :: "u8 list \<Rightarrow> vmem \<Rightarrow> (vmem \<times> nat) option" where
  "serialGet7 buf pMem = do {
     x \<leftarrow> serialGet_x buf;
     if IsNaN x then Some (pMem\<lparr>vm_u := x, vm_flags := MEM_Null\<rparr>, 1)
     else Some (pMem\<lparr>vm_u := x, vm_flags := MEM_Real\<rparr>, 0) }"

text \<open>A string or blob is not copied: \<open>vm_z\<close> is what the buffer holds at the place it points to.\<close>

definition sqlite3VdbeSerialGet :: "u8 list \<Rightarrow> u32 \<Rightarrow> vmem \<Rightarrow> vmem option" where
  "sqlite3VdbeSerialGet buf serial_type pMem =
     (let int_cell = (\<lambda>i. pMem\<lparr>vm_u := word_of_int i, vm_flags := MEM_Int\<rparr>) in
      if serial_type = 10 then Some (pMem\<lparr>vm_flags := MEM_Null OR MEM_Zero, vm_z := [], vm_nZero := 0\<rparr>)
      else if serial_type = 11 \<or> serial_type = 0 then Some (pMem\<lparr>vm_flags := MEM_Null\<rparr>)
      else if serial_type = 1 then do { x0 \<leftarrow> rd buf 0; Some (int_cell (ONE_BYTE_INT x0)) }
      else if serial_type = 2 then do { x0 \<leftarrow> rd buf 0; x1 \<leftarrow> rd buf 1; Some (int_cell (TWO_BYTE_INT x0 x1)) }
      else if serial_type = 3 then do {
        x0 \<leftarrow> rd buf 0; x1 \<leftarrow> rd buf 1; x2 \<leftarrow> rd buf 2;
        Some (int_cell (THREE_BYTE_INT x0 x1 x2)) }
      else if serial_type = 4 then do {
        x0 \<leftarrow> rd buf 0; x1 \<leftarrow> rd buf 1; x2 \<leftarrow> rd buf 2; x3 \<leftarrow> rd buf 3;
        Some (int_cell (FOUR_BYTE_INT x0 x1 x2 x3)) }
      else if serial_type = 5 then do {
        x0 \<leftarrow> rd buf 0; x1 \<leftarrow> rd buf 1; x2 \<leftarrow> rd buf 2; x3 \<leftarrow> rd buf 3; x4 \<leftarrow> rd buf 4; x5 \<leftarrow> rd buf 5;
        Some (int_cell (uint (FOUR_BYTE_UINT x2 x3 x4 x5) + push_bit 32 1 * TWO_BYTE_INT x0 x1)) }
      else if serial_type = 6 \<or> serial_type = 7 then serialGet buf serial_type pMem
      else if serial_type = 8 \<or> serial_type = 9 then Some (pMem\<lparr>vm_u := ucast (serial_type - 8), vm_flags := MEM_Int\<rparr>)
      else
        Some (pMem\<lparr>vm_z := take (unat ((serial_type - 12) div 2)) buf,
          vm_flags := if serial_type AND 1 = 0 then MEM_Blob OR MEM_Ephem else MEM_Str OR MEM_Ephem\<rparr>))"

subsection \<open>Reading a record\<close>

text \<open>The loop of \<open>sqlite3VdbeRecordUnpack\<close>; \<open>k\<close> more fields may follow the next one. It returns
  the fields and the final \<open>d\<close>.\<close>

definition new_cell :: vmem where
  "new_cell = \<lparr>vm_flags = 0, vm_u = 0, vm_nZero = 0, vm_z = []\<rparr>"

fun unpack_loop :: "nat \<Rightarrow> u8 list \<Rightarrow> u32 \<Rightarrow> u32 \<Rightarrow> u32 \<Rightarrow> u32 \<Rightarrow> (vmem list \<times> u32) option" where
  "unpack_loop k aKey nKey szHdr idx d =
     (if idx < szHdr \<and> d \<le> nKey then do {
        (n, serial_type) \<leftarrow> getVarint32 (drop (unat idx) aKey);
        m \<leftarrow> sqlite3VdbeSerialGet (drop (unat d) aKey) serial_type new_cell;
        let idx = idx + word_of_nat n;
        let d = d + sqlite3VdbeSerialTypeLen serial_type;
        case k of
          0 \<Rightarrow> Some ([m], d)
        | Suc k \<Rightarrow> do { (ms, d) \<leftarrow> unpack_loop k aKey nKey szHdr idx d; Some (m # ms, d) } }
      else Some ([], d))"

declare unpack_loop.simps [simp del]

definition sqlite3VdbeRecordUnpack :: "u32 \<Rightarrow> u8 list \<Rightarrow> nat \<Rightarrow> vmem list option" where
  "sqlite3VdbeRecordUnpack nKey aKey nField = do {
     (n, szHdr) \<leftarrow> getVarint32 aKey;
     (ms, d) \<leftarrow> unpack_loop (nField - 1) aKey nKey szHdr (word_of_nat n) szHdr;
     Some (if d > nKey \<and> ms \<noteq> [] then butlast ms @ [(last ms)\<lparr>vm_flags := MEM_Null\<rparr>] else ms) }"

subsection \<open>Making a record\<close>

text \<open>
  The first loop goes from the last field to the first and finds out the serial types and sizes. \<open>size_field\<close>
  is its body: it returns the register, which may have been converted or expanded, and its serial type.
  \<open>fmt4\<close> says whether the file format has the types 8 and 9, \<open>oom\<close> that expanding a blob fails.
\<close>

definition size_field ::
  "(u64 \<Rightarrow> u64) \<Rightarrow> bool \<Rightarrow> bool \<Rightarrow> vmem \<Rightarrow> nat \<Rightarrow> nat \<Rightarrow> nat \<Rightarrow> (vmem \<times> u32 \<times> nat \<times> nat \<times> nat) option" where
  "size_field to_double fmt4 oom pRec nData nHdr nZero =
     (if has pRec MEM_Null then
        Some (pRec, if has pRec MEM_Zero then 10 else 0, nData, nHdr + 1, nZero)
      else if has pRec (MEM_Int OR MEM_IntReal) then
        let i = vm_u pRec; uu = (if sint i < 0 then NOT i else i); nHdr = nHdr + 1 in
        if uu \<le> 127 then
          if i AND 1 = i \<and> fmt4 then Some (pRec, 8 + ucast uu, nData, nHdr, nZero)
          else Some (pRec, 1, nData + 1, nHdr, nZero)
        else if uu \<le> 32767 then Some (pRec, 2, nData + 2, nHdr, nZero)
        else if uu \<le> 8388607 then Some (pRec, 3, nData + 3, nHdr, nZero)
        else if uu \<le> 2147483647 then Some (pRec, 4, nData + 4, nHdr, nZero)
        else if uu \<le> 140737488355327 then Some (pRec, 5, nData + 6, nHdr, nZero)
        else if has pRec MEM_IntReal then
          Some (pRec\<lparr>vm_u := to_double i, vm_flags := (vm_flags pRec AND NOT MEM_IntReal) OR MEM_Real\<rparr>,
            7, nData + 8, nHdr, nZero)
        else Some (pRec, 6, nData + 8, nHdr, nZero)
      else if has pRec MEM_Real then Some (pRec, 7, nData + 8, nHdr + 1, nZero)
      else
        let len = length (vm_z pRec);
            serial_type = word_of_nat len * 2 + 12 + (if has pRec MEM_Str then 1 else 0) in
        if has pRec MEM_Zero then
          let serial_type = serial_type + word_of_nat (vm_nZero pRec) * 2 in
          if nData \<noteq> 0 then
            if oom then None
            else Some (pRec\<lparr>vm_z := vm_z pRec @ replicate (vm_nZero pRec) 0,
                   vm_flags := vm_flags pRec AND NOT (MEM_Zero OR MEM_Term)\<rparr>,
                 serial_type, nData + (len + vm_nZero pRec), nHdr + sqlite3VarintLen (ucast serial_type), nZero)
          else Some (pRec, serial_type, nData + len, nHdr + sqlite3VarintLen (ucast serial_type), nZero + vm_nZero pRec)
        else Some (pRec, serial_type, nData + len, nHdr + sqlite3VarintLen (ucast serial_type), nZero))"

fun size_fields ::
  "(u64 \<Rightarrow> u64) \<Rightarrow> bool \<Rightarrow> (nat \<Rightarrow> bool) \<Rightarrow> vmem list \<Rightarrow> ((vmem \<times> u32) list \<times> nat \<times> nat \<times> nat) option" where
  "size_fields to_double fmt4 oom [] = Some ([], 0, 0, 0)"
| "size_fields to_double fmt4 oom (pRec # rs) = do {
     (ts, nData, nHdr, nZero) \<leftarrow> size_fields to_double fmt4 oom rs;
     (pRec, t, nData, nHdr, nZero) \<leftarrow> size_field to_double fmt4 (oom (length rs)) pRec nData nHdr nZero;
     Some ((pRec, t) # ts, nData, nHdr, nZero) }"

definition header_size :: "nat \<Rightarrow> nat" where
  "header_size nHdr =
     (if nHdr \<le> 126 then nHdr + 1
      else
        let nVarint = sqlite3VarintLen (word_of_nat nHdr);
            nHdr = nHdr + nVarint
        in if nVarint < sqlite3VarintLen (word_of_nat nHdr) then nHdr + 1 else nHdr)"

text \<open>The second loop stores the header at \<open>zHdr\<close> and the values at \<open>zPayload\<close>; \<open>put_be\<close> is the
  \<open>switch\<close> that falls through from the last byte of an integer to its first.\<close>

fun put_be :: "u8 list \<Rightarrow> nat \<Rightarrow> nat \<Rightarrow> u64 \<Rightarrow> u8 list option" where
  "put_be buf zPayload 0 v = Some buf"
| "put_be buf zPayload (Suc k) v = do {
     buf \<leftarrow> wr buf (zPayload + k) (ucast (v AND 0xff));
     put_be buf zPayload k (drop_bit 8 v) }"

definition put_varint_at :: "u8 list \<Rightarrow> nat \<Rightarrow> u64 \<Rightarrow> (u8 list \<times> nat) option" where
  "put_varint_at buf zHdr v = do {
     (q, n) \<leftarrow> sqlite3PutVarint (drop zHdr buf) v;
     Some (take zHdr buf @ q, zHdr + n) }"

definition put_bytes_at :: "u8 list \<Rightarrow> nat \<Rightarrow> u8 list \<Rightarrow> (u8 list \<times> nat) option" where
  "put_bytes_at buf zPayload z = do {
     buf \<leftarrow> wrs buf zPayload z;
     Some (buf, zPayload + length z) }"

definition write_field :: "vmem \<times> u32 \<Rightarrow> u8 list \<times> nat \<times> nat \<Rightarrow> (u8 list \<times> nat \<times> nat) option" where
  "write_field f s =
     (case f of (pRec, serial_type) \<Rightarrow> case s of (buf, zHdr, zPayload) \<Rightarrow>
      if serial_type \<le> 7 then do {
        buf \<leftarrow> wr buf zHdr (ucast serial_type);
        if serial_type = 0 then Some (buf, zHdr + 1, zPayload)
        else do {
          let len = unat (sqlite3SmallTypeSizes ! unat serial_type);
          buf \<leftarrow> put_be buf zPayload len (vm_u pRec);
          Some (buf, zHdr + 1, zPayload + len) } }
      else if serial_type < 0x80 then do {
        buf \<leftarrow> wr buf zHdr (ucast serial_type);
        (buf, zPayload) \<leftarrow> (if serial_type \<ge> 14 \<and> vm_z pRec \<noteq> [] then put_bytes_at buf zPayload (vm_z pRec) else Some (buf, zPayload));
        Some (buf, zHdr + 1, zPayload) }
      else do {
        (buf, zHdr) \<leftarrow> put_varint_at buf zHdr (ucast serial_type);
        (buf, zPayload) \<leftarrow> (if vm_z pRec \<noteq> [] then put_bytes_at buf zPayload (vm_z pRec) else Some (buf, zPayload));
        Some (buf, zHdr, zPayload) })"

fun write_fields :: "(vmem \<times> u32) list \<Rightarrow> u8 list \<times> nat \<times> nat \<Rightarrow> (u8 list \<times> nat \<times> nat) option" where
  "write_fields [] s = Some s"
| "write_fields (f # fs) s = do { s \<leftarrow> write_field f s; write_fields fs s }"

text \<open>
  The opcode, behind the application of affinities: \<open>limit\<close> is the connection's length limit, \<open>zMalloc\<close> the
  buffer of the output register, \<open>fresh\<close> the result of enlarging it. \<open>None\<close> would be a write outside the buffer. The
  new record has the given bytes and \<open>nZero\<close> further zeros.
\<close>

datatype made = No_Mem | Too_Big | Record "u8 list" nat

definition OP_MakeRecord ::
  "(u64 \<Rightarrow> u64) \<Rightarrow> bool \<Rightarrow> (nat \<Rightarrow> bool) \<Rightarrow> int \<Rightarrow> u8 list \<Rightarrow> (nat \<Rightarrow> u8 list option) \<Rightarrow> vmem list \<Rightarrow> made option" where
  "OP_MakeRecord to_double fmt4 oom limit zMalloc fresh regs =
     (case size_fields to_double fmt4 oom regs of
        None \<Rightarrow> Some No_Mem
      | Some (ts, nData, nHdr, nZero) \<Rightarrow>
          let nHdr = header_size nHdr; nByte = nHdr + nData;
              write = (\<lambda>buf. do {
                (buf, zHdr) \<leftarrow> (if nHdr < 0x80 then do { buf \<leftarrow> wr buf 0 (word_of_nat nHdr); Some (buf, 1) }
                               else put_varint_at buf 0 (word_of_nat nHdr));
                (buf, zHdr, zPayload) \<leftarrow> write_fields ts (buf, zHdr, nHdr);
                Some (Record (take nByte buf) nZero) })
          in if nByte + nZero \<le> length zMalloc then write zMalloc
             else if int (nByte + nZero) > limit then Some Too_Big
             else case fresh nByte of
               None \<Rightarrow> Some No_Mem
             | Some buf \<Rightarrow> write buf)"

subsection \<open>Integers and their bytes\<close>

fun be_bytes :: "nat \<Rightarrow> u64 \<Rightarrow> u8 list" where
  "be_bytes 0 v = []"
| "be_bytes (Suc k) v = be_bytes k (drop_bit 8 v) @ [ucast (v AND 0xff)]"

lemma length_be_bytes [simp]: "length (be_bytes k v) = k"
  by (induction k arbitrary: v) simp_all

lemma byte_int: "j < 8 \<Longrightarrow> (ucast (drop_bit (8 * j) v AND 0xff) :: u8) = word_of_int (sint v div 2 ^ (8 * j))" for v :: u64
proof -
  assume j: "j < 8"
  have "drop_bit (8 * j) (sint v) = sint v div 2 ^ (8 * j)" by (simp add: drop_bit_eq_div)
  moreover have "(ucast (drop_bit (8 * j) v AND 0xff) :: u8) = word_of_int (drop_bit (8 * j) (sint v))"
  proof (rule bit_word_eqI)
    fix n assume n: "n < LENGTH(8)"
    have "bit (0xff :: u64) n" using n by (auto simp: bit_simps less_Suc_eq numeral_eq_Suc)
    then show "bit (ucast (drop_bit (8 * j) v AND 0xff) :: u8) n = bit (word_of_int (drop_bit (8 * j) (sint v)) :: u8) n"
      using n j by (cases "8 * j + n = 63") (auto simp: bit_simps min_def)
  qed
  ultimately show ?thesis by simp
qed

lemma byte_ints:
  "(ucast (v AND 0xff) :: u8) = word_of_int (sint v)"
  "(ucast (drop_bit 8 v AND 0xff) :: u8) = word_of_int (sint v div 256)"
  "(ucast (drop_bit 16 v AND 0xff) :: u8) = word_of_int (sint v div 65536)"
  "(ucast (drop_bit 24 v AND 0xff) :: u8) = word_of_int (sint v div 16777216)"
  "(ucast (drop_bit 32 v AND 0xff) :: u8) = word_of_int (sint v div 4294967296)"
  "(ucast (drop_bit 40 v AND 0xff) :: u8) = word_of_int (sint v div 1099511627776)" for v :: u64
  using byte_int [of 0 v] byte_int [of 1 v] byte_int [of 2 v] byte_int [of 3 v] byte_int [of 4 v] byte_int [of 5 v]
  by simp_all

lemma be_bytes_numerals:
  "be_bytes 1 v = [ucast (v AND 0xff)]"
  "be_bytes 2 v = [ucast (drop_bit 8 v AND 0xff), ucast (v AND 0xff)]"
  "be_bytes 3 v = [ucast (drop_bit 16 v AND 0xff), ucast (drop_bit 8 v AND 0xff), ucast (v AND 0xff)]"
  "be_bytes 4 v = [ucast (drop_bit 24 v AND 0xff), ucast (drop_bit 16 v AND 0xff), ucast (drop_bit 8 v AND 0xff), ucast (v AND 0xff)]"
  "be_bytes 6 v = [ucast (drop_bit 40 v AND 0xff), ucast (drop_bit 32 v AND 0xff), ucast (drop_bit 24 v AND 0xff),
     ucast (drop_bit 16 v AND 0xff), ucast (drop_bit 8 v AND 0xff), ucast (v AND 0xff)]"
  "be_bytes 8 v = [ucast (drop_bit 56 v AND 0xff), ucast (drop_bit 48 v AND 0xff), ucast (drop_bit 40 v AND 0xff),
     ucast (drop_bit 32 v AND 0xff), ucast (drop_bit 24 v AND 0xff),
     ucast (drop_bit 16 v AND 0xff), ucast (drop_bit 8 v AND 0xff), ucast (v AND 0xff)]"
  by (simp_all add: numeral_eq_Suc)

lemma be_bytes_ints:
  "be_bytes 1 v = [word_of_int (sint v)]"
  "be_bytes 2 v = [word_of_int (sint v div 256), word_of_int (sint v)]"
  "be_bytes 3 v = [word_of_int (sint v div 65536), word_of_int (sint v div 256), word_of_int (sint v)]"
  "be_bytes 4 v = [word_of_int (sint v div 16777216), word_of_int (sint v div 65536), word_of_int (sint v div 256),
     word_of_int (sint v)]"
  "be_bytes 6 v = [word_of_int (sint v div 1099511627776), word_of_int (sint v div 4294967296),
     word_of_int (sint v div 16777216), word_of_int (sint v div 65536), word_of_int (sint v div 256), word_of_int (sint v)]"
  unfolding be_bytes_numerals by (intro arg_cong2 [where f = Cons] byte_ints refl)+

lemma uint_byte: "uint (word_of_int q :: u8) = q mod 256"
  by (simp add: uint_word_of_int)

lemma sint_byte: "- 128 \<le> q \<Longrightarrow> q < 128 \<Longrightarrow> sint (word_of_int q :: u8) = q"
  by (simp add: signed_of_int signed_take_bit_int_eq_self)

lemma or_add: "0 \<le> b \<Longrightarrow> b < 2 ^ k \<Longrightarrow> or (2 ^ k * a) b = 2 ^ k * a + b" for a b :: int
proof -
  assume b: "0 \<le> b" "b < 2 ^ k"
  have "\<not> bit (push_bit k a) n \<or> \<not> bit b n" for n
  proof -
    have "take_bit k b = b" using b by (simp add: take_bit_int_eq_self)
    then have "bit b n \<Longrightarrow> n < k" by (metis bit_take_bit_iff)
    then show ?thesis by (auto simp: bit_simps)
  qed
  then have "push_bit k a + b = or (push_bit k a) b" by (rule disjunctive_add)
  then show ?thesis by (simp add: push_bit_eq_mult mult.commute)
qed

lemmas or_adds = or_add [of _ 8, simplified] or_add [of _ 16, simplified] or_add [of _ 24, simplified]

lemma div_parts:
  "65536 * (S div 65536) + 256 * (S div 256 mod 256) = 256 * (S div 256)"
  "16777216 * (S div 16777216) + 65536 * (S div 65536 mod 256) = 65536 * (S div 65536)" for S :: int
proof -
  have "S div 65536 = S div 256 div 256" "S div 16777216 = S div 65536 div 256"
    by (simp_all only: zdiv_zmult2_eq [symmetric]) simp_all
  then show "65536 * (S div 65536) + 256 * (S div 256 mod 256) = 256 * (S div 256)"
    "16777216 * (S div 16777216) + 65536 * (S div 65536 mod 256) = 65536 * (S div 65536)"
    using div_mult_mod_eq [of "S div 256" 256] div_mult_mod_eq [of "S div 65536" 256] by linarith+
qed

lemma two_bytes:
  assumes "- 32768 \<le> S" "S < 32768"
  shows "TWO_BYTE_INT (word_of_int (S div 256)) (word_of_int S) = S"
  using assms sint_byte [of "S div 256"] by (simp add: TWO_BYTE_INT_def uint_byte or_adds)

lemma three_bytes:
  assumes "- 8388608 \<le> S" "S < 8388608"
  shows "THREE_BYTE_INT (word_of_int (S div 65536)) (word_of_int (S div 256)) (word_of_int S) = S"
proof -
  have "65536 * (S div 65536) + 256 * (S div 256 mod 256) = 256 * (S div 256)" by (rule div_parts)
  then show ?thesis
    using assms sint_byte [of "S div 65536"] or_adds(2) [of "256 * (S div 256 mod 256)" "S div 65536"]
    by (simp add: THREE_BYTE_INT_def uint_byte push_bit_eq_mult mult.commute or_adds(1))
qed

lemma four_bytes:
  assumes "- 2147483648 \<le> S" "S < 2147483648"
  shows "FOUR_BYTE_INT (word_of_int (S div 16777216)) (word_of_int (S div 65536)) (word_of_int (S div 256)) (word_of_int S) = S"
proof -
  have "sint (word_of_int (S div 16777216) :: u8) = S div 16777216"
    using assms zdiv_mono1 [of "-2147483648" S 16777216] zdiv_mono1 [of S 2147483647 16777216] by (intro sint_byte) simp_all
  moreover have "16777216 * (S div 16777216) + 65536 * (S div 65536 mod 256) = 65536 * (S div 65536)"
    "65536 * (S div 65536) + 256 * (S div 256 mod 256) = 256 * (S div 256)" by (rule div_parts)+
  ultimately show ?thesis
    using or_adds(3) [of "65536 * (S div 65536 mod 256)" "S div 16777216"]
      or_adds(2) [of "256 * (S div 256 mod 256)" "S div 65536"]
    by (simp add: FOUR_BYTE_INT_def uint_byte push_bit_eq_mult mult.commute or_adds(1))
qed

lemma four_unsigned:
  "FOUR_BYTE_UINT (ucast (drop_bit 24 v AND 0xff)) (ucast (drop_bit 16 v AND 0xff)) (ucast (drop_bit 8 v AND 0xff)) (ucast (v AND 0xff))
    = ucast v" for v :: u64
  unfolding FOUR_BYTE_UINT_def by (rule u32_eqI) (simp add: bit_simps)

lemma eight_bytes: "push_bit 32 (ucast (ucast (drop_bit 32 v) :: u32)) + ucast (ucast v :: u32) = v" for v :: u64
proof -
  have "push_bit 32 (ucast (ucast (drop_bit 32 v) :: u32) :: u64) + ucast (ucast v :: u32)
      = push_bit 32 (ucast (ucast (drop_bit 32 v) :: u32)) OR ucast (ucast v :: u32)"
    by (rule disjunctive_add) (auto simp: bit_simps)
  also have "\<dots> = v" by (rule u64_eqI) (simp add: bit_simps)
  finally show ?thesis .
qed

lemma serialGet_x_be: "serialGet_x (be_bytes 8 v @ rest) = Some v"
proof -
  have "FOUR_BYTE_UINT (ucast (drop_bit 56 v AND 0xff)) (ucast (drop_bit 48 v AND 0xff)) (ucast (drop_bit 40 v AND 0xff))
      (ucast (drop_bit 32 v AND 0xff)) = ucast (drop_bit 32 v)"
    using four_unsigned [of "drop_bit 32 v"] by simp
  then show ?thesis using four_unsigned [of v] eight_bytes [of v]
    by (simp add: serialGet_x_def be_bytes_numerals)
qed

lemma uint_by_sint: "uint i = (if sint i < 0 then sint i + 2 ^ 64 else sint i)" for i :: u64
proof -
  have b: "- (2 ^ 63) \<le> sint i" "sint i < 2 ^ 63" using sint_ge [of i] sint_lt [of i] by simp_all
  have "uint i = sint i mod 2 ^ 64" by (simp add: uint_sint take_bit_eq_mod)
  moreover have "sint i mod 2 ^ 64 = (sint i + 2 ^ 64) mod 2 ^ 64" by (rule mod_add_self2 [symmetric])
  ultimately show ?thesis using b by (auto simp del: mod_add_self2 simp: mod_pos_pos_trivial)
qed

lemma uint_complement: "uint (NOT i) = 2 ^ 64 - 1 - uint i" for i :: u64
proof -
  have "uint (NOT i) = (NOT (uint i)) mod 2 ^ 64" by (simp add: word_not_def uint_word_of_int)
  also have "\<dots> = (- uint i - 1 + 2 ^ 64) mod 2 ^ 64" by (simp only: not_eq_complement mod_add_self2)
  also have "\<dots> = 2 ^ 64 - 1 - uint i"
  proof -
    have "0 \<le> uint i" by simp
    moreover have "uint i < 2 ^ 64" using uint_bounded [of i] by simp
    ultimately show ?thesis by (subst mod_pos_pos_trivial) linarith+
  qed
  finally show ?thesis .
qed

lemma abs_range:
  assumes "(if sint i < 0 then NOT i else i) \<le> (w :: u64)" "uint w < 2 ^ 63"
  shows "- uint w - 1 \<le> sint i \<and> sint i \<le> uint w"
proof (cases "sint i < 0")
  case True
  then show ?thesis using assms uint_by_sint [of i] uint_complement [of i] by (simp add: word_le_def)
next
  case False
  then show ?thesis using assms uint_by_sint [of i] by (simp add: word_le_def)
qed

subsection \<open>What a register holds\<close>

datatype sqlval = VNull | VNoChange | VInt u64 | VReal u64 | VText "u8 list" | VBlob "u8 list"

text \<open>The value that a record keeps of a register. A NaN is kept as \<open>NULL\<close>, an integer that
  came from a real column and needs eight bytes as a double.\<close>

definition real_value :: "u64 \<Rightarrow> sqlval" where
  "real_value x = (if IsNaN x then VNull else VReal x)"

definition small_int :: "u64 \<Rightarrow> bool" where
  "small_int i \<longleftrightarrow> (if sint i < 0 then NOT i else i) \<le> 140737488355327"

definition zeros_of :: "vmem \<Rightarrow> u8 list" where
  "zeros_of m = (if has m MEM_Zero then replicate (vm_nZero m) 0 else [])"

definition value_of :: "(u64 \<Rightarrow> u64) \<Rightarrow> vmem \<Rightarrow> sqlval" where
  "value_of to_double m =
     (if has m MEM_Null then if has m MEM_Zero then VNoChange else VNull
      else if has m (MEM_Int OR MEM_IntReal) then
        if has m MEM_IntReal \<and> \<not> small_int (vm_u m) then real_value (to_double (vm_u m)) else VInt (vm_u m)
      else if has m MEM_Real then real_value (vm_u m)
      else if has m MEM_Str then VText (vm_z m @ zeros_of m)
      else VBlob (vm_z m @ zeros_of m))"

definition SQLITE_MAX_LENGTH :: nat where "SQLITE_MAX_LENGTH = 1000000000"

text \<open>A string or blob within the length limit.\<close>

definition fits :: "vmem \<Rightarrow> bool" where
  "fits m \<longleftrightarrow> length (vm_z m) + vm_nZero m \<le> SQLITE_MAX_LENGTH"

text \<open>The bytes that the second loop stores for a register of a serial type, and those that the record
  means, with the zeros.\<close>

definition payload :: "vmem \<times> u32 \<Rightarrow> u8 list" where
  "payload f = (case f of (m, t) \<Rightarrow>
     if t \<le> 7 then be_bytes (unat (sqlite3SmallTypeSizes ! unat t)) (vm_u m)
     else if t < 12 then [] else vm_z m)"

definition full_payload :: "vmem \<times> u32 \<Rightarrow> u8 list" where
  "full_payload f = payload f @ (if snd f < 12 then [] else zeros_of (fst f))"

definition header :: "vmem \<times> u32 \<Rightarrow> u8 list" where
  "header f = varint_bytes (ucast (snd f))"

subsection \<open>One field\<close>

lemma small_sizes: "unat t < 128 \<Longrightarrow> 12 \<le> unat t \<Longrightarrow> unat (sqlite3SmallTypeSizes ! unat t) = (unat t - 12) div 2" for t :: u32
proof -
  have "list_all (\<lambda>k. unat (sqlite3SmallTypeSizes ! k) = (k - 12) div 2) [12..<128]"
    by code_simp
  then have "\<forall>k\<in>set [12..<128]. unat (sqlite3SmallTypeSizes ! k) = (k - 12) div 2" by (simp only: list_all_iff)
  then show "unat t < 128 \<Longrightarrow> 12 \<le> unat t \<Longrightarrow> unat (sqlite3SmallTypeSizes ! unat t) = (unat t - 12) div 2"
    by (elim bspec) (simp only: set_upt atLeastLessThan_iff)
qed

lemma unat_ucast_u8_u32: "unat (ucast (b :: u8) :: u32) = unat b"
  by (simp add: unsigned_ucast_eq take_bit_nat_eq_self unat_u8 less_trans [OF unat_u8])

lemma TypeLen_large: "12 \<le> unat t \<Longrightarrow> unat (sqlite3VdbeSerialTypeLen t) = (unat t - 12) div 2" for t :: u32
  by (auto simp: sqlite3VdbeSerialTypeLen_def word_le_nat_alt unat_div unat_sub unat_ucast_u8_u32 small_sizes not_le)

text \<open>The serial type of a string or a blob of \<open>n\<close> bytes.\<close>

definition text_type :: "nat \<Rightarrow> bool \<Rightarrow> u32" where
  "text_type n s = word_of_nat (2 * n + 12 + of_bool s)"

lemma unat_nat32: "n < 4294967296 \<Longrightarrow> unat (word_of_nat n :: u32) = n"
  by (simp add: unsigned_of_nat take_bit_nat_eq_self)

lemma unat_text_type: "n \<le> SQLITE_MAX_LENGTH \<Longrightarrow> unat (text_type n s) = 2 * n + 12 + of_bool s"
  unfolding text_type_def by (rule unat_nat32) (simp add: SQLITE_MAX_LENGTH_def)

lemma get_text:
  assumes "n \<le> SQLITE_MAX_LENGTH" "n = length b"
  shows "sqlite3VdbeSerialGet (b @ rest) (text_type n s) new_cell =
      Some (new_cell\<lparr>vm_z := b, vm_flags := if s then MEM_Str OR MEM_Ephem else MEM_Blob OR MEM_Ephem\<rparr>)"
    "unat (sqlite3VdbeSerialTypeLen (text_type n s)) = n"
proof -
  note u = unat_text_type [OF assms(1), of s]
  have d: "(unat (text_type n s) - 12) div 2 = n" using u by (cases s) auto
  then show "unat (sqlite3VdbeSerialTypeLen (text_type n s)) = n" using TypeLen_large u by simp
  have k: "text_type n s \<noteq> k" if "unat k < 12" for k using that u by auto
  have o: "text_type n s AND 1 = 0 \<longleftrightarrow> \<not> s"
  proof -
    have "unat (text_type n s AND 1) = unat (text_type n s) mod 2" by (simp add: and_one_eq unat_mod)
    then have "text_type n s AND 1 = 0 \<longleftrightarrow> unat (text_type n s) mod 2 = 0" by (metis unat_eq_zero)
    then show ?thesis using u by (cases s) auto
  qed
  have "unat ((text_type n s - 12) div 2) = n" using d u by (simp add: unat_div unat_sub word_le_nat_alt)
  then show "sqlite3VdbeSerialGet (b @ rest) (text_type n s) new_cell =
      Some (new_cell\<lparr>vm_z := b, vm_flags := if s then MEM_Str OR MEM_Ephem else MEM_Blob OR MEM_Ephem\<rparr>)"
    unfolding sqlite3VdbeSerialGet_def using k o assms(2) by simp
qed

text \<open>Integers of every size.\<close>

lemma low_half: "uint (ucast v :: u32) = sint v mod 4294967296" for v :: u64
proof -
  have "uint (ucast v :: u32) = uint v mod 2 ^ 32" by (simp add: unsigned_ucast_eq take_bit_eq_mod)
  also have "uint v = sint v mod 2 ^ 64" by (simp add: uint_sint take_bit_eq_mod)
  finally show ?thesis by (simp add: mod_mod_cancel)
qed

lemma six_bytes:
  assumes "sint (v :: u64) \<in> {- 140737488355328..140737488355327}"
  shows "uint (FOUR_BYTE_UINT (word_of_int (sint v div 16777216)) (word_of_int (sint v div 65536)) (word_of_int (sint v div 256))
      (word_of_int (sint v)))
    + 4294967296 * TWO_BYTE_INT (word_of_int (sint v div 1099511627776)) (word_of_int (sint v div 4294967296)) = sint v"
proof -
  have "FOUR_BYTE_UINT (word_of_int (sint v div 16777216)) (word_of_int (sint v div 65536)) (word_of_int (sint v div 256))
      (word_of_int (sint v)) = ucast v"
    unfolding byte_ints(1-4) [of v, symmetric] by (rule four_unsigned)
  moreover have "sint v div 1099511627776 = sint v div 4294967296 div 256" by (simp add: zdiv_zmult2_eq [symmetric])
  moreover have "- 32768 \<le> sint v div 4294967296" "sint v div 4294967296 < 32768"
    using assms zdiv_mono1 [of "- 140737488355328" "sint v" 4294967296] zdiv_mono1 [of "sint v" 140737488355327 4294967296]
    by simp_all
  ultimately show ?thesis
    using two_bytes [of "sint v div 4294967296"] low_half [of v] by (simp only:) simp
qed

lemma get_int:
  "sint v \<in> {- 128..127} \<Longrightarrow> sqlite3VdbeSerialGet (be_bytes 1 v @ rest) 1 c = Some (c\<lparr>vm_u := v, vm_flags := MEM_Int\<rparr>)"
  "sint v \<in> {- 32768..32767} \<Longrightarrow> sqlite3VdbeSerialGet (be_bytes 2 v @ rest) 2 c = Some (c\<lparr>vm_u := v, vm_flags := MEM_Int\<rparr>)"
  "sint v \<in> {- 8388608..8388607} \<Longrightarrow> sqlite3VdbeSerialGet (be_bytes 3 v @ rest) 3 c = Some (c\<lparr>vm_u := v, vm_flags := MEM_Int\<rparr>)"
  "sint v \<in> {- 2147483648..2147483647} \<Longrightarrow> sqlite3VdbeSerialGet (be_bytes 4 v @ rest) 4 c = Some (c\<lparr>vm_u := v, vm_flags := MEM_Int\<rparr>)"
  "sint v \<in> {- 140737488355328..140737488355327} \<Longrightarrow>
     sqlite3VdbeSerialGet (be_bytes 6 v @ rest) 5 c = Some (c\<lparr>vm_u := v, vm_flags := MEM_Int\<rparr>)"
  "sqlite3VdbeSerialGet (be_bytes 8 v @ rest) 6 c = Some (c\<lparr>vm_u := v, vm_flags := MEM_Int\<rparr>)"
  "sqlite3VdbeSerialGet (be_bytes 8 v @ rest) 7 c = Some (c\<lparr>vm_u := v, vm_flags := if IsNaN v then MEM_Null else MEM_Real\<rparr>)"
  subgoal
    unfolding be_bytes_ints using sint_byte [of "sint v"]
    by (simp add: sqlite3VdbeSerialGet_def ONE_BYTE_INT_def)
  subgoal
    unfolding be_bytes_ints using two_bytes [of "sint v"] by (simp add: sqlite3VdbeSerialGet_def)
  subgoal
    unfolding be_bytes_ints using three_bytes [of "sint v"] by (simp add: sqlite3VdbeSerialGet_def)
  subgoal
    unfolding be_bytes_ints using four_bytes [of "sint v"] by (simp add: sqlite3VdbeSerialGet_def)
  subgoal
    unfolding be_bytes_ints using six_bytes [of v] by (simp add: sqlite3VdbeSerialGet_def push_bit_eq_mult)
  subgoal
    using serialGet_x_be by (simp add: sqlite3VdbeSerialGet_def serialGet_def)
  subgoal
    using serialGet_x_be by (simp add: sqlite3VdbeSerialGet_def serialGet_def)
  done

lemma header_length: "length (header (m, t)) = sqlite3VarintLen (ucast t)"
proof -
  have "unat (ucast t :: u64) = unat t" by (simp add: unsigned_ucast_eq take_bit_nat_eq_self unat_u32 less_trans [OF unat_u32])
  then show ?thesis using unat_u32 [of t] by (simp add: header_def length_varint_bytes sqlite3VarintLen_eq)
qed

lemma header_small: "t \<le> 127 \<Longrightarrow> header (m, t) = [ucast t]"
proof -
  assume t: "t \<le> 127"
  have "unat (ucast t :: u64) = unat t" by (simp add: unsigned_ucast_eq take_bit_nat_eq_self unat_u32 less_trans [OF unat_u32])
  then have "varint_bytes (ucast t) = [ucast ((ucast t :: u64) AND 0x7f)]"
    using t by (intro varint_bytes_1) (simp add: word_le_nat_alt)
  moreover have "(ucast ((ucast t :: u64) AND 0x7f) :: u8) = ucast t"
  proof -
    have "unat t < 128" using t by (simp add: word_le_nat_alt)
    moreover have "unat ((ucast t :: u64) AND 0x7f) = unat t mod 128"
    proof -
      have "(ucast t :: u64) AND 0x7f = take_bit 7 (ucast t)" by (simp add: take_bit_eq_mask mask_eq_exp_minus_1)
      then show ?thesis by (simp add: take_bit_eq_mod unat_mod unsigned_ucast_eq mod_mod_cancel)
    qed
    ultimately show ?thesis
      by (simp add: word_unat_eq_iff unsigned_ucast_eq take_bit_eq_mod)
  qed
  ultimately show ?thesis by (simp add: header_def)
qed

lemma small_size_values:
  "unat (sqlite3SmallTypeSizes ! 0) = 0" "unat (sqlite3SmallTypeSizes ! 1) = 1" "unat (sqlite3SmallTypeSizes ! 2) = 2"
  "unat (sqlite3SmallTypeSizes ! 3) = 3" "unat (sqlite3SmallTypeSizes ! 4) = 4" "unat (sqlite3SmallTypeSizes ! 5) = 6"
  "unat (sqlite3SmallTypeSizes ! 6) = 8" "unat (sqlite3SmallTypeSizes ! 7) = 8" "unat (sqlite3SmallTypeSizes ! 8) = 0"
  "unat (sqlite3SmallTypeSizes ! 9) = 0" "unat (sqlite3SmallTypeSizes ! 10) = 0"
  by (simp_all add: sqlite3SmallTypeSizes_def)

text \<open>What the sizes and the serial type of one field are good for.\<close>

definition field_ok :: "(u64 \<Rightarrow> u64) \<Rightarrow> vmem \<Rightarrow> nat \<Rightarrow> nat \<Rightarrow> nat \<Rightarrow> vmem \<times> u32 \<times> nat \<times> nat \<times> nat \<Rightarrow> bool" where
  "field_ok td m nData nHdr nZero r \<longleftrightarrow>
     (case r of (m', t, nData', nHdr', nZero') \<Rightarrow>
        nData' = nData + length (payload (m', t)) \<and> nHdr' = nHdr + length (header (m', t))
        \<and> (nData \<noteq> 0 \<longrightarrow> payload (m', t) = full_payload (m', t) \<and> nZero' = nZero)
        \<and> (nData = 0 \<longrightarrow> payload (m', t) @ replicate nZero' 0 = full_payload (m', t) @ replicate nZero 0)
        \<and> unat (sqlite3VdbeSerialTypeLen t) = length (full_payload (m', t))
        \<and> (\<forall>rest. \<exists>c. sqlite3VdbeSerialGet (full_payload (m', t) @ rest) t new_cell = Some c \<and> value_of td c = value_of td m))"

lemma field_small:
  assumes "t \<le> 10"
    and "\<And>rest. \<exists>c. sqlite3VdbeSerialGet (be_bytes (unat (sqlite3SmallTypeSizes ! unat t)) (vm_u m') @ rest) t new_cell = Some c
           \<and> value_of td c = value_of td m"
  shows "field_ok td m nData nHdr nZero (m', t, nData + unat (sqlite3SmallTypeSizes ! unat t), nHdr + 1, nZero)"
proof -
  have t: "t < 12" "\<not> 128 \<le> t" "t \<le> 127" using assms(1) by (auto simp: word_le_nat_alt word_less_nat_alt)
  have p: "payload (m', t) = be_bytes (unat (sqlite3SmallTypeSizes ! unat t)) (vm_u m')"
  proof (cases "t \<le> 7")
    case False
    then have "unat t \<in> {8, 9, 10}" using assms(1) by (auto simp: word_le_nat_alt)
    then show ?thesis using False t(1) small_size_values by (auto simp: payload_def)
  qed (simp add: payload_def)
  then show ?thesis using t assms(2)
    by (simp add: field_ok_def full_payload_def header_small sqlite3VdbeSerialTypeLen_def unat_ucast_u8_u32)
qed

lemma cell_values:
  "value_of td (new_cell\<lparr>vm_flags := MEM_Null\<rparr>) = VNull"
  "value_of td (c\<lparr>vm_u := v, vm_flags := MEM_Null\<rparr>) = VNull"
  "value_of td (c\<lparr>vm_flags := MEM_Null OR MEM_Zero, vm_z := z, vm_nZero := k\<rparr>) = VNoChange"
  "value_of td (c\<lparr>vm_u := v, vm_flags := MEM_Int\<rparr>) = VInt v"
  "value_of td (c\<lparr>vm_u := v, vm_flags := MEM_Real\<rparr>) = real_value v"
  "value_of td (c\<lparr>vm_z := z, vm_flags := MEM_Str OR MEM_Ephem\<rparr>) = VText z"
  "value_of td (c\<lparr>vm_z := z, vm_flags := MEM_Blob OR MEM_Ephem\<rparr>) = VBlob z"
  by (simp_all add: value_of_def has_def mem_flags zeros_of_def)

lemma int_value: "\<not> has m MEM_Null \<Longrightarrow> has m (MEM_Int OR MEM_IntReal) \<Longrightarrow> small_int (vm_u m) \<or> \<not> has m MEM_IntReal \<Longrightarrow>
    value_of td m = VInt (vm_u m)"
  by (auto simp: value_of_def)

lemma int_field:
  assumes "t \<le> 10" "value_of td m = VInt (vm_u m)" "k = unat (sqlite3SmallTypeSizes ! unat t)"
    and "\<And>rest. sqlite3VdbeSerialGet (be_bytes k (vm_u m) @ rest) t new_cell = Some (new_cell\<lparr>vm_u := vm_u m, vm_flags := MEM_Int\<rparr>)"
  shows "field_ok td m nData nHdr nZero (m, t, nData + k, nHdr + 1, nZero)"
  unfolding assms(3) using assms(1) by (rule field_small) (use assms(2-4) in \<open>simp add: cell_values\<close>)

lemma one_bit: "i AND 1 = i \<Longrightarrow> i = 0 \<or> i = 1" for i :: u64
  by (metis and_one_eq mod2_eq_if)

lemma text_bytes_type: "word_of_nat n * 2 + 12 + (if s then 1 else 0) = text_type n s"
  by (simp add: text_type_def mult.commute)

lemma text_bytes_type_zero: "word_of_nat n * 2 + 12 + (if s then 1 else 0) + word_of_nat k * 2 = text_type (n + k) s"
  by (simp add: text_type_def algebra_simps)

lemma text_payload:
  assumes "n \<le> SQLITE_MAX_LENGTH"
  shows "payload (m, text_type n s) = vm_z m"
    "full_payload (m, text_type n s) = vm_z m @ zeros_of m"
  using unat_text_type [OF assms, of s]
  by (simp_all add: payload_def full_payload_def word_le_nat_alt word_less_nat_alt)

lemma text_value:
  "\<not> has m MEM_Null \<Longrightarrow> \<not> has m (MEM_Int OR MEM_IntReal) \<Longrightarrow> \<not> has m MEM_Real \<Longrightarrow>
   value_of td m = (if has m MEM_Str then VText (vm_z m @ zeros_of m) else VBlob (vm_z m @ zeros_of m))"
  by (simp add: value_of_def)

lemma text_field:
  assumes "n \<le> SQLITE_MAX_LENGTH" "n = length (vm_z m' @ zeros_of m')"
    and "value_of td m = (if s then VText (vm_z m' @ zeros_of m') else VBlob (vm_z m' @ zeros_of m'))"
    and "nData \<noteq> 0 \<Longrightarrow> zeros_of m' = [] \<and> nZero' = nZero"
    and "nData = 0 \<Longrightarrow> replicate nZero' 0 = zeros_of m' @ replicate nZero 0"
  shows "field_ok td m nData nHdr nZero
    (m', text_type n s, nData + length (vm_z m'), nHdr + sqlite3VarintLen (ucast (text_type n s)), nZero')"
proof -
  have "\<exists>c. sqlite3VdbeSerialGet ((vm_z m' @ zeros_of m') @ rest) (text_type n s) new_cell = Some c \<and> value_of td c = value_of td m" for rest
    using get_text(1) [OF assms(1,2), of rest s] assms(3) by (cases s) (simp_all add: cell_values)
  then show ?thesis
    unfolding field_ok_def split_conv text_payload [OF assms(1)] get_text(2) [OF assms(1,2)] header_length
    using assms(2,4,5) by simp
qed

lemma size_field_ok:
  assumes "size_field td fmt4 oom m nData nHdr nZero = Some r" "fits m"
  shows "field_ok td m nData nHdr nZero r"
proof (cases "has m MEM_Null")
  case True
  have "value_of td m = (if has m MEM_Zero then VNoChange else VNull)" using True by (simp add: value_of_def)
  then have "field_ok td m nData nHdr nZero (m, if has m MEM_Zero then 10 else 0,
      nData + unat (sqlite3SmallTypeSizes ! unat (if has m MEM_Zero then 10 else 0 :: u32)), nHdr + 1, nZero)"
    by (intro field_small) (auto simp: small_size_values sqlite3VdbeSerialGet_def cell_values)
  then show ?thesis using assms(1) True by (auto simp: size_field_def small_size_values split: if_splits)
next
  case nn: False
  let ?i = "vm_u m"
  let ?uu = "if sint ?i < 0 then NOT ?i else ?i"
  note sz = small_size_values small_size_values(2) [unfolded One_nat_def]
  show ?thesis
  proof (cases "has m (MEM_Int OR MEM_IntReal)")
    case int: True
    have v: "small_int ?i \<Longrightarrow> value_of td m = VInt ?i" using int_value nn int by blast
    have small: "?uu \<le> w \<Longrightarrow> w \<le> 140737488355327 \<Longrightarrow> small_int ?i" for w
      unfolding small_int_def by (rule order_trans)
    note rg = abs_range [of ?i]
    consider (bit) "?uu \<le> 127" "?i AND 1 = ?i \<and> fmt4" | (b1) "?uu \<le> 127" "\<not> (?i AND 1 = ?i \<and> fmt4)"
      | (b2) "\<not> ?uu \<le> 127" "?uu \<le> 32767" | (b3) "\<not> ?uu \<le> 127" "\<not> ?uu \<le> 32767" "?uu \<le> 8388607"
      | (b4) "\<not> ?uu \<le> 127" "\<not> ?uu \<le> 32767" "\<not> ?uu \<le> 8388607" "?uu \<le> 2147483647"
      | (b6) "\<not> ?uu \<le> 127" "\<not> ?uu \<le> 32767" "\<not> ?uu \<le> 8388607" "\<not> ?uu \<le> 2147483647" "?uu \<le> 140737488355327"
      | (b8) "\<not> ?uu \<le> 127" "\<not> ?uu \<le> 32767" "\<not> ?uu \<le> 8388607" "\<not> ?uu \<le> 2147483647" "\<not> ?uu \<le> 140737488355327"
      by blast
    then show ?thesis
    proof cases
      case bit
      have r: "r = (m, 8 + ucast ?uu, nData, nHdr + 1, nZero)"
        using assms(1) nn int bit by (simp only: size_field_def Let_def if_False if_True simp_thms option.inject)
      consider "?i = 0" | "?i = 1" using one_bit bit(2) by blast
      then show ?thesis
      proof cases
        case 1
        then show ?thesis unfolding r using int_field [of 8 td m 0 nData nHdr nZero] v small [OF bit(1)]
          by (simp add: sz sqlite3VdbeSerialGet_def)
      next
        case 2
        then show ?thesis unfolding r using int_field [of 9 td m 0 nData nHdr nZero] v small [OF bit(1)]
          by (simp add: sz sqlite3VdbeSerialGet_def)
      qed
    next
      case b1
      have r: "r = (m, 1, nData + 1, nHdr + 1, nZero)"
        using assms(1) nn int b1 by (simp only: size_field_def Let_def if_False if_True simp_thms option.inject)
      show ?thesis unfolding r using v small [OF b1(1)] rg [OF b1(1)]
        by (intro int_field get_int(1)) (simp_all add: sz)
    next
      case b2
      have r: "r = (m, 2, nData + 2, nHdr + 1, nZero)"
        using assms(1) nn int b2 by (simp only: size_field_def Let_def if_False if_True simp_thms option.inject)
      show ?thesis unfolding r using v small [OF b2(2)] rg [OF b2(2)]
        by (intro int_field get_int(2)) (simp_all add: sz)
    next
      case b3
      have r: "r = (m, 3, nData + 3, nHdr + 1, nZero)"
        using assms(1) nn int b3 by (simp only: size_field_def Let_def if_False if_True simp_thms option.inject)
      show ?thesis unfolding r using v small [OF b3(3)] rg [OF b3(3)]
        by (intro int_field get_int(3)) (simp_all add: sz)
    next
      case b4
      have r: "r = (m, 4, nData + 4, nHdr + 1, nZero)"
        using assms(1) nn int b4 by (simp only: size_field_def Let_def if_False if_True simp_thms option.inject)
      show ?thesis unfolding r using v small [OF b4(4)] rg [OF b4(4)]
        by (intro int_field get_int(4)) (simp_all add: sz)
    next
      case b6
      have r: "r = (m, 5, nData + 6, nHdr + 1, nZero)"
        using assms(1) nn int b6 by (simp only: size_field_def Let_def if_False if_True simp_thms option.inject)
      show ?thesis unfolding r using v small [OF b6(5)] rg [OF b6(5)]
        by (intro int_field get_int(5)) (simp_all add: sz)
    next
      case b8
      show ?thesis
      proof (cases "has m MEM_IntReal")
        case True
        let ?m = "m\<lparr>vm_u := td ?i, vm_flags := (vm_flags m AND NOT MEM_IntReal) OR MEM_Real\<rparr>"
        have r: "r = (?m, 7, nData + 8, nHdr + 1, nZero)"
          using assms(1) nn int b8 True by (simp only: size_field_def Let_def if_False if_True simp_thms option.inject)
        have "value_of td m = real_value (td ?i)"
          using nn int True b8(5) by (simp only: value_of_def small_int_def if_False if_True simp_thms)
        then have "field_ok td m nData nHdr nZero (?m, 7, nData + unat (sqlite3SmallTypeSizes ! unat (7 :: u32)), nHdr + 1, nZero)"
          by (intro field_small) (auto simp: sz get_int cell_values real_value_def)
        then show ?thesis unfolding r by (simp add: sz)
      next
        case False
        have r: "r = (m, 6, nData + 8, nHdr + 1, nZero)"
          using assms(1) nn int b8 False by (simp only: size_field_def Let_def if_False if_True simp_thms option.inject)
        show ?thesis unfolding r using int_value [OF nn int, of td] False
          by (intro int_field get_int(6)) (simp_all add: sz)
      qed
    qed
  next
    case ni: False
    show ?thesis
    proof (cases "has m MEM_Real")
      case True
      have r: "r = (m, 7, nData + 8, nHdr + 1, nZero)" using assms(1) nn ni True by (simp add: size_field_def)
      have "value_of td m = real_value ?i" using nn ni True by (simp add: value_of_def)
      then have "field_ok td m nData nHdr nZero (m, 7, nData + unat (sqlite3SmallTypeSizes ! unat (7 :: u32)), nHdr + 1, nZero)"
        by (intro field_small) (auto simp: sz get_int cell_values real_value_def)
      then show ?thesis unfolding r by (simp add: sz)
    next
      case nr: False
      note vt = text_value [OF nn ni nr, of td]
      have f: "length (vm_z m) + vm_nZero m \<le> SQLITE_MAX_LENGTH" using assms(2) by (simp add: fits_def)
      show ?thesis
      proof (cases "has m MEM_Zero")
        case nz: False
        then have r: "r = (m, text_type (length (vm_z m)) (has m MEM_Str), nData + length (vm_z m),
            nHdr + sqlite3VarintLen (ucast (text_type (length (vm_z m)) (has m MEM_Str))), nZero)"
          using assms(1) nn ni nr by (simp add: size_field_def text_bytes_type Let_def)
        have "zeros_of m = []" using nz by (simp add: zeros_of_def)
        then show ?thesis unfolding r using f vt by (intro text_field) simp_all
      next
        case z: True
        let ?n = "length (vm_z m) + vm_nZero m"
        show ?thesis
        proof (cases "nData = 0")
          case True
          then have r: "r = (m, text_type ?n (has m MEM_Str), nData + length (vm_z m),
              nHdr + sqlite3VarintLen (ucast (text_type ?n (has m MEM_Str))), nZero + vm_nZero m)"
            using assms(1) nn ni nr z by (simp add: size_field_def text_bytes_type_zero Let_def)
          have "replicate (nZero + vm_nZero m) 0 = zeros_of m @ replicate nZero (0 :: u8)"
            using z by (subst add.commute) (simp add: zeros_of_def replicate_add)
          moreover have "?n = length (vm_z m @ zeros_of m)" using z by (simp add: zeros_of_def)
          ultimately show ?thesis unfolding r using f vt True by (intro text_field) simp_all
        next
          case False
          let ?m = "m\<lparr>vm_z := vm_z m @ replicate (vm_nZero m) 0, vm_flags := vm_flags m AND NOT (MEM_Zero OR MEM_Term)\<rparr>"
          have r: "r = (?m, text_type ?n (has m MEM_Str), nData + ?n,
              nHdr + sqlite3VarintLen (ucast (text_type ?n (has m MEM_Str))), nZero)"
            using assms(1) nn ni nr z False by (simp add: size_field_def text_bytes_type_zero Let_def split: if_splits)
          have "(vm_flags m AND NOT (MEM_Zero OR MEM_Term)) AND MEM_Zero = 0"
            by (rule bit_eqI) (auto simp: bit_simps)
          then have y: "zeros_of ?m = []" by (simp add: zeros_of_def has_def)
          have x: "vm_z ?m = vm_z m @ zeros_of m" using z by (simp add: zeros_of_def)
          have "field_ok td m nData nHdr nZero (?m, text_type ?n (has m MEM_Str), nData + length (vm_z ?m),
              nHdr + sqlite3VarintLen (ucast (text_type ?n (has m MEM_Str))), nZero)"
            using f False vt z by (intro text_field) (simp_all only: x y append_Nil2, simp_all add: zeros_of_def)
          then show ?thesis unfolding r by simp
        qed
      qed
    qed
  qed
qed

subsection \<open>All fields\<close>

definition headers :: "(vmem \<times> u32) list \<Rightarrow> u8 list" where
  "headers ts = concat (map header ts)"

definition payloads :: "(vmem \<times> u32) list \<Rightarrow> u8 list" where
  "payloads ts = concat (map payload ts)"

definition full_payloads :: "(vmem \<times> u32) list \<Rightarrow> u8 list" where
  "full_payloads ts = concat (map full_payload ts)"

text \<open>Reading one field gives back the value of the register it was made from.\<close>

definition readable :: "(u64 \<Rightarrow> u64) \<Rightarrow> vmem \<Rightarrow> vmem \<times> u32 \<Rightarrow> bool" where
  "readable td m f \<longleftrightarrow>
     unat (sqlite3VdbeSerialTypeLen (snd f)) = length (full_payload f)
     \<and> (\<forall>rest. \<exists>c. sqlite3VdbeSerialGet (full_payload f @ rest) (snd f) new_cell = Some c \<and> value_of td c = value_of td m)"

lemma size_fields_ok:
  assumes "size_fields td fmt4 oom regs = Some (ts, nData, nHdr, nZero)" "list_all fits regs"
  shows "nData = length (payloads ts) \<and> nHdr = length (headers ts) \<and> payloads ts @ replicate nZero 0 = full_payloads ts
    \<and> list_all2 (readable td) regs ts"
  using assms
proof (induction regs arbitrary: ts nData nHdr nZero)
  case (Cons m regs)
  obtain us d h z where u: "size_fields td fmt4 oom regs = Some (us, d, h, z)"
    using Cons.prems(1) by (auto split: bind_splits)
  then obtain m' t where r: "size_field td fmt4 (oom (length regs)) m d h z = Some (m', t, nData, nHdr, nZero)"
    and ts: "ts = (m', t) # us"
    using Cons.prems(1) by (auto split: bind_splits)
  have IH: "d = length (payloads us)" "h = length (headers us)" "payloads us @ replicate z 0 = full_payloads us"
    "list_all2 (readable td) regs us"
    using Cons.IH [OF u] Cons.prems(2) by auto
  have ok: "field_ok td m d h z (m', t, nData, nHdr, nZero)" using size_field_ok [OF r] Cons.prems(2) by simp
  have "payload (m', t) @ payloads us @ replicate nZero 0 = full_payload (m', t) @ full_payloads us"
  proof (cases "d = 0")
    case True
    then have "payloads us = []" "full_payloads us = replicate z 0" using IH(1,3) by auto
    then show ?thesis using ok True by (simp add: field_ok_def)
  next
    case False
    then show ?thesis using ok IH(3) by (simp add: field_ok_def)
  qed
  moreover have "readable td m (m', t)" using ok by (simp add: field_ok_def readable_def)
  ultimately show ?case using ok IH ts
    by (simp add: field_ok_def payloads_def headers_def full_payloads_def)
qed (simp add: payloads_def headers_def full_payloads_def)

subsection \<open>Writing\<close>

lemma wr_at: "length A = i \<Longrightarrow> wr (A @ b # C) i x = Some (A @ x # C)"
  by (auto simp: wr_def)

lemma wrs_at: "length A = i \<Longrightarrow> length B = length xs \<Longrightarrow> wrs (A @ B @ C) i xs = Some (A @ xs @ C)"
  by (simp add: wrs_eq)

lemma put_be_at: "length A = i \<Longrightarrow> length B = k \<Longrightarrow> put_be (A @ B @ C) i k v = Some (A @ be_bytes k v @ C)"
proof (induction k arbitrary: B C v)
  case (Suc k)
  obtain B' b where B: "B = B' @ [b]" using Suc.prems(2) by (cases B rule: rev_cases) auto
  have "wr (A @ B @ C) (i + k) (ucast (v AND 0xff)) = Some (A @ B' @ ucast (v AND 0xff) # C)"
    using wr_at [of "A @ B'" "i + k" b C] Suc.prems B by simp
  then show ?case using Suc.IH [of B' "ucast (v AND 0xff) # C" "drop_bit 8 v"] Suc.prems B by simp
qed simp

lemma put_varint_at:
  assumes "length A = i" "length B = length (varint_bytes v)"
  shows "put_varint_at (A @ B @ C) i v = Some (A @ varint_bytes v @ C, i + length (varint_bytes v))"
proof -
  have "sqlite3PutVarint (B @ C) v = Some (varint_bytes v @ C, length (varint_bytes v))"
    using sqlite3PutVarint_eq [of v "B @ C"] assms(2) by simp
  then show ?thesis using assms(1) by (simp add: put_varint_at_def)
qed

text \<open>One field goes into the free places of the header and of the payload.\<close>

lemma put_bytes_at: "length A = i \<Longrightarrow> length B = length z \<Longrightarrow> put_bytes_at (A @ B @ C) i z = Some (A @ z @ C, i + length z)"
  by (simp add: put_bytes_at_def wrs_at)

lemma write_field_at:
  assumes "length A = h" "length B = length (header f)" "length D = length (payload f)" "p = h + length B + length P"
    and short: "12 \<le> snd f \<Longrightarrow> snd f < 14 \<Longrightarrow> payload f = []"
  shows "write_field f (A @ B @ P @ D @ C, h, p)
    = Some (A @ header f @ P @ payload f @ C, h + length (header f), p + length (payload f))"
proof -
  obtain m t where f: "f = (m, t)" by (cases f)
  have one: "wr (A @ B @ P @ D @ C) h (ucast t) = Some (A @ header f @ P @ D @ C)" "length (header f) = 1" if "t < 0x80"
  proof -
    have "header f = [ucast t]" using header_small [of t m] that f by (simp add: word_le_nat_alt word_less_nat_alt)
    moreover from this obtain b where "B = [b]" using assms(2) by (cases B) auto
    ultimately show "wr (A @ B @ P @ D @ C) h (ucast t) = Some (A @ header f @ P @ D @ C)" "length (header f) = 1"
      using wr_at [OF assms(1)] by simp_all
  qed
  have body: "put_bytes_at (A @ header f @ P @ D @ C) p (vm_z m) = Some (A @ header f @ P @ payload f @ C, p + length (payload f))"
    if "payload f = vm_z m"
    using put_bytes_at [of "A @ header f @ P" p D "vm_z m" C] assms that by simp
  consider "t \<le> 7" | "\<not> t \<le> 7" "t < 12" | "12 \<le> t" "t < 14" | "14 \<le> t" "t < 0x80" | "0x80 \<le> t"
    by (metis linorder_not_less)
  then show ?thesis
  proof cases
    case 1
    then have s: "t < 0x80" by (simp add: word_le_nat_alt word_less_nat_alt)
    have b: "payload f = be_bytes (unat (sqlite3SmallTypeSizes ! unat t)) (vm_u m)" using 1 f by (simp add: payload_def)
    show ?thesis
    proof (cases "t = 0")
      case True
      then have "payload f = []" using b small_size_values(1) by simp
      then show ?thesis using 1 True one [OF s] assms(1-4) f by (simp add: write_field_def)
    next
      case False
      have "put_be (A @ header f @ P @ D @ C) p (unat (sqlite3SmallTypeSizes ! unat t)) (vm_u m)
          = Some (A @ header f @ P @ payload f @ C)"
        using put_be_at [of "A @ header f @ P" p D "unat (sqlite3SmallTypeSizes ! unat t)" C "vm_u m"] assms b by simp
      then show ?thesis using 1 False one [OF s] b f by (simp add: write_field_def Let_def)
    qed
  next
    case 2
    then have "t < 0x80" "\<not> 14 \<le> t" "payload f = []" using f by (auto simp: payload_def word_le_nat_alt word_less_nat_alt)
    then show ?thesis using 2 one assms(1-4) f by (simp add: write_field_def)
  next
    case 3
    then have "t < 0x80" "\<not> 14 \<le> t" "\<not> t \<le> 7" by (auto simp: word_le_nat_alt word_less_nat_alt)
    moreover have "payload f = []" using short 3 f by simp
    ultimately show ?thesis using one assms(1-4) f by (simp add: write_field_def)
  next
    case 4
    then have "\<not> t \<le> 7" "payload f = vm_z m" using f by (auto simp: payload_def word_le_nat_alt word_less_nat_alt)
    then show ?thesis using 4 one body assms(3) f by (auto simp: write_field_def)
  next
    case 5
    then have t: "\<not> t \<le> 7" "\<not> t < 0x80" "payload f = vm_z m" using f by (auto simp: payload_def word_le_nat_alt word_less_nat_alt)
    have "put_varint_at (A @ B @ P @ D @ C) h (ucast t) = Some (A @ header f @ P @ D @ C, h + length (header f))"
      using put_varint_at [OF assms(1), of B "ucast t" "P @ D @ C"] assms(2) f by (simp add: header_def)
    then show ?thesis using t body assms(3) f by (auto simp: write_field_def)
  qed
qed

lemma write_fields_at:
  assumes "length A = h" "length B = length (headers ts)" "length D = length (payloads ts)" "p = h + length B + length P"
    and "list_all2 (readable td) regs ts"
  shows "write_fields ts (A @ B @ P @ D @ C, h, p)
    = Some (A @ headers ts @ P @ payloads ts @ C, h + length (headers ts), p + length (payloads ts))"
  using assms
proof (induction ts arbitrary: A B P D h p regs)
  case (Cons f ts)
  let ?B = "take (length (header f)) B" and ?B' = "drop (length (header f)) B"
  let ?D = "take (length (payload f)) D" and ?D' = "drop (length (payload f)) D"
  obtain m ms where r: "readable td m f" "list_all2 (readable td) ms ts"
    using Cons.prems(5) by (auto simp: list_all2_Cons2)
  have short: "payload f = []" if "12 \<le> snd f" "snd f < 14"
  proof -
    have "unat (snd f) = 12 \<or> unat (snd f) = 13" using that by (auto simp: word_le_nat_alt word_less_nat_alt)
    then have "length (full_payload f) = 0" using r(1) TypeLen_large [of "snd f"] by (auto simp: readable_def)
    then show ?thesis by (simp add: full_payload_def)
  qed
  have l: "length ?B = length (header f)" "length ?B' = length (headers ts)" "length ?D = length (payload f)"
    "length ?D' = length (payloads ts)"
    using Cons.prems(2,3) by (simp_all add: headers_def payloads_def)
  have "write_field f (A @ ?B @ (?B' @ P) @ ?D @ (?D' @ C), h, p)
      = Some (A @ header f @ (?B' @ P) @ payload f @ (?D' @ C), h + length (header f), p + length (payload f))"
    using Cons.prems(1,4) l short by (intro write_field_at) (simp_all add: Cons.prems(2) headers_def)
  then have "write_field f (A @ B @ P @ D @ C, h, p)
      = Some ((A @ header f) @ ?B' @ (P @ payload f) @ ?D' @ C, h + length (header f), p + length (payload f))"
    by (metis append.assoc append_take_drop_id)
  moreover have "write_fields ts ((A @ header f) @ ?B' @ (P @ payload f) @ ?D' @ C, h + length (header f), p + length (payload f))
      = Some ((A @ header f) @ headers ts @ (P @ payload f) @ payloads ts @ C, h + length (header f) + length (headers ts),
          p + length (payload f) + length (payloads ts))"
    using Cons.prems(1,2,4) l r(2) by (intro Cons.IH) (simp_all add: headers_def)
  ultimately show ?case by (simp add: headers_def payloads_def)
qed (simp add: headers_def payloads_def)

subsection \<open>Reading back\<close>

lemma get_header: "getVarint32 (header f @ xs) = Some (length (header f), snd f)"
proof -
  have "sqlite3GetVarint (header f @ xs) = Some (length (header f), ucast (snd f))"
    unfolding header_def by (rule varint.dec_enc) simp
  then show ?thesis using getVarint32_eq u64_of_u32 [of "snd f"] by simp
qed

lemma unat_plus: "unat a + n < 4294967296 \<Longrightarrow> unat (a + word_of_nat n) = unat a + n" for a :: u32
  using unat_nat32 [of n] by (subst unat_add_lem [THEN iffD1]) simp_all

lemma drop_front: "drop i R = A @ B \<Longrightarrow> drop (i + length A) R = B"
  by (metis add.commute append_eq_conv_conj drop_drop)

lemma unpack_loop_at:
  assumes "list_all2 (readable td) ms ts" "drop (unat idx) R = headers ts @ X" "drop (unat d) R = full_payloads ts @ Y"
    and "unat szHdr = unat idx + length (headers ts)" "unat d + length (full_payloads ts) \<le> unat nKey"
    and "unat szHdr < 2147483648" "unat nKey < 2147483648"
  shows "\<exists>cs d'. unpack_loop k R nKey szHdr idx d = Some (cs, d') \<and> d' \<le> nKey
    \<and> map (value_of td) cs = take (Suc k) (map (value_of td) ms)"
  using assms
proof (induction ts arbitrary: ms idx d k rule: list.induct)
  case Nil
  then have "\<not> idx < szHdr" "d \<le> nKey" by (simp_all add: headers_def word_less_nat_alt word_le_nat_alt)
  moreover have "ms = []" using Nil by simp
  ultimately show ?case by (simp add: unpack_loop.simps)
next
  case (Cons f ts)
  obtain m us where ms: "ms = m # us" and r: "readable td m f" "list_all2 (readable td) us ts"
    using Cons.prems(1) by (auto simp: list_all2_Cons2)
  have h: "headers (f # ts) = header f @ headers ts" "full_payloads (f # ts) = full_payload f @ full_payloads ts"
    by (simp_all add: headers_def full_payloads_def)
  have pos: "0 < length (header f)" by (simp add: header_def varint_bytes_nonempty)
  have c: "idx < szHdr" "d \<le> nKey"
    using Cons.prems(4,5) h pos by (simp_all add: word_less_nat_alt word_le_nat_alt)
  have g: "getVarint32 (drop (unat idx) R) = Some (length (header f), snd f)"
    using get_header [of f] Cons.prems(2) h by simp
  obtain cell where cell: "sqlite3VdbeSerialGet (drop (unat d) R) (snd f) new_cell = Some cell" "value_of td cell = value_of td m"
    using r(1) Cons.prems(3) h by (auto simp: readable_def)
  let ?idx = "idx + word_of_nat (length (header f))" and ?d = "d + sqlite3VdbeSerialTypeLen (snd f)"
  have i: "unat ?idx = unat idx + length (header f)"
    using Cons.prems(4,6) h by (intro unat_plus) simp
  have tl: "sqlite3VdbeSerialTypeLen (snd f) = word_of_nat (length (full_payload f))"
  proof -
    have "word_of_nat (unat (sqlite3VdbeSerialTypeLen (snd f))) = sqlite3VdbeSerialTypeLen (snd f)" by simp
    then show ?thesis using r(1) by (simp only: readable_def)
  qed
  have d: "unat ?d = unat d + length (full_payload f)"
    unfolding tl using Cons.prems(5,7) h by (intro unat_plus) simp
  have le: "?d \<le> nKey" using d Cons.prems(5) h by (simp add: word_le_nat_alt)
  have step: "unpack_loop k R nKey szHdr idx d = (case k of 0 \<Rightarrow> Some ([cell], ?d)
      | Suc k \<Rightarrow> do { (ms, d) \<leftarrow> unpack_loop k R nKey szHdr ?idx ?d; Some (cell # ms, d) })"
    using c g cell(1) by (subst unpack_loop.simps) (simp add: Let_def)
  show ?case
  proof (cases k)
    case 0
    then show ?thesis using step cell(2) ms le by simp
  next
    case (Suc k')
    have "drop (unat ?idx) R = headers ts @ X" "drop (unat ?d) R = full_payloads ts @ Y"
      unfolding i d using Cons.prems(2,3) h by (simp_all add: drop_front)
    then obtain cs d' where "unpack_loop k' R nKey szHdr ?idx ?d = Some (cs, d')" "d' \<le> nKey"
      "map (value_of td) cs = take (Suc k') (map (value_of td) us)"
      using Cons.IH [OF r(2), of ?idx ?d k'] i d Cons.prems(4-7) h by auto
    then show ?thesis using step Suc cell(2) ms by simp
  qed
qed

subsection \<open>The size of the header\<close>

lemma VarintLen_le: "n < 2 ^ 62 \<Longrightarrow> sqlite3VarintLen (word_of_nat n) \<le> Suc k \<longleftrightarrow> n < 2 ^ (7 * Suc k)"
proof -
  assume "n < 2 ^ 62"
  then have "unat (word_of_nat n :: u64) = n" by (simp add: unsigned_of_nat take_bit_nat_eq_self)
  then show ?thesis using length_putVarint64_buf_le [of "word_of_nat n" k] by (simp only: sqlite3VarintLen_eq)
qed

lemma header_size_ok:
  assumes "header_size n < 2147483648"
  shows "header_size n = n + length (varint_bytes (word_of_nat (header_size n)))"
proof -
  let ?L = "\<lambda>n. sqlite3VarintLen (word_of_nat n :: u64)"
  have n: "n < 2147483648" using assms by (auto simp: header_size_def Let_def split: if_splits)
  have len: "length (varint_bytes (word_of_nat k)) = ?L k" if "k < 2147483648" for k
  proof -
    have "unat (word_of_nat k :: u64) = k" using that by (simp add: unsigned_of_nat take_bit_nat_eq_self)
    then show ?thesis using that by (simp add: length_varint_bytes sqlite3VarintLen_eq)
  qed
  have pos: "1 \<le> ?L k" for k by (simp add: sqlite3VarintLen_eq Suc_leI)
  have "header_size n = n + ?L (header_size n)"
  proof (cases "n \<le> 126")
    case True
    have "?L (n + 1) \<le> Suc 0" using True by (subst VarintLen_le) simp_all
    then have l: "?L (n + 1) = 1" using pos [of "n + 1"] by (metis One_nat_def le_antisym)
    have h: "header_size n = n + 1" using True by (simp add: header_size_def)
    show ?thesis unfolding h l by (rule refl)
  next
    case False
    obtain v where v: "?L n = Suc v" using pos [of n] by (cases "?L n") auto
    have v5: "?L n \<le> Suc 4" using n by (subst VarintLen_le) simp_all
    have up: "n < 2 ^ (7 * Suc v)" using VarintLen_le [of n v] v n by simp
    let ?h = "n + Suc v"
    have hs: "header_size n = (if Suc v < ?L ?h then ?h + 1 else ?h)" using False by (simp only: header_size_def Let_def v if_False)
    have small: "?h + 1 < 2 ^ 62" using n v v5 by simp
    show ?thesis
    proof (cases "Suc v < ?L ?h")
      case True
      have "\<not> ?h < 2 ^ (7 * Suc v)" using VarintLen_le [of ?h v] True small by simp
      then have "\<not> ?L (?h + 1) \<le> Suc v" using VarintLen_le [of "?h + 1" v] small by simp
      moreover have "?h + 1 < 2 ^ (7 * Suc (Suc v))" using up v v5 by (simp add: power_add)
      then have "?L (?h + 1) \<le> Suc (Suc v)" using VarintLen_le [of "?h + 1" "Suc v"] small by simp
      ultimately have "?L (?h + 1) = Suc (Suc v)" by simp
      then show ?thesis using hs True by simp
    next
      case False
      have "?L ?h \<ge> Suc v"
      proof (cases v)
        case (Suc w)
        have "\<not> n < 2 ^ (7 * Suc w)" using VarintLen_le [of n w] v Suc n by simp
        then have "\<not> ?L ?h \<le> Suc w" using VarintLen_le [of ?h w] small by simp
        then show ?thesis using Suc by simp
      next
        case 0
        then show ?thesis using pos [of ?h] by (simp only: One_nat_def)
      qed
      then have l: "?L ?h = Suc v" using False by (intro le_antisym) (simp_all only: not_less)
      have h: "header_size n = ?h" using hs False by (simp only: if_False)
      show ?thesis unfolding h l by (rule refl)
    qed
  qed
  then show ?thesis using len [OF assms] by simp
qed

subsection \<open>Records\<close>

text \<open>The writing part of the opcode fills the buffer with the record.\<close>

lemma write_record:
  assumes "size_fields td fmt4 oom regs = Some (ts, nData, nHdr, nZero)" "list_all fits regs"
    and "header_size nHdr + nData \<le> length buf" "header_size nHdr < 2147483648"
  defines "V \<equiv> varint_bytes (word_of_nat (header_size nHdr))"
  shows "\<exists>b h p. (if header_size nHdr < 0x80 then do { buf \<leftarrow> wr buf 0 (word_of_nat (header_size nHdr)); Some (buf, 1) }
       else put_varint_at buf 0 (word_of_nat (header_size nHdr))) = Some (b, h)
     \<and> (\<exists>q. write_fields ts (b, h, header_size nHdr) = Some (q, p)
          \<and> take (header_size nHdr + nData) q = V @ headers ts @ payloads ts)"
proof -
  let ?H = "header_size nHdr"
  have ok: "nData = length (payloads ts)" "nHdr = length (headers ts)" "list_all2 (readable td) regs ts"
    using size_fields_ok [OF assms(1,2)] by auto
  have H: "?H = nHdr + length V" unfolding V_def by (rule header_size_ok [OF assms(4)])
  define B where "B = take (length V) buf"
  define B' where "B' = take nHdr (drop (length V) buf)"
  define D where "D = take nData (drop ?H buf)"
  define C where "C = drop (?H + nData) buf"
  have buf: "buf = B @ B' @ D @ C"
  proof -
    have "drop ?H buf = D @ C" unfolding D_def C_def by (metis add.commute append_take_drop_id drop_drop)
    moreover have "drop (length V) buf = B' @ drop ?H buf"
      unfolding B'_def H by (metis add.commute append_take_drop_id drop_drop)
    ultimately show ?thesis unfolding B_def by (metis append_take_drop_id)
  qed
  have l: "length B = length V" "length B' = length (headers ts)" "length D = length (payloads ts)"
    using assms(3) H ok by (simp_all add: B_def B'_def D_def)
  have "(if ?H < 0x80 then do { buf \<leftarrow> wr buf 0 (word_of_nat ?H); Some (buf, 1) }
       else put_varint_at buf 0 (word_of_nat ?H)) = Some (V @ B' @ D @ C, length V)"
  proof (cases "?H < 0x80")
    case True
    have "unat (word_of_nat ?H :: u32) = ?H" using True by (intro unat_nat32) simp
    then have "header (new_cell, word_of_nat ?H) = [ucast (word_of_nat ?H :: u32)]"
      using True by (intro header_small) (simp add: word_le_nat_alt)
    moreover have "(ucast (word_of_nat ?H :: u32) :: u64) = word_of_nat ?H" "(ucast (word_of_nat ?H :: u32) :: u8) = word_of_nat ?H"
      using True by (simp_all add: word_unat_eq_iff unsigned_ucast_eq unsigned_of_nat take_bit_eq_mod)
    ultimately have v: "V = [word_of_nat ?H]" by (simp add: header_def V_def)
    then obtain b where "B = [b]" using l(1) by (cases B) auto
    then show ?thesis using True v buf by (simp add: wr_def)
  next
    case False
    then show ?thesis using put_varint_at [of "[]" 0 B "word_of_nat ?H" "B' @ D @ C"] l(1) buf by (simp add: V_def)
  qed
  moreover have "write_fields ts (V @ B' @ [] @ D @ C, length V, ?H)
      = Some (V @ headers ts @ [] @ payloads ts @ C, length V + length (headers ts), ?H + length (payloads ts))"
    using l(2,3) H ok by (intro write_fields_at) simp_all
  moreover have "take (?H + nData) (V @ headers ts @ payloads ts @ C) = V @ headers ts @ payloads ts"
    using H ok by simp
  ultimately show ?thesis by auto
qed

lemma unpack_record:
  assumes "list_all2 (readable td) regs ts" "length V + length (headers ts) = h" "V = varint_bytes (word_of_nat h)"
    and "length R < 2147483648" "R = V @ headers ts @ full_payloads ts" "0 < nField"
  shows "\<exists>cs. sqlite3VdbeRecordUnpack (word_of_nat (length R)) R nField = Some cs \<and> map (value_of td) cs = take nField (map (value_of td) regs)"
proof -
  have h: "h \<le> length R" using assms(2,5) by auto
  have u: "unat (word_of_nat h :: u32) = h" "unat (word_of_nat (length V) :: u32) = length V"
    "unat (word_of_nat (length R) :: u32) = length R"
    using h assms(2,4) by (auto intro: unat_nat32)
  have "(ucast (word_of_nat h :: u32) :: u64) = word_of_nat h"
    using h assms(4) by (simp add: word_unat_eq_iff unsigned_ucast_eq unsigned_of_nat take_bit_eq_mod)
  then have "V = header (new_cell, word_of_nat h)" using assms(3) by (simp add: header_def)
  then have g: "getVarint32 R = Some (length V, word_of_nat h)" using get_header [of "(new_cell, word_of_nat h)"] assms(5) by simp
  have dr: "drop (length V) R = headers ts @ full_payloads ts" "drop h R = full_payloads ts @ []"
    using assms(5) drop_front [of 0 R "V @ headers ts" "full_payloads ts"] assms(2) by simp_all
  have le: "h + length (full_payloads ts) \<le> length R" using assms(2,5) by simp
  have "\<exists>cs d'. unpack_loop (nField - 1) R (word_of_nat (length R)) (word_of_nat h) (word_of_nat (length V)) (word_of_nat h)
      = Some (cs, d') \<and> d' \<le> word_of_nat (length R) \<and> map (value_of td) cs = take (Suc (nField - 1)) (map (value_of td) regs)"
    by (rule unpack_loop_at [OF assms(1)]) (unfold u, rule dr, rule dr, use assms(2,4) h le in simp_all)
  then obtain cs d' where c: "unpack_loop (nField - 1) R (word_of_nat (length R)) (word_of_nat h) (word_of_nat (length V)) (word_of_nat h)
      = Some (cs, d')" "d' \<le> word_of_nat (length R)" "map (value_of td) cs = take (Suc (nField - 1)) (map (value_of td) regs)"
    by blast
  then have "\<not> d' > word_of_nat (length R)" by (simp add: not_less)
  then show ?thesis using g assms(6) c by (simp add: sqlite3VdbeRecordUnpack_def)
qed

lemma size_fields_None: "size_fields td fmt4 oom regs = None \<Longrightarrow> \<exists>i. oom i"
proof (induction regs)
  case (Cons m regs)
  have n: "size_field td fmt4 o' m a b c = None \<Longrightarrow> o'" for o' a b c
    by (auto simp: size_field_def Let_def split: if_splits)
  show ?case
  proof (cases "size_fields td fmt4 oom regs")
    case None
    then show ?thesis by (rule Cons.IH)
  next
    case (Some r)
    then obtain ts a b c where "size_fields td fmt4 oom regs = Some (ts, a, b, c)" by (cases r) auto
    then have "size_field td fmt4 (oom (length regs)) m a b c = None" using Cons.prems by (auto split: bind_splits)
    then show ?thesis using n by blast
  qed
qed simp

text \<open>
  C36. Making a record of any registers with any allocation outcome never writes outside the buffer,
  fails for lack of memory only if an allocation failed, and reading the record it
  makes (with the zeros that follow it) gives back the values of the registers, in order and as
  many as the reader asks for: integers of every size, doubles bit for bit, strings and blobs,
  with blobs of zeros at the end or expanded in the middle.
\<close>

theorem make_record_roundtrip:
  assumes "list_all fits regs" and "limit < 2147483648" and "length zMalloc < 2147483648"
    and "\<And>n b. fresh n = Some b \<Longrightarrow> n \<le> length b" and "0 < nField"
  shows "case OP_MakeRecord td fmt4 oom limit zMalloc fresh regs of
      None \<Rightarrow> False
    | Some No_Mem \<Rightarrow> (\<exists>i. oom i) \<or> (\<exists>n. fresh n = None)
    | Some Too_Big \<Rightarrow> True
    | Some (Record z nZero) \<Rightarrow>
        \<exists>cs. sqlite3VdbeRecordUnpack (word_of_nat (length z + nZero)) (z @ replicate nZero 0) nField = Some cs
          \<and> map (value_of td) cs = take nField (map (value_of td) regs)"
proof (cases "size_fields td fmt4 oom regs")
  case None
  then show ?thesis using size_fields_None by (simp add: OP_MakeRecord_def)
next
  case (Some a)
  obtain ts nData nHdr nZero where s: "size_fields td fmt4 oom regs = Some (ts, nData, nHdr, nZero)"
    using Some by (cases a) auto
  let ?H = "header_size nHdr"
  note ok = size_fields_ok [OF s assms(1)]
  let ?V = "varint_bytes (word_of_nat ?H) :: u8 list"
  have rec: "\<exists>cs. sqlite3VdbeRecordUnpack (word_of_nat (?H + nData + nZero)) ((?V @ headers ts @ payloads ts) @ replicate nZero 0) nField = Some cs
      \<and> map (value_of td) cs = take nField (map (value_of td) regs)"
    if "?H + nData + nZero < 2147483648"
  proof -
    have "?H = nHdr + length ?V" using that by (intro header_size_ok) simp
    moreover have "length (full_payloads ts) = nData + nZero"
      by (metis ok length_append length_replicate)
    ultimately have n: "?H = nHdr + length ?V" "?H + nData + nZero = length (?V @ headers ts @ full_payloads ts)"
      using ok by simp_all
    have r: "(?V @ headers ts @ payloads ts) @ replicate nZero 0 = ?V @ headers ts @ full_payloads ts" using ok by simp
    show ?thesis unfolding r n(2)
      by (rule unpack_record [of td regs ts ?V ?H]) (use ok that n assms(5) in simp_all)
  qed
  let ?W = "\<lambda>buf. do {
      (buf, zHdr) \<leftarrow> (if ?H < 0x80 then do { buf \<leftarrow> wr buf 0 (word_of_nat ?H); Some (buf, 1) }
                     else put_varint_at buf 0 (word_of_nat ?H));
      (buf, zHdr, zPayload) \<leftarrow> write_fields ts (buf, zHdr, ?H);
      Some (Record (take (?H + nData) buf) nZero) }"
  have wrote: "?W buf = Some (Record (?V @ headers ts @ payloads ts) nZero)"
    if l: "?H + nData \<le> length buf" "?H + nData + nZero < 2147483648" for buf
  proof -
    obtain b h p q where w: "(if ?H < 0x80 then do { buf \<leftarrow> wr buf 0 (word_of_nat ?H); Some (buf, 1) }
       else put_varint_at buf 0 (word_of_nat ?H)) = Some (b, h)" "write_fields ts (b, h, ?H) = Some (q, p)"
       "take (?H + nData) q = ?V @ headers ts @ payloads ts"
      using write_record [OF s assms(1) l(1)] l(2) by auto
    show ?thesis unfolding w(1) using w(2,3) by (cases p) simp
  qed
  have len: "length (?V @ headers ts @ payloads ts) = ?H + nData" if "?H + nData + nZero < 2147483648"
  proof -
    have "?H = nHdr + length ?V" using that by (intro header_size_ok) simp
    then show ?thesis using ok by simp
  qed
  have made: "OP_MakeRecord td fmt4 oom limit zMalloc fresh regs =
      (if ?H + nData + nZero \<le> length zMalloc then ?W zMalloc
       else if int (?H + nData + nZero) > limit then Some Too_Big
       else case fresh (?H + nData) of None \<Rightarrow> Some No_Mem | Some buf \<Rightarrow> ?W buf)"
    by (simp only: OP_MakeRecord_def s option.case split_conv Let_def)
  have good: "case Some (Record (?V @ headers ts @ payloads ts) nZero) of
      None \<Rightarrow> False
    | Some No_Mem \<Rightarrow> (\<exists>i. oom i) \<or> (\<exists>n. fresh n = None)
    | Some Too_Big \<Rightarrow> True
    | Some (Record z nZero) \<Rightarrow>
        \<exists>cs. sqlite3VdbeRecordUnpack (word_of_nat (length z + nZero)) (z @ replicate nZero 0) nField = Some cs
          \<and> map (value_of td) cs = take nField (map (value_of td) regs)"
    if "?H + nData + nZero < 2147483648"
    unfolding option.case made.case len [OF that] by (rule rec [OF that])
  consider (fit) "?H + nData + nZero \<le> length zMalloc"
    | (big) "\<not> ?H + nData + nZero \<le> length zMalloc" "int (?H + nData + nZero) > limit"
    | (nomem) "\<not> ?H + nData + nZero \<le> length zMalloc" "\<not> int (?H + nData + nZero) > limit" "fresh (?H + nData) = None"
    | (new) b where "\<not> ?H + nData + nZero \<le> length zMalloc" "\<not> int (?H + nData + nZero) > limit" "fresh (?H + nData) = Some b"
    by (cases "fresh (?H + nData)") auto
  then show ?thesis
  proof cases
    case fit
    then have l: "?H + nData \<le> length zMalloc" "?H + nData + nZero < 2147483648" using assms(3) by simp_all
    have "OP_MakeRecord td fmt4 oom limit zMalloc fresh regs = ?W zMalloc" using made fit by (simp only: if_True)
    then show ?thesis unfolding wrote [OF l] using good [OF l(2)] by (simp only:)
  next
    case big
    then have "OP_MakeRecord td fmt4 oom limit zMalloc fresh regs = Some Too_Big" using made by (simp only: if_True if_False)
    then show ?thesis by simp
  next
    case nomem
    then have "OP_MakeRecord td fmt4 oom limit zMalloc fresh regs = Some No_Mem" using made by (simp only: if_True if_False option.case)
    then show ?thesis using nomem(3) by auto
  next
    case (new b)
    then have l: "?H + nData \<le> length b" "?H + nData + nZero < 2147483648" using assms(2,4) by auto
    have "OP_MakeRecord td fmt4 oom limit zMalloc fresh regs = ?W b" using made new by (simp only: if_False option.case)
    then show ?thesis unfolding wrote [OF l] using good [OF l(2)] by (simp only:)
  qed
qed

text \<open>The registers \<open>300\<close>, \<open>'hi'\<close>, \<open>NULL\<close> and a blob of one byte and two zeros.\<close>

definition example_regs :: "vmem list" where
  "example_regs = [
     \<lparr>vm_flags = 4, vm_u = 300, vm_nZero = 0, vm_z = []\<rparr>, \<lparr>vm_flags = 2, vm_u = 0, vm_nZero = 0, vm_z = [104, 105]\<rparr>,
     \<lparr>vm_flags = 1, vm_u = 0, vm_nZero = 0, vm_z = []\<rparr>, \<lparr>vm_flags = 0x410, vm_u = 0, vm_nZero = 2, vm_z = [7]\<rparr>]"

theorem make_record_roundtrip_witness:
  "\<exists>cs. sqlite3VdbeRecordUnpack 12 [5, 2, 17, 0, 18, 1, 44, 104, 105, 7, 0, 0] 4 = Some cs
     \<and> map (value_of (\<lambda>i. i)) cs = [VInt 300, VText [104, 105], VNull, VBlob [7, 0, 0]]"
proof -
  have made: "OP_MakeRecord (\<lambda>i. i) True (\<lambda>_. False) 1000 [] (\<lambda>n. Some (replicate n 0)) example_regs
      = Some (Record [5, 2, 17, 0, 18, 1, 44, 104, 105, 7] 2)" by code_simp
  have "list_all fits example_regs" by (simp add: example_regs_def fits_def SQLITE_MAX_LENGTH_def)
  from make_record_roundtrip [OF this, where limit = 1000 and zMalloc = "[]" and fresh = "\<lambda>n. Some (replicate n 0)"
      and nField = 4 and td = "\<lambda>i. i" and ?fmt4.0 = True and oom = "\<lambda>_. False"]
  have "\<exists>cs. sqlite3VdbeRecordUnpack (word_of_nat 12) [5, 2, 17, 0, 18, 1, 44, 104, 105, 7, 0, 0] 4 = Some cs
      \<and> map (value_of (\<lambda>i. i)) cs = take 4 (map (value_of (\<lambda>i. i)) example_regs)"
    unfolding made by (simp add: numeral_2_eq_2)
  moreover have "map (value_of (\<lambda>i. i)) example_regs = [VInt 300, VText [104, 105], VNull, VBlob [7, 0, 0]]"
    by code_simp
  ultimately show ?thesis by simp
qed

end
