(* ===== verification/Spec2Isabelle.thy ===== *)
theory Spec2Isabelle
  imports Wal_Log Util_Varint Util_Arith Util_Text Utf Hash Bitvec Rowset Pcache Memdb Tokenize Run_Parser Complete Like Vdbe_Record
begin

text \<open>
  SQLite as cmpath embeds it: a verification library.

  \<^bold>\<open>The program.\<close> cmpath keeps the memory of software agents in a database. Its Python and Go
  sides call SQLite 3.53.4, whose amalgamation is compiled in from
  \<open>src/native/internal/sqlite/sqlite3.c\<close> (with \<open>SQLITE_ENABLE_FTS5\<close> and \<open>SQLITE_THREADSAFE=1\<close>, by GCC for
  64-bit platforms). That file is the C program of the repository, and this library models the
  parts of it on which the rest stands. A statement is cut into tokens (\<open>tokenize.c\<close>, with the
  keyword table) and fed to a parser; the program it compiles to runs on registers whose
  values are text in one of three encodings (\<open>utf.c\<close>), numbers (\<open>util.c\<close>) and blobs, is stored as records
  (\<open>vdbe.c\<close>, \<open>vdbeaux.c\<close>) of variable-length integers, and lives on pages that the page cache
  (\<open>pcache.c\<close>) hands out, that bit vectors (\<open>bitvec.c\<close>) count and that a virtual file system
  (\<open>memdb.c\<close> for the one in memory) stores. Pages that a transaction changed go to the write-ahead
  log (\<open>wal.c\<close>), whose index tells readers where to find them. Row sets (\<open>rowset.c\<close>) and hash tables (\<open>hash.c\<close>) serve
  queries and the schema.

  \<^bold>\<open>Conventions.\<close> C integers are words of their width where wrap-around or bits matter; \<open>i64\<close> values that
  the code checks for overflow are integers in range. A buffer is a list of bytes and a pointer into
  it the rest of the list or an index; a zero-terminated string is the list of its bytes, whose
  terminator reads as 0. A read or write outside a buffer, which C leaves undefined, is \<open>None\<close>, so
  that a theorem that gives \<open>Some\<close> also states memory safety. What an allocator answers is an argument
  (a list of outcomes, or a function), so that theorems hold for every failure of memory.

  \<^bold>\<open>Theories.\<close>
  \<^item> \<open>Prelude\<close>: words, buffers (\<open>rd\<close>, \<open>wr\<close>, \<open>wrs\<close>), bit-level lemmas, and two interfaces. The locale
    \<open>byte_codec\<close> is a self-delimiting encoding (a decoder undoes the encoder whatever follows; sequences decode
    uniquely); \<open>lookup_table\<close> is a finite map with stores and lookups (the last store wins).
  \<^item> \<open>Merge_Sort\<close>: the bottom-up merge sort with an array of buckets, in the locale \<open>list_merge\<close> that abstracts from the
    merge routine and from what it keeps (a set or a multiset) and the ordering it preserves.
  \<^item> \<open>Ctype\<close> (\<open>global.c\<close>): the case-folding and class tables, with the predicates they stand for.
  \<^item> \<open>Util_Varint\<close> (\<open>util.c\<close>): \<open>sqlite3PutVarint\<close>, \<open>sqlite3GetVarint\<close>, \<open>sqlite3GetVarint32\<close>, \<open>sqlite3VarintLen\<close>, the four-byte
    accessors. The unrolled reader equals the decoder of the format comment and inverts the writer;
    the 32-bit reader saturates. A varint has at most nine bytes. Interpretations of \<open>byte_codec\<close>: \<open>varint\<close>, \<open>be32\<close>.
  \<^item> \<open>Util_Arith\<close> (\<open>util.c\<close>): \<open>sqlite3AddInt64\<close> and its siblings in the builtin and the portable version, which
    agree on when they overflow; \<open>sqlite3Multiply128\<close>; \<open>sqlite3LogEst\<close> against real logarithms.
  \<^item> \<open>Util_Text\<close> (\<open>util.c\<close>): \<open>sqlite3StrICmp\<close>, \<open>sqlite3_strnicmp\<close>, \<open>sqlite3Dequote\<close>, \<open>sqlite3Atoi64\<close>, \<open>sqlite3GetInt32\<close>,
    \<open>sqlite3GetUInt32\<close>, \<open>sqlite3Int64ToText\<close>, \<open>sqlite3HexToBlob\<close>: each against a reference reading of the text.
  \<^item> \<open>Utf\<close> (\<open>utf.c\<close>): one character in UTF-8 and UTF-16, the translation of a value between the encodings with
    its buffer bound, byte-order marks. Interpretations of \<open>byte_codec\<close>: \<open>utf16le\<close>, \<open>utf16be\<close>.
  \<^item> \<open>Hash\<close> (\<open>hash.c\<close>): the table with its element list and buckets; an invariant that every insertion, deletion
    and rehash keeps, and the refinement of a finite map (interpretation \<open>hash_table\<close> of \<open>lookup_table\<close>).
  \<^item> \<open>Bitvec\<close> (\<open>bitvec.c\<close>): bitmap, hash and array of sub-vectors; an invariant, and the refinement of a set. The
    fuel of a descent is 10: each level divides the size by at least 62 and sizes are below \<open>2^32\<close>. The fuel of a probe is
    the number of slots, one of which is always free.
  \<^item> \<open>Rowset\<close> (\<open>rowset.c\<close>): batches of rowids as lists, trees and a forest; draining is sorted and without duplicates, a
    test answers for the batches before it (interpretation \<open>rs\<close> of \<open>list_merge\<close>).
  \<^item> \<open>Pcache\<close> (\<open>pcache.c\<close>): the dirty list pointer by pointer, reference counts and page states. An invariant
    of every operation; the sorted dirty list (interpretation \<open>pc\<close> of \<open>list_merge\<close>); the page spilled is
    unreferenced; cleaning and truncating end. A loop over the dirty list takes the number of dirty pages as fuel.
  \<^item> \<open>Memdb\<close> (\<open>memdb.c\<close>): stores, handles, locks and the registry. Locks exclude each other in every reachable state; a
    read returns what was written; the registry never dangles.
  \<^item> \<open>Parse_Codes\<close>, \<open>Keywords\<close>, \<open>Tokenize\<close>, \<open>Run_Parser\<close> (\<open>parse.h\<close>, \<open>keywordhash.h\<close>, \<open>tokenize.c\<close>): token codes; the keyword
    table, equal to a list of the 147 keywords (a collision chain has fuel 148); every case of \<open>sqlite3GetToken\<close>, whose tokens
    make up the text without loss; and the loop that drives the parser. The generated parser is a parameter of
    that loop, which for every parser ends within three rounds more than the text has bytes and feeds the codes and
    spellings computed from the list of tokens: \<open>WINDOW\<close>, \<open>OVER\<close> and \<open>FILTER\<close> are keywords by what stands around them.
  \<^item> \<open>Complete\<close> (\<open>complete.c\<close>): \<open>sqlite3_complete\<close>, equal to a description of texts as statements.
  \<^item> \<open>Like\<close> (\<open>func.c\<close>): \<open>patternCompare\<close> with its searches, equal to a relation between pattern items and text; the SQL
    functions \<open>like\<close> and \<open>glob\<close>. Its third verdict, no match at any later start, is part of the refinement.
  \<^item> \<open>Vdbe_Record\<close> (\<open>vdbe.c\<close>, \<open>vdbeaux.c\<close>): serial types, \<open>OP_MakeRecord\<close> and \<open>sqlite3VdbeRecordUnpack\<close>, each other's inverse. The
    conversion of an \<open>i64\<close> to a double, hardware arithmetic, is a parameter.
  \<^item> \<open>Wal_Codec\<close> (\<open>wal.c\<close>): the structures of the write-ahead log, its checksum in three loops against one reference,
    frame headers encoded and decoded, and the index header with its two copies.
  \<^item> \<open>Wal_Index\<close> (\<open>wal.c\<close>): the page numbers and hash tables of the wal-index with its writers (\<open>walIndexAppend\<close>, the index
    part of \<open>walFrames\<close>), \<open>sqlite3WalUndo\<close>, savepoints, \<open>walRestartHdr\<close> and the search of a reader. In every state that steps of
    writers, failures and crashes lead to, the index stands for the committed frames and those of the open
    transaction; a search equals a linear one. A probe has as fuel the number of slots, or of
    entries, that the code's \<open>nCollide\<close> counts down. A log has at most \<open>2^32 - 34\<close> frames, so that no frame number wraps.
    Allocator, \<open>xShmMap\<close> and fault simulation are the argument \<open>wi_env\<close>.
  \<^item> \<open>Wal_Log\<close> (\<open>wal.c\<close>): \<open>walIndexRecover\<close> on a log file, a list of bytes. The index it builds is that of the valid frames
    up to the last commit. What a VFS call that succeeds does is the hypothesis \<open>os_ok\<close>, that \<open>xShmMap\<close> gives a
    pointer with a success the hypothesis \<open>env_ok\<close>; locks and allocations may fail.

  \<^bold>\<open>What the lemmas show.\<close> Codecs have round trips and equivalence with a reference decoder; containers have an
  invariant of their representation and refine a set or a map; state machines have inductive step relations,
  with invariants of all reachable states; the lexers have termination, bounds and losslessness.
  Each property with hypotheses is applied to a concrete input by the theorem that follows it.

  \<^bold>\<open>Not modelled.\<close> The full-text module, which stands behind the virtual-table interface. The LALR(1) tables and
  semantic actions, which are generated. Name resolution, the planner and the code generators, and the byte-code loop:
  their contract is the semantics of SQL. Cursors and balancing of the B-tree, the pager's journals
  and the operating system layer: their contract is about files and crashes. Floating-point conversions, formatted
  output and dates. Extensions that the build flags leave out. The Go engine and the Python application.

  \<^bold>\<open>Next.\<close> Cells and free space of B-tree pages, the comparison of records, and of the log the writes of
  \<open>walFrames\<close> to the file, checkpoints and the protocol of read locks.
\<close>

end
